(* ===== verification/Kernel_Prelude.thy ===== *)
theory Kernel_Prelude
  imports Main "HOL-Library.Word"
begin

unbundle bit_operations_syntax

text \<open>
  Shared vocabulary of the development: the names of the machine integers, the conventions on
  pointers and sentinels, the bit lemmas every bitmap and every flag word needs, and the contract of
  the frame allocator, which is the interface between the physical memory manager and everything
  that asks it for pages.

  Conventions.
  \<^item> \<open>u8\<close>, \<open>u16\<close>, \<open>u32\<close>, \<open>u64\<close> are machine words. The kernel is built with the release profile, so
    arithmetic on them wraps around, as it does on words. An \<open>i32\<close> is a 32-bit word read by \<open>sint\<close>.
  \<^item> A \<open>usize\<close> that counts or indexes is a natural number below \<open>2 ^ 64\<close>; where an addition or a
    subtraction of the source can leave that range, the reduction is written out.
  \<^item> \<open>!0usize\<close>, which the allocators return for "nothing left", is \<open>usize_max\<close>.
\<close>

section \<open>Machine integers\<close>

type_synonym u8 = "8 word"
type_synonym u16 = "16 word"
type_synonym u32 = "32 word"
type_synonym u64 = "64 word"
type_synonym i32 = "32 word"
type_synonym usize = nat

definition usize_mod :: nat where
  "usize_mod = 2 ^ 64"

definition usize_max :: usize where
  "usize_max = 2 ^ 64 - 1"

lemma usize_mod_gt_0 [simp]: "0 < usize_mod"
  by (simp add: usize_mod_def)

lemma usize_max_Suc: "Suc usize_max = usize_mod"
  by (simp add: usize_max_def usize_mod_def)

text \<open>Addition and subtraction of \<open>usize\<close>, which wrap around.\<close>

definition wadd :: "usize \<Rightarrow> usize \<Rightarrow> usize" where
  "wadd a b = (a + b) mod usize_mod"

definition wsub :: "usize \<Rightarrow> usize \<Rightarrow> usize" where
  "wsub a b = (a + usize_mod - b mod usize_mod) mod usize_mod"

lemma wadd_small: "a + b < usize_mod \<Longrightarrow> wadd a b = a + b"
  by (simp add: wadd_def)

lemma wsub_small: "b \<le> a \<Longrightarrow> a < usize_mod \<Longrightarrow> wsub a b = a - b"
proof -
  assume "b \<le> a" "a < usize_mod"
  then have "a + usize_mod - b mod usize_mod = (a - b) + usize_mod" by simp
  with \<open>a < usize_mod\<close> show ?thesis by (simp only: wsub_def mod_add_self2) simp
qed

lemma wadd_bound [simp]: "wadd a b < usize_mod"
  by (simp add: wadd_def)

lemma unat_bound: "unat (w :: 'a::len word) < 2 ^ LENGTH('a)"
  by (rule unsigned_less)

lemma unat_of_nat_small: "n < 2 ^ LENGTH('a) \<Longrightarrow> unat (of_nat n :: 'a::len word) = n"
  by (simp add: unsigned_of_nat take_bit_nat_eq_self)

lemma unat_ucast_up:
  "LENGTH('a::len) \<le> LENGTH('b::len) \<Longrightarrow> unat (ucast (w :: 'a word) :: 'b word) = unat w"
proof -
  assume "LENGTH('a) \<le> LENGTH('b)"
  then have "unat w < 2 ^ LENGTH('b)"
    using unat_bound [of w] by (meson less_le_trans one_le_numeral power_increasing)
  then show ?thesis using unat_of_nat_small [of "unat w", where 'a = 'b] by simp
qed

lemma unat_ucast_mod: "unat (ucast (w :: 'a::len word) :: 'b::len word) = unat w mod 2 ^ LENGTH('b)"
  using unsigned_of_nat [of "unat w", where 'b = 'b and 'a = nat] by (simp add: take_bit_eq_mod)

lemma unat_plus_numeral:
  assumes "unat (w :: 'a::len word) + numeral n < 2 ^ LENGTH('a)"
  shows "unat (w + numeral n) = unat w + numeral n"
proof -
  have "(of_nat (unat w + numeral n) :: 'a word) = w + numeral n" by simp
  with unat_of_nat_small [OF assms] show ?thesis by simp
qed

lemma unat_plus_one: "unat (w :: 'a::len word) + 1 < 2 ^ LENGTH('a) \<Longrightarrow> unat (w + 1) = unat w + 1"
  using unat_of_nat_small [of "unat w + 1", where 'a = 'a] by (simp add: add.commute)

section \<open>Automation\<close>

named_theorems flag_bits \<open>bitwise facts about set, clear and test of one bit\<close>

section \<open>Setting, clearing and testing one bit\<close>

lemma bit_set_one [flag_bits]:
  fixes w :: "'a::len word"
  shows "bit (w OR push_bit k 1) j \<longleftrightarrow> bit w j \<or> (j = k \<and> k < LENGTH('a))"
  by (auto simp: bit_or_iff bit_push_bit_iff bit_1_iff simp del: push_bit_of_1)

lemma bit_clear_one [flag_bits]:
  fixes w :: "'a::len word"
  shows "bit (w AND NOT (push_bit k 1)) j \<longleftrightarrow> bit w j \<and> j \<noteq> k"
  by (auto simp: bit_and_iff bit_not_iff bit_push_bit_iff bit_1_iff simp del: push_bit_of_1
      dest: bit_imp_le_length)

lemma and_one_bit_neq_0 [flag_bits]:
  fixes w :: "'a::len word"
  shows "w AND push_bit k 1 \<noteq> 0 \<longleftrightarrow> bit w k"
  by (simp only: bit_iff_and_push_bit_not_eq_0)

lemma bit_all_ones_u8: "k < 8 \<Longrightarrow> bit (0xFF :: u8) k"
proof -
  have "(0xFF :: u8) = mask 8" by (simp add: mask_eq_exp_minus_1)
  then show "k < 8 \<Longrightarrow> bit (0xFF :: u8) k" by (simp only: bit_mask_iff) simp
qed

section \<open>Byte and bit position of a bitmap index\<close>

lemma bit_position_unique:
  fixes i j :: nat
  assumes "i div 8 = j div 8" and "i mod 8 = j mod 8"
  shows "i = j"
  using assms by (metis div_mult_mod_eq)

section \<open>Masks and alignment\<close>

lemma and_not_mask: "w AND NOT (mask k) = push_bit k (drop_bit k (w :: 'a::len word))"
  by (rule bit_eqI) (auto simp: bit_simps)

lemma unat_and_mask: "unat (w AND mask k) = unat (w :: 'a::len word) mod 2 ^ k"
  by (simp only: unsigned_take_bit_eq take_bit_eq_mod [where 'a = nat] flip: take_bit_eq_mask)

lemma unat_drop_bit: "unat (drop_bit k w) = unat (w :: 'a::len word) div 2 ^ k"
  by (simp only: unsigned_drop_bit_eq take_bit_nat_eq_self [OF unat_bound]
      drop_bit_eq_div [where 'a = nat])

lemma unat_and_not_mask: "unat (w AND NOT (mask k)) = unat (w :: 'a::len word) div 2 ^ k * 2 ^ k"
proof -
  have "unat w div 2 ^ k * 2 ^ k < 2 ^ LENGTH('a)"
    using unat_bound [of w] div_times_less_eq_dividend le_less_trans by blast
  then show ?thesis
    by (simp only: and_not_mask unsigned_push_bit_eq unat_drop_bit push_bit_eq_mult [where 'a = nat]
        take_bit_nat_eq_self)
qed

lemma round_up:
  fixes n k :: nat
  assumes "0 < k"
  shows "n \<le> (n + k - 1) div k * k \<and> (n + k - 1) div k * k < n + k"
proof -
  have "(n + k - 1) div k * k \<le> n + k - 1" by (rule div_times_less_eq_dividend)
  moreover have "n + k - 1 < (n + k - 1) div k * k + k"
    using assms by (metis add.commute dividend_less_div_times)
  ultimately show ?thesis using assms by linarith
qed

lemma round_up_multiple: "0 < k \<Longrightarrow> (k * q + k - 1) div k = (q :: nat)"
  by (rule div_nat_eqI) (simp_all add: algebra_simps)

section \<open>Pages\<close>

lemma round_up_pages: "(a + 4095) div 4096 \<le> (f :: nat) \<Longrightarrow> a \<le> f * 4096"
proof -
  assume "(a + 4095) div 4096 \<le> f"
  then have "a + 4095 < (f + 1) * 4096"
    by (metis Suc_eq_plus1 div_less_iff_less_mult less_Suc_eq_le zero_less_numeral)
  then show ?thesis by simp
qed

section \<open>List and loop facts\<close>

lemma find_upt_None:
  "List.find P [a..<b] = None \<longleftrightarrow> (\<forall>i. a \<le> i \<and> i < b \<longrightarrow> \<not> P i)"
  by (auto simp: find_None_iff)

lemma find_upt_Some:
  "List.find P [a..<b] = Some i \<longleftrightarrow>
     a \<le> i \<and> i < b \<and> P i \<and> (\<forall>j. a \<le> j \<and> j < i \<longrightarrow> \<not> P j)"
proof
  assume "List.find P [a..<b] = Some i"
  then obtain k where k: "k < b - a" "P (a + k)" "i = a + k" "\<forall>j<k. \<not> P (a + j)"
    by (auto simp: find_Some_iff)
  show "a \<le> i \<and> i < b \<and> P i \<and> (\<forall>j. a \<le> j \<and> j < i \<longrightarrow> \<not> P j)"
  proof (intro conjI allI impI)
    fix j assume "a \<le> j \<and> j < i"
    then have "j - a < k" "a + (j - a) = j" using k(3) by auto
    then show "\<not> P j" using k(4) by metis
  qed (use k in auto)
next
  assume r: "a \<le> i \<and> i < b \<and> P i \<and> (\<forall>j. a \<le> j \<and> j < i \<longrightarrow> \<not> P j)"
  then have "i - a < length [a..<b]" "P ([a..<b] ! (i - a))" "i = [a..<b] ! (i - a)"
    "\<forall>j < i - a. \<not> P ([a..<b] ! j)"
    by auto
  then show "List.find P [a..<b] = Some i"
    unfolding find_Some_iff by blast
qed

lemma find_mem: "List.find P xs = Some x \<Longrightarrow> x \<in> set xs \<and> P x"
  by (auto simp: find_Some_iff)

section \<open>The frame allocator as its clients see it\<close>

text \<open>
  What the users of the physical memory manager rely on: \<open>avail\<close> is the set of free frames;
  allocation takes one of them, or reports \<open>usize_max\<close> and changes nothing when there is none;
  freeing a managed frame puts it back.
\<close>

locale frame_allocator =
  fixes alloc :: "'s \<Rightarrow> usize \<times> 's"
    and free :: "'s \<Rightarrow> usize \<Rightarrow> 's"
    and avail :: "'s \<Rightarrow> usize set"
    and managed :: "'s \<Rightarrow> usize set"
    and inv :: "'s \<Rightarrow> bool"
  assumes avail_managed: "inv s \<Longrightarrow> avail s \<subseteq> managed s"
    and managed_finite: "inv s \<Longrightarrow> finite (managed s)"
    and managed_real: "inv s \<Longrightarrow> f \<in> managed s \<Longrightarrow> f < usize_max"
    and alloc_empty: "inv s \<Longrightarrow> avail s = {} \<Longrightarrow> alloc s = (usize_max, s)"
    and alloc_frame: "inv s \<Longrightarrow> avail s \<noteq> {} \<Longrightarrow> fst (alloc s) \<in> avail s"
    and alloc_avail: "inv s \<Longrightarrow> avail (snd (alloc s)) = avail s - {fst (alloc s)}"
    and alloc_managed: "inv s \<Longrightarrow> managed (snd (alloc s)) = managed s"
    and alloc_inv: "inv s \<Longrightarrow> inv (snd (alloc s))"
    and free_avail: "inv s \<Longrightarrow> f \<in> managed s \<Longrightarrow> avail (free s f) = insert f (avail s)"
    and free_managed: "inv s \<Longrightarrow> managed (free s f) = managed s"
    and free_inv: "inv s \<Longrightarrow> inv (free s f)"
begin

lemma alloc_failed_iff: "inv s \<Longrightarrow> fst (alloc s) = usize_max \<longleftrightarrow> avail s = {}"
  using alloc_empty alloc_frame avail_managed managed_real by (metis fst_conv less_irrefl subsetD)

lemma alloc_free_restores:
  assumes "inv s" and "avail s \<noteq> {}"
  shows "avail (free (snd (alloc s)) (fst (alloc s))) = avail s"
proof -
  from assms have f: "fst (alloc s) \<in> avail s" by (rule alloc_frame)
  then have "fst (alloc s) \<in> managed (snd (alloc s))"
    using assms(1) avail_managed alloc_managed by blast
  then show ?thesis
    using free_avail [OF alloc_inv [OF assms(1)]] alloc_avail [OF assms(1)] f by auto
qed

text \<open>Allocating repeatedly never hands out a frame twice.\<close>

primrec allocs :: "nat \<Rightarrow> 's \<Rightarrow> usize list \<times> 's" where
  "allocs 0 s = ([], s)"
| "allocs (Suc n) s =
     (let (f, s1) = alloc s; (fs, s2) = allocs n s1 in (f # fs, s2))"

lemma allocs_distinct:
  "inv s \<Longrightarrow> n \<le> card (avail s) \<Longrightarrow> allocs n s = (fs, s') \<Longrightarrow>
     length fs = n \<and> distinct fs \<and> set fs \<subseteq> avail s \<and> avail s' = avail s - set fs \<and> inv s'"
proof (induction n arbitrary: s fs)
  case 0
  then show ?case by auto
next
  case (Suc n)
  define f where "f = fst (alloc s)"
  define s1 where "s1 = snd (alloc s)"
  have ne: "avail s \<noteq> {}" using Suc.prems(2) by auto
  have fin: "finite (avail s)"
    using Suc.prems(1) avail_managed managed_finite by (meson finite_subset)
  obtain fs' where fs': "allocs n s1 = (fs', s')" "fs = f # fs'"
    using Suc.prems(3) by (auto simp: f_def s1_def split: prod.splits)
  have f: "f \<in> avail s" unfolding f_def using Suc.prems(1) ne by (rule alloc_frame)
  have av: "avail s1 = avail s - {f}" using alloc_avail [OF Suc.prems(1)] by (simp add: f_def s1_def)
  have i1: "inv s1" unfolding s1_def using Suc.prems(1) by (rule alloc_inv)
  have "n \<le> card (avail s1)" using Suc.prems(2) f fin by (simp add: av)
  from Suc.IH [OF i1 this fs'(1)] show ?case using fs'(2) f av by auto
qed

end


section \<open>The heap as its clients see it\<close>

text \<open>
  What the users of \<open>krust_malloc\<close> and \<open>krust_free\<close> rely on: \<open>live\<close> is the set of blocks handed out
  and not yet freed, as (address, size). Both calls return; a block handed out is new, large enough
  and apart from every other live block; freeing a live block removes just that one.
\<close>

locale allocator =
  fixes malloc :: "u32 \<Rightarrow> 'h \<Rightarrow> (usize \<times> 'h) option"
    and mfree :: "usize \<Rightarrow> 'h \<Rightarrow> 'h option"
    and live :: "'h \<Rightarrow> (usize \<times> usize) set"
    and inv :: "'h \<Rightarrow> bool"
  assumes malloc_returns: "inv s \<Longrightarrow> \<exists>p s'. malloc n s = Some (p, s')"
    and malloc_inv: "inv s \<Longrightarrow> malloc n s = Some (p, s') \<Longrightarrow> inv s'"
    and malloc_null: "inv s \<Longrightarrow> malloc n s = Some (0, s') \<Longrightarrow> live s' = live s"
    and malloc_block: "inv s \<Longrightarrow> malloc n s = Some (p, s') \<Longrightarrow> p \<noteq> 0 \<Longrightarrow>
      \<exists>z \<ge> unat n. live s' = insert (p, z) (live s) \<and> p \<notin> fst ` live s"
    and live_nonnull: "inv s \<Longrightarrow> (p, z) \<in> live s \<Longrightarrow> p \<noteq> 0"
    and live_disjoint: "inv s \<Longrightarrow> (p, z) \<in> live s \<Longrightarrow> (q, y) \<in> live s \<Longrightarrow> p \<noteq> q \<Longrightarrow>
      p + z \<le> q \<or> q + y \<le> p"
    and live_unique: "inv s \<Longrightarrow> (p, z) \<in> live s \<Longrightarrow> (p, y) \<in> live s \<Longrightarrow> z = y"
    and free_live: "inv s \<Longrightarrow> (p, z) \<in> live s \<Longrightarrow>
      \<exists>s'. mfree p s = Some s' \<and> inv s' \<and> live s' = live s - {(p, z)}"
begin

definition ptrs :: "'h \<Rightarrow> usize set" where
  "ptrs s = fst ` live s"

lemma ptrs_nonnull: "inv s \<Longrightarrow> 0 \<notin> ptrs s"
  using live_nonnull by (fastforce simp: ptrs_def)

lemma malloc_cases:
  assumes "inv s"
  obtains (null) s' where "malloc n s = Some (0, s')" "inv s'" "ptrs s' = ptrs s"
  | (block) p s' where "malloc n s = Some (p, s')" "inv s'" "p \<noteq> 0" "p \<notin> ptrs s"
      "ptrs s' = insert p (ptrs s)"
proof -
  obtain p s' where m: "malloc n s = Some (p, s')" using malloc_returns [OF assms] by blast
  have i: "inv s'" using assms m by (rule malloc_inv)
  show thesis
  proof (cases "p = 0")
    case True
    with m i malloc_null [OF assms, of n s'] show ?thesis by (intro null [of s']) (auto simp: ptrs_def)
  next
    case False
    with m i malloc_block [OF assms m] show ?thesis by (intro block [of p s']) (auto simp: ptrs_def)
  qed
qed

lemma free_ptr:
  assumes "inv s" and "p \<in> ptrs s"
  obtains s' where "mfree p s = Some s'" "inv s'" "ptrs s' = ptrs s - {p}"
proof -
  obtain z where z: "(p, z) \<in> live s" using assms(2) by (auto simp: ptrs_def)
  obtain s' where s': "mfree p s = Some s'" "inv s'" "live s' = live s - {(p, z)}"
    using free_live [OF assms(1) z] by blast
  have "live s - {(p, z)} = {x \<in> live s. fst x \<noteq> p}"
    by (auto dest: live_unique [OF assms(1) z])
  then have "ptrs s' = ptrs s - {p}" unfolding ptrs_def s'(3) by auto
  with s' show thesis by (intro that)
qed

end

text \<open>An allocator that refuses a request without changing its state: the same request is refused again.\<close>

locale steady_allocator = allocator malloc mfree live inv
  for malloc :: "u32 \<Rightarrow> 'h \<Rightarrow> (usize \<times> 'h) option"
    and mfree :: "usize \<Rightarrow> 'h \<Rightarrow> 'h option"
    and live :: "'h \<Rightarrow> (usize \<times> usize) set"
    and inv :: "'h \<Rightarrow> bool" +
  assumes null_same: "inv s \<Longrightarrow> malloc n s = Some (0, s') \<Longrightarrow> s' = s"

end
