(* ===== verification/Spinlock.thy ===== *)
theory Spinlock
  imports Kernel_Prelude
begin

unbundle bit_operations_syntax

text \<open>
  The interrupt-saving spin lock (\<open>kernel/src/util/spinlock.rs\<close>) as an interleaving of processors.
  Each processor has its flags register and a program counter in the code of \<open>lock\<close>, \<open>try_lock\<close> and
  the guard's \<open>drop\<close>; a step is one atomic access of the lock word, or one of the \<open>pushfq\<close> and
  \<open>popfq\<close> sequences. The theory shows mutual exclusion, which is what lets the other theories treat
  an operation under a lock as one step.
\<close>

section \<open>State\<close>

text \<open>
  Where a processor is: outside; in the loop of \<open>lock\<close> or before the exchange of \<open>try_lock\<close>, with the
  flags it saved; owning the guard; or between the store and the \<open>popfq\<close> of \<open>drop\<close>.
\<close>

datatype lock_pc = Outside | Spinning u64 | Trying u64 | Guard u64 | Dropping u64

record cpu =
  rflags :: u64
  pc :: lock_pc

record 'a spin_lock =
  locked :: bool
  data :: 'a
  cpus :: "nat \<Rightarrow> cpu"

definition interrupt_flag :: u64 where
  "interrupt_flag = 0x200"

definition spin_new :: "'a \<Rightarrow> (nat \<Rightarrow> cpu) \<Rightarrow> 'a spin_lock" where
  "spin_new d cs = \<lparr>locked = False, data = d, cpus = cs\<rparr>"

definition set_cpu :: "nat \<Rightarrow> cpu \<Rightarrow> 'a spin_lock \<Rightarrow> 'a spin_lock" where
  "set_cpu c x s = s\<lparr>cpus := (cpus s)(c := x)\<rparr>"

section \<open>Operations, one atomic access at a time\<close>

definition lock_enter :: "nat \<Rightarrow> 'a spin_lock \<Rightarrow> 'a spin_lock" where
  "lock_enter c s =
     (let f = rflags (cpus s c)
      in set_cpu c \<lparr>rflags = f AND NOT interrupt_flag, pc = Spinning f\<rparr> s)"

text \<open>
  The exchange of \<open>lock\<close>: it may also fail on a free lock, as the weak form is allowed to
  (\<open>spurious\<close>), and then the loop goes round.
\<close>

definition lock_exchange :: "bool \<Rightarrow> nat \<Rightarrow> u64 \<Rightarrow> 'a spin_lock \<Rightarrow> 'a spin_lock" where
  "lock_exchange spurious c f s =
     (if locked s \<or> spurious then s
      else set_cpu c ((cpus s c)\<lparr>pc := Guard f\<rparr>) (s\<lparr>locked := True\<rparr>))"

definition try_lock_enter :: "nat \<Rightarrow> 'a spin_lock \<Rightarrow> 'a spin_lock" where
  "try_lock_enter c s =
     (let f = rflags (cpus s c) in set_cpu c \<lparr>rflags = f, pc = Trying f\<rparr> s)"

definition try_lock_exchange :: "nat \<Rightarrow> u64 \<Rightarrow> 'a spin_lock \<Rightarrow> 'a spin_lock" where
  "try_lock_exchange c f s =
     (if locked s then set_cpu c ((cpus s c)\<lparr>pc := Outside\<rparr>) s
      else set_cpu c ((cpus s c)\<lparr>pc := Guard f\<rparr>) (s\<lparr>locked := True\<rparr>))"

definition guard_deref_mut :: "('a \<Rightarrow> 'a) \<Rightarrow> 'a spin_lock \<Rightarrow> 'a spin_lock" where
  "guard_deref_mut g s = s\<lparr>data := g (data s)\<rparr>"

definition drop_store :: "nat \<Rightarrow> u64 \<Rightarrow> 'a spin_lock \<Rightarrow> 'a spin_lock" where
  "drop_store c f s = set_cpu c ((cpus s c)\<lparr>pc := Dropping f\<rparr>) (s\<lparr>locked := False\<rparr>)"

definition drop_popfq :: "nat \<Rightarrow> u64 \<Rightarrow> 'a spin_lock \<Rightarrow> 'a spin_lock" where
  "drop_popfq c f s = set_cpu c \<lparr>rflags = f, pc = Outside\<rparr> s"

inductive spin_step :: "'a spin_lock \<Rightarrow> nat \<Rightarrow> 'a spin_lock \<Rightarrow> bool" where
  spin_enter: "pc (cpus s c) = Outside \<Longrightarrow> spin_step s c (lock_enter c s)"
| spin_exchange: "pc (cpus s c) = Spinning f \<Longrightarrow> spin_step s c (lock_exchange w c f s)"
| spin_try_enter: "pc (cpus s c) = Outside \<Longrightarrow> spin_step s c (try_lock_enter c s)"
| spin_try_exchange: "pc (cpus s c) = Trying f \<Longrightarrow> spin_step s c (try_lock_exchange c f s)"
| spin_access: "pc (cpus s c) = Guard f \<Longrightarrow> spin_step s c (guard_deref_mut g s)"
| spin_drop: "pc (cpus s c) = Guard f \<Longrightarrow> spin_step s c (drop_store c f s)"
| spin_popfq: "pc (cpus s c) = Dropping f \<Longrightarrow> spin_step s c (drop_popfq c f s)"

inductive spin_run :: "'a spin_lock \<Rightarrow> 'a spin_lock \<Rightarrow> bool" where
  spin_refl: "spin_run s s"
| spin_trans: "spin_run s t \<Longrightarrow> spin_step t c u \<Longrightarrow> spin_run s u"

lemmas spin_ops = lock_enter_def lock_exchange_def try_lock_enter_def try_lock_exchange_def
  guard_deref_mut_def drop_store_def drop_popfq_def set_cpu_def Let_def

section \<open>The lock word tells whether somebody owns the guard\<close>

definition owns :: "'a spin_lock \<Rightarrow> nat \<Rightarrow> bool" where
  "owns s c \<longleftrightarrow> (\<exists>f. pc (cpus s c) = Guard f)"

definition spin_inv :: "'a spin_lock \<Rightarrow> bool" where
  "spin_inv s \<longleftrightarrow> (locked s \<longleftrightarrow> (\<exists>c. owns s c)) \<and> (\<forall>c d. owns s c \<and> owns s d \<longrightarrow> c = d)"

lemma owns_set_cpu: "owns (set_cpu c x s) = (owns s)(c := (\<exists>f. pc x = Guard f))"
  by (auto simp: owns_def set_cpu_def fun_eq_iff)

lemma locked_set_cpu [simp]: "locked (set_cpu c x s) = locked s"
  by (simp add: set_cpu_def)

lemma spin_inv_same: "spin_inv s \<Longrightarrow> \<not> owns s c \<Longrightarrow> (\<And>f. pc x \<noteq> Guard f) \<Longrightarrow> spin_inv (set_cpu c x s)"
  using fun_upd_idem [of "owns s" c False]
  by (simp add: spin_inv_def owns_set_cpu)

lemma spin_inv_take:
  "spin_inv s \<Longrightarrow> \<not> locked s \<Longrightarrow> pc x = Guard f \<Longrightarrow> spin_inv (set_cpu c x (s\<lparr>locked := True\<rparr>))"
  unfolding spin_inv_def owns_set_cpu by (auto simp: owns_def)

lemma spin_inv_step:
  assumes "spin_step s c t" and "spin_inv s"
  shows "spin_inv t"
  using assms
proof (induction rule: spin_step.induct)
  case (spin_drop s c f)
  then show ?case by (auto simp: drop_store_def set_cpu_def spin_inv_def owns_def)
qed (auto simp: lock_enter_def lock_exchange_def try_lock_enter_def try_lock_exchange_def
      drop_popfq_def Let_def owns_def intro!: spin_inv_same spin_inv_take,
     auto simp: guard_deref_mut_def spin_inv_def owns_def)

lemma spin_inv_run: "spin_run s t \<Longrightarrow> spin_inv s \<Longrightarrow> spin_inv t"
  by (induction rule: spin_run.induct) (auto intro: spin_inv_step)

lemma spin_step_data:
  assumes "spin_step s c t" and "data t \<noteq> data s"
  shows "owns s c"
  using assms by (cases rule: spin_step.cases) (auto simp: spin_ops owns_def split: if_splits)

section \<open>Properties\<close>

text \<open>
  C8. Mutual exclusion: from a new lock nobody holds, in every interleaving of the processors at
  most one owns the guard, the lock word is set exactly while one does, and the protected data is
  changed only by a step of that owner.
\<close>

theorem spinlock_mutual_exclusion:
  assumes "\<forall>c. pc (cs c) = Outside" and "spin_run (spin_new d cs) s"
  shows "(locked s \<longleftrightarrow> (\<exists>c. owns s c)) \<and> (\<forall>a b. owns s a \<and> owns s b \<longrightarrow> a = b) \<and>
         (\<forall>c t. spin_step s c t \<and> data t \<noteq> data s \<longrightarrow> (\<forall>b. owns s b \<longleftrightarrow> b = c))"
proof -
  have "spin_inv (spin_new d cs)" using assms(1) by (simp add: spin_inv_def owns_def spin_new_def)
  with assms(2) have "spin_inv s" by (rule spin_inv_run)
  then show ?thesis using spin_step_data by (auto simp: spin_inv_def)
qed

definition two_cpus :: "nat \<Rightarrow> cpu" where
  "two_cpus = (\<lambda>_. \<lparr>rflags = 0x202, pc = Outside\<rparr>)"

definition contended :: "nat spin_lock" where
  "contended = lock_exchange False 1 0x202 (lock_enter 1
     (lock_exchange False 0 0x202 (lock_enter 0 (spin_new (0 :: nat) two_cpus))))"

theorem spinlock_mutual_exclusion_witness:
  "owns contended 0 \<and> \<not> owns contended 1 \<and> locked contended"
proof -
  let ?s0 = "spin_new (0 :: nat) two_cpus"
  have r1: "spin_run ?s0 (lock_enter 0 ?s0)"
    by (rule spin_trans [OF spin_refl spin_enter]) (simp add: spin_new_def two_cpus_def)
  have r2: "spin_run ?s0 (lock_exchange False 0 0x202 (lock_enter 0 ?s0))"
    by (rule spin_trans [OF r1 spin_exchange]) (simp add: spin_ops spin_new_def two_cpus_def)
  have r3: "spin_run ?s0 (lock_enter 1 (lock_exchange False 0 0x202 (lock_enter 0 ?s0)))"
    by (rule spin_trans [OF r2 spin_enter]) (simp add: spin_ops spin_new_def two_cpus_def)
  have r4: "spin_run ?s0 contended" unfolding contended_def
    by (rule spin_trans [OF r3 spin_exchange]) (simp add: spin_ops spin_new_def two_cpus_def)
  have o: "owns contended 0" by (simp add: owns_def contended_def spin_ops spin_new_def two_cpus_def)
  have "\<forall>c. pc (two_cpus c) = Outside" by (simp add: two_cpus_def)
  from spinlock_mutual_exclusion [OF this r4] o show ?thesis
    by (metis zero_neq_one)
qed

end
