(* ===== verification/Pmm.thy ===== *)
theory Pmm
  imports Kernel_Prelude
begin

unbundle bit_operations_syntax

text \<open>
  The physical memory manager (\<open>kernel/src/mm/pmm.rs\<close>): a bitmap with one bit per 4 KiB frame (1 is
  used), the number of frames, and \<open>FIRST_FREE\<close>, a hint below which no frame is free. The bitmap
  lives in memory at the address \<open>BITMAP\<close>; \<open>bm_bytes\<close> is that memory. The interrupt-disabling spin
  lock around allocation makes each operation one atomic step, so the model has no lock field.

  The abstraction is \<open>free_frames\<close>, the set of frames whose bit is clear, and the theory ends with
  the interpretation of the frame allocator contract by these operations.
\<close>

section \<open>State and operations\<close>

definition PAGE_SIZE :: nat where
  "PAGE_SIZE = 4096"

record pmm =
  BITMAP :: usize
  BITMAP_SIZE :: usize
  TOTAL_FRAMES :: usize
  FIRST_FREE :: usize
  bm_bytes :: "usize \<Rightarrow> u8"

definition bitmap_test :: "pmm \<Rightarrow> usize \<Rightarrow> bool" where
  "bitmap_test s b =
     (if BITMAP s = 0 \<or> b div 8 \<ge> BITMAP_SIZE s then True
      else bm_bytes s (BITMAP s + b div 8) AND push_bit (b mod 8) 1 \<noteq> 0)"

definition bitmap_set :: "pmm \<Rightarrow> usize \<Rightarrow> pmm" where
  "bitmap_set s b =
     (if BITMAP s = 0 \<or> b div 8 \<ge> BITMAP_SIZE s then s
      else let a = BITMAP s + b div 8; old = bm_bytes s a
           in s\<lparr>bm_bytes := (bm_bytes s)(a := old OR push_bit (b mod 8) 1)\<rparr>)"

definition bitmap_clear :: "pmm \<Rightarrow> usize \<Rightarrow> pmm" where
  "bitmap_clear s b =
     (if BITMAP s = 0 \<or> b div 8 \<ge> BITMAP_SIZE s then s
      else let a = BITMAP s + b div 8; old = bm_bytes s a
           in s\<lparr>bm_bytes := (bm_bytes s)(a := old AND NOT (push_bit (b mod 8) 1))\<rparr>)"

definition find_first_free :: "pmm \<Rightarrow> usize" where
  "find_first_free s =
     (case List.find (\<lambda>i. \<not> bitmap_test s i) [FIRST_FREE s ..< TOTAL_FRAMES s] of
        Some i \<Rightarrow> i
      | None \<Rightarrow> usize_max)"

text \<open>The loop that fills the bitmap with 0xFF, shared by both initialisers.\<close>

definition fill_bitmap :: "usize \<Rightarrow> usize \<Rightarrow> (usize \<Rightarrow> u8) \<Rightarrow> (usize \<Rightarrow> u8)" where
  "fill_bitmap base n m = fold (\<lambda>i m. m(base + i := 0xFF)) [0..<n] m"

definition krust_pmm_init :: "pmm \<Rightarrow> usize \<Rightarrow> usize \<Rightarrow> usize \<Rightarrow> pmm" where
  "krust_pmm_init s bitmap bitmap_size frames =
     (let s = s\<lparr>BITMAP := bitmap, BITMAP_SIZE := bitmap_size, TOTAL_FRAMES := frames,
                FIRST_FREE := 0\<rparr>
      in s\<lparr>bm_bytes := fill_bitmap bitmap bitmap_size (bm_bytes s)\<rparr>)"

definition krust_pmm_mark_used :: "pmm \<Rightarrow> usize \<Rightarrow> usize \<Rightarrow> usize \<Rightarrow> pmm" where
  "krust_pmm_mark_used s bitmap start end =
     fold (\<lambda>i s. bitmap_set s i) [start..<end] (s\<lparr>BITMAP := bitmap\<rparr>)"

definition krust_pmm_free_frames :: "pmm \<Rightarrow> usize \<Rightarrow> usize \<Rightarrow> usize \<Rightarrow> pmm" where
  "krust_pmm_free_frames s bitmap start count =
     (let s = fold (\<lambda>i s. bitmap_clear s i) [start..<(start + count) mod usize_mod]
                (s\<lparr>BITMAP := bitmap\<rparr>)
      in if start < FIRST_FREE s then s\<lparr>FIRST_FREE := start\<rparr> else s)"

definition krust_pmm_alloc_frame :: "pmm \<Rightarrow> usize \<times> pmm" where
  "krust_pmm_alloc_frame s =
     (let frame = find_first_free s
      in if frame = usize_max then (usize_max, s)
         else (frame, (bitmap_set s frame)\<lparr>FIRST_FREE := (frame + 1) mod usize_mod\<rparr>))"

definition krust_pmm_free_frame :: "pmm \<Rightarrow> usize \<Rightarrow> pmm" where
  "krust_pmm_free_frame s frame =
     (let s = bitmap_clear s frame
      in if frame < FIRST_FREE s then s\<lparr>FIRST_FREE := frame\<rparr> else s)"

definition krust_pmm_get_bitmap :: "pmm \<Rightarrow> usize" where
  "krust_pmm_get_bitmap s = BITMAP s"

definition krust_pmm_get_total_frames :: "pmm \<Rightarrow> usize" where
  "krust_pmm_get_total_frames s = TOTAL_FRAMES s"

definition krust_mm_cpp_pmm_init :: "pmm \<Rightarrow> u32 \<Rightarrow> u64 \<Rightarrow> pmm" where
  "krust_mm_cpp_pmm_init s mem_upper_kb placement_addr =
     (let total_mem = (unat mem_upper_kb + 1024) * 1024;
          total_frames_val = total_mem div PAGE_SIZE;
          bitmap_size_val = (total_frames_val + 7) div 8;
          bitmap_addr = unat placement_addr;
          s = s\<lparr>TOTAL_FRAMES := total_frames_val, BITMAP_SIZE := bitmap_size_val,
                BITMAP := bitmap_addr, FIRST_FREE := 0\<rparr>;
          s = s\<lparr>bm_bytes := fill_bitmap bitmap_addr bitmap_size_val (bm_bytes s)\<rparr>;
          used_frames =
            unat (placement_addr + of_nat bitmap_size_val + of_nat PAGE_SIZE - 1) div PAGE_SIZE;
          s = fold (\<lambda>i s. bitmap_clear s i) [used_frames..<total_frames_val] s
      in s\<lparr>FIRST_FREE := used_frames\<rparr>)"

definition krust_pmm_free_count :: "pmm \<Rightarrow> usize" where
  "krust_pmm_free_count s =
     (if BITMAP s = 0 then 0
      else fold (\<lambda>i count. if \<not> bitmap_test s i then count + 1 else count)
             [0..<TOTAL_FRAMES s] 0)"

section \<open>Abstraction and invariant\<close>

text \<open>
  The free frames of a state, and what every operation keeps: the bitmap exists and has a bit for
  every frame, and no frame below the hint is free.
\<close>

definition free_frames :: "pmm \<Rightarrow> usize set" where
  "free_frames s = {i. i < TOTAL_FRAMES s \<and> \<not> bitmap_test s i}"

definition all_frames :: "pmm \<Rightarrow> usize set" where
  "all_frames s = {..<TOTAL_FRAMES s}"

definition pmm_inv :: "pmm \<Rightarrow> bool" where
  "pmm_inv s \<longleftrightarrow>
     BITMAP s \<noteq> 0 \<and> TOTAL_FRAMES s \<le> 8 * BITMAP_SIZE s \<and> TOTAL_FRAMES s < usize_max \<and>
     (\<forall>i \<in> free_frames s. FIRST_FREE s \<le> i)"

section \<open>The bitmap primitives\<close>

lemma bitmap_fields [simp]:
  "BITMAP (bitmap_set s b) = BITMAP s" "BITMAP_SIZE (bitmap_set s b) = BITMAP_SIZE s"
  "TOTAL_FRAMES (bitmap_set s b) = TOTAL_FRAMES s" "FIRST_FREE (bitmap_set s b) = FIRST_FREE s"
  "BITMAP (bitmap_clear s b) = BITMAP s" "BITMAP_SIZE (bitmap_clear s b) = BITMAP_SIZE s"
  "TOTAL_FRAMES (bitmap_clear s b) = TOTAL_FRAMES s" "FIRST_FREE (bitmap_clear s b) = FIRST_FREE s"
  by (simp_all add: bitmap_set_def bitmap_clear_def Let_def)

lemma bitmap_test_first_free [simp]:
  "bitmap_test (s\<lparr>FIRST_FREE := x\<rparr>) b = bitmap_test s b"
  by (simp add: bitmap_test_def)

lemma free_frames_first_free [simp]: "free_frames (s\<lparr>FIRST_FREE := x\<rparr>) = free_frames s"
  by (simp add: free_frames_def)

definition in_bitmap :: "pmm \<Rightarrow> usize \<Rightarrow> bool" where
  "in_bitmap s b \<longleftrightarrow> BITMAP s \<noteq> 0 \<and> b div 8 < BITMAP_SIZE s"

lemma bitmap_test_bit:
  "bitmap_test s b \<longleftrightarrow> (in_bitmap s b \<longrightarrow> bit (bm_bytes s (BITMAP s + b div 8)) (b mod 8))"
  unfolding bitmap_test_def in_bitmap_def
  by (auto simp: flag_bits not_less simp del: push_bit_of_1)

lemma in_bitmap_set_clear [simp]:
  "in_bitmap (bitmap_set s b) = in_bitmap s" "in_bitmap (bitmap_clear s b) = in_bitmap s"
  by (simp_all add: in_bitmap_def fun_eq_iff)

lemma bitmap_test_set:
  "bitmap_test (bitmap_set s b) i \<longleftrightarrow> bitmap_test s i \<or> (i = b \<and> in_bitmap s b)"
  unfolding bitmap_test_bit in_bitmap_set_clear
  by (auto simp: bitmap_set_def in_bitmap_def Let_def flag_bits not_le simp del: push_bit_of_1
      dest: bit_position_unique)

lemma bitmap_test_clear:
  "bitmap_test (bitmap_clear s b) i \<longleftrightarrow> bitmap_test s i \<and> (i = b \<longrightarrow> \<not> in_bitmap s b)"
  unfolding bitmap_test_bit in_bitmap_set_clear
  by (auto simp: bitmap_clear_def in_bitmap_def Let_def flag_bits not_le simp del: push_bit_of_1
      dest: bit_position_unique)

lemma inv_in_bitmap: "pmm_inv s \<Longrightarrow> i < TOTAL_FRAMES s \<Longrightarrow> in_bitmap s i"
  unfolding pmm_inv_def in_bitmap_def by (auto simp: less_mult_imp_div_less mult.commute)


section \<open>The invariant is kept and the abstraction moves as a set\<close>

lemma free_frames_clear:
  "in_bitmap s b \<Longrightarrow> b < TOTAL_FRAMES s \<Longrightarrow> free_frames (bitmap_clear s b) = insert b (free_frames s)"
  by (auto simp: free_frames_def bitmap_test_clear)

lemma free_frames_set:
  "in_bitmap s b \<Longrightarrow> free_frames (bitmap_set s b) = free_frames s - {b}"
  by (auto simp: free_frames_def bitmap_test_set)

lemma free_frames_subset: "free_frames s \<subseteq> all_frames s"
  by (auto simp: free_frames_def all_frames_def)

lemma finite_free_frames [simp]: "finite (free_frames s)"
  by (simp add: free_frames_def)

lemma find_first_free_Min:
  assumes "pmm_inv s"
  shows "find_first_free s = (if free_frames s = {} then usize_max else Min (free_frames s))"
proof (cases "List.find (\<lambda>i. \<not> bitmap_test s i) [FIRST_FREE s ..< TOTAL_FRAMES s]")
  case None
  with assms have "free_frames s = {}"
    unfolding find_upt_None pmm_inv_def free_frames_def by blast
  with None show ?thesis by (simp add: find_first_free_def)
next
  case (Some i)
  then have i: "i \<in> free_frames s" "\<forall>j. FIRST_FREE s \<le> j \<and> j < i \<longrightarrow> bitmap_test s j"
    unfolding find_upt_Some by (auto simp: free_frames_def)
  have "i \<le> j" if "j \<in> free_frames s" for j
  proof (rule ccontr)
    assume "\<not> i \<le> j"
    moreover have "FIRST_FREE s \<le> j" using that assms by (simp add: pmm_inv_def)
    ultimately have "bitmap_test s j" using i(2) by simp
    with that show False by (simp add: free_frames_def)
  qed
  with i(1) have "Min (free_frames s) = i" by (intro Min_eqI) auto
  with Some i(1) show ?thesis by (auto simp: find_first_free_def)
qed

lemma pmm_inv_total: "pmm_inv s \<Longrightarrow> TOTAL_FRAMES s < usize_max"
  by (simp add: pmm_inv_def)

lemma alloc_frame_cases:
  assumes "pmm_inv s"
  obtains (Full) "free_frames s = {}" "krust_pmm_alloc_frame s = (usize_max, s)"
  | (Taken) f where "f \<in> free_frames s" "\<forall>j \<in> free_frames s. f \<le> j"
      "krust_pmm_alloc_frame s = (f, (bitmap_set s f)\<lparr>FIRST_FREE := f + 1\<rparr>)"
proof (cases "free_frames s = {}")
  case True
  with Full assms show ?thesis by (simp add: krust_pmm_alloc_frame_def find_first_free_Min)
next
  case False
  define f where "f = Min (free_frames s)"
  have f: "f \<in> free_frames s" "\<forall>j \<in> free_frames s. f \<le> j"
    using False by (simp_all add: f_def)
  then have "f + 1 < usize_mod" "f \<noteq> usize_max"
    using pmm_inv_total [OF assms] by (auto simp: free_frames_def usize_max_Suc [symmetric])
  then have "krust_pmm_alloc_frame s = (f, (bitmap_set s f)\<lparr>FIRST_FREE := f + 1\<rparr>)"
    using assms False
    by (simp add: krust_pmm_alloc_frame_def find_first_free_Min f_def [symmetric])
  with f show ?thesis by (rule Taken)
qed

lemma free_frame_in_bitmap: "pmm_inv s \<Longrightarrow> f \<in> free_frames s \<Longrightarrow> in_bitmap s f"
  by (rule inv_in_bitmap) (auto simp: free_frames_def)

lemma pmm_inv_alloc:
  assumes "pmm_inv s"
  shows "pmm_inv (snd (krust_pmm_alloc_frame s))"
  using assms
proof (cases rule: alloc_frame_cases)
  case (Taken f)
  have "f + 1 \<le> j" if "j \<in> free_frames s - {f}" for j
    using that Taken(2) by (metis DiffE Suc_eq_plus1 Suc_leI insertI1 le_neq_implies_less)
  then show ?thesis
    using assms Taken by (auto simp: pmm_inv_def free_frames_set free_frame_in_bitmap [OF assms])
qed (use assms in simp)

lemma free_frames_alloc:
  assumes "pmm_inv s"
  shows "free_frames (snd (krust_pmm_alloc_frame s)) =
           free_frames s - {fst (krust_pmm_alloc_frame s)}"
  using assms
  by (cases rule: alloc_frame_cases) (simp_all add: free_frames_set free_frame_in_bitmap assms)

lemma all_frames_alloc:
  assumes "pmm_inv s"
  shows "all_frames (snd (krust_pmm_alloc_frame s)) = all_frames s"
  using assms by (cases rule: alloc_frame_cases) (simp_all add: all_frames_def)

lemma free_frames_free:
  assumes "pmm_inv s" and "f \<in> all_frames s"
  shows "free_frames (krust_pmm_free_frame s f) = insert f (free_frames s)"
proof -
  from assms have "f < TOTAL_FRAMES s" "in_bitmap s f"
    by (auto simp: all_frames_def inv_in_bitmap)
  then show ?thesis by (simp add: krust_pmm_free_frame_def Let_def free_frames_clear)
qed

lemma free_frames_clear_subset: "free_frames (bitmap_clear s b) \<subseteq> insert b (free_frames s)"
  by (auto simp: free_frames_def bitmap_test_clear)

lemma pmm_inv_free:
  assumes "pmm_inv s"
  shows "pmm_inv (krust_pmm_free_frame s f)"
proof -
  have "(if f < FIRST_FREE s then f else FIRST_FREE s) \<le> j" if "j \<in> free_frames (bitmap_clear s f)" for j
    using that assms free_frames_clear_subset [of s f] by (fastforce simp: pmm_inv_def)
  then show ?thesis
    using assms by (auto simp: krust_pmm_free_frame_def Let_def pmm_inv_def split: if_splits)
qed

lemma all_frames_free: "all_frames (krust_pmm_free_frame s f) = all_frames s"
  by (simp add: krust_pmm_free_frame_def Let_def all_frames_def)

interpretation pmm_frames: frame_allocator
  krust_pmm_alloc_frame krust_pmm_free_frame free_frames all_frames pmm_inv
proof
  fix s f
  assume inv: "pmm_inv s"
  show "free_frames s \<subseteq> all_frames s" by (rule free_frames_subset)
  show "finite (all_frames s)" by (simp add: all_frames_def)
  show "f < usize_max" if "f \<in> all_frames s"
    using that pmm_inv_total [OF inv] by (simp add: all_frames_def)
  show "krust_pmm_alloc_frame s = (usize_max, s)" if "free_frames s = {}"
    using inv that by (cases rule: alloc_frame_cases) auto
  show "fst (krust_pmm_alloc_frame s) \<in> free_frames s" if "free_frames s \<noteq> {}"
    using inv that by (cases rule: alloc_frame_cases) auto
qed (simp_all add: free_frames_alloc all_frames_alloc pmm_inv_alloc free_frames_free
      all_frames_free pmm_inv_free)


section \<open>Ranges of bits and initialisation\<close>

lemma fold_bitmap_clear_fields [simp]:
  "BITMAP (fold (\<lambda>i s. bitmap_clear s i) is s) = BITMAP s"
  "BITMAP_SIZE (fold (\<lambda>i s. bitmap_clear s i) is s) = BITMAP_SIZE s"
  "TOTAL_FRAMES (fold (\<lambda>i s. bitmap_clear s i) is s) = TOTAL_FRAMES s"
  "FIRST_FREE (fold (\<lambda>i s. bitmap_clear s i) is s) = FIRST_FREE s"
  by (induction "is" arbitrary: s) simp_all

lemma bitmap_test_fold_clear:
  "bitmap_test (fold (\<lambda>i s. bitmap_clear s i) is s) j \<longleftrightarrow>
     bitmap_test s j \<and> (j \<in> set is \<longrightarrow> \<not> in_bitmap s j)"
  by (induction "is" arbitrary: s) (auto simp: bitmap_test_clear)

lemma bitmap_test_fold_set:
  "bitmap_test (fold (\<lambda>i s. bitmap_set s i) is s) j \<longleftrightarrow>
     bitmap_test s j \<or> (j \<in> set is \<and> in_bitmap s j)"
  by (induction "is" arbitrary: s) (auto simp: bitmap_test_set)

lemma fill_bitmap_apply:
  "fill_bitmap base n m a = (if base \<le> a \<and> a < base + n then 0xFF else m a)"
  unfolding fill_bitmap_def by (induction n) auto

lemma bitmap_test_filled:
  assumes "bm_bytes s = fill_bitmap (BITMAP s) (BITMAP_SIZE s) m"
  shows "bitmap_test s i"
  using assms by (auto simp: bitmap_test_bit in_bitmap_def fill_bitmap_apply bit_all_ones_u8
      simp del: bit_numeral_word_iff)

text \<open>Frames of a boot with the given memory size and the bitmap at the given address.\<close>

definition boot_total :: "u32 \<Rightarrow> nat" where
  "boot_total mem_upper_kb = (unat mem_upper_kb + 1024) * 1024 div PAGE_SIZE"

definition boot_bitmap_size :: "u32 \<Rightarrow> nat" where
  "boot_bitmap_size mem_upper_kb = (boot_total mem_upper_kb + 7) div 8"

definition boot_used :: "u32 \<Rightarrow> u64 \<Rightarrow> nat" where
  "boot_used mem_upper_kb placement =
     (unat placement + boot_bitmap_size mem_upper_kb + 4095) div 4096"

lemma boot_total_bound: "boot_total m < 2 ^ 31"
proof -
  have "unat m < 2 ^ 32" using unat_bound [of m] by simp
  then show ?thesis by (simp add: boot_total_def PAGE_SIZE_def)
qed

lemma boot_used_word:
  assumes "unat placement + boot_bitmap_size m + 4095 < usize_mod"
  shows "unat (placement + of_nat (boot_bitmap_size m) + of_nat PAGE_SIZE - 1) div PAGE_SIZE
           = boot_used m placement"
proof -
  have "placement + of_nat (boot_bitmap_size m) + of_nat PAGE_SIZE - 1 =
          (of_nat (unat placement + boot_bitmap_size m + 4095) :: u64)"
    by (simp add: PAGE_SIZE_def)
  moreover have "unat (of_nat (unat placement + boot_bitmap_size m + 4095) :: u64) =
          unat placement + boot_bitmap_size m + 4095"
    using assms by (intro unat_of_nat_small) (simp add: usize_mod_def)
  ultimately have "unat (placement + of_nat (boot_bitmap_size m) + of_nat PAGE_SIZE - 1) =
          unat placement + boot_bitmap_size m + 4095"
    by (simp only:)
  then show ?thesis by (simp only: boot_used_def) (simp add: PAGE_SIZE_def)
qed

lemma boot_state:
  assumes "placement \<noteq> 0" and "unat placement + boot_bitmap_size m + 4095 < usize_mod"
  shows "pmm_inv (krust_mm_cpp_pmm_init s m placement) \<and>
         free_frames (krust_mm_cpp_pmm_init s m placement) = {boot_used m placement..<boot_total m} \<and>
         all_frames (krust_mm_cpp_pmm_init s m placement) = {..<boot_total m}"
proof -
  define t where "t = krust_mm_cpp_pmm_init s m placement"
  define s1 where "s1 = s\<lparr>TOTAL_FRAMES := boot_total m, BITMAP_SIZE := boot_bitmap_size m,
     BITMAP := unat placement, FIRST_FREE := 0,
     bm_bytes := fill_bitmap (unat placement) (boot_bitmap_size m) (bm_bytes s)\<rparr>"
  have t: "t = (fold (\<lambda>i s. bitmap_clear s i) [boot_used m placement..<boot_total m] s1)
                 \<lparr>FIRST_FREE := boot_used m placement\<rparr>"
    unfolding t_def krust_mm_cpp_pmm_init_def s1_def Let_def boot_used_word [OF assms(2), symmetric]
      boot_bitmap_size_def boot_total_def by simp
  have filled: "bitmap_test s1 i" for i
    by (rule bitmap_test_filled [where m = "bm_bytes s"]) (simp add: s1_def)
  have "boot_total m \<le> 8 * boot_bitmap_size m" unfolding boot_bitmap_size_def by presburger
  moreover have "unat placement \<noteq> 0" using assms(1) by (simp add: unat_eq_zero)
  ultimately have inb: "in_bitmap s1 i" if "i < boot_total m" for i
    using that by (auto simp: in_bitmap_def s1_def less_mult_imp_div_less mult.commute)
  have ff: "free_frames t = {boot_used m placement..<boot_total m}"
    using inb by (auto simp: t free_frames_def bitmap_test_fold_clear filled) (auto simp: s1_def)
  moreover have "pmm_inv t"
    unfolding pmm_inv_def ff using \<open>unat placement \<noteq> 0\<close> \<open>boot_total m \<le> 8 * boot_bitmap_size m\<close>
      boot_total_bound [of m] by (auto simp: t s1_def usize_max_def)
  moreover have "all_frames t = {..<boot_total m}" by (simp add: t all_frames_def s1_def)
  ultimately show ?thesis by (simp add: t_def)
qed

lemma boot_used_above:
  "boot_used m placement \<le> f \<Longrightarrow> unat placement + boot_bitmap_size m \<le> f * PAGE_SIZE"
  unfolding boot_used_def PAGE_SIZE_def by (rule round_up_pages)

lemma free_count_card:
  assumes "BITMAP s \<noteq> 0"
  shows "krust_pmm_free_count s = card (free_frames s)"
proof -
  have "fold (\<lambda>i c. if \<not> bitmap_test s i then c + 1 else c) xs k =
          k + length (filter (\<lambda>i. \<not> bitmap_test s i) xs)" for xs k
    by (induction xs arbitrary: k) auto
  moreover have "length (filter (\<lambda>i. \<not> bitmap_test s i) [0..<TOTAL_FRAMES s]) = card (free_frames s)"
    by (subst distinct_card [symmetric]) (auto simp: free_frames_def intro!: arg_cong [where f = card])
  ultimately show ?thesis using assms by (simp add: krust_pmm_free_count_def)
qed


section \<open>Runs of the allocator\<close>

text \<open>
  A run of the memory manager under a client that frees only what it holds: the state of the
  manager together with the frames the client was given and has not given back.
\<close>

inductive pmm_step :: "pmm \<times> usize set \<Rightarrow> pmm \<times> usize set \<Rightarrow> bool" where
  step_alloc: "krust_pmm_alloc_frame s = (f, s') \<Longrightarrow> f \<noteq> usize_max \<Longrightarrow>
     pmm_step (s, held) (s', insert f held)"
| step_full: "krust_pmm_alloc_frame s = (usize_max, s') \<Longrightarrow> pmm_step (s, held) (s', held)"
| step_free: "f \<in> held \<Longrightarrow> pmm_step (s, held) (krust_pmm_free_frame s f, held - {f})"

inductive_cases pmm_stepE: "pmm_step (s, held) (s', held')"

definition ledger_ok :: "pmm \<times> usize set \<Rightarrow> bool" where
  "ledger_ok c \<longleftrightarrow> pmm_inv (fst c) \<and> snd c \<subseteq> all_frames (fst c) \<and> snd c \<inter> free_frames (fst c) = {}"

lemma ledger_step:
  assumes "pmm_step c c'" and "ledger_ok c"
  shows "ledger_ok c' \<and> snd c' \<union> free_frames (fst c') = snd c \<union> free_frames (fst c)"
  using assms
proof (cases rule: pmm_step.cases)
  case (step_alloc s f s' held)
  with assms(2) have inv: "pmm_inv s" by (simp add: ledger_ok_def)
  have "free_frames s \<noteq> {}" using pmm_frames.alloc_failed_iff [OF inv] step_alloc by auto
  then have "f \<in> free_frames s" using pmm_frames.alloc_frame [OF inv] step_alloc by simp
  then show ?thesis
    using assms(2) step_alloc pmm_inv_alloc [OF inv] free_frames_alloc [OF inv]
      all_frames_alloc [OF inv] free_frames_subset [of s] by (auto simp: ledger_ok_def)
next
  case (step_full s s' held)
  with assms(2) have inv: "pmm_inv s" by (simp add: ledger_ok_def)
  then have "s' = s"
    using step_full pmm_frames.alloc_failed_iff [OF inv] pmm_frames.alloc_empty [OF inv] by simp
  with assms(2) step_full show ?thesis by simp
next
  case (step_free f held s)
  with assms(2) have inv: "pmm_inv s" "f \<in> all_frames s" by (auto simp: ledger_ok_def)
  then show ?thesis
    using assms(2) step_free free_frames_free [OF inv] pmm_inv_free [OF inv(1)]
    by (auto simp: ledger_ok_def all_frames_free)
qed

lemma ledger_run:
  assumes "pmm_step\<^sup>*\<^sup>* c c'" and "ledger_ok c"
  shows "ledger_ok c' \<and> snd c' \<union> free_frames (fst c') = snd c \<union> free_frames (fst c)"
  using assms by (induction rule: rtranclp_induct) (use ledger_step in blast)+


lemma run_from_boot:
  assumes "placement \<noteq> 0" and "unat placement + boot_bitmap_size m + 4095 < usize_mod"
    and "pmm_step\<^sup>*\<^sup>* (krust_mm_cpp_pmm_init s m placement, {}) (s', held)"
  shows "pmm_inv s' \<and> held \<inter> free_frames s' = {} \<and>
         held \<union> free_frames s' = {boot_used m placement..<boot_total m}"
  using ledger_run [OF assms(3)] boot_state [OF assms(1, 2)] by (auto simp: ledger_ok_def)

section \<open>Properties\<close>

text \<open>
  Boot hands the allocator exactly the frames above the kernel and the bitmap: after
  \<open>krust_mm_cpp_pmm_init\<close> the invariant holds, the free frames are those from the first page past
  the bitmap to the end of memory, and no free frame overlaps the bitmap or anything below it, nor
  reaches past the memory the boot loader reported.
\<close>

lemma pmm_boot_safe:
  assumes "placement \<noteq> 0" and "unat placement + boot_bitmap_size m + 4095 < usize_mod"
  shows "pmm_inv (krust_mm_cpp_pmm_init s m placement) \<and>
    free_frames (krust_mm_cpp_pmm_init s m placement) = {boot_used m placement..<boot_total m} \<and>
    (\<forall>f \<in> free_frames (krust_mm_cpp_pmm_init s m placement).
       unat placement + boot_bitmap_size m \<le> f * PAGE_SIZE \<and>
       (f + 1) * PAGE_SIZE \<le> (unat m + 1024) * 1024)"
proof -
  have "(f + 1) * PAGE_SIZE \<le> (unat m + 1024) * 1024" if "f < boot_total m" for f
  proof -
    have "f + 1 \<le> (unat m + 1024) * 1024 div PAGE_SIZE" using that by (simp add: boot_total_def)
    then show ?thesis by (metis div_times_less_eq_dividend le_trans mult_le_mono1)
  qed
  then show ?thesis using boot_state [OF assms, of s] boot_used_above by auto
qed

definition blank_pmm :: pmm where
  "blank_pmm = \<lparr>BITMAP = 0, BITMAP_SIZE = 0, TOTAL_FRAMES = 0, FIRST_FREE = 0, bm_bytes = (\<lambda>_. 0)\<rparr>"

text \<open>
  The hint never hides a free frame: allocation returns the lowest free frame and removes
  exactly that one from the free set, and it reports failure, changing nothing, only when no frame
  is free.
\<close>

lemma pmm_alloc_lowest:
  assumes "pmm_inv s" and "krust_pmm_alloc_frame s = (f, s')"
  shows "if free_frames s = {} then f = usize_max \<and> s' = s
         else f = Min (free_frames s) \<and> free_frames s' = free_frames s - {f} \<and> pmm_inv s'"
  using assms(1)
proof (cases rule: alloc_frame_cases)
  case Full
  with assms(2) show ?thesis by simp
next
  case (Taken g)
  then have "Min (free_frames s) = g" by (intro Min_eqI) auto
  with Taken assms pmm_inv_alloc [OF assms(1)] free_frames_alloc [OF assms(1)] show ?thesis by auto
qed

text \<open>
  C1. Along every run from boot of a client that frees only what it holds, no frame is ever handed
  out twice, none handed out lies in the kernel or the bitmap, and none is lost: the frames held and
  the free frames together are always the frames given to the allocator at boot.
\<close>

theorem pmm_never_hands_out_twice:
  assumes "placement \<noteq> 0" and "unat placement + boot_bitmap_size m + 4095 < usize_mod"
    and "pmm_step\<^sup>*\<^sup>* (krust_mm_cpp_pmm_init s m placement, {}) (s', held)"
    and "krust_pmm_alloc_frame s' = (f, s'')" and "f \<noteq> usize_max"
  shows "f \<notin> held \<and> unat placement + boot_bitmap_size m \<le> f * PAGE_SIZE \<and>
         held \<union> free_frames s' = {boot_used m placement..<boot_total m}"
proof -
  note r = run_from_boot [OF assms(1-3)]
  then have inv: "pmm_inv s'" by simp
  have "free_frames s' \<noteq> {}" using pmm_frames.alloc_failed_iff [OF inv] assms(4,5) by auto
  then have "f \<in> free_frames s'" using pmm_frames.alloc_frame [OF inv] assms(4) by simp
  with r show ?thesis by (auto intro!: boot_used_above)
qed

theorem pmm_never_hands_out_twice_witness:
  "fst (krust_pmm_alloc_frame
     (snd (krust_pmm_alloc_frame (krust_mm_cpp_pmm_init blank_pmm 0 0xF0000)))) \<notin> {241}"
proof -
  let ?s = "krust_mm_cpp_pmm_init blank_pmm 0 0xF0000"
  let ?s1 = "snd (krust_pmm_alloc_frame ?s)"
  have b: "pmm_inv ?s" "free_frames ?s = {241..<256}"
    using boot_state [of "0xF0000" 0 blank_pmm]
    by (simp_all add: boot_used_def boot_bitmap_size_def boot_total_def PAGE_SIZE_def usize_mod_def)
  have f1: "fst (krust_pmm_alloc_frame ?s) = 241"
    using b(1)
  proof (cases rule: alloc_frame_cases)
    case (Taken f)
    then have "f \<le> 241" "241 \<le> f" by (auto simp: b(2))
    with Taken(3) show ?thesis by simp
  qed (simp add: b(2))
  then have a: "krust_pmm_alloc_frame ?s = (241, ?s1)" by (metis prod.collapse)
  have f: "free_frames ?s1 = {242..<256}"
    unfolding free_frames_alloc [OF b(1)] f1 b(2) by auto
  have "pmm_step (?s, {}) (?s1, {241})" using step_alloc [OF a, of "{}"] by (simp add: usize_max_def)
  then have run: "pmm_step\<^sup>*\<^sup>* (?s, {}) (?s1, {241})" by blast
  have "fst (krust_pmm_alloc_frame ?s1) \<noteq> usize_max"
    using pmm_frames.alloc_failed_iff [OF pmm_inv_alloc [OF b(1)]] f by simp
  then show ?thesis
    using pmm_never_hands_out_twice [OF _ _ run, of "fst (krust_pmm_alloc_frame ?s1)"
        "snd (krust_pmm_alloc_frame ?s1)"]
    by (simp add: boot_bitmap_size_def boot_total_def PAGE_SIZE_def usize_mod_def)
qed

text \<open>The free-frame counter counts the free frames.\<close>

lemma pmm_free_count_exact:
  "krust_pmm_free_count s = (if BITMAP s = 0 then 0 else card (free_frames s))"
  by (auto simp: free_count_card) (simp add: krust_pmm_free_count_def)

end
