(* ===== verification/Mm.thy ===== *)
theory Mm
  imports Pmm
begin

unbundle bit_operations_syntax

text \<open>
  Early memory set-up (\<open>kernel/src/mm/mm.rs\<close>): the memory size is taken from the boot loader, the
  frame allocator is started with its bitmap at the end of the kernel image, and \<open>krust_mm_kmalloc\<close>
  hands out memory from a pointer that only grows. The multiboot structure is read through
  \<open>boot_mem\<close>, the 32-bit words of memory by address; of its fields the code reads \<open>flags\<close> at offset
  0 and \<open>mem_upper\<close> at offset 8. \<open>kernel_end\<close> is the linker symbol.
\<close>

section \<open>State and operations\<close>

record mm =
  PLACEMENT_ADDR :: u64
  TOTAL_MEMORY_KB :: u32
  USED_MEMORY_KB :: u32

definition used_kb :: "u64 \<Rightarrow> u32" where
  "used_kb placement = ucast ((placement - 0x100000 + 1023) div 1024)"

definition detect_mem_upper :: "(u32 \<Rightarrow> u32) \<Rightarrow> u32 \<Rightarrow> u32 \<Rightarrow> u32" where
  "detect_mem_upper boot_mem magic addr =
     (if magic \<noteq> 0x2BADB002 then 32 * 1024 - 1024
      else if boot_mem addr AND push_bit 0 1 \<noteq> 0 then boot_mem (addr + 8)
      else 32 * 1024 - 1024)"

definition krust_mm_init ::
  "u64 \<Rightarrow> (u32 \<Rightarrow> u32) \<Rightarrow> u32 \<Rightarrow> u32 \<Rightarrow> mm \<times> pmm \<Rightarrow> u32 \<times> mm \<times> pmm" where
  "krust_mm_init kernel_end boot_mem magic addr st =
     (let (m, p) = st;
          m = m\<lparr>PLACEMENT_ADDR := kernel_end\<rparr>;
          mem_upper_kb = detect_mem_upper boot_mem magic addr;
          m = m\<lparr>TOTAL_MEMORY_KB := mem_upper_kb + 1024\<rparr>;
          m = m\<lparr>USED_MEMORY_KB := used_kb (PLACEMENT_ADDR m)\<rparr>;
          p = krust_mm_cpp_pmm_init p mem_upper_kb (PLACEMENT_ADDR m)
      in (TOTAL_MEMORY_KB m, m, p))"

definition krust_mm_kmalloc :: "u64 \<Rightarrow> mm \<Rightarrow> u64 \<times> mm" where
  "krust_mm_kmalloc sz m =
     (let addr = PLACEMENT_ADDR m;
          m = m\<lparr>PLACEMENT_ADDR := PLACEMENT_ADDR m + sz\<rparr>;
          m = m\<lparr>PLACEMENT_ADDR := (PLACEMENT_ADDR m + 3) AND NOT 3\<rparr>;
          m = m\<lparr>USED_MEMORY_KB := used_kb (PLACEMENT_ADDR m)\<rparr>
      in (addr, m))"

definition krust_mm_kmalloc_aligned :: "u64 \<Rightarrow> u32 \<Rightarrow> mm \<Rightarrow> u64 \<times> mm" where
  "krust_mm_kmalloc_aligned sz align m =
     (let addr = PLACEMENT_ADDR m;
          align64 = ucast align;
          addr = (if addr AND (align64 - 1) \<noteq> 0 then (addr + align64 - 1) AND NOT (align64 - 1)
                  else addr);
          m = m\<lparr>PLACEMENT_ADDR := addr + sz\<rparr>;
          m = m\<lparr>USED_MEMORY_KB := used_kb (PLACEMENT_ADDR m)\<rparr>
      in (addr, m))"

definition krust_mm_info :: "mm \<Rightarrow> u32 \<times> u32" where
  "krust_mm_info m =
     (TOTAL_MEMORY_KB m,
      if USED_MEMORY_KB m < TOTAL_MEMORY_KB m then TOTAL_MEMORY_KB m - USED_MEMORY_KB m else 0)"

section \<open>The placement pointer\<close>

lemma mask_2_u64: "(3 :: u64) = mask 2"
  by (simp add: mask_eq_exp_minus_1)

lemma kmalloc_placement:
  assumes "unat (PLACEMENT_ADDR m) + unat sz + 3 < usize_mod"
  shows "unat (PLACEMENT_ADDR (snd (krust_mm_kmalloc sz m))) =
           (unat (PLACEMENT_ADDR m) + unat sz + 3) div 4 * 4"
proof -
  have "of_nat (unat (PLACEMENT_ADDR m) + unat sz + 3) = PLACEMENT_ADDR m + sz + 3" by simp
  with unat_of_nat_small [of "unat (PLACEMENT_ADDR m) + unat sz + 3", where 'a = 64] assms
  have "unat (PLACEMENT_ADDR m + sz + 3) = unat (PLACEMENT_ADDR m) + unat sz + 3"
    by (simp only: usize_mod_def len_num1 len_bit0) simp
  moreover have "PLACEMENT_ADDR (snd (krust_mm_kmalloc sz m)) =
      (PLACEMENT_ADDR m + sz + 3) AND NOT (mask 2)"
    by (simp only: krust_mm_kmalloc_def Let_def mask_2_u64 [symmetric]) simp
  ultimately show ?thesis by (simp only: unat_and_not_mask) simp
qed

lemma kmalloc_result: "fst (krust_mm_kmalloc sz m) = PLACEMENT_ADDR m"
  by (simp add: krust_mm_kmalloc_def Let_def)

lemma aligned_address:
  fixes addr :: u64
  assumes "unat addr + 2 ^ k \<le> usize_mod" and "k < 32"
  shows "unat (if addr AND mask k \<noteq> 0 then (addr + 2 ^ k - 1) AND NOT (mask k) else addr) =
           (unat addr + 2 ^ k - 1) div 2 ^ k * 2 ^ k"
proof (cases "addr AND mask k = 0")
  case True
  then have "unat addr mod 2 ^ k = 0" by (metis unat_and_mask unsigned_0)
  then obtain q where q: "unat addr = 2 ^ k * q" by auto
  have "(2 ^ k * q + 2 ^ k - 1) div 2 ^ k = q" by (rule round_up_multiple) simp
  with True q show ?thesis by (simp add: mult.commute)
next
  case False
  have "(1 :: nat) \<le> 2 ^ k" by simp
  then have "of_nat (unat addr + 2 ^ k - 1) = addr + 2 ^ k - 1"
    by (simp add: of_nat_diff trans_le_add2)
  moreover have "unat addr + 2 ^ k - 1 < 2 ^ LENGTH(64)"
    using assms(1) \<open>1 \<le> 2 ^ k\<close> unfolding usize_mod_def len_num1 len_bit0 by simp
  ultimately have "unat (addr + 2 ^ k - 1) = unat addr + 2 ^ k - 1"
    using unat_of_nat_small [of "unat addr + 2 ^ k - 1", where 'a = 64] by simp
  with False show ?thesis by (simp only: unat_and_not_mask if_True simp_thms)
qed

lemma kmalloc_aligned_address:
  assumes "unat (PLACEMENT_ADDR m) + 2 ^ k \<le> usize_mod" and "k < 32"
  shows "unat (fst (krust_mm_kmalloc_aligned sz (2 ^ k) m)) =
           (unat (PLACEMENT_ADDR m) + 2 ^ k - 1) div 2 ^ k * 2 ^ k"
proof -
  have "(ucast (2 ^ k :: u32) :: u64) = 2 ^ k"
    using assms(2) by (intro bit_word_eqI) (auto simp: bit_simps)
  then show ?thesis
    unfolding krust_mm_kmalloc_aligned_def Let_def aligned_address [OF assms, symmetric]
      mask_eq_exp_minus_1 by (simp only: fst_conv)
qed

section \<open>Sequences of allocations\<close>

primrec kmallocs :: "u64 list \<Rightarrow> mm \<Rightarrow> (u64 \<times> u64) list \<times> mm" where
  "kmallocs [] m = ([], m)"
| "kmallocs (sz # szs) m =
     (let (a, m) = krust_mm_kmalloc sz m; (rs, m) = kmallocs szs m in ((a, sz) # rs, m))"

lemma kmallocs_regions:
  assumes "unat (PLACEMENT_ADDR m) + sum_list (map (\<lambda>z. unat z + 3) szs) < usize_mod"
    and "kmallocs szs m = (rs, m')"
  shows "(\<forall>(a, z) \<in> set rs. unat (PLACEMENT_ADDR m) \<le> unat a) \<and>
         sorted_wrt (\<lambda>(a, z) (b, _). unat a + unat z \<le> unat b) rs"
  using assms
proof (induction szs arbitrary: m rs)
  case (Cons z szs)
  define m1 where "m1 = snd (krust_mm_kmalloc z m)"
  obtain rs1 where rs1: "kmallocs szs m1 = (rs1, m')" "rs = (PLACEMENT_ADDR m, z) # rs1"
    using Cons.prems(2) kmalloc_result [of z m]
    by (auto simp: m1_def split: prod.splits)
  have p: "unat (PLACEMENT_ADDR m1) = (unat (PLACEMENT_ADDR m) + unat z + 3) div 4 * 4"
    unfolding m1_def by (rule kmalloc_placement) (use Cons.prems(1) in simp)
  then have ge: "unat (PLACEMENT_ADDR m) + unat z \<le> unat (PLACEMENT_ADDR m1)"
    and le: "unat (PLACEMENT_ADDR m1) \<le> unat (PLACEMENT_ADDR m) + unat z + 3"
    using round_up [of 4 "unat (PLACEMENT_ADDR m) + unat z"] by auto
  from Cons.IH [OF _ rs1(1)] le Cons.prems(1) show ?case
    using ge by (fastforce simp: rs1(2))
qed simp

section \<open>Properties\<close>

text \<open>
  Blocks handed out by the placement allocator never overlap: each starts past the end of every
  earlier one, and none below the pointer the sequence started from.
\<close>

lemma kmalloc_disjoint:
  assumes "unat (PLACEMENT_ADDR m) + sum_list (map (\<lambda>z. unat z + 3) szs) < usize_mod"
    and "kmallocs szs m = (rs, m')"
  shows "sorted_wrt (\<lambda>(a, z) (b, _). unat a + unat z \<le> unat b) rs \<and>
         (\<forall>(a, z) \<in> set rs. unat (PLACEMENT_ADDR m) \<le> unat a)"
  using kmallocs_regions [OF assms] by blast

text \<open>
  An aligned allocation with a power-of-two alignment returns a multiple of it, at or after the
  placement pointer and less than one alignment past it.
\<close>

lemma kmalloc_aligned_spec:
  assumes "unat (PLACEMENT_ADDR m) + 2 ^ k \<le> usize_mod" and "k < 32"
  shows "2 ^ k dvd unat (fst (krust_mm_kmalloc_aligned sz (2 ^ k) m)) \<and>
    unat (PLACEMENT_ADDR m) \<le> unat (fst (krust_mm_kmalloc_aligned sz (2 ^ k) m)) \<and>
    unat (fst (krust_mm_kmalloc_aligned sz (2 ^ k) m)) < unat (PLACEMENT_ADDR m) + 2 ^ k \<and>
    PLACEMENT_ADDR (snd (krust_mm_kmalloc_aligned sz (2 ^ k) m)) =
      fst (krust_mm_kmalloc_aligned sz (2 ^ k) m) + sz"
  using kmalloc_aligned_address [OF assms, of sz] round_up [of "2 ^ k" "unat (PLACEMENT_ADDR m)"]
  by (simp add: krust_mm_kmalloc_aligned_def Let_def)

end
