(* ===== verification/Klib.thy ===== *)
theory Klib
  imports Kernel_Prelude "HOL-Library.Monad_Syntax"
begin

text \<open>
  The string and memory routines (\<open>kernel/src/util/klib.rs\<close>) on a byte memory: a function from
  addresses to bytes, with addresses as natural numbers since the pointers of a call are never moved
  past the end of the address space. Loops that stop at a NUL byte may run forever on a memory without
  one and are partial functions; the conversions to text keep the fixed-size buffer of the source and
  are None where an index is out of its range.

  The lemmas relate each routine to a function on lists of bytes; the file systems use those
  list functions for names and paths.
\<close>

type_synonym mem = "usize \<Rightarrow> u8"

section \<open>Memory blocks\<close>

definition copy_byte :: "usize \<Rightarrow> usize \<Rightarrow> usize \<Rightarrow> mem \<Rightarrow> mem" where
  "copy_byte dest src i m = m(dest + i := m (src + i))"

definition krust_memcpy :: "usize \<Rightarrow> usize \<Rightarrow> usize \<Rightarrow> mem \<Rightarrow> usize \<times> mem" where
  "krust_memcpy dest src n m = (dest, fold (copy_byte dest src) [0..<n] m)"

text \<open>The loop that counts down from \<open>n\<close>.\<close>

primrec move_down :: "usize \<Rightarrow> usize \<Rightarrow> usize \<Rightarrow> mem \<Rightarrow> mem" where
  "move_down dest src 0 m = m"
| "move_down dest src (Suc i) m = move_down dest src i (copy_byte dest src i m)"

definition krust_memmove :: "usize \<Rightarrow> usize \<Rightarrow> usize \<Rightarrow> mem \<Rightarrow> usize \<times> mem" where
  "krust_memmove dest src n m =
     (dest, if dest < src then fold (copy_byte dest src) [0..<n] m
            else move_down dest src n m)"

definition krust_memset :: "usize \<Rightarrow> u32 \<Rightarrow> usize \<Rightarrow> mem \<Rightarrow> usize \<times> mem" where
  "krust_memset s c n m = (s, fold (\<lambda>i m. m(s + i := ucast c)) [0..<n] m)"

definition krust_memcmp :: "usize \<Rightarrow> usize \<Rightarrow> usize \<Rightarrow> mem \<Rightarrow> int" where
  "krust_memcmp s1 s2 n m =
     (case List.find (\<lambda>i. m (s1 + i) \<noteq> m (s2 + i)) [0..<n] of
        Some i \<Rightarrow> uint (m (s1 + i)) - uint (m (s2 + i))
      | None \<Rightarrow> 0)"

section \<open>Strings\<close>

partial_function (option) strlen_loop :: "mem \<Rightarrow> usize \<Rightarrow> usize \<Rightarrow> usize option" where
  "strlen_loop m s i = (if m (s + i) \<noteq> 0 then strlen_loop m s (i + 1) else Some i)"

definition krust_strlen :: "usize \<Rightarrow> mem \<Rightarrow> usize option" where
  "krust_strlen s m = strlen_loop m s 0"

partial_function (option) strcmp_loop :: "mem \<Rightarrow> usize \<Rightarrow> usize \<Rightarrow> usize \<Rightarrow> int option" where
  "strcmp_loop m s1 s2 i =
     (let a = m (s1 + i); b = m (s2 + i)
      in if a \<noteq> b then Some (uint a - uint b)
         else if a = 0 then Some 0
         else strcmp_loop m s1 s2 (i + 1))"

definition krust_strcmp :: "usize \<Rightarrow> usize \<Rightarrow> mem \<Rightarrow> int option" where
  "krust_strcmp s1 s2 m = strcmp_loop m s1 s2 0"

text \<open>\<open>k\<close> rounds of the loop are left.\<close>

primrec strncmp_loop :: "mem \<Rightarrow> usize \<Rightarrow> usize \<Rightarrow> nat \<Rightarrow> usize \<Rightarrow> int" where
  "strncmp_loop m s1 s2 0 i = 0"
| "strncmp_loop m s1 s2 (Suc k) i =
     (let a = m (s1 + i); b = m (s2 + i)
      in if a \<noteq> b then uint a - uint b
         else if a = 0 then 0
         else strncmp_loop m s1 s2 k (i + 1))"

definition krust_strncmp :: "usize \<Rightarrow> usize \<Rightarrow> usize \<Rightarrow> mem \<Rightarrow> int" where
  "krust_strncmp s1 s2 n m = strncmp_loop m s1 s2 n 0"

partial_function (option) strcpy_loop :: "usize \<Rightarrow> usize \<Rightarrow> mem \<Rightarrow> mem option" where
  "strcpy_loop d s m =
     (let b = m s; m = m(d := b)
      in if b = 0 then Some m else strcpy_loop (d + 1) (s + 1) m)"

definition krust_strcpy :: "usize \<Rightarrow> usize \<Rightarrow> mem \<Rightarrow> (usize \<times> mem) option" where
  "krust_strcpy dest src m = map_option (Pair dest) (strcpy_loop dest src m)"

text \<open>The copying loop returns the number of rounds left when it met the NUL byte.\<close>

primrec strncpy_copy :: "nat \<Rightarrow> usize \<Rightarrow> usize \<Rightarrow> mem \<Rightarrow> nat \<times> usize \<times> mem" where
  "strncpy_copy 0 d s m = (0, d, m)"
| "strncpy_copy (Suc k) d s m =
     (let b = m s; m = m(d := b)
      in if b = 0 then (Suc k, d, m) else strncpy_copy k (d + 1) (s + 1) m)"

definition krust_strncpy :: "usize \<Rightarrow> usize \<Rightarrow> usize \<Rightarrow> mem \<Rightarrow> usize \<times> mem" where
  "krust_strncpy dest src n m =
     (let (k, d, m) = strncpy_copy n dest src m
      in (dest, fold (\<lambda>i m. m(d + i := 0)) [0..<k] m))"

definition krust_strcat :: "usize \<Rightarrow> usize \<Rightarrow> mem \<Rightarrow> (usize \<times> mem) option" where
  "krust_strcat dest src m = do {
     i \<leftarrow> strlen_loop m dest 0;
     m \<leftarrow> strcpy_loop (dest + i) src m;
     Some (dest, m)
   }"

partial_function (option) strchr_loop :: "mem \<Rightarrow> int \<Rightarrow> usize \<Rightarrow> usize option" where
  "strchr_loop m c p =
     (let b = m p
      in if uint b = c then Some p
         else if b = 0 then Some 0
         else strchr_loop m c (p + 1))"

definition krust_strchr :: "usize \<Rightarrow> int \<Rightarrow> mem \<Rightarrow> usize option" where
  "krust_strchr s c m = strchr_loop m c s"

section \<open>Numbers as text\<close>

definition digit_to_char :: "nat \<Rightarrow> u8" where
  "digit_to_char d = (if d < 10 then 48 + of_nat d else 97 + of_nat (d - 10))"

text \<open>
  The loop that fills \<open>tmp\<close> with digits, lowest first; an index past the end of \<open>tmp\<close> panics.
  The result is \<open>tmp\<close> and the number of digits.
\<close>

partial_function (option) digits_loop ::
  "nat \<Rightarrow> u8 list \<Rightarrow> usize \<Rightarrow> nat \<Rightarrow> (u8 list \<times> usize) option" where
  "digits_loop base tmp tpos x =
     (if x > 0 then
        if tpos < length tmp then
          digits_loop base (tmp[tpos := digit_to_char (x mod base)]) (tpos + 1) (x div base)
        else None
      else Some (tmp, tpos))"

text \<open>The loop that writes \<open>tmp\<close> backwards, returning where it stopped.\<close>

primrec write_back :: "u8 list \<Rightarrow> nat \<Rightarrow> usize \<Rightarrow> mem \<Rightarrow> usize \<times> mem" where
  "write_back tmp 0 p m = (p, m)"
| "write_back tmp (Suc t) p m = write_back tmp t (p + 1) (m(p := tmp ! t))"

definition clamp_base :: "u32 \<Rightarrow> nat" where
  "clamp_base base = (if base < 2 \<or> base > 36 then 10 else unat base)"

definition krust_itoa_base :: "i32 \<Rightarrow> usize \<Rightarrow> u32 \<Rightarrow> mem \<Rightarrow> mem option" where
  "krust_itoa_base num buf base m =
     (let base = clamp_base base
      in if num = 0 then Some (m(buf := 48, buf + 1 := 0))
         else do {
           let n = (if sint num < 0 then nat (- sint num) else nat (sint num));
           (tmp, tpos) \<leftarrow> digits_loop base (replicate 36 0) 0 n;
           let (pos, m) = (if sint num < 0 then (buf + 1, m(buf := 45)) else (buf, m));
           let (pos, m) = write_back tmp tpos pos m;
           Some (m(pos := 0))
         })"

definition krust_itoa :: "i32 \<Rightarrow> usize \<Rightarrow> mem \<Rightarrow> mem option" where
  "krust_itoa num buf m = krust_itoa_base num buf 10 m"

definition krust_uitoa_base :: "u32 \<Rightarrow> usize \<Rightarrow> u32 \<Rightarrow> mem \<Rightarrow> mem option" where
  "krust_uitoa_base num buf base m =
     (let base = clamp_base base
      in if num = 0 then Some (m(buf := 48, buf + 1 := 0))
         else do {
           (tmp, tpos) \<leftarrow> digits_loop base (replicate 36 0) 0 (unat num);
           let (pos, m) = write_back tmp tpos buf m;
           Some (m(pos := 0))
         })"

definition krust_uitoa :: "u32 \<Rightarrow> usize \<Rightarrow> mem \<Rightarrow> mem option" where
  "krust_uitoa num buf m = krust_uitoa_base num buf 10 m"

definition krust_uitoa64_base :: "u64 \<Rightarrow> usize \<Rightarrow> u32 \<Rightarrow> mem \<Rightarrow> mem option" where
  "krust_uitoa64_base num buf base m =
     (let base = clamp_base base
      in if num = 0 then Some (m(buf := 48, buf + 1 := 0))
         else do {
           (tmp, tpos) \<leftarrow> digits_loop base (replicate 68 0) 0 (unat num);
           let (pos, m) = write_back tmp tpos buf m;
           Some (m(pos := 0))
         })"

partial_function (option) skip_blanks :: "mem \<Rightarrow> usize \<Rightarrow> usize option" where
  "skip_blanks m p = (if m p = 32 \<or> m p = 9 then skip_blanks m (p + 1) else Some p)"

partial_function (option) atoi_loop :: "mem \<Rightarrow> usize \<Rightarrow> i32 \<Rightarrow> i32 option" where
  "atoi_loop m p n =
     (let b = m p
      in if b < 48 \<or> b > 57 then Some n
         else atoi_loop m (p + 1) (n * 10 + ucast (b - 48)))"

definition krust_atoi :: "usize \<Rightarrow> mem \<Rightarrow> i32 option" where
  "krust_atoi s m = do {
     p \<leftarrow> skip_blanks m s;
     let neg = (m p = 45);
     let p = (if m p = 45 \<or> m p = 43 then p + 1 else p);
     n \<leftarrow> atoi_loop m p 0;
     Some (if neg then - n else n)
   }"


section \<open>Block moves\<close>

text \<open>The memory with the block of \<open>n\<close> bytes at \<open>src\<close>, as it was, at \<open>dest\<close>.\<close>

definition blit :: "usize \<Rightarrow> usize \<Rightarrow> usize \<Rightarrow> mem \<Rightarrow> mem" where
  "blit dest src n m = (\<lambda>a. if dest \<le> a \<and> a < dest + n then m (src + (a - dest)) else m a)"

lemma copy_byte_apply: "copy_byte dest src i m a = (if a = dest + i then m (src + i) else m a)"
  by (simp add: copy_byte_def)

lemma fold_forward:
  assumes "dest \<le> src \<or> src + n \<le> dest"
  shows "fold (copy_byte dest src) [0..<n] m = blit dest src n m"
  using assms
proof (induction n)
  case (Suc n)
  then have "fold (copy_byte dest src) [0..<n] m = blit dest src n m" by auto
  moreover have "copy_byte dest src n (blit dest src n m) = blit dest src (Suc n) m"
    using Suc.prems by (auto simp: blit_def copy_byte_apply fun_eq_iff)
  ultimately show ?case by simp
qed (auto simp: blit_def fun_eq_iff)

lemma move_down_blit: "src \<le> dest \<Longrightarrow> move_down dest src n m = blit dest src n m"
proof (induction n arbitrary: m)
  case (Suc n)
  then show ?case by (auto simp: blit_def copy_byte_apply fun_eq_iff less_Suc_eq)
qed (auto simp: blit_def fun_eq_iff)

lemma memset_fill: "fold (\<lambda>i m. m(s + i := c)) [0..<n] m = (\<lambda>a. if s \<le> a \<and> a < s + n then c else m a)"
  by (induction n) (auto simp: fun_eq_iff)

section \<open>NUL-terminated strings\<close>

fun cstr :: "mem \<Rightarrow> usize \<Rightarrow> u8 list \<Rightarrow> bool" where
  "cstr m s [] \<longleftrightarrow> m s = 0"
| "cstr m s (x # xs) \<longleftrightarrow> m s = x \<and> x \<noteq> 0 \<and> cstr m (s + 1) xs"

lemma cstr_nth: "cstr m s xs \<longleftrightarrow> (\<forall>i < length xs. m (s + i) = xs ! i \<and> xs ! i \<noteq> 0) \<and> m (s + length xs) = 0"
proof (induction xs arbitrary: s)
  case (Cons x xs)
  show ?case unfolding cstr.simps Cons by (auto simp: nth_Cons less_Suc_eq_0_disj)
qed simp

lemma cstr_det: "cstr m s xs \<Longrightarrow> cstr m s ys \<Longrightarrow> xs = ys"
proof (induction xs arbitrary: s ys)
  case Nil
  then show ?case by (cases ys) auto
next
  case (Cons x xs)
  then show ?case by (cases ys) auto
qed

lemma strlen_walk: "cstr m (s + i) xs \<Longrightarrow> strlen_loop m s i = Some (i + length xs)"
proof (induction xs arbitrary: i)
  case Nil
  then show ?case by (subst strlen_loop.simps) simp
next
  case (Cons x xs)
  then show ?case using Cons.IH [of "i + 1"] by (subst strlen_loop.simps) auto
qed

lemma byte_diff_0: "uint (a :: u8) = uint b \<longleftrightarrow> a = b" "uint (a :: u8) = 0 \<longleftrightarrow> a = 0"
  "0 = uint (a :: u8) \<longleftrightarrow> a = 0"
  by (auto simp: word_uint_eq_iff)

text \<open>
  The comparison of two strings: the difference of the first bytes that differ, with the end of a
  string as a zero byte. Its sign is the order of the strings byte by byte.
\<close>

fun bytes_diff :: "u8 list \<Rightarrow> u8 list \<Rightarrow> int" where
  "bytes_diff [] [] = 0"
| "bytes_diff (x # xs) [] = uint x"
| "bytes_diff [] (y # ys) = - uint y"
| "bytes_diff (x # xs) (y # ys) = (if x \<noteq> y then uint x - uint y else bytes_diff xs ys)"

lemma bytes_diff_order:
  assumes "0 \<notin> set xs" and "0 \<notin> set ys"
  shows "bytes_diff xs ys = 0 \<longleftrightarrow> xs = ys" and "bytes_diff xs ys < 0 \<longleftrightarrow> (xs, ys) \<in> lexord {(a, b). a < b}"
proof -
  have pos: "0 < uint x" if "x \<noteq> 0" for x :: u8 using that by (simp add: word_neq_0_conv word_less_def)
  show "bytes_diff xs ys = 0 \<longleftrightarrow> xs = ys"
    using assms by (induction xs ys rule: bytes_diff.induct) (auto simp: byte_diff_0)
  show "bytes_diff xs ys < 0 \<longleftrightarrow> (xs, ys) \<in> lexord {(a, b). a < b}"
    using assms
  proof (induction xs ys rule: bytes_diff.induct)
    case (3 y ys)
    then show ?case using pos [of y] by auto
  qed (auto simp: word_less_def)
qed

lemma cstr_nonzero: "cstr m s xs \<Longrightarrow> 0 \<notin> set xs"
  by (induction m s xs rule: cstr.induct) auto

lemma strcmp_walk:
  "cstr m (s1 + i) xs \<Longrightarrow> cstr m (s2 + i) ys \<Longrightarrow> strcmp_loop m s1 s2 i = Some (bytes_diff xs ys)"
proof (induction xs ys arbitrary: i rule: bytes_diff.induct)
  case (4 x xs y ys)
  then show ?case using "4.IH" [of "i + 1"] by (subst strcmp_loop.simps) auto
qed (subst strcmp_loop.simps, auto)+

lemma strncmp_walk:
  "cstr m (s1 + i) xs \<Longrightarrow> cstr m (s2 + i) ys \<Longrightarrow>
     strncmp_loop m s1 s2 k i = bytes_diff (take k xs) (take k ys)"
proof (induction k arbitrary: i xs ys)
  case (Suc k)
  show ?case
  proof (cases "xs \<noteq> [] \<and> ys \<noteq> [] \<and> hd xs = hd ys")
    case True
    then obtain x us vs where "xs = x # us" "ys = x # vs" by (cases xs; cases ys) auto
    with Suc.prems show ?thesis using Suc.IH [of "i + 1" us vs] by (auto simp: Let_def)
  next
    case False
    with Suc.prems show ?thesis by (cases xs; cases ys) (auto simp: Let_def)
  qed
qed simp

lemma cstr_upd: "a < s \<or> s + length xs < a \<Longrightarrow> cstr (m(a := x)) s xs = cstr m s xs"
  by (induction m s xs rule: cstr.induct) auto

lemma strcpy_walk:
  "cstr m s xs \<Longrightarrow> d \<le> s \<or> s + length xs < d \<Longrightarrow> strcpy_loop d s m = Some (blit d s (length xs + 1) m)"
proof (induction xs arbitrary: d s m)
  case Nil
  then show ?case by (subst strcpy_loop.simps) (auto simp: blit_def fun_eq_iff)
next
  case (Cons x xs)
  have "cstr (m(d := x)) (s + 1) xs" using Cons.prems by (subst cstr_upd) auto
  moreover have "d + 1 \<le> s + 1 \<or> s + 1 + length xs < d + 1" using Cons.prems(2) by auto
  ultimately have "strcpy_loop (d + 1) (s + 1) (m(d := x)) =
      Some (blit (d + 1) (s + 1) (length xs + 1) (m(d := x)))" by (rule Cons.IH)
  moreover have "blit (d + 1) (s + 1) (length xs + 1) (m(d := m s)) = blit d s (length (x # xs) + 1) m"
    using Cons.prems(2) by (auto simp: blit_def fun_eq_iff intro!: arg_cong [where f = m])
  ultimately show ?case using Cons.prems(1) by (subst strcpy_loop.simps) auto
qed

text \<open>What \<open>strncpy\<close> leaves: the first \<open>n\<close> bytes of the string, padded with zeros.\<close>

definition padded :: "usize \<Rightarrow> usize \<Rightarrow> u8 list \<Rightarrow> mem \<Rightarrow> mem" where
  "padded d n xs m =
     (\<lambda>a. if d \<le> a \<and> a < d + n then (if a - d < length xs then xs ! (a - d) else 0) else m a)"

lemma padded_Cons: "padded (d + 1) k xs (m(d := x)) = padded d (Suc k) (x # xs) m"
  by (auto simp: padded_def fun_eq_iff nth_Cons split: nat.splits intro!: arg_cong [where f = "nth xs"])

lemma strncpy_walk:
  assumes "cstr m s xs" and "d + k \<le> s \<or> s + length xs < d"
  shows "(let (k', d', m') = strncpy_copy k d s m in fold (\<lambda>i m. m(d' + i := 0)) [0..<k'] m') = padded d k xs m"
  using assms
proof (induction k arbitrary: d s xs m)
  case 0
  then show ?case by (auto simp: padded_def fun_eq_iff)
next
  case (Suc k)
  show ?case
  proof (cases xs)
    case Nil
    with Suc.prems have "strncpy_copy (Suc k) d s m = (Suc k, d, m(d := 0))" by simp
    then show ?thesis using Nil by (simp only: Let_def split_conv memset_fill) (auto simp: padded_def fun_eq_iff)
  next
    case (Cons x ys)
    have "cstr (m(d := x)) (s + 1) ys" using Suc.prems Cons by (subst cstr_upd) auto
    moreover have "d + 1 + k \<le> s + 1 \<or> s + 1 + length ys < d + 1" using Suc.prems(2) Cons by auto
    ultimately have "(let (k', d', m') = strncpy_copy k (d + 1) (s + 1) (m(d := x))
        in fold (\<lambda>i m. m(d' + i := 0)) [0..<k'] m') = padded (d + 1) k ys (m(d := x))"
      by (rule Suc.IH)
    moreover have "strncpy_copy (Suc k) d s m = strncpy_copy k (d + 1) (s + 1) (m(d := x))"
      using Suc.prems(1) Cons by simp
    ultimately show ?thesis using Cons by (simp only: padded_Cons)
  qed
qed

section \<open>Digits\<close>

fun digs :: "nat \<Rightarrow> nat \<Rightarrow> nat list" where
  "digs base x = (if x = 0 \<or> base < 2 then [] else x mod base # digs base (x div base))"

declare digs.simps [simp del]

lemma digs_0 [simp]: "digs base 0 = []"
  by (simp add: digs.simps)

lemma digs_pos: "0 < x \<Longrightarrow> 2 \<le> base \<Longrightarrow> digs base x = x mod base # digs base (x div base)"
  by (subst digs.simps) simp

lemma length_digs: "2 \<le> base \<Longrightarrow> x < base ^ k \<Longrightarrow> length (digs base x) \<le> k"
proof (induction k arbitrary: x)
  case (Suc k)
  then have "x div base < base ^ k" by (simp add: less_mult_imp_div_less mult.commute)
  with Suc show ?case by (cases "x = 0") (auto simp: digs_pos)
qed simp

lemma digs_less: "2 \<le> base \<Longrightarrow> d \<in> set (digs base x) \<Longrightarrow> d < base"
proof (induction base x rule: digs.induct)
  case (1 base x)
  then show ?case by (cases "x = 0") (auto simp: digs_pos)
qed

lemma digs_value: "2 \<le> base \<Longrightarrow> foldr (\<lambda>d v. d + base * v) (digs base x) 0 = x"
proof (induction base x rule: digs.induct)
  case (1 base x)
  then show ?case by (cases "x = 0") (auto simp: digs_pos)
qed

lemma digits_loop_digs:
  assumes "2 \<le> base" and "tpos + length (digs base x) \<le> length tmp"
  shows "digits_loop base tmp tpos x =
    Some (take tpos tmp @ map digit_to_char (digs base x) @ drop (tpos + length (digs base x)) tmp,
          tpos + length (digs base x))"
  using assms
proof (induction base x arbitrary: tpos tmp rule: digs.induct)
  case (1 base x)
  show ?case
  proof (cases "x = 0")
    case True
    then show ?thesis by (subst digits_loop.simps) simp
  next
    case False
    let ?t = "tmp[tpos := digit_to_char (x mod base)]"
    have d: "digs base x = x mod base # digs base (x div base)" using False 1(2) by (simp add: digs_pos)
    then have "digits_loop base ?t (tpos + 1) (x div base) =
      Some (take (tpos + 1) ?t @ map digit_to_char (digs base (x div base)) @
            drop (tpos + 1 + length (digs base (x div base))) ?t,
            tpos + 1 + length (digs base (x div base)))"
      using 1 False by (intro 1(1)) auto
    moreover have "tpos < length tmp" using 1(3) d by simp
    moreover have "take (tpos + 1) ?t = take tpos tmp @ [digit_to_char (x mod base)]"
      using \<open>tpos < length tmp\<close> by (simp add: take_Suc_conv_app_nth take_update_swap list_update_append)
    ultimately show ?thesis using False d by (subst digits_loop.simps) simp
  qed
qed

lemma write_back_spec:
  "t \<le> length tmp \<Longrightarrow> write_back tmp t p m =
     (p + t, \<lambda>a. if p \<le> a \<and> a < p + t then tmp ! (t - 1 - (a - p)) else m a)"
proof (induction t arbitrary: p m)
  case (Suc t)
  then show ?case by (auto simp: fun_eq_iff Suc_diff_le)
qed (auto simp: fun_eq_iff)


lemma unat_digit: "d < 36 \<Longrightarrow> unat (digit_to_char d) = (if d < 10 then 48 + d else 87 + d)"
proof -
  assume d: "d < 36"
  have "digit_to_char d = of_nat (if d < 10 then 48 + d else 87 + d)"
    by (auto simp: digit_to_char_def of_nat_diff)
  moreover have "(if d < 10 then 48 + d else 87 + d) < 2 ^ LENGTH(8)" using d by simp
  ultimately show ?thesis by (simp only: unat_of_nat_small)
qed

lemma digit_nonzero: "d < 36 \<Longrightarrow> digit_to_char d \<noteq> 0"
  using unat_digit [of d] by (auto split: if_splits)

section \<open>Text of a number\<close>

definition num_text :: "nat \<Rightarrow> nat \<Rightarrow> u8 list" where
  "num_text base x = map digit_to_char (rev (digs base x))"

lemma write_back_cstr:
  assumes "take t tmp = ds" and "t = length ds" and "t \<le> length tmp" and "\<forall>d \<in> set ds. d \<noteq> 0"
    and "write_back tmp t p m = (pos, m')"
  shows "cstr (m'(pos := 0)) p (rev ds)" and "\<forall>a < p. (m'(pos := 0)) a = m a"
proof -
  have w: "pos = p + t" "m' = (\<lambda>a. if p \<le> a \<and> a < p + t then tmp ! (t - 1 - (a - p)) else m a)"
    using write_back_spec [OF assms(3), of p m] assms(5) by auto
  have "tmp ! (t - 1 - i) = rev ds ! i \<and> rev ds ! i \<noteq> 0" if "i < t" for i
  proof -
    have "t - 1 - i < t" using that by simp
    then have "tmp ! (t - 1 - i) = ds ! (t - 1 - i)" using assms(1) by (metis nth_take)
    moreover have "rev ds ! i = ds ! (t - 1 - i)" using that assms(2) by (simp add: rev_nth)
    moreover have "ds ! (t - 1 - i) \<in> set ds" using that assms(2) by simp
    ultimately show ?thesis using assms(4) by auto
  qed
  then show "cstr (m'(pos := 0)) p (rev ds)" unfolding cstr_nth w using assms(2) by auto
  show "\<forall>a < p. (m'(pos := 0)) a = m a" by (auto simp: w)
qed

text \<open>Writing the digits of a positive number, the part the three conversions share.\<close>

lemma render:
  assumes "2 \<le> base" and "base \<le> 36" and "x < base ^ cap"
  obtains tmp t pos m' where "digits_loop base (replicate cap 0) 0 x = Some (tmp, t)"
    "write_back tmp t p m = (pos, m')" "cstr (m'(pos := 0)) p (num_text base x)"
    "\<forall>a < p. (m'(pos := 0)) a = m a"
proof -
  let ?ds = "map digit_to_char (digs base x)"
  have len: "length (digs base x) \<le> cap" using length_digs assms by simp
  define tmp where "tmp = ?ds @ drop (length ?ds) (replicate cap (0 :: u8))"
  have d: "digits_loop base (replicate cap 0) 0 x = Some (tmp, length ?ds)"
    using digits_loop_digs [OF assms(1), of 0 x "replicate cap 0"] len by (simp add: tmp_def)
  obtain pos m' where w: "write_back tmp (length ?ds) p m = (pos, m')" by fastforce
  have "\<forall>c \<in> set ?ds. c \<noteq> 0" using digs_less [OF assms(1)] digit_nonzero assms(2) by fastforce
  with write_back_cstr [of "length ?ds" tmp ?ds p m pos m'] w len
  have "cstr (m'(pos := 0)) p (rev ?ds)" "\<forall>a < p. (m'(pos := 0)) a = m a" by (auto simp: tmp_def)
  with d w show thesis using that by (simp add: num_text_def rev_map)
qed

lemma clamp_base_range: "2 \<le> clamp_base b" "clamp_base b \<le> 36"
  by (auto simp: clamp_base_def word_less_nat_alt not_less)

lemma power_bound: "2 \<le> (base :: nat) \<Longrightarrow> x < 2 ^ k \<Longrightarrow> k \<le> cap \<Longrightarrow> x < base ^ cap"
  by (meson less_le_trans one_le_numeral order_trans power_increasing power_mono zero_le)

lemma atoi_walk:
  "cstr m p (map digit_to_char ds) \<Longrightarrow> \<forall>d \<in> set ds. d < 10 \<Longrightarrow>
     atoi_loop m p n = Some (foldl (\<lambda>n d. n * 10 + of_nat d) n ds)"
proof (induction ds arbitrary: p n)
  case Nil
  then show ?case by (subst atoi_loop.simps) simp
next
  case (Cons d ds)
  have u: "unat (digit_to_char d) = 48 + d" using unat_digit [of d] Cons.prems(2) by simp
  have "\<not> (digit_to_char d < 48 \<or> digit_to_char d > 57)"
    using Cons.prems(2) by (simp add: word_less_nat_alt u)
  moreover have "ucast (digit_to_char d - 48) = (of_nat d :: i32)"
  proof -
    have "digit_to_char d - 48 = of_nat d" using Cons.prems(2) by (simp add: digit_to_char_def)
    moreover have "unat (of_nat d :: u8) = d" using Cons.prems(2) by (intro unat_of_nat_small) simp
    ultimately show ?thesis by (metis of_nat_unat)
  qed
  ultimately show ?case using Cons by (subst atoi_loop.simps) (simp add: Let_def)
qed

lemma foldl_digits: "foldl (\<lambda>n d. n * 10 + of_nat d) (0 :: i32) (rev (digs 10 x)) = of_nat x"
proof -
  have "foldr (\<lambda>d n. n * 10 + of_nat d) ds (0 :: i32) = of_nat (foldr (\<lambda>d v. d + 10 * v) ds 0)" for ds
    by (induction ds) (auto simp: algebra_simps)
  then show ?thesis using digs_value [of 10 x] by (simp add: foldl_conv_foldr)
qed


lemma itoa_text:
  "\<exists>m'. krust_itoa_base num buf base m = Some m' \<and>
     cstr m' buf (if num = 0 then [48]
       else (if sint num < 0 then [45] else []) @ num_text (clamp_base base) (nat \<bar>sint num\<bar>))"
proof (cases "num = 0")
  case True
  then show ?thesis by (simp add: krust_itoa_base_def)
next
  case False
  let ?b = "clamp_base base" and ?n = "nat \<bar>sint num\<bar>"
  let ?p = "if sint num < 0 then buf + 1 else buf" and ?m = "if sint num < 0 then m(buf := 45) else m"
  have "\<bar>sint num\<bar> < 2 ^ 32" using sint_greater_eq [of num] sint_less [of num] by auto
  then have "?n < 2 ^ 32" by auto
  then have "?n < ?b ^ 36" by (rule power_bound [OF clamp_base_range(1)]) simp
  then obtain tmp t pos m' where r: "digits_loop ?b (replicate 36 0) 0 ?n = Some (tmp, t)"
    "write_back tmp t ?p ?m = (pos, m')" "cstr (m'(pos := 0)) ?p (num_text ?b ?n)"
    "\<forall>a < ?p. (m'(pos := 0)) a = ?m a"
    by (rule render [OF clamp_base_range])
  have "nat (- sint num) = ?n" if "sint num < 0" using that by simp
  moreover have "nat (sint num) = ?n" if "\<not> sint num < 0" using that by simp
  ultimately have "krust_itoa_base num buf base m = Some (m'(pos := 0))"
    using False r(1,2) by (auto simp: krust_itoa_base_def Let_def)
  moreover have "sint num < 0 \<Longrightarrow> (m'(pos := 0)) buf = 45" using r(4) by auto
  ultimately show ?thesis using False r(3) by auto
qed

section \<open>Properties\<close>

text \<open>
  \<open>memmove\<close> moves the block as it was, for every overlap of source and destination, and changes
  no other byte.
\<close>

lemma memmove_any_overlap:
  "krust_memmove dest src n m =
     (dest, \<lambda>a. if dest \<le> a \<and> a < dest + n then m (src + (a - dest)) else m a)"
  using fold_forward [of dest src n m] move_down_blit [of src dest n m]
  by (auto simp: krust_memmove_def blit_def)

text \<open>
  Printing and reading back: for every 32-bit integer, \<open>krust_itoa\<close> returns (its digit buffer is
  never overrun) and \<open>krust_atoi\<close> reads the same integer from the text it wrote.
\<close>

lemma itoa_atoi_round_trip:
  "\<exists>m'. krust_itoa num buf m = Some m' \<and> krust_atoi buf m' = Some num"
proof -
  have c10: "clamp_base 10 = 10" by (simp add: clamp_base_def)
  obtain m' where m': "krust_itoa num buf m = Some m'"
    "cstr m' buf (if num = 0 then [48] else (if sint num < 0 then [45] else []) @ num_text 10 (nat \<bar>sint num\<bar>))"
    using itoa_text [of num buf 10 m] unfolding krust_itoa_def c10 by blast
  have read: "atoi_loop m' p 0 = Some (of_nat x)" if "cstr m' p (num_text 10 x)" for p x
    using atoi_walk [of m' p "rev (digs 10 x)" 0] that digs_less [of 10] foldl_digits
    by (simp add: num_text_def)
  have first: "m' p \<noteq> 32 \<and> m' p \<noteq> 9 \<and> m' p \<noteq> 45 \<and> m' p \<noteq> 43"
    if c: "cstr m' p (num_text 10 x)" and x: "x \<noteq> 0" for p x
  proof -
    obtain d ds where d: "rev (digs 10 x) = d # ds" using x digs_pos [of x 10] by (cases "rev (digs 10 x)") auto
    then have "d \<in> set (digs 10 x)" by (metis list.set_intros(1) set_rev)
    then have "d < 10" using digs_less [of 10 d x] by simp
    then have "unat (m' p) = 48 + d" using c d unat_digit [of d] by (simp add: num_text_def)
    then show ?thesis by auto
  qed
  consider (zero) "num = 0" | (neg) "sint num < 0" | (pos) "num \<noteq> 0" "\<not> sint num < 0" by blast
  then show ?thesis
  proof cases
    case zero
    then have "m' buf = 48" "m' (buf + 1) = 0" using m'(2) by auto
    then have "skip_blanks m' buf = Some buf" by (subst skip_blanks.simps) simp
    moreover have "atoi_loop m' buf 0 = Some 0"
      using atoi_walk [of m' buf "[0]" 0] \<open>m' buf = 48\<close> \<open>m' (buf + 1) = 0\<close>
      by (simp add: digit_to_char_def)
    ultimately show ?thesis using zero \<open>m' buf = 48\<close> m'(1) by (simp add: krust_atoi_def)
  next
    case neg
    then have "num \<noteq> 0" by auto
    with neg m'(2) have b: "m' buf = 45" "cstr m' (buf + 1) (num_text 10 (nat (- sint num)))" by auto
    have "skip_blanks m' buf = Some buf" using b(1) by (subst skip_blanks.simps) simp
    moreover have "- of_nat (nat (- sint num)) = num" using neg by (simp add: of_nat_nat)
    ultimately show ?thesis using b read [OF b(2)] m'(1) by (simp add: krust_atoi_def)
  next
    case pos
    then have b: "cstr m' buf (num_text 10 (nat (sint num)))" using m'(2) by auto
    have "sint num \<noteq> 0" using pos(1) by (simp only: signed_eq_0_iff) simp
    then have "nat (sint num) \<noteq> 0" using pos(2) by simp
    note f = first [OF b this]
    then have "skip_blanks m' buf = Some buf" by (subst skip_blanks.simps) simp
    moreover have "of_nat (nat (sint num)) = num" using pos by (simp add: of_nat_nat)
    ultimately show ?thesis using f read [OF b] m'(1) by (simp add: krust_atoi_def)
  qed
qed


text \<open>
  C19. The string routines agree with lists of bytes. On NUL-terminated strings they return: \<open>strlen\<close>
  is the length; \<open>strcmp\<close>, and \<open>strncmp\<close> on the first \<open>n\<close> bytes, give the difference of the
  first bytes that differ, which is zero exactly for equal strings and negative exactly when the first
  comes first byte by byte. To a place that does not overlap \<open>strcpy\<close> copies the string with its
  NUL, and \<open>strncpy\<close> writes exactly \<open>n\<close> bytes, the string cut to \<open>n\<close> or padded with zeros;
  both return the destination and change no other byte.
\<close>

theorem string_routines:
  assumes "cstr m s xs" and "cstr m t ys"
  shows "krust_strlen s m = Some (length xs) \<and>
    krust_strcmp s t m = Some (bytes_diff xs ys) \<and>
    krust_strncmp s t n m = bytes_diff (take n xs) (take n ys) \<and>
    (bytes_diff xs ys = 0 \<longleftrightarrow> xs = ys) \<and> (bytes_diff xs ys < 0 \<longleftrightarrow> (xs, ys) \<in> lexord {(a, b). a < b}) \<and>
    (s + length xs < d \<or> d + length xs < s \<longrightarrow>
       (\<exists>m'. krust_strcpy d s m = Some (d, m') \<and> cstr m' d xs \<and>
          (\<forall>a. a < d \<or> d + length xs < a \<longrightarrow> m' a = m a))) \<and>
    (s + length xs < d \<or> d + n \<le> s \<longrightarrow>
       (\<exists>m'. krust_strncpy d s n m = (d, m') \<and>
          (\<forall>i < n. m' (d + i) = (if i < length xs then xs ! i else 0)) \<and>
          (\<forall>a. a < d \<or> d + n \<le> a \<longrightarrow> m' a = m a)))"
proof -
  have "krust_strlen s m = Some (length xs)"
    using strlen_walk [of m s 0 xs] assms(1) by (simp add: krust_strlen_def)
  moreover have "krust_strcmp s t m = Some (bytes_diff xs ys)"
    using strcmp_walk [of m s 0 xs t ys] assms by (simp add: krust_strcmp_def)
  moreover have "krust_strncmp s t n m = bytes_diff (take n xs) (take n ys)"
    using strncmp_walk [of m s 0 xs t ys n] assms by (simp add: krust_strncmp_def)
  moreover note bytes_diff_order [OF assms [THEN cstr_nonzero]]
  moreover have "\<exists>m'. krust_strcpy d s m = Some (d, m') \<and> cstr m' d xs \<and>
      (\<forall>a. a < d \<or> d + length xs < a \<longrightarrow> m' a = m a)"
    if "s + length xs < d \<or> d + length xs < s"
  proof -
    let ?m = "blit d s (length xs + 1) m"
    have "cstr ?m d xs" "\<forall>a. a < d \<or> d + length xs < a \<longrightarrow> ?m a = m a"
      using assms(1) unfolding cstr_nth by (auto simp: blit_def)
    then show ?thesis using strcpy_walk [OF assms(1), of d] that by (auto simp: krust_strcpy_def)
  qed
  moreover have "\<exists>m'. krust_strncpy d s n m = (d, m') \<and>
      (\<forall>i < n. m' (d + i) = (if i < length xs then xs ! i else 0)) \<and> (\<forall>a. a < d \<or> d + n \<le> a \<longrightarrow> m' a = m a)"
    if "s + length xs < d \<or> d + n \<le> s"
  proof -
    have "krust_strncpy d s n m = (d, padded d n xs m)"
      using strncpy_walk [OF assms(1), of d n] that by (auto simp: krust_strncpy_def split: prod.splits)
    then show ?thesis by (auto simp: padded_def)
  qed
  ultimately show ?thesis by blast
qed

definition two_strings :: mem where
  "two_strings = (\<lambda>a. if a = 16 then 97 else if a = 17 then 98 else if a = 32 then 97 else 0)"

theorem string_routines_witness:
  "krust_strlen 16 two_strings = Some 2 \<and> krust_strcmp 16 32 two_strings = Some 98 \<and>
     krust_strcmp 32 16 two_strings = Some (- 98) \<and> krust_strncmp 16 32 1 two_strings = 0 \<and>
     (\<exists>m'. krust_strcpy 100 16 two_strings = Some (100, m') \<and> cstr m' 100 [97, 98] \<and> m' 32 = 97)"
proof -
  have c: "cstr two_strings 16 [97, 98]" "cstr two_strings 32 [97]" by (simp_all add: two_strings_def)
  obtain m' where "krust_strcpy 100 16 two_strings = Some (100, m')" "cstr m' 100 [97, 98]" "m' 32 = two_strings 32"
    using string_routines [OF c, of 1 100] by auto
  then show ?thesis
    using string_routines [OF c, of 1 100] string_routines [OF c(2,1), of 1 100] by (auto simp: two_strings_def)
qed

text \<open>
  No conversion of a number to text overruns its digit buffer, whatever the base argument: the
  signed and unsigned 32-bit and the 64-bit conversion always return, and what they write for an
  unsigned number is its digits in the base used, highest first.
\<close>

lemma uitoa_text:
  "(\<exists>m'. krust_uitoa64_base num64 buf base m = Some m' \<and>
      cstr m' buf (if num64 = 0 then [48] else num_text (clamp_base base) (unat num64))) \<and>
   (\<exists>m'. krust_uitoa_base num32 buf base m = Some m' \<and>
      cstr m' buf (if num32 = 0 then [48] else num_text (clamp_base base) (unat num32))) \<and>
   (\<exists>m'. krust_itoa_base numi buf base m = Some m')"
proof -
  let ?b = "clamp_base base"
  have "unat num64 < ?b ^ 68"
    using unat_bound [of num64] by (intro power_bound [OF clamp_base_range(1), of _ 64]) auto
  then obtain tmp t pos m' where "digits_loop ?b (replicate 68 0) 0 (unat num64) = Some (tmp, t)"
    "write_back tmp t buf m = (pos, m')" "cstr (m'(pos := 0)) buf (num_text ?b (unat num64))"
    by (rule render [OF clamp_base_range])
  then have "\<exists>m'. krust_uitoa64_base num64 buf base m = Some m' \<and>
      cstr m' buf (if num64 = 0 then [48] else num_text (clamp_base base) (unat num64))"
    by (simp add: krust_uitoa64_base_def)
  moreover have "unat num32 < ?b ^ 36"
    using unat_bound [of num32] by (intro power_bound [OF clamp_base_range(1), of _ 32]) auto
  then obtain tmp t pos m' where "digits_loop ?b (replicate 36 0) 0 (unat num32) = Some (tmp, t)"
    "write_back tmp t buf m = (pos, m')" "cstr (m'(pos := 0)) buf (num_text ?b (unat num32))"
    by (rule render [OF clamp_base_range])
  then have "\<exists>m'. krust_uitoa_base num32 buf base m = Some m' \<and>
      cstr m' buf (if num32 = 0 then [48] else num_text (clamp_base base) (unat num32))"
    by (simp add: krust_uitoa_base_def)
  ultimately show ?thesis using itoa_text [of numi buf base m] by blast
qed

end
