(* ===== verification/Wire.thy ===== *)
theory Wire
  imports Kernel_Prelude "HOL-Library.Monad_Syntax"
begin

unbundle bit_operations_syntax

text \<open>
  Bytes on the wire, shared by the protocol theories: big-endian and little-endian encodings of 16-
  and 32-bit numbers as the packed header structures of \<open>kernel/src/net\<close> lay them out on a
  little-endian processor, the sums of 16-bit words the checksums are computed from, and the loop that
  folds the carries of such a sum. The lemmas give the encode/decode round trips and the arithmetic of
  sums modulo 65535, where folding and byte swapping are congruences.
\<close>

section \<open>Addresses\<close>

type_synonym ip4 = "u8 \<times> u8 \<times> u8 \<times> u8"
type_synonym mac6 = "u8 \<times> u8 \<times> u8 \<times> u8 \<times> u8 \<times> u8"

fun ip_bytes :: "ip4 \<Rightarrow> u8 list" where
  "ip_bytes (a, b, c, d) = [a, b, c, d]"

fun mac_bytes :: "mac6 \<Rightarrow> u8 list" where
  "mac_bytes (a, b, c, d, e, f) = [a, b, c, d, e, f]"

lemma length_ip_bytes [simp]: "length (ip_bytes i) = 4"
  by (cases i) auto

lemma length_mac_bytes [simp]: "length (mac_bytes i) = 6"
  by (cases i) auto

section \<open>Encodings\<close>

definition hi8 :: "u16 \<Rightarrow> u8" where
  "hi8 w = ucast (drop_bit 8 w)"

definition lo8 :: "u16 \<Rightarrow> u8" where
  "lo8 w = ucast w"

text \<open>A field stored with \<open>to_be\<close>, and one stored as it is.\<close>

definition be16 :: "u16 \<Rightarrow> u8 list" where
  "be16 w = [hi8 w, lo8 w]"

definition le16 :: "u16 \<Rightarrow> u8 list" where
  "le16 w = [lo8 w, hi8 w]"

definition be32 :: "u32 \<Rightarrow> u8 list" where
  "be32 w = be16 (ucast (drop_bit 16 w)) @ be16 (ucast w)"

text \<open>\<open>u16::from_be_bytes\<close> and \<open>u32::from_be_bytes\<close>.\<close>

definition from_be16 :: "u8 \<Rightarrow> u8 \<Rightarrow> u16" where
  "from_be16 a b = push_bit 8 (ucast a) OR ucast b"

definition from_be32 :: "u8 \<Rightarrow> u8 \<Rightarrow> u8 \<Rightarrow> u8 \<Rightarrow> u32" where
  "from_be32 a b c d = push_bit 16 (ucast (from_be16 a b)) OR ucast (from_be16 c d)"

text \<open>Fields of a header at an offset; a header is only read after its length was checked.\<close>

definition rd_be16 :: "u8 list \<Rightarrow> nat \<Rightarrow> u16" where
  "rd_be16 d i = from_be16 (d ! i) (d ! (i + 1))"

definition rd_le16 :: "u8 list \<Rightarrow> nat \<Rightarrow> u16" where
  "rd_le16 d i = from_be16 (d ! (i + 1)) (d ! i)"

definition rd_be32 :: "u8 list \<Rightarrow> nat \<Rightarrow> u32" where
  "rd_be32 d i = from_be32 (d ! i) (d ! (i + 1)) (d ! (i + 2)) (d ! (i + 3))"

text \<open>\<open>to_be\<close> and \<open>from_be\<close> on a little-endian processor, as a value.\<close>

definition swap16 :: "u16 \<Rightarrow> u16" where
  "swap16 w = from_be16 (lo8 w) (hi8 w)"

definition swap32 :: "u32 \<Rightarrow> u32" where
  "swap32 w = from_be32 (lo8 (ucast w)) (hi8 (ucast w)) (lo8 (ucast (drop_bit 16 w))) (hi8 (ucast (drop_bit 16 w)))"

section \<open>Checksums\<close>

text \<open>
  The sum of the 16-bit big-endian words of a byte string, an odd last byte counting as a high byte;
  the additions are those of \<open>u32\<close>.
\<close>

fun sum_be :: "u8 list \<Rightarrow> nat \<Rightarrow> nat" where
  "sum_be (a # b # d) s = sum_be d ((s + (unat a * 256 + unat b)) mod 2 ^ 32)"
| "sum_be [a] s = (s + unat a * 256) mod 2 ^ 32"
| "sum_be [] s = s"

text \<open>The same with the words read in the byte order of the processor; the length is even.\<close>

fun sum_le :: "u8 list \<Rightarrow> nat \<Rightarrow> nat" where
  "sum_le (a # b # d) s = sum_le d ((s + (unat b * 256 + unat a)) mod 2 ^ 32)"
| "sum_le d s = s"

function fold_carry :: "nat \<Rightarrow> nat" where
  "fold_carry s = (if s div 2 ^ 16 \<noteq> 0 then fold_carry (s mod 2 ^ 16 + s div 2 ^ 16) else s)"
  by auto

termination
proof (relation "measure id")
  fix s :: nat
  assume "s div 2 ^ 16 \<noteq> 0"
  then have "s div 65536 \<noteq> 0" by simp
  then have "s mod 65536 + s div 65536 < s" using div_mult_mod_eq [of s 65536] by linarith
  then show "(s mod 2 ^ 16 + s div 2 ^ 16, s) \<in> measure id" by simp
qed simp

declare fold_carry.simps [simp del]

text \<open>\<open>!sum as u16\<close> of a folded sum.\<close>

definition not16 :: "nat \<Rightarrow> u16" where
  "not16 s = NOT (of_nat s)"

definition internet_checksum :: "u8 list \<Rightarrow> u16" where
  "internet_checksum data = not16 (fold_carry (sum_be data 0))"

section \<open>Round trips\<close>

lemma unat_from_be16: "unat (from_be16 a b) = unat a * 256 + unat b"
proof -
  have "push_bit 8 (ucast a) + ucast b = (push_bit 8 (ucast a) OR ucast b :: u16)"
    by (rule disjunctive_add)
      (auto simp: bit_push_bit_iff bit_ucast_iff dest: bit_imp_le_length simp del: push_bit_numeral)
  then have "from_be16 a b = ucast a * 256 + ucast b"
    by (simp add: from_be16_def push_bit_eq_mult)
  also have "\<dots> = of_nat (unat a * 256 + unat b)" by (simp add: of_nat_unat)
  finally show ?thesis
    using unat_bound [of a] unat_bound [of b]
    by (simp only:) (rule unat_of_nat_small, simp)
qed

lemma unat_hi8: "unat (hi8 w) = unat w div 256"
proof -
  have "unat w div 256 < 256" using unat_bound [of w] by (simp add: less_mult_imp_div_less)
  then show ?thesis by (simp only: hi8_def unat_ucast_mod unat_drop_bit) simp
qed

lemma unat_lo8: "unat (lo8 w) = unat w mod 256"
  by (simp only: lo8_def unat_ucast_mod) simp

lemma from_be16_hi_lo [simp]: "from_be16 (hi8 w) (lo8 w) = w"
  by (rule unsigned_word_eqI [where 'a = nat]) (simp add: unat_from_be16 unat_hi8 unat_lo8)


lemma unat_from_be32: "unat (from_be32 a b c d) = unat (from_be16 a b) * 65536 + unat (from_be16 c d)"
proof -
  let ?h = "from_be16 a b" and ?l = "from_be16 c d"
  have "push_bit 16 (ucast ?h) + ucast ?l = (push_bit 16 (ucast ?h) OR ucast ?l :: u32)"
    by (rule disjunctive_add)
      (auto simp: bit_push_bit_iff bit_ucast_iff dest: bit_imp_le_length simp del: push_bit_numeral)
  then have "from_be32 a b c d = ucast ?h * 65536 + ucast ?l"
    by (simp add: from_be32_def push_bit_eq_mult)
  also have "\<dots> = of_nat (unat ?h * 65536 + unat ?l)" by (simp add: of_nat_unat)
  finally show ?thesis
    using unat_bound [of ?h] unat_bound [of ?l]
    by (simp only:) (rule unat_of_nat_small, simp)
qed

lemma be32_nth [simp]:
  "from_be32 (be32 w ! 0) (be32 w ! Suc 0) (be32 w ! 2) (be32 w ! 3) = w"
proof -
  have "unat w div 65536 < 65536" using unat_bound [of w] by (simp add: less_mult_imp_div_less)
  then have "unat (ucast (drop_bit 16 w) :: u16) = unat w div 65536"
    by (simp only: unat_ucast_mod unat_drop_bit) simp
  moreover have "unat (ucast w :: u16) = unat w mod 65536" by (simp only: unat_ucast_mod) simp
  ultimately have "unat (from_be32 (be32 w ! 0) (be32 w ! Suc 0) (be32 w ! 2) (be32 w ! 3)) = unat w"
    by (simp add: be32_def be16_def unat_from_be32)
  then show ?thesis by (rule unsigned_word_eqI [where 'a = nat])
qed

lemma length_enc [simp]: "length (be16 w) = 2" "length (le16 w) = 2" "length (be32 x) = 4"
  by (simp_all add: be16_def le16_def be32_def)

lemma be16_nth [simp]: "be16 w ! 0 = hi8 w" "be16 w ! Suc 0 = lo8 w"
  by (simp_all add: be16_def)

lemma take_whole: "n = length a \<Longrightarrow> take n (a @ b) = a"
  by simp

lemma hi_lo_from_be16 [simp]: "hi8 (from_be16 a b) = a" "lo8 (from_be16 a b) = b"
  using unat_bound [of a] unat_bound [of b]
  by (auto intro!: unsigned_word_eqI [where 'a = nat] simp: unat_hi8 unat_lo8 unat_from_be16)

lemma swap16_swap16 [simp]: "swap16 (swap16 w) = w"
  by (simp add: swap16_def)

lemma halves_from_be32:
  "(ucast (from_be32 a b c d) :: u16) = from_be16 c d"
  "(ucast (drop_bit 16 (from_be32 a b c d)) :: u16) = from_be16 a b"
  using unat_bound [of "from_be16 a b"] unat_bound [of "from_be16 c d"]
  by (auto intro!: unsigned_word_eqI [where 'a = nat]
      simp: unat_ucast_mod unat_drop_bit unat_from_be32 simp del: unsigned_ucast_eq)

lemma swap32_swap32 [simp]: "swap32 (swap32 w) = w"
proof -
  have "from_be32 (hi8 (ucast (drop_bit 16 w))) (lo8 (ucast (drop_bit 16 w))) (hi8 (ucast w)) (lo8 (ucast w)) = w"
    using be32_nth [of w] by (simp add: be32_def be16_def)
  then show ?thesis by (simp add: swap32_def halves_from_be32)
qed

section \<open>Sums modulo 65535\<close>

text \<open>The sums without the reduction of \<open>u32\<close>.\<close>

fun words_be :: "u8 list \<Rightarrow> nat" where
  "words_be (a # b # d) = unat a * 256 + unat b + words_be d"
| "words_be [a] = unat a * 256"
| "words_be [] = 0"

fun words_le :: "u8 list \<Rightarrow> nat" where
  "words_le (a # b # d) = unat b * 256 + unat a + words_le d"
| "words_le d = 0"

lemma sum_be_words: "s + words_be d < 2 ^ 32 \<Longrightarrow> sum_be d s = s + words_be d"
  by (induction d s rule: sum_be.induct) auto

lemma sum_le_words: "s + words_le d < 2 ^ 32 \<Longrightarrow> sum_le d s = s + words_le d"
  by (induction d s rule: sum_le.induct) auto

lemma words_be_bound: "words_be d \<le> (length d + 1) div 2 * 65535"
proof (induction d rule: words_be.induct)
  case (1 a b d)
  have "unat a * 256 + unat b \<le> 65535" using unat_bound [of a] unat_bound [of b] by simp
  with 1 show ?case by simp
next
  case (2 a)
  then show ?case using unat_bound [of a] by simp
qed simp

lemma words_be_append: "even (length d) \<Longrightarrow> words_be (d @ e) = words_be d + words_be e"
  by (induction d rule: words_be.induct) auto

lemma words_le_append: "even (length d) \<Longrightarrow> words_le (d @ e) = words_le d + words_le e"
  by (induction d rule: words_le.induct) auto

lemma words_enc: "words_be (be16 w) = unat w" "words_le (le16 w) = unat w"
  by (simp_all add: be16_def le16_def unat_hi8 unat_lo8)

lemma words_swap_exact: "even (length d) \<Longrightarrow> \<exists>k. 256 * words_le d = words_be d + 65535 * k"
proof (induction d rule: words_le.induct)
  case (1 a b d)
  then obtain k where "256 * words_le d = words_be d + 65535 * k" by auto
  then have "256 * words_le (a # b # d) = words_be (a # b # d) + 65535 * (k + unat b)"
    by (simp add: algebra_simps)
  then show ?case by blast
qed auto

lemma words_swap: "even (length d) \<Longrightarrow> words_be d mod 65535 = 256 * words_le d mod 65535"
  using words_swap_exact [of d] by auto

lemma words_zero: "even (length d) \<Longrightarrow> words_be d = 0 \<longleftrightarrow> words_le d = 0"
  by (induction d rule: words_le.induct) auto

lemma fold_carry_0: "fold_carry 0 = 0"
  by (subst fold_carry.simps) simp

lemma fold_carry_mod: "fold_carry s mod 65535 = s mod 65535"
proof (induction s rule: fold_carry.induct)
  case (1 s)
  show ?case
  proof (cases "s div 2 ^ 16 = 0")
    case False
    have "s = (s mod 65536 + s div 65536) + 65535 * (s div 65536)"
      using div_mult_mod_eq [of s 65536] by linarith
    then have "(s mod 65536 + s div 65536) mod 65535 = s mod 65535" by (metis mod_mult_self2)
    with 1 False show ?thesis by (subst fold_carry.simps) simp
  qed (subst fold_carry.simps, simp)
qed

lemma fold_carry_le: "fold_carry s \<le> 65535"
proof (induction s rule: fold_carry.induct)
  case (1 s)
  then show ?case by (subst fold_carry.simps) (auto simp: div_eq_0_iff)
qed

lemma fold_carry_pos: "0 < s \<Longrightarrow> 0 < fold_carry s"
proof (induction s rule: fold_carry.induct)
  case (1 s)
  then show ?case by (subst fold_carry.simps) auto
qed


lemma unat_not16: "f \<le> 65535 \<Longrightarrow> unat (not16 f) = 65535 - f"
proof -
  assume f: "f \<le> 65535"
  then have "unat (of_nat f :: u16) = f" by (intro unat_of_nat_small) simp
  moreover have "NOT (of_nat f :: u16) = - 1 - of_nat f" by (simp add: not_eq_complement)
  moreover have "unat (- 1 - of_nat f :: u16) = unat (- 1 :: u16) - unat (of_nat f :: u16)"
    by (rule unat_sub) (rule word_n1_ge)
  moreover have "unat (- 1 :: u16) = 65535" by (simp add: unsigned_minus_1_eq_mask mask_eq_exp_minus_1)
  ultimately show ?thesis by (simp add: not16_def)
qed

lemma folded_multiple: "0 < s \<Longrightarrow> s mod 65535 = 0 \<Longrightarrow> fold_carry s = 65535"
proof -
  assume "0 < s" "s mod 65535 = 0"
  then have "fold_carry s mod 65535 = 0" "0 < fold_carry s" by (simp_all add: fold_carry_mod fold_carry_pos)
  then show ?thesis using fold_carry_le [of s] by (auto elim!: dvdE simp: mod_eq_0_iff_dvd)
qed

text \<open>
  Completing a sum with the complement of its folded value makes it a positive multiple of 65535,
  whatever the sum.
\<close>

lemma completed_sum: "0 < w + unat (not16 (fold_carry w)) \<and> (w + unat (not16 (fold_carry w))) mod 65535 = 0"
proof -
  have u: "unat (not16 (fold_carry w)) = 65535 - fold_carry w" using fold_carry_le by (rule unat_not16)
  have "(w + (65535 - fold_carry w)) mod 65535 = (w mod 65535 + (65535 - fold_carry w)) mod 65535"
    by (simp add: mod_simps)
  also have "\<dots> = (fold_carry w mod 65535 + (65535 - fold_carry w)) mod 65535" by (simp add: fold_carry_mod)
  also have "\<dots> = (fold_carry w + (65535 - fold_carry w)) mod 65535" by (simp add: mod_simps)
  also have "\<dots> = 0" using fold_carry_le [of w] by simp
  finally have "(w + (65535 - fold_carry w)) mod 65535 = 0" .
  moreover have "0 < w + (65535 - fold_carry w)"
    by (cases "w = 0") (simp_all add: fold_carry_0)
  ultimately show ?thesis by (simp add: u)
qed

text \<open>What a receiver checks: the words of the packet, checksum included, fold to all ones.\<close>

definition checks_out :: "u8 list \<Rightarrow> bool" where
  "checks_out d \<longleftrightarrow> fold_carry (words_be d) = 65535"

lemma checks_out_be:
  assumes "even (length d)" and "words_be d + words_be e < 2 ^ 32"
    and "c = internet_checksum (d @ [0, 0] @ e)"
  shows "checks_out (d @ be16 c @ e)"
proof -
  let ?w = "words_be d + words_be e"
  have "words_be (d @ [0, 0] @ e) = ?w" using assms(1) by (simp add: words_be_append)
  then have "c = not16 (fold_carry ?w)"
    using assms(2,3) by (simp add: internet_checksum_def sum_be_words)
  moreover have "words_be (d @ be16 c @ e) = ?w + unat c"
    using assms(1) by (simp add: words_be_append words_enc)
  ultimately show ?thesis using completed_sum [of ?w] by (simp add: checks_out_def folded_multiple)
qed

lemma checks_out_le:
  assumes "even (length d)" and "even (length e)" and "words_le d + words_le e < 2 ^ 32"
    and "c = not16 (fold_carry (sum_le (d @ [0, 0] @ e) 0))"
  shows "checks_out (d @ le16 c @ e)"
proof -
  let ?w = "words_le d + words_le e" and ?p = "d @ le16 c @ e"
  have "words_le (d @ [0, 0] @ e) = ?w" using assms(1) by (simp add: words_le_append)
  then have c: "c = not16 (fold_carry ?w)" using assms(3,4) by (simp add: sum_le_words)
  have l: "words_le ?p = ?w + unat c" using assms(1) by (simp add: words_le_append words_enc)
  then have m: "words_le ?p mod 65535 = 0" "0 < words_le ?p" using completed_sum [of ?w] c by auto
  have ev: "even (length ?p)" using assms(1,2) by simp
  have "65535 dvd words_le ?p" using m(1) by (simp add: mod_eq_0_iff_dvd)
  then have "words_be ?p mod 65535 = 0" unfolding words_swap [OF ev] by (simp add: mod_eq_0_iff_dvd)
  moreover have "0 < words_be ?p" using words_zero [OF ev] m(2) by simp
  ultimately show ?thesis by (simp add: checks_out_def folded_multiple)
qed

end
