(* ===== verification/Packets.thy ===== *)
theory Packets
  imports Wire
begin

unbundle bit_operations_syntax

text \<open>
  Frames and datagrams: Ethernet, ARP, IPv4, ICMP and UDP (\<open>kernel/src/net/ethernet.rs\<close>, \<open>arp.rs\<close>,
  \<open>ipv4.rs\<close>, \<open>icmp.rs\<close>, \<open>udp.rs\<close>). A builder takes the buffer and returns the length it reports with
  the new contents of the buffer; a parser takes the received bytes. A slice out of range panics, which
  is the outer None of a parser's result.
\<close>

section \<open>Ethernet\<close>

definition parse_ethernet_frame :: "u8 list \<Rightarrow> (u16 \<times> u8 list) option" where
  "parse_ethernet_frame data =
     (if length data < 14 then None else Some (rd_be16 data 12, drop 14 data))"

definition build_ethernet_frame ::
  "u8 list \<Rightarrow> mac6 \<Rightarrow> mac6 \<Rightarrow> u16 \<Rightarrow> u8 list \<Rightarrow> nat \<times> u8 list" where
  "build_ethernet_frame frame src_mac dest_mac ethertype payload =
     (if length frame < 14 + length payload then (0, frame)
      else (14 + length payload,
            mac_bytes dest_mac @ mac_bytes src_mac @ be16 ethertype @ payload @
            drop (14 + length payload) frame))"

section \<open>ARP\<close>

definition OP_REQUEST :: u16 where
  "OP_REQUEST = 1"

definition OP_REPLY :: u16 where
  "OP_REPLY = 2"

definition parse_arp_packet :: "u8 list \<Rightarrow> (u16 \<times> u8 list \<times> u8 list) option" where
  "parse_arp_packet data =
     (if length data < 28 then None
      else Some (rd_be16 data 6, take 6 (drop 8 data), take 4 (drop 14 data)))"

text \<open>The header is written through a pointer, so a buffer shorter than it is not allowed.\<close>

definition build_arp_request :: "u8 list \<Rightarrow> mac6 \<Rightarrow> ip4 \<Rightarrow> ip4 \<Rightarrow> u8 list option" where
  "build_arp_request packet src_mac src_ip target_ip =
     (if length packet < 28 then None
      else Some (be16 1 @ be16 0x0800 @ [6, 4] @ be16 OP_REQUEST @ mac_bytes src_mac @ ip_bytes src_ip @
                 replicate 6 0 @ ip_bytes target_ip @ drop 28 packet))"

definition build_arp_reply :: "u8 list \<Rightarrow> mac6 \<Rightarrow> ip4 \<Rightarrow> mac6 \<Rightarrow> ip4 \<Rightarrow> u8 list option" where
  "build_arp_reply packet src_mac src_ip target_mac target_ip =
     (if length packet < 28 then None
      else Some (be16 1 @ be16 0x0800 @ [6, 4] @ be16 OP_REPLY @ mac_bytes src_mac @ ip_bytes src_ip @
                 mac_bytes target_mac @ ip_bytes target_ip @ drop 28 packet))"

section \<open>IPv4\<close>

definition parse_ipv4_packet :: "u8 list \<Rightarrow> (u8 \<times> u8 list) option" where
  "parse_ipv4_packet data =
     (if length data < 20 then None
      else let ihl = unat (data ! 0 AND 0x0F) * 4
           in if length data < ihl then None else Some (data ! 9, drop ihl data))"

text \<open>
  The header fields before and after the checksum. The checksum field is not cleared before the words
  of the header are added up: what the buffer held there is part of the sum.
\<close>

definition ipv4_front :: "nat \<Rightarrow> u8 \<Rightarrow> u8 list" where
  "ipv4_front payload_len protocol =
     [0x45, 0] @ be16 (of_nat (20 + payload_len)) @ [0, 0, 0, 0, 64, protocol]"

definition build_ipv4_packet :: "u8 list \<Rightarrow> ip4 \<Rightarrow> ip4 \<Rightarrow> u8 \<Rightarrow> u8 list \<Rightarrow> nat \<times> u8 list" where
  "build_ipv4_packet packet src_ip dest_ip protocol payload =
     (if length packet < 20 + length payload then (0, packet)
      else let front = ipv4_front (length payload) protocol;
               addrs = ip_bytes src_ip @ ip_bytes dest_ip;
               sum = sum_le (front @ take 2 (drop 10 packet) @ addrs) 0;
               checksum = not16 (fold_carry sum)
           in (20 + length payload,
               front @ le16 checksum @ addrs @ payload @ drop (20 + length payload) packet))"

section \<open>ICMP\<close>

definition ICMP_ECHO_REQUEST :: u8 where
  "ICMP_ECHO_REQUEST = 8"

definition ICMP_ECHO_REPLY :: u8 where
  "ICMP_ECHO_REPLY = 0"

definition icmp_checksum :: "u8 list \<Rightarrow> u16" where
  "icmp_checksum data = not16 (fold_carry (sum_be data 0))"

definition parse_icmp_packet :: "u8 list \<Rightarrow> (u8 \<times> u16 \<times> u16 \<times> u8 list) option" where
  "parse_icmp_packet data =
     (if length data < 8 then None
      else Some (data ! 0, rd_be16 data 4, rd_be16 data 6, drop 8 data))"

definition build_icmp_echo_request :: "u8 list \<Rightarrow> u16 \<Rightarrow> u16 \<Rightarrow> u8 list \<Rightarrow> nat \<times> u8 list" where
  "build_icmp_echo_request packet ident seq payload =
     (let tot = 8 + length payload
      in if length packet < tot then (0, packet)
         else let tail = be16 ident @ be16 seq @ payload;
                  c = icmp_checksum ([ICMP_ECHO_REQUEST, 0] @ [0, 0] @ tail)
              in (tot, [ICMP_ECHO_REQUEST, 0] @ be16 c @ tail @ drop tot packet))"

definition build_icmp_reply :: "u8 list \<Rightarrow> u16 \<Rightarrow> u16 \<Rightarrow> u8 list \<Rightarrow> nat \<times> u8 list" where
  "build_icmp_reply packet ident seq payload =
     (let tot = 8 + length payload
      in if length packet < tot then (0, packet)
         else let tail = be16 ident @ be16 seq @ payload;
                  c = icmp_checksum ([ICMP_ECHO_REPLY, 0] @ [0, 0] @ tail)
              in (tot, [ICMP_ECHO_REPLY, 0] @ be16 c @ tail @ drop tot packet))"

section \<open>UDP\<close>

definition udp_checksum :: "ip4 \<Rightarrow> ip4 \<Rightarrow> u8 list \<Rightarrow> u16" where
  "udp_checksum src_ip dst_ip udp_data =
     (let len = swap16 (of_nat (length udp_data));
          pseudo = ip_bytes src_ip @ ip_bytes dst_ip @ [0, 17, hi8 len, lo8 len]
      in if 12 + length udp_data > 4096 then 0
         else let csum = not16 (fold_carry (sum_be (pseudo @ udp_data) 0))
              in if csum = 0 then 0xFFFF else csum)"

definition parse_udp_packet :: "u8 list \<Rightarrow> ((u16 \<times> u16 \<times> u8 list) option) option" where
  "parse_udp_packet data =
     (if length data < 8 then Some None
      else let src_port = rd_be16 data 0;
               dest_port = rd_be16 data 2;
               len = unat (rd_be16 data 4)
           in if length data < len then Some None
              else if len < 8 then None
              else Some (Some (src_port, dest_port, drop 8 (take len data))))"

definition build_udp_packet ::
  "u8 list \<Rightarrow> u16 \<Rightarrow> u16 \<Rightarrow> u8 list \<Rightarrow> ip4 \<Rightarrow> ip4 \<Rightarrow> nat \<times> u8 list" where
  "build_udp_packet packet src_port dest_port payload src_ip dst_ip =
     (let total_length = 8 + length payload
      in if length packet < total_length then (0, packet)
         else let front = be16 src_port @ be16 dest_port @ be16 (of_nat total_length);
                  csum = udp_checksum src_ip dst_ip (front @ [0, 0] @ payload)
              in (total_length, front @ be16 csum @ payload @ drop total_length packet))"

section \<open>Lemmas\<close>

lemma rd_be16_be16: "length d = i \<Longrightarrow> rd_be16 (d @ be16 w @ e) i = w"
  by (simp add: rd_be16_def nth_append)

lemma unat_of_nat_u16: "n < 65536 \<Longrightarrow> unat (of_nat n :: u16) = n"
  by (rule unat_of_nat_small) simp

lemma ipv4_front_length [simp]: "length (ipv4_front n p) = 10"
  by (simp add: ipv4_front_def)

lemma words_le_bound: "words_le d \<le> length d * 65535"
proof (induction d rule: words_le.induct)
  case (1 a b d)
  have "unat b * 256 + unat a \<le> 65535" using unat_bound [of a] unat_bound [of b] by simp
  with 1 show ?case by simp
qed auto

section \<open>Properties\<close>

text \<open>
  An IPv4 packet built in a cleared buffer parses back to its protocol and payload, and its header
  passes the receiver's checksum test, although the words are added in the processor's byte order.
\<close>

lemma ipv4_build_parse:
  assumes "20 + length payload \<le> length packet" and "take 2 (drop 10 packet) = [0, 0]"
    and "build_ipv4_packet packet src dst protocol payload = (n, out)"
  shows "n = 20 + length payload \<and> length out = length packet \<and>
    checks_out (take 20 out) \<and> parse_ipv4_packet (take n out) = Some (protocol, payload)"
proof -
  let ?f = "ipv4_front (length payload) protocol" and ?a = "ip_bytes src @ ip_bytes dst"
  define c where "c = not16 (fold_carry (sum_le (?f @ [0, 0] @ ?a) 0))"
  have out: "out = ?f @ le16 c @ ?a @ payload @ drop (20 + length payload) packet" "n = 20 + length payload"
    using assms by (auto simp: build_ipv4_packet_def c_def Let_def split: if_splits)
  have "words_le ?f + words_le ?a < 2 ^ 32"
    using words_le_bound [of ?f] words_le_bound [of ?a] by simp
  then have "checks_out (?f @ le16 c @ ?a)"
    by (intro checks_out_le) (simp_all add: c_def)
  moreover have "take 20 out = ?f @ le16 c @ ?a" by (simp add: out)
  moreover have "take n out = ?f @ le16 c @ ?a @ payload" by (simp add: out)
  moreover have "(?f @ le16 c @ ?a @ payload) ! 0 = 0x45" "(?f @ le16 c @ ?a @ payload) ! 9 = protocol"
    by (simp_all add: ipv4_front_def be16_def nth_append)
  moreover have "drop 20 (?f @ le16 c @ ?a @ payload) = payload" by simp
  ultimately show ?thesis using assms(1) out by (simp add: parse_ipv4_packet_def)
qed

text \<open>
  ICMP echo requests and replies parse back to what they were built from and pass the receiver's
  checksum test, for every payload that fits the buffer.
\<close>

lemma icmp_build_parse:
  assumes "8 + length payload \<le> length packet" and "length packet \<le> 65535"
    and "build_icmp_echo_request packet ident seq payload = (n, out)"
    and "build_icmp_reply packet ident seq payload = (n', out')"
  shows "checks_out (take n out) \<and> checks_out (take n' out') \<and>
    parse_icmp_packet (take n out) = Some (ICMP_ECHO_REQUEST, ident, seq, payload) \<and>
    parse_icmp_packet (take n' out') = Some (ICMP_ECHO_REPLY, ident, seq, payload)"
proof -
  have built: "checks_out ([t, 0] @ be16 (icmp_checksum ([t, 0] @ [0, 0] @ tl)) @ tl) \<and>
    parse_icmp_packet ([t, 0] @ be16 c @ tl) = Some (t, ident, seq, payload)"
    if "tl = be16 ident @ be16 seq @ payload" for t c and tl
  proof -
    have "words_be [t, 0] + words_be tl < 2 ^ 32"
      using words_be_bound [of tl] words_be_bound [of "[t, 0]"] assms(1,2) that by simp
    then have "checks_out ([t, 0] @ be16 (icmp_checksum ([t, 0] @ [0, 0] @ tl)) @ tl)"
      by (intro checks_out_be) (simp_all add: icmp_checksum_def internet_checksum_def)
    then show ?thesis using that
      by (simp add: parse_icmp_packet_def rd_be16_def be16_def)
  qed
  let ?tl = "be16 ident @ be16 seq @ payload"
  let ?p = "\<lambda>t. [t, 0] @ be16 (icmp_checksum ([t, 0] @ [0, 0] @ ?tl)) @ ?tl"
  have "out = ?p 8 @ drop n packet" "out' = ?p 0 @ drop n' packet" "n = length (?p 8)" "n' = length (?p 0)"
    using assms by (auto simp: build_icmp_echo_request_def build_icmp_reply_def Let_def
        ICMP_ECHO_REQUEST_def ICMP_ECHO_REPLY_def)
  then have "take n out = ?p 8" "take n' out' = ?p 0" by (simp_all only: take_whole)
  then show ?thesis using built [of ?tl 8] built [of ?tl 0]
    by (simp only: ICMP_ECHO_REQUEST_def ICMP_ECHO_REPLY_def)
qed

text \<open>
  A UDP datagram built in a buffer parses back to its ports and payload.
\<close>

lemma udp_build_parse:
  assumes "8 + length payload \<le> length packet" and "length packet \<le> 65535"
    and "build_udp_packet packet sport dport payload src dst = (n, out)"
  shows "n = 8 + length payload \<and> parse_udp_packet (take n out) = Some (Some (sport, dport, payload))"
proof -
  let ?f = "be16 sport @ be16 dport @ be16 (of_nat (8 + length payload))"
  define c where "c = udp_checksum src dst (?f @ [0, 0] @ payload)"
  have out: "n = 8 + length payload" "out = (?f @ be16 c @ payload) @ drop n packet"
    using assms by (auto simp: build_udp_packet_def Let_def c_def)
  then have p: "take n out = ?f @ be16 c @ payload" by (simp add: take_whole)
  have len: "length (take n out) = n" using out(1) unfolding p by simp
  have "rd_be16 (take n out) 0 = sport" unfolding p using rd_be16_be16 [of "[]" 0 sport] by simp
  moreover have "rd_be16 (take n out) 2 = dport"
    unfolding p using rd_be16_be16 [of "be16 sport" 2 dport] by simp
  moreover have "rd_be16 (take n out) 4 = of_nat (8 + length payload)"
    unfolding p using rd_be16_be16 [of "be16 sport @ be16 dport" 4] by simp
  moreover have "unat (of_nat (8 + length payload) :: u16) = n"
    using assms(1,2) out(1) unat_of_nat_u16 [of "8 + length payload"] by simp
  moreover have "drop 8 (take n (take n out)) = payload" unfolding p by (simp add: out(1))
  ultimately show ?thesis using len out(1) by (simp add: parse_udp_packet_def Let_def)
qed

text \<open>
  The UDP parser panics on exactly the datagrams whose length field is below the size of the
  header: the field is compared with the bytes received but not with 8 before the payload is sliced.
\<close>

lemma udp_parse_panics_iff:
  "parse_udp_packet data = None \<longleftrightarrow> 8 \<le> length data \<and> unat (rd_be16 data 4) < 8"
  by (auto simp: parse_udp_packet_def Let_def)

text \<open>
  Ethernet frames and ARP requests and replies parse back to what they were built from.
\<close>

lemma ethernet_arp_build_parse:
  assumes "14 + length payload \<le> length frame" and "28 \<le> length packet"
    and "build_ethernet_frame frame src_mac dest_mac ethertype payload = (n, out)"
  shows "parse_ethernet_frame (take n out) = Some (ethertype, payload) \<and>
    (\<exists>p q. build_arp_request packet src_mac src_ip target_ip = Some p \<and>
       build_arp_reply packet src_mac src_ip dest_mac target_ip = Some q \<and>
       parse_arp_packet p = Some (OP_REQUEST, mac_bytes src_mac, ip_bytes src_ip) \<and>
       parse_arp_packet q = Some (OP_REPLY, mac_bytes src_mac, ip_bytes src_ip))"
proof -
  have "n = 14 + length payload"
    "out = (mac_bytes dest_mac @ mac_bytes src_mac @ be16 ethertype @ payload) @ drop n frame"
    using assms(1,3) by (auto simp: build_ethernet_frame_def)
  then have p: "take n out = mac_bytes dest_mac @ mac_bytes src_mac @ be16 ethertype @ payload"
    by (simp add: take_whole)
  have "parse_ethernet_frame (take n out) = Some (ethertype, payload)"
    unfolding p parse_ethernet_frame_def
    using rd_be16_be16 [of "mac_bytes dest_mac @ mac_bytes src_mac" 12 ethertype payload] by simp
  moreover have "parse_arp_packet (be16 1 @ be16 0x0800 @ [6, 4] @ be16 op @ mac_bytes src_mac @ ip_bytes src_ip @ r)
      = Some (op, mac_bytes src_mac, ip_bytes src_ip)" if "10 \<le> length r" for op r
    using that rd_be16_be16 [of "be16 1 @ be16 0x0800 @ [6, 4]" 6 op "mac_bytes src_mac @ ip_bytes src_ip @ r"]
    by (simp add: parse_arp_packet_def)
  ultimately show ?thesis using assms(2) by (simp add: build_arp_request_def build_arp_reply_def)
qed

end
