(* ===== verification/Tcp.thy ===== *)
theory Tcp
  imports Wire
begin

unbundle bit_operations_syntax

text \<open>
  TCP connections (\<open>kernel/src/net/tcp.rs\<close>): the segment format with its checksum, the connection
  record, and one function per operation of a connection. Each operation that sends returns the
  sequence number it reports with the 200-byte packet buffer, or nothing. \<open>ticks\<close> is the value the
  timer interrupt counter has during the call. A slice index out of range panics, which is the value
  None of \<open>process_segment\<close>.
\<close>

section \<open>Segments\<close>

record tcp_header =
  src_port :: u16
  dest_port :: u16
  seq_num :: u32
  ack_num :: u32
  data_offset_flags :: u16
  window_size :: u16
  checksum :: u16
  urgent_ptr :: u16

definition FLAG_FIN :: u16 where "FLAG_FIN = 0x0001"
definition FLAG_SYN :: u16 where "FLAG_SYN = 0x0002"
definition FLAG_RST :: u16 where "FLAG_RST = 0x0004"
definition FLAG_PSH :: u16 where "FLAG_PSH = 0x0008"
definition FLAG_ACK :: u16 where "FLAG_ACK = 0x0010"

definition TCP_HEADER_SIZE :: nat where "TCP_HEADER_SIZE = 20"
definition DEFAULT_WINDOW :: u16 where "DEFAULT_WINDOW = 65535"

definition rd_le32 :: "u8 list \<Rightarrow> nat \<Rightarrow> u32" where
  "rd_le32 d i = from_be32 (d ! (i + 3)) (d ! (i + 2)) (d ! (i + 1)) (d ! i)"

text \<open>The packed structure at the start of a byte string, its fields in the processor's byte order.\<close>

definition tcp_header_at :: "u8 list \<Rightarrow> tcp_header" where
  "tcp_header_at d = \<lparr>src_port = rd_le16 d 0, dest_port = rd_le16 d 2, seq_num = rd_le32 d 4,
     ack_num = rd_le32 d 8, data_offset_flags = rd_le16 d 12, window_size = rd_le16 d 14,
     checksum = rd_le16 d 16, urgent_ptr = rd_le16 d 18\<rparr>"

definition parse_tcp_packet :: "u8 list \<Rightarrow> (tcp_header \<times> u8 list) option" where
  "parse_tcp_packet data =
     (if length data < TCP_HEADER_SIZE then None
      else let header = tcp_header_at data;
               data_offset = unat (drop_bit 12 (data_offset_flags header) AND 0xF) * 4
           in if length data < data_offset then None
              else Some (header, drop data_offset data))"

text \<open>The header is given by its bytes; all additions are those of \<open>u32\<close>.\<close>

definition calculate_checksum :: "ip4 \<Rightarrow> ip4 \<Rightarrow> u8 list \<Rightarrow> u8 list \<Rightarrow> u16" where
  "calculate_checksum src_ip dest_ip tcp_header payload =
     (let sum = sum_be (ip_bytes src_ip) 0;
          sum = sum_be (ip_bytes dest_ip) sum;
          sum = (sum + 6) mod 2 ^ 32;
          sum = (sum + (20 + length payload) mod 2 ^ 32) mod 2 ^ 32;
          sum = sum_be tcp_header sum;
          sum = sum_be payload sum
      in not16 (fold_carry sum))"

text \<open>
  The header up to the checksum field: ports, numbers and window are stored with \<open>to_be\<close>, the data
  offset with the flags is stored as it is.
\<close>

definition tcp_front :: "u16 \<Rightarrow> u16 \<Rightarrow> u32 \<Rightarrow> u32 \<Rightarrow> u16 \<Rightarrow> u16 \<Rightarrow> u8 list" where
  "tcp_front sport dport seq ack flags window =
     be16 sport @ be16 dport @ be32 seq @ be32 ack @ le16 (push_bit 12 5 OR flags) @ be16 window"

definition build_tcp_packet ::
  "u8 list \<Rightarrow> ip4 \<Rightarrow> ip4 \<Rightarrow> u16 \<Rightarrow> u16 \<Rightarrow> u32 \<Rightarrow> u32 \<Rightarrow> u16 \<Rightarrow> u16 \<Rightarrow> u8 list \<Rightarrow> nat \<times> u8 list" where
  "build_tcp_packet packet src_ip dest_ip sport dport seq ack flags window payload =
     (let total_length = 20 + length payload
      in if length packet < total_length then (0, packet)
         else let front = tcp_front sport dport seq ack flags window;
                  c = calculate_checksum src_ip dest_ip (front @ [0, 0, 0, 0]) payload
              in (total_length, front @ le16 c @ [0, 0] @ payload @ drop total_length packet))"

section \<open>Connections\<close>

datatype tcp_state = Closed | Listen | SynSent | SynReceived | Established | FinWait1 | FinWait2
  | CloseWait | Closing | LastAck | TimeWait

record socket_addr =
  sa_ip :: ip4
  sa_port :: u16

record tcp_connection =
  local_addr :: socket_addr
  remote_addr :: socket_addr
  conn_state :: tcp_state
  send_seq :: u32
  send_unack :: u32
  recv_seq :: u32
  send_window :: u16
  recv_window :: u16
  mss :: u16
  retransmit_timeout :: u64
  last_activity :: u64
  retransmit_count :: u8
  recv_buf :: "u8 list"
  recv_pos :: usize
  send_buf :: "u8 list"
  send_pos :: usize
  socket_fd :: i32

type_synonym response = "(u32 \<times> u8 list) option"

definition generate_isn :: "u32 \<Rightarrow> u32 \<Rightarrow> u32 \<times> u32" where
  "generate_isn isn_seed ticks =
     (let x = (isn_seed XOR ticks) XOR 0xDEADBEEF;
          x = x * 0x41C64E6D;
          x = x XOR drop_bit 16 x;
          x = x * 0x1B873593;
          x = x XOR drop_bit 13 x
      in (x, isn_seed + 1))"

definition tcp_new :: "u32 \<Rightarrow> u32 \<Rightarrow> socket_addr \<Rightarrow> socket_addr \<Rightarrow> tcp_connection \<times> u32" where
  "tcp_new isn_seed ticks la ra =
     (let (isn, isn_seed) = generate_isn isn_seed ticks
      in (\<lparr>local_addr = la, remote_addr = ra, conn_state = Closed, send_seq = isn, send_unack = 0,
           recv_seq = 0, send_window = DEFAULT_WINDOW, recv_window = DEFAULT_WINDOW, mss = 1460,
           retransmit_timeout = 1000, last_activity = 0, retransmit_count = 0,
           recv_buf = replicate 4096 0, recv_pos = 0, send_buf = replicate 4096 0, send_pos = 0,
           socket_fd = - 1\<rparr>, isn_seed))"

definition update_activity :: "u32 \<Rightarrow> tcp_connection \<Rightarrow> tcp_connection" where
  "update_activity ticks c = c\<lparr>last_activity := ucast ticks\<rparr>"

definition advertised_recv_window :: "tcp_connection \<Rightarrow> u16" where
  "advertised_recv_window c =
     (let remaining = of_nat (length (recv_buf c) - recv_pos c)
      in if remaining < of_nat (length (recv_buf c) div 4) then remaining else DEFAULT_WINDOW)"

definition bytes_in_flight :: "tcp_connection \<Rightarrow> u32" where
  "bytes_in_flight c = send_seq c - send_unack c"

text \<open>The call of \<open>build_tcp_packet\<close> on a cleared 200-byte buffer that every operation makes.\<close>

definition conn_packet :: "tcp_connection \<Rightarrow> u32 \<Rightarrow> u32 \<Rightarrow> u16 \<Rightarrow> u16 \<Rightarrow> u8 list \<Rightarrow> nat \<times> u8 list" where
  "conn_packet c seq ack flags window payload =
     build_tcp_packet (replicate 200 0) (sa_ip (local_addr c)) (sa_ip (remote_addr c))
       (sa_port (local_addr c)) (sa_port (remote_addr c)) seq ack flags window payload"

text \<open>The packet with the number reported for it, if it was built.\<close>

definition reply :: "u32 \<Rightarrow> nat \<times> u8 list \<Rightarrow> response" where
  "reply n lp = (if fst lp > 0 then Some (n, snd lp) else None)"

definition build_syn :: "u32 \<Rightarrow> tcp_connection \<Rightarrow> response \<times> tcp_connection" where
  "build_syn ticks c =
     (if conn_state c \<noteq> Closed then (None, c)
      else let c = c\<lparr>conn_state := SynSent\<rparr>;
               c = c\<lparr>send_unack := send_seq c\<rparr>;
               seq = send_seq c;
               c = c\<lparr>send_seq := send_seq c + 1\<rparr>;
               c = update_activity ticks c
           in (reply seq (conn_packet c seq 0 FLAG_SYN DEFAULT_WINDOW []), c))"

definition has_flag :: "u16 \<Rightarrow> u16 \<Rightarrow> bool" where
  "has_flag flags f \<longleftrightarrow> flags AND f \<noteq> 0"

text \<open>
  Storing received data: the room left in the buffer is computed by a subtraction of \<open>usize\<close>, and the
  slice written must lie inside the buffer.
\<close>

definition store_data :: "u8 list \<Rightarrow> tcp_connection \<Rightarrow> tcp_connection option" where
  "store_data payload c =
     (let data_start = recv_pos c;
          space = wsub (length (recv_buf c)) data_start;
          copy_len = min (length payload) space
      in if copy_len > 0 then
           if data_start + copy_len \<le> length (recv_buf c) then
             Some (c\<lparr>recv_buf := take data_start (recv_buf c) @ take copy_len payload @
                                 drop (data_start + copy_len) (recv_buf c),
                     recv_pos := data_start + copy_len\<rparr>)
           else None
         else Some c)"

definition on_established ::
  "u16 \<Rightarrow> u32 \<Rightarrow> u16 \<Rightarrow> u8 list \<Rightarrow> tcp_connection \<Rightarrow> (response \<times> tcp_connection) option" where
  "on_established flags ack window payload c =
     (let c = (if has_flag flags FLAG_ACK then
                 let c = c\<lparr>send_unack := ack, retransmit_count := 0\<rparr>
                 in if window > 0 then c\<lparr>send_window := window\<rparr> else c
               else c)
      in do {
        (response, c) \<leftarrow>
          (if payload \<noteq> [] then do {
             c \<leftarrow> store_data payload c;
             let c = c\<lparr>recv_seq := recv_seq c + of_nat (length payload)\<rparr>;
             Some (reply (recv_seq c)
               (conn_packet c (send_seq c) (recv_seq c) FLAG_ACK (advertised_recv_window c) []), c)
           } else Some (None, c));
        if has_flag flags FLAG_FIN then
          let c = c\<lparr>recv_seq := recv_seq c + 1, conn_state := CloseWait\<rparr>;
              p = reply (recv_seq c) (conn_packet c (send_seq c) (recv_seq c) FLAG_ACK DEFAULT_WINDOW [])
          in Some (if p \<noteq> None then p else response, c)
        else Some (response, c)
      })"

definition on_close_wait :: "tcp_connection \<Rightarrow> (response \<times> tcp_connection) option" where
  "on_close_wait c =
    (let seq = send_seq c;
         c = c\<lparr>send_seq := send_seq c + 1, conn_state := LastAck\<rparr>
     in Some (reply seq
          (conn_packet c seq (recv_seq c) (FLAG_FIN OR FLAG_ACK) (advertised_recv_window c) []), c))"

definition on_fin_wait1 :: "u16 \<Rightarrow> u32 \<Rightarrow> tcp_connection \<Rightarrow> (response \<times> tcp_connection) option" where
  "on_fin_wait1 flags ack c =
    (let c = (if has_flag flags FLAG_ACK then c\<lparr>send_unack := ack, conn_state := FinWait2\<rparr> else c)
     in if has_flag flags FLAG_FIN then
          let c = c\<lparr>recv_seq := recv_seq c + 1\<rparr>;
              p = reply (recv_seq c)
                (conn_packet c (send_seq c) (recv_seq c) FLAG_ACK (advertised_recv_window c) [])
          in Some (p, c\<lparr>conn_state := TimeWait\<rparr>)
        else Some (None, c))"

definition on_fin_wait2 :: "u16 \<Rightarrow> tcp_connection \<Rightarrow> (response \<times> tcp_connection) option" where
  "on_fin_wait2 flags c =
    (if has_flag flags FLAG_FIN then
       let c = c\<lparr>recv_seq := recv_seq c + 1\<rparr>;
           p = reply (recv_seq c)
             (conn_packet c (send_seq c) (recv_seq c) FLAG_ACK (advertised_recv_window c) [])
       in Some (p, c\<lparr>conn_state := TimeWait\<rparr>)
     else Some (None, c))"

definition process_segment ::
  "u32 \<Rightarrow> u16 \<Rightarrow> u32 \<Rightarrow> u32 \<Rightarrow> u16 \<Rightarrow> u8 list \<Rightarrow> tcp_connection \<Rightarrow> (response \<times> tcp_connection) option" where
  "process_segment ticks flags seq ack window payload c0 =
     (let c = update_activity ticks c0
      in case conn_state c of
           SynSent \<Rightarrow>
             if has_flag flags FLAG_SYN \<and> has_flag flags FLAG_ACK then
               let c = c\<lparr>recv_seq := seq + 1\<rparr>;
                   ack_seq = recv_seq c;
                   c = c\<lparr>conn_state := Established\<rparr>
               in Some (reply ack_seq (conn_packet c (send_seq c) ack_seq FLAG_ACK DEFAULT_WINDOW []), c)
             else if has_flag flags FLAG_RST then Some (None, c\<lparr>conn_state := Closed\<rparr>)
             else Some (None, c)
         | SynReceived \<Rightarrow>
             if has_flag flags FLAG_ACK then Some (None, c\<lparr>recv_seq := seq, conn_state := Established\<rparr>)
             else Some (None, c)
         | Established \<Rightarrow> on_established flags ack window payload c
         | CloseWait \<Rightarrow> on_close_wait c
         | FinWait1 \<Rightarrow> on_fin_wait1 flags ack c
         | FinWait2 \<Rightarrow> on_fin_wait2 flags c
         | LastAck \<Rightarrow> Some (None, if has_flag flags FLAG_ACK then c\<lparr>conn_state := Closed\<rparr> else c)
         | TimeWait \<Rightarrow> Some (None, c)
         | Closing \<Rightarrow> Some (None, if has_flag flags FLAG_ACK then c\<lparr>conn_state := TimeWait\<rparr> else c)
         | Listen \<Rightarrow> Some (None, c)
         | Closed \<Rightarrow> Some (None, c))"

definition send_data :: "u8 list \<Rightarrow> tcp_connection \<Rightarrow> response \<times> tcp_connection" where
  "send_data dat c =
     (if conn_state c \<noteq> Established then (None, c)
      else let available = unat (send_window c) - unat (bytes_in_flight c)
           in if available = 0 then (None, c)
              else let chunk_len = min (length dat) available;
                       seq = send_seq c;
                       (len, packet) = conn_packet c seq (recv_seq c) (FLAG_ACK OR FLAG_PSH)
                         (advertised_recv_window c) (take chunk_len dat)
                   in if len > 0 then (Some (seq, packet), c\<lparr>send_seq := send_seq c + of_nat chunk_len\<rparr>)
                      else (None, c))"

definition tcp_close :: "tcp_connection \<Rightarrow> response \<times> tcp_connection" where
  "tcp_close c =
     (if conn_state c = Established \<or> conn_state c = CloseWait then
        let seq = send_seq c;
            c = c\<lparr>send_seq := send_seq c + 1, conn_state := FinWait1\<rparr>
        in (reply seq
              (conn_packet c seq (recv_seq c) (FLAG_FIN OR FLAG_ACK) (advertised_recv_window c) []), c)
      else (None, c\<lparr>conn_state := Closed\<rparr>))"

definition check_retransmit :: "u32 \<Rightarrow> tcp_connection \<Rightarrow> response \<times> tcp_connection" where
  "check_retransmit ticks c =
     (if conn_state c \<noteq> Established then (None, c)
      else if bytes_in_flight c = 0 then (None, c)
      else let elapsed = ucast ticks - last_activity c;
               timeout_ticks = retransmit_timeout c div 10
           in if elapsed < timeout_ticks then (None, c)
              else let c = c\<lparr>retransmit_count := retransmit_count c + 1\<rparr>
                   in if retransmit_count c > 5 then (None, c\<lparr>conn_state := Closed\<rparr>)
                      else let c = c\<lparr>retransmit_timeout := min (retransmit_timeout c * 2) 30000\<rparr>;
                               c = update_activity ticks c;
                               seq = send_unack c
                           in (reply seq (conn_packet c seq (recv_seq c) FLAG_ACK
                                 (advertised_recv_window c) []), c))"

text \<open>
  The periodic check over the table of connections: the packets it collects for sending, with the
  address they go to, and the table afterwards. At most 16 packets are collected.
\<close>

fun retransmit_scan ::
  "u32 \<Rightarrow> nat \<Rightarrow> tcp_connection option list \<Rightarrow> (ip4 \<times> u8 list) list \<times> tcp_connection option list" where
  "retransmit_scan ticks cnt [] = ([], [])"
| "retransmit_scan ticks cnt (None # cs) =
     (if cnt \<ge> 16 then ([], None # cs)
      else let (ps, cs) = retransmit_scan ticks cnt cs in (ps, None # cs))"
| "retransmit_scan ticks cnt (Some c # cs) =
     (if cnt \<ge> 16 then ([], Some c # cs)
      else case check_retransmit ticks c of
             (Some (seq, packet), c) \<Rightarrow>
               let (ps, cs) = retransmit_scan ticks (cnt + 1) cs
               in ((sa_ip (remote_addr c), packet) # ps, Some c # cs)
           | (None, c) \<Rightarrow>
               let (ps, cs) = retransmit_scan ticks cnt cs in (ps, Some c # cs))"

definition tcp_retransmit_check ::
  "u32 \<Rightarrow> tcp_connection option list \<Rightarrow> (ip4 \<times> u8 list) list \<times> tcp_connection option list" where
  "tcp_retransmit_check ticks conns = retransmit_scan ticks 0 conns"


section \<open>Building and parsing\<close>

lemma length_tcp_front [simp]: "length (tcp_front sport dport seq ack flags window) = 16"
  by (simp add: tcp_front_def)

lemma be32_bytes: "be32 w = [hi8 (ucast (drop_bit 16 w)), lo8 (ucast (drop_bit 16 w)), hi8 (ucast w), lo8 (ucast w)]"
  by (simp add: be32_def be16_def)

text \<open>The header structure read back from the bytes of a segment.\<close>

lemma tcp_header_at_front:
  "tcp_header_at (tcp_front sport dport seq ack flags window @ le16 c @ [0, 0] @ r) =
     \<lparr>src_port = swap16 sport, dest_port = swap16 dport, seq_num = swap32 seq, ack_num = swap32 ack,
      data_offset_flags = push_bit 12 5 OR flags, window_size = swap16 window, checksum = c,
      urgent_ptr = 0\<rparr>"
  by (simp add: tcp_header_at_def tcp_front_def be16_def le16_def be32_bytes rd_le16_def rd_le32_def
      swap16_def swap32_def from_be16_def [of 0 0] nth_append)

lemma data_offset_5:
  "drop_bit 12 flags = 0 \<Longrightarrow> unat (drop_bit 12 (push_bit 12 5 OR flags) AND 0xF :: u16) * 4 = 20"
proof -
  assume "drop_bit 12 flags = 0"
  then have "drop_bit 12 (push_bit 12 5 OR flags) = (5 :: u16)" by (simp add: drop_bit_or)
  then show ?thesis by simp
qed

lemma build_parse:
  assumes "drop_bit 12 flags = 0" and "20 + length payload \<le> length packet"
    and "build_tcp_packet packet src dst sport dport seq ack flags window payload = (n, out)"
  shows "n = 20 + length payload \<and> length out = length packet \<and>
    (\<exists>c. parse_tcp_packet (take n out) =
       Some (\<lparr>src_port = swap16 sport, dest_port = swap16 dport, seq_num = swap32 seq,
              ack_num = swap32 ack, data_offset_flags = push_bit 12 5 OR flags,
              window_size = swap16 window, checksum = c, urgent_ptr = 0\<rparr>, payload))"
proof -
  let ?f = "tcp_front sport dport seq ack flags window"
  define c where "c = calculate_checksum src dst (?f @ [0, 0, 0, 0]) payload"
  have out: "n = 20 + length payload" "out = (?f @ le16 c @ [0, 0] @ payload) @ drop n packet"
    using assms(2,3) by (auto simp: build_tcp_packet_def Let_def c_def)
  then have p: "take n out = ?f @ le16 c @ [0, 0] @ payload" by (simp add: take_whole)
  have "length (take n out) = n" unfolding p by (simp add: out(1))
  then have "parse_tcp_packet (take n out) = Some (tcp_header_at (take n out), drop 20 (take n out))"
    using data_offset_5 [OF assms(1)] unfolding parse_tcp_packet_def Let_def TCP_HEADER_SIZE_def
    by (simp only: p tcp_header_at_front tcp_header.select_convs) (simp add: out(1))
  moreover have "drop 20 (take n out) = payload" unfolding p by simp
  ultimately show ?thesis using out assms(2) unfolding p tcp_header_at_front by auto
qed

section \<open>Invariant\<close>

definition tcp_inv :: "tcp_connection \<Rightarrow> bool" where
  "tcp_inv c \<longleftrightarrow> length (recv_buf c) = 4096 \<and> recv_pos c \<le> 4096 \<and> retransmit_timeout c \<le> 30000"

text \<open>The bytes received and not yet taken by the application.\<close>

definition recv_bytes :: "tcp_connection \<Rightarrow> u8 list" where
  "recv_bytes c = take (recv_pos c) (recv_buf c)"

lemma store_data_ok:
  assumes "length (recv_buf c) = 4096" and "recv_pos c \<le> 4096"
  obtains c' where "store_data payload c = Some c'" "recv_bytes c' = take 4096 (recv_bytes c @ payload)"
    "length (recv_buf c') = 4096" "recv_pos c' \<le> 4096"
    "c' = c\<lparr>recv_buf := recv_buf c', recv_pos := recv_pos c'\<rparr>"
proof -
  let ?k = "min (length payload) (4096 - recv_pos c)"
  have sp: "wsub 4096 (recv_pos c) = 4096 - recv_pos c"
    using assms(2) by (intro wsub_small) (auto simp: usize_mod_def)
  let ?b = "take (recv_pos c) (recv_buf c) @ take ?k payload @ drop (recv_pos c + ?k) (recv_buf c)"
  let ?c = "c\<lparr>recv_buf := ?b, recv_pos := recv_pos c + ?k\<rparr>"
  have st: "store_data payload c = (if ?k > 0 then if recv_pos c + ?k \<le> 4096 then Some ?c else None else Some c)"
    unfolding store_data_def Let_def assms(1) sp ..
  have kle: "recv_pos c + ?k \<le> 4096" using assms(2) by (auto simp: min_def)
  show thesis
  proof (cases "?k = 0")
    case True
    then have "store_data payload c = Some c" using st by simp
    moreover have "recv_bytes c = take 4096 (recv_bytes c @ payload)"
      using True assms by (cases "payload = []") (auto simp: recv_bytes_def min_def split: if_splits)
    ultimately show thesis using that assms by simp
  next
    case False
    have "store_data payload c = Some ?c" unfolding st using False kle by (simp only: neq0_conv if_True)
    moreover have "recv_bytes ?c = take 4096 (recv_bytes c @ payload)"
      using assms by (auto simp: recv_bytes_def min_def)
    moreover have "length (recv_buf ?c) = 4096" "recv_pos ?c \<le> 4096" using assms(1) kle by auto
    ultimately show thesis by (rule that) simp
  qed
qed


text \<open>A segment without data, as the connection builds it.\<close>

lemma conn_packet_control:
  assumes "drop_bit 12 flags = 0"
  obtains p h where "conn_packet c seq ack flags window [] = (20, p)"
    "parse_tcp_packet (take 20 p) = Some (h, [])" "swap32 (seq_num h) = seq"
    "data_offset_flags h = push_bit 12 5 OR flags" "swap32 (ack_num h) = ack"
proof -
  obtain n p where b: "conn_packet c seq ack flags window [] = (n, p)" by fastforce
  from build_parse [OF assms _ b [unfolded conn_packet_def]] that b show thesis by fastforce
qed

text \<open>A packet that carries ACK, a sequence number and the number it acknowledges.\<close>

definition acknowledges :: "u32 \<Rightarrow> u32 \<Rightarrow> response \<Rightarrow> bool" where
  "acknowledges seq a r \<longleftrightarrow>
     (\<exists>p h. r = Some (a, p) \<and> parse_tcp_packet (take 20 p) = Some (h, []) \<and>
        swap32 (seq_num h) = seq \<and> swap32 (ack_num h) = a \<and> has_flag (data_offset_flags h) FLAG_ACK)"

lemma reply_acknowledges: "acknowledges seq a (reply a (conn_packet c seq a FLAG_ACK window []))"
proof -
  have "drop_bit 12 FLAG_ACK = 0" by (simp add: FLAG_ACK_def)
  then obtain p h where "conn_packet c seq a FLAG_ACK window [] = (20, p)" "parse_tcp_packet (take 20 p) = Some (h, [])"
    "swap32 (seq_num h) = seq" "data_offset_flags h = push_bit 12 5 OR FLAG_ACK" "swap32 (ack_num h) = a"
    by (rule conn_packet_control)
  moreover have "has_flag (push_bit 12 5 OR FLAG_ACK) FLAG_ACK" by (simp add: has_flag_def FLAG_ACK_def)
  ultimately show ?thesis by (auto simp: acknowledges_def reply_def)
qed

text \<open>A data segment in the established state: the data is appended and the window kept up to date.\<close>

lemma established_ok:
  assumes "tcp_inv c" and "conn_state c = Established"
  obtains r c' where "on_established flags ack window payload c = Some (r, c')" "tcp_inv c'"
    "recv_bytes c' = take 4096 (recv_bytes c @ payload)"
    "conn_state c' = (if has_flag flags FLAG_FIN then CloseWait else Established)"
    "\<not> has_flag flags FLAG_FIN \<Longrightarrow> recv_seq c' = recv_seq c + of_nat (length payload)"
    "send_seq c' = send_seq c"
    "\<not> has_flag flags FLAG_FIN \<Longrightarrow>
       if payload = [] then r = None else acknowledges (send_seq c) (recv_seq c + of_nat (length payload)) r"
proof -
  define c1 where "c1 = (if has_flag flags FLAG_ACK then
    let c = c\<lparr>send_unack := ack, retransmit_count := 0\<rparr>
    in if window > 0 then c\<lparr>send_window := window\<rparr> else c else c)"
  have c1: "length (recv_buf c1) = 4096" "recv_pos c1 \<le> 4096" "retransmit_timeout c1 \<le> 30000"
    "recv_bytes c1 = recv_bytes c" "recv_seq c1 = recv_seq c" "conn_state c1 = Established"
    "send_seq c1 = send_seq c"
    using assms by (auto simp: c1_def tcp_inv_def recv_bytes_def Let_def)
  obtain c2 where c2: "store_data payload c1 = Some c2" "recv_bytes c2 = take 4096 (recv_bytes c1 @ payload)"
    "length (recv_buf c2) = 4096" "recv_pos c2 \<le> 4096"
    "c2 = c1\<lparr>recv_buf := recv_buf c2, recv_pos := recv_pos c2\<rparr>"
    using c1(1,2) by (rule store_data_ok)
  define c3 where "c3 = (if payload \<noteq> [] then c2\<lparr>recv_seq := recv_seq c2 + of_nat (length payload)\<rparr> else c1)"
  define c4 where "c4 = (if has_flag flags FLAG_FIN then c3\<lparr>recv_seq := recv_seq c3 + 1, conn_state := CloseWait\<rparr>
    else c3)"
  have f: "recv_seq c2 = recv_seq c1" "conn_state c2 = conn_state c1" "send_seq c2 = send_seq c1"
    "retransmit_timeout c2 = retransmit_timeout c1"
    by (subst c2(5), simp)+
  have len: "length (recv_bytes c) \<le> 4096" using c1(1) unfolding c1(4) [symmetric] by (simp add: recv_bytes_def)
  have "recv_bytes c3 = (if payload \<noteq> [] then recv_bytes c2 else recv_bytes c1)"
    by (simp add: c3_def recv_bytes_def)
  then have b3: "recv_bytes c3 = take 4096 (recv_bytes c @ payload)" using c1(4) c2(2) len by auto
  have c3: "tcp_inv c3" "conn_state c3 = Established"
    "recv_seq c3 = recv_seq c + of_nat (length payload)" "send_seq c3 = send_seq c"
    using c1 c2(3,4) f by (auto simp: c3_def tcp_inv_def)
  have "\<exists>r. on_established flags ack window payload c = Some (r, c4) \<and>
      (\<not> has_flag flags FLAG_FIN \<longrightarrow>
         (if payload = [] then r = None else acknowledges (send_seq c3) (recv_seq c3) r))"
    unfolding on_established_def c1_def [symmetric]
    using c2(1) reply_acknowledges [of "send_seq c3" "recv_seq c3" c3 "advertised_recv_window c3"]
    by (auto simp: c3_def c4_def Let_def)
  moreover have "tcp_inv c4" "recv_bytes c4 = take 4096 (recv_bytes c @ payload)" "send_seq c4 = send_seq c"
    "conn_state c4 = (if has_flag flags FLAG_FIN then CloseWait else Established)"
    "\<not> has_flag flags FLAG_FIN \<Longrightarrow> recv_seq c4 = recv_seq c + of_nat (length payload)"
    using c3 b3 by (auto simp: c4_def tcp_inv_def recv_bytes_def)
  ultimately show thesis using that unfolding c3(3,4) by blast
qed

lemma tcp_inv_activity [simp]: "tcp_inv (update_activity t c) = tcp_inv c"
  "recv_bytes (update_activity t c) = recv_bytes c" "conn_state (update_activity t c) = conn_state c"
  "recv_seq (update_activity t c) = recv_seq c" "send_seq (update_activity t c) = send_seq c"
  by (simp_all add: tcp_inv_def recv_bytes_def update_activity_def)

lemmas on_closing_defs = on_close_wait_def on_fin_wait1_def on_fin_wait2_def

lemma process_segment_inv:
  assumes "tcp_inv c"
  obtains r c' where "process_segment t flags seq ack window payload c = Some (r, c')" "tcp_inv c'"
    "conn_state c \<noteq> Established \<Longrightarrow> recv_bytes c' = recv_bytes c"
proof (cases "conn_state c = Established")
  case True
  have "tcp_inv (update_activity t c)" "conn_state (update_activity t c) = Established" using assms True by auto
  then obtain r c' where "on_established flags ack window payload (update_activity t c) = Some (r, c')" "tcp_inv c'"
    by (rule established_ok)
  with True show thesis using that by (simp add: process_segment_def Let_def)
next
  case False
  have "\<exists>r c'. process_segment t flags seq ack window payload c = Some (r, c') \<and> tcp_inv c' \<and>
      recv_bytes c' = recv_bytes c"
    using False assms
    by (cases "conn_state c")
      (auto simp: process_segment_def on_closing_defs Let_def tcp_inv_def recv_bytes_def update_activity_def)
  then show thesis using that by blast
qed


lemma take_take_append: "take n (take n xs @ ys) = take n (xs @ ys)"
  by (cases "n \<le> length xs") simp_all

section \<open>Runs of a connection\<close>

inductive tcp_step :: "tcp_connection \<Rightarrow> tcp_connection \<Rightarrow> bool" where
  step_segment: "process_segment t flags seq ack window payload c = Some (r, c') \<Longrightarrow> tcp_step c c'"
| step_send: "send_data dat c = (r, c') \<Longrightarrow> tcp_step c c'"
| step_close: "tcp_close c = (r, c') \<Longrightarrow> tcp_step c c'"
| step_retransmit: "check_retransmit t c = (r, c') \<Longrightarrow> tcp_step c c'"

text \<open>Runs that may also open the connection.\<close>

inductive tcp_run :: "tcp_connection \<Rightarrow> tcp_connection \<Rightarrow> bool" where
  run_refl: "tcp_run c c"
| run_syn: "tcp_run c d \<Longrightarrow> build_syn t d = (r, d') \<Longrightarrow> tcp_run c d'"
| run_step: "tcp_run c d \<Longrightarrow> tcp_step d d' \<Longrightarrow> tcp_run c d'"

lemma quiet_ops:
  "tcp_inv c \<Longrightarrow> build_syn t c = (r, c') \<Longrightarrow> tcp_inv c' \<and> recv_bytes c' = recv_bytes c"
  "tcp_inv c \<Longrightarrow> send_data dat c = (r, c') \<Longrightarrow> tcp_inv c' \<and> recv_bytes c' = recv_bytes c"
  "tcp_inv c \<Longrightarrow> tcp_close c = (r, c') \<Longrightarrow> tcp_inv c' \<and> recv_bytes c' = recv_bytes c"
  "tcp_inv c \<Longrightarrow> check_retransmit t c = (r, c') \<Longrightarrow> tcp_inv c' \<and> recv_bytes c' = recv_bytes c"
  by (auto simp: build_syn_def send_data_def tcp_close_def check_retransmit_def update_activity_def
      tcp_inv_def recv_bytes_def Let_def split: if_splits prod.splits)

lemma tcp_inv_step: "tcp_step c c' \<Longrightarrow> tcp_inv c \<Longrightarrow> tcp_inv c'"
proof (induction rule: tcp_step.induct)
  case (step_segment t flags seq ack window payload c r c')
  from step_segment.prems show ?case
    by (rule process_segment_inv [of c t flags seq ack window payload]) (use step_segment.hyps in auto)
qed (use quiet_ops in blast)+

lemma tcp_inv_run: "tcp_run c d \<Longrightarrow> tcp_inv c \<Longrightarrow> tcp_inv d"
  by (induction rule: tcp_run.induct) (use quiet_ops tcp_inv_step in blast)+

lemma tcp_new_inv: "tcp_inv (fst (tcp_new seed t la ra))"
  by (simp add: tcp_new_def tcp_inv_def split: prod.splits)

text \<open>A sequence of segments arriving one after the other, with the answer to each.\<close>

record segment =
  sg_ticks :: u32
  sg_flags :: u16
  sg_seq :: u32
  sg_ack :: u32
  sg_window :: u16
  sg_payload :: "u8 list"

fun receive :: "segment list \<Rightarrow> tcp_connection \<Rightarrow> (response list \<times> tcp_connection) option" where
  "receive [] c = Some ([], c)"
| "receive (s # ss) c = do {
     (r, c) \<leftarrow> process_segment (sg_ticks s) (sg_flags s) (sg_seq s) (sg_ack s) (sg_window s) (sg_payload s) c;
     (rs, c) \<leftarrow> receive ss c;
     Some (r # rs, c)
   }"

lemma low_bits_only: "drop_bit 12 (w :: u16) = 0 \<Longrightarrow> w AND 0xFFF = w"
proof -
  assume "drop_bit 12 w = 0"
  then have "take_bit 12 w = w" using bits_ident [of 12 w] by simp
  moreover have "(mask 12 :: u16) = 0xFFF" by (simp add: mask_eq_exp_minus_1)
  ultimately show ?thesis by (simp add: take_bit_eq_mask)
qed

text \<open>The states of a connection that is being closed, or is closed.\<close>

fun closing :: "tcp_state \<Rightarrow> bool" where
  "closing s = (s \<in> {CloseWait, FinWait1, FinWait2, LastAck, TimeWait, Closing, Closed})"

lemma closing_segment:
  "closing (conn_state c) \<Longrightarrow> process_segment t flags seq ack window payload c = Some (r, c') \<Longrightarrow>
     closing (conn_state c') \<and> recv_bytes c' = recv_bytes c"
  by (cases "conn_state c") (auto simp: process_segment_def on_closing_defs update_activity_def recv_bytes_def Let_def
      split: if_splits)

lemma closing_step: "tcp_step c c' \<Longrightarrow> closing (conn_state c) \<Longrightarrow> closing (conn_state c') \<and> recv_bytes c' = recv_bytes c"
proof (induction rule: tcp_step.induct)
  case (step_segment t flags seq ack window payload c r c')
  then show ?case using closing_segment by blast
qed (auto simp: send_data_def tcp_close_def check_retransmit_def recv_bytes_def Let_def split: if_splits)

section \<open>Properties\<close>

text \<open>
  C21. No segment can crash a connection: in every state a new connection can reach by any mix of
  opening, segments with arbitrary contents, sending, closing and timeouts, processing any further
  segment returns, the receive position stays within the 4096-byte buffer and the retransmission
  timeout within 30 seconds.
\<close>

theorem tcp_no_panic:
  assumes "tcp_run (fst (tcp_new seed t0 la ra)) c"
  shows "process_segment t flags seq ack window payload c \<noteq> None \<and>
    length (recv_buf c) = 4096 \<and> recv_pos c \<le> 4096 \<and> retransmit_timeout c \<le> 30000"
proof -
  have inv: "tcp_inv c" using assms tcp_new_inv by (rule tcp_inv_run)
  moreover have "process_segment t flags seq ack window payload c \<noteq> None"
    using inv by (rule process_segment_inv) auto
  ultimately show ?thesis by (simp add: tcp_inv_def)
qed

definition test_addr :: socket_addr where
  "test_addr = \<lparr>sa_ip = (10, 0, 2, 15), sa_port = 80\<rparr>"

theorem tcp_no_panic_witness:
  "process_segment 7 0x12 1 2 3 [1, 2, 3] (fst (tcp_new 0 0 test_addr test_addr)) \<noteq> None"
  using tcp_no_panic [OF run_refl] by blast

text \<open>
  C20. The received stream: whatever segments without FIN arrive in the established state, in order of
  arrival their payloads are appended to the receive buffer up to its 4096 bytes. Each segment with data
  is answered at once by a packet that carries ACK and the connection's sequence number, and acknowledges
  every byte received so far, those dropped for lack of room included; a segment without data is not
  answered.
\<close>

theorem tcp_stream:
  assumes "tcp_inv c" and "conn_state c = Established"
    and "\<forall>s \<in> set ss. \<not> has_flag (sg_flags s) FLAG_FIN"
  shows "\<exists>rs c'. receive ss c = Some (rs, c') \<and> conn_state c' = Established \<and>
    recv_bytes c' = take 4096 (recv_bytes c @ concat (map sg_payload ss)) \<and>
    recv_seq c' = recv_seq c + of_nat (length (concat (map sg_payload ss))) \<and> length rs = length ss \<and>
    (\<forall>i < length ss. if sg_payload (ss ! i) = [] then rs ! i = None
       else acknowledges (send_seq c) (recv_seq c + of_nat (length (concat (map sg_payload (take (Suc i) ss))))) (rs ! i))"
  using assms
proof (induction ss arbitrary: c)
  case Nil
  then show ?case by (auto simp: tcp_inv_def recv_bytes_def)
next
  case (Cons s ss)
  let ?c = "update_activity (sg_ticks s) c" and ?n = "\<lambda>ss. of_nat (length (concat (map sg_payload ss))) :: u32"
  have "tcp_inv ?c" "conn_state ?c = Established" using Cons.prems by auto
  then obtain r c1 where c1: "on_established (sg_flags s) (sg_ack s) (sg_window s) (sg_payload s) ?c = Some (r, c1)"
    "tcp_inv c1" "recv_bytes c1 = take 4096 (recv_bytes ?c @ sg_payload s)"
    "conn_state c1 = (if has_flag (sg_flags s) FLAG_FIN then CloseWait else Established)"
    "\<not> has_flag (sg_flags s) FLAG_FIN \<Longrightarrow> recv_seq c1 = recv_seq ?c + of_nat (length (sg_payload s))"
    "send_seq c1 = send_seq ?c" "\<not> has_flag (sg_flags s) FLAG_FIN \<Longrightarrow> if sg_payload s = [] then r = None
       else acknowledges (send_seq ?c) (recv_seq ?c + of_nat (length (sg_payload s))) r"
    by (rule established_ok [where flags = "sg_flags s" and payload = "sg_payload s" and ack = "sg_ack s" and window = "sg_window s"]) blast
  have f: "conn_state c1 = Established" "send_seq c1 = send_seq c" "recv_seq c1 = recv_seq c + of_nat (length (sg_payload s))"
      "if sg_payload s = [] then r = None else acknowledges (send_seq c) (recv_seq c + of_nat (length (sg_payload s))) r"
    using c1(4-7) Cons.prems(3) by (simp_all add: update_activity_def split: if_splits)
  obtain rs c' where c': "receive ss c1 = Some (rs, c')" "conn_state c' = Established"
    "recv_bytes c' = take 4096 (recv_bytes c1 @ concat (map sg_payload ss))"
    "recv_seq c' = recv_seq c1 + ?n ss" "length rs = length ss"
    "\<And>i. i < length ss \<Longrightarrow> if sg_payload (ss ! i) = [] then rs ! i = None
       else acknowledges (send_seq c1) (recv_seq c1 + ?n (take (Suc i) ss)) (rs ! i)"
    using Cons.IH [OF c1(2) f(1)] Cons.prems(3) by auto
  have "receive (s # ss) c = Some (r # rs, c')"
    using c1(1) c'(1) Cons.prems(2) by (simp add: process_segment_def Let_def)
  moreover have "recv_bytes c' = take 4096 (recv_bytes c @ concat (map sg_payload (s # ss)))"
    unfolding c'(3) c1(3) take_take_append
    by (simp add: recv_bytes_def update_activity_def)
  moreover have "if sg_payload ((s # ss) ! i) = [] then (r # rs) ! i = None
       else acknowledges (send_seq c) (recv_seq c + ?n (take (Suc i) (s # ss))) ((r # rs) ! i)" if "i < length (s # ss)" for i
  proof (cases i)
    case 0
    then show ?thesis using f(4) by simp
  next
    case (Suc j)
    then show ?thesis using that c'(6) [of j] f(2,3) by (simp add: add.assoc split: if_splits)
  qed
  moreover have "recv_seq c' = recv_seq c + ?n (s # ss)" "length (r # rs) = length (s # ss)"
    using c'(4,5) f(3) by (simp_all add: add.assoc)
  ultimately show ?case using c'(2) by blast
qed

theorem tcp_stream_witness:
  "\<exists>r1 r2 c'. receive [\<lparr>sg_ticks = 1, sg_flags = 0x10, sg_seq = 5, sg_ack = 9, sg_window = 100, sg_payload = [1, 2]\<rparr>,
                 \<lparr>sg_ticks = 2, sg_flags = 0x10, sg_seq = 7, sg_ack = 9, sg_window = 100, sg_payload = [3]\<rparr>]
       ((fst (tcp_new 0 0 test_addr test_addr))\<lparr>conn_state := Established, send_seq := 7, recv_seq := 5\<rparr>) = Some ([r1, r2], c') \<and>
     recv_bytes c' = [1, 2, 3] \<and> acknowledges 7 7 r1 \<and> acknowledges 7 8 r2"
proof -
  let ?c = "(fst (tcp_new 0 0 test_addr test_addr))\<lparr>conn_state := Established, send_seq := 7, recv_seq := 5\<rparr>"
  let ?s = "[\<lparr>sg_ticks = 1, sg_flags = 0x10, sg_seq = 5, sg_ack = 9, sg_window = 100, sg_payload = [1, 2]\<rparr>,
    \<lparr>sg_ticks = 2, sg_flags = 0x10, sg_seq = 7, sg_ack = 9, sg_window = 100, sg_payload = [3]\<rparr>]"
  have "tcp_inv ?c" using tcp_new_inv by (simp add: tcp_inv_def)
  moreover have "\<forall>s \<in> set ?s. \<not> has_flag (sg_flags s) FLAG_FIN" by (simp add: has_flag_def FLAG_FIN_def)
  ultimately obtain rs c' where r: "receive ?s ?c = Some (rs, c')" "length rs = length ?s"
    "recv_bytes c' = take 4096 (recv_bytes ?c @ concat (map sg_payload ?s))"
    "\<forall>i < length ?s. if sg_payload (?s ! i) = [] then rs ! i = None
       else acknowledges (send_seq ?c) (recv_seq ?c + of_nat (length (concat (map sg_payload (take (Suc i) ?s))))) (rs ! i)"
    using tcp_stream [of ?c ?s] by auto
  obtain r1 r2 where rs: "rs = [r1, r2]" using r(2) by (auto simp: length_Suc_conv)
  have "acknowledges 7 7 r1" using r(4) [rule_format, of 0] by (simp add: rs)
  moreover have "acknowledges 7 8 r2" using r(4) [rule_format, of 1] by (simp add: rs)
  moreover have "recv_bytes c' = [1, 2, 3]" using r(3) by (simp add: tcp_new_def recv_bytes_def split: prod.splits)
  ultimately show ?thesis using r(1) unfolding rs by blast
qed

text \<open>
  C22. Flow control: when \<open>send_data\<close> sends, the bytes in flight afterwards do not exceed the window the
  connection has recorded (\<open>send_window\<close>: the last one the peer advertised in the established state, a
  window of zero and that of the SYN-ACK left out), the segment carries a prefix of the data, and the
  sequence number advances by exactly the bytes it carries.
\<close>

theorem tcp_respects_window:
  assumes "send_data dat c = (Some (seq, packet), c')"
  shows "unat (bytes_in_flight c') \<le> unat (send_window c) \<and> seq = send_seq c \<and>
    (\<exists>k h. send_seq c' = send_seq c + of_nat k \<and> k \<le> length dat \<and> k \<le> 180 \<and>
       parse_tcp_packet (take (20 + k) packet) = Some (h, take k dat))"
proof -
  let ?a = "unat (send_window c) - unat (bytes_in_flight c)"
  define k where "k = min (length dat) ?a"
  have pkt: "conn_packet c (send_seq c) (recv_seq c) (FLAG_ACK OR FLAG_PSH) (advertised_recv_window c) (take k dat)
      = (20 + k, packet)"
    and r: "seq = send_seq c" "c' = c\<lparr>send_seq := send_seq c + of_nat k\<rparr>" "?a \<noteq> 0" "k \<le> 180"
    using assms by (auto simp: send_data_def Let_def k_def conn_packet_def build_tcp_packet_def
        split: if_splits prod.splits)
  have "k \<le> length dat" by (simp add: k_def)
  have "drop_bit 12 (FLAG_ACK OR FLAG_PSH) = 0" by (simp add: FLAG_ACK_def FLAG_PSH_def)
  from build_parse [OF this _ pkt [unfolded conn_packet_def]]
  have "\<exists>h. parse_tcp_packet (take (20 + k) packet) = Some (h, take k dat)"
    using \<open>k \<le> length dat\<close> r(4) by auto
  moreover have "unat (bytes_in_flight c') \<le> unat (send_window c)"
  proof -
    have "unat (bytes_in_flight c) + k \<le> unat (send_window c)" using r(3) by (auto simp: k_def)
    moreover have "unat (send_window c) < 65536" using unat_bound [of "send_window c"] by simp
    moreover have "bytes_in_flight c' = of_nat (unat (bytes_in_flight c) + k)"
      by (simp add: bytes_in_flight_def r(2))
    ultimately show ?thesis using unat_of_nat_small [of "unat (bytes_in_flight c) + k", where 'a = 32] by simp
  qed
  ultimately show ?thesis using r \<open>k \<le> length dat\<close> by auto
qed

theorem tcp_respects_window_witness:
  "\<exists>seq packet c'. send_data [1, 2, 3] ((fst (tcp_new 0 0 test_addr test_addr))\<lparr>conn_state := Established,
       send_seq := 5, send_unack := 3, send_window := 4\<rparr>) = (Some (seq, packet), c') \<and>
     unat (bytes_in_flight c') \<le> 4"
proof -
  let ?c = "(fst (tcp_new 0 0 test_addr test_addr))\<lparr>conn_state := Established,
       send_seq := 5, send_unack := 3, send_window := 4\<rparr>"
  have "\<exists>seq packet c'. send_data [1, 2, 3] ?c = (Some (seq, packet), c')"
    by (auto simp: send_data_def bytes_in_flight_def conn_packet_def build_tcp_packet_def Let_def TCP_HEADER_SIZE_def)
  then obtain seq packet c' where s: "send_data [1, 2, 3] ?c = (Some (seq, packet), c')" by blast
  from tcp_respects_window [OF s] s show ?thesis by auto
qed

text \<open>
  A built segment reads back: for every choice of addresses, ports, numbers and payload that fits
  the buffer, parsing the bytes built gives the payload and a header whose fields, converted from
  network order the way the receiving code converts them, are the ones passed in.
\<close>

lemma tcp_build_parse:
  assumes "drop_bit 12 flags = 0" and "20 + length payload \<le> length packet"
    and "build_tcp_packet packet src dst sport dport seq ack flags window payload = (n, out)"
  shows "n = 20 + length payload \<and> length out = length packet \<and>
    (\<exists>h. parse_tcp_packet (take n out) = Some (h, payload) \<and>
       swap16 (src_port h) = sport \<and> swap16 (dest_port h) = dport \<and>
       swap32 (seq_num h) = seq \<and> swap32 (ack_num h) = ack \<and>
       data_offset_flags h AND 0xFFF = flags \<and> swap16 (window_size h) = window)"
proof -
  have "flags AND 0xFFF = flags" using assms(1) by (rule low_bits_only)
  then have "(push_bit 12 5 OR flags) AND 0xFFF = flags" by (simp add: bit.conj_disj_distrib2)
  then show ?thesis using build_parse [OF assms] by auto
qed

text \<open>
  The active handshake: opening a closed connection sends a SYN carrying its initial sequence
  number, and the SYN-ACK that comes back establishes it; the segment sent in answer carries ACK, the
  next sequence number, and acknowledges the number after the peer's.
\<close>

lemma tcp_handshake:
  assumes "conn_state c = Closed" and "has_flag flags FLAG_SYN" and "has_flag flags FLAG_ACK"
  shows "\<exists>p1 c1 p2 c2 h1 h2.
    build_syn t1 c = (Some (send_seq c, p1), c1) \<and> conn_state c1 = SynSent \<and>
    parse_tcp_packet (take 20 p1) = Some (h1, []) \<and>
    swap32 (seq_num h1) = send_seq c \<and> has_flag (data_offset_flags h1) FLAG_SYN \<and>
    process_segment t2 flags seq ack window payload c1 = Some (Some (seq + 1, p2), c2) \<and>
    conn_state c2 = Established \<and> recv_seq c2 = seq + 1 \<and>
    parse_tcp_packet (take 20 p2) = Some (h2, []) \<and>
    swap32 (seq_num h2) = send_seq c + 1 \<and> swap32 (ack_num h2) = seq + 1 \<and>
    has_flag (data_offset_flags h2) FLAG_ACK"
proof -
  define c1 where "c1 = update_activity t1 (c\<lparr>conn_state := SynSent, send_unack := send_seq c,
    send_seq := send_seq c + 1\<rparr>)"
  define c2 where "c2 = (update_activity t2 c1)\<lparr>recv_seq := seq + 1, conn_state := Established\<rparr>"
  have f: "drop_bit 12 FLAG_SYN = 0" "drop_bit 12 FLAG_ACK = 0"
    by (simp_all add: FLAG_SYN_def FLAG_ACK_def)
  obtain p1 h1 where p1: "conn_packet c1 (send_seq c) 0 FLAG_SYN DEFAULT_WINDOW [] = (20, p1)"
    "parse_tcp_packet (take 20 p1) = Some (h1, [])" "swap32 (seq_num h1) = send_seq c"
    "data_offset_flags h1 = push_bit 12 5 OR FLAG_SYN"
    using f(1) by (rule conn_packet_control)
  obtain p2 h2 where p2: "conn_packet c2 (send_seq c + 1) (seq + 1) FLAG_ACK DEFAULT_WINDOW [] = (20, p2)"
    "parse_tcp_packet (take 20 p2) = Some (h2, [])" "swap32 (seq_num h2) = send_seq c + 1"
    "data_offset_flags h2 = push_bit 12 5 OR FLAG_ACK" "swap32 (ack_num h2) = seq + 1"
    using f(2) by (rule conn_packet_control)
  have "build_syn t1 c = (Some (send_seq c, p1), c1)"
    using assms(1) p1(1) by (simp add: build_syn_def Let_def c1_def reply_def update_activity_def)
  moreover have "process_segment t2 flags seq ack window payload c1 = Some (Some (seq + 1, p2), c2)"
    using assms(2,3) p2(1)
    by (simp add: process_segment_def Let_def c1_def c2_def reply_def update_activity_def)
  moreover have "has_flag (data_offset_flags h1) FLAG_SYN" "has_flag (data_offset_flags h2) FLAG_ACK"
    unfolding p1(4) p2(4) by (simp_all add: has_flag_def FLAG_SYN_def FLAG_ACK_def)
  ultimately show ?thesis using p1(2,3) p2(2,3,5) by (auto simp: c1_def c2_def update_activity_def)
qed

text \<open>
  Closing is final: once a connection has left the established state towards closing, no segment,
  send, close or timeout, in any number and order, leads back out of the closing states; the received
  bytes are never touched again, and \<open>send_data\<close> refuses.
\<close>

lemma tcp_closing_final:
  assumes "tcp_inv c" and "closing (conn_state c)" and "tcp_step\<^sup>*\<^sup>* c c'"
  shows "closing (conn_state c') \<and> recv_bytes c' = recv_bytes c \<and> send_data dat c' = (None, c')"
proof -
  from assms(3) have "tcp_inv c' \<and> closing (conn_state c') \<and> recv_bytes c' = recv_bytes c"
    by (induction rule: rtranclp_induct) (use assms(1,2) tcp_inv_step closing_step in auto)
  then show ?thesis by (auto simp: send_data_def)
qed

end
