(* ===== verification/Dns.thy ===== *)
theory Dns
  imports Wire
begin

unbundle bit_operations_syntax

text \<open>
  DNS messages (\<open>kernel/src/net/dns.rs\<close>): the query for the address of a name and the search for an
  address in the response. A buffer is a list of bytes; an index beyond its end panics, which is the
  value None. The transmission of the query is part of the network stack.
\<close>

section \<open>The query\<close>

text \<open>Stores of consecutive bytes from a position on.\<close>

fun put_bytes :: "nat \<Rightarrow> u8 list \<Rightarrow> u8 list \<Rightarrow> u8 list option" where
  "put_bytes pos [] buf = Some buf"
| "put_bytes pos (b # bs) buf =
     (if pos < length buf then put_bytes (pos + 1) bs (buf[pos := b]) else None)"

function query_loop :: "u8 list \<Rightarrow> nat \<Rightarrow> nat \<Rightarrow> nat \<Rightarrow> u8 list \<Rightarrow> (nat \<times> u8 list) option" where
  "query_loop domain i label_start pos buf =
     (if i \<le> length domain then
        if i = length domain \<or> domain ! i = 46 then do {
          buf \<leftarrow> put_bytes pos [of_nat (i - label_start)] buf;
          buf \<leftarrow> put_bytes (pos + 1) (take (i - label_start) (drop label_start domain)) buf;
          query_loop domain (i + 1) (i + 1) (pos + 1 + (i - label_start)) buf
        } else query_loop domain (i + 1) label_start pos buf
      else Some (pos, buf))"
  by pat_completeness auto
termination by (relation "measure (\<lambda>(domain, i, _). Suc (length domain) - i)") auto

declare query_loop.simps [simp del]

text \<open>The length, the buffer and the next value of the counter \<open>DNS_TXID\<close>.\<close>

definition build_dns_query :: "u8 list \<Rightarrow> u8 list \<Rightarrow> u16 \<Rightarrow> (nat \<times> u8 list \<times> u16) option" where
  "build_dns_query domain buf dns_txid =
     (if length buf < 512 then Some (0, buf, dns_txid)
      else do {
        buf \<leftarrow> put_bytes 0 ([hi8 dns_txid, lo8 dns_txid] @ [0x01, 0x00, 0x00, 0x01, 0x00, 0x00, 0x00, 0x00, 0x00, 0x00]) buf;
        (pos, buf) \<leftarrow> query_loop domain 0 0 12 buf;
        buf \<leftarrow> put_bytes pos [0] buf;
        buf \<leftarrow> put_bytes (pos + 1) [0, 1, 0, 1] buf;
        Some (pos + 1 + 4, buf, dns_txid + 1)
      })"

section \<open>The response\<close>

function skip_question :: "u8 list \<Rightarrow> nat \<Rightarrow> nat" where
  "skip_question buf pos =
     (if pos < length buf \<and> buf ! pos \<noteq> 0 then
        let ll = unat (buf ! pos)
        in if ll \<ge> 0xC0 then pos + 2 else skip_question buf (pos + (1 + ll))
      else pos)"
  by pat_completeness auto
termination by (relation "measure (\<lambda>(buf, pos). length buf - pos)") auto

function skip_name :: "u8 list \<Rightarrow> nat \<Rightarrow> nat" where
  "skip_name buf pos =
     (if pos < length buf \<and> buf ! pos \<noteq> 0 then skip_name buf (pos + (1 + unat (buf ! pos))) else pos)"
  by pat_completeness auto
termination by (relation "measure (\<lambda>(buf, pos). length buf - pos)") auto

declare skip_question.simps [simp del] and skip_name.simps [simp del]

fun answer_loop :: "u8 list \<Rightarrow> nat \<Rightarrow> nat \<Rightarrow> (ip4 option) option" where
  "answer_loop buf 0 pos = Some None"
| "answer_loop buf (Suc n) pos =
     (if pos + 10 > length buf then Some None
      else let pos = (if buf ! pos AND 0xC0 = 0xC0 then pos + 2 else skip_name buf pos + 1)
           in if pos + 9 \<ge> length buf then None
              else let rtype = rd_be16 buf pos;
                       rdlen = unat (rd_be16 buf (pos + 8));
                       pos = pos + 10
                   in if rtype = 1 \<and> rdlen = 4 \<and> pos + 4 \<le> length buf
                      then Some (Some (buf ! pos, buf ! (pos + 1), buf ! (pos + 2), buf ! (pos + 3)))
                      else answer_loop buf n (pos + rdlen))"

definition parse_dns_response :: "u8 list \<Rightarrow> (ip4 option) option" where
  "parse_dns_response buf =
     (if length buf < 12 then Some None
      else let answers = rd_be16 buf 6
           in if answers = 0 then Some None
              else let pos = skip_question buf 12;
                       pos = (if pos < length buf \<and> buf ! pos = 0 then pos + 1 else pos)
                   in answer_loop buf (unat answers) (pos + 4))"

section \<open>The layout of a query\<close>

text \<open>The labels of a name, and a name as the protocol has it.\<close>

fun labels :: "u8 list \<Rightarrow> u8 list list" where
  "labels [] = [[]]"
| "labels (c # cs) = (if c = 46 then [] # labels cs else (c # hd (labels cs)) # tl (labels cs))"

definition encode_name :: "u8 list list \<Rightarrow> u8 list" where
  "encode_name ls = concat (map (\<lambda>l. of_nat (length l) # l) ls)"

lemma labels_nonempty [simp]: "labels d \<noteq> []"
  by (cases d) auto

lemma labels_length: "length (encode_name (labels d)) = length d + 1"
proof (induction d)
  case (Cons c cs)
  then show ?case by (cases "labels cs") (auto simp: encode_name_def)
qed (simp add: encode_name_def)

lemma put_bytes_fits:
  "pos + length bs \<le> length buf \<Longrightarrow> put_bytes pos bs buf = Some (take pos buf @ bs @ drop (pos + length bs) buf)"
proof (induction bs arbitrary: pos buf)
  case (Cons b bs)
  then have "put_bytes pos (b # bs) buf = Some (take (pos + 1) (buf[pos := b]) @ bs @ drop (pos + 1 + length bs) (buf[pos := b]))"
    by simp
  also have "take (pos + 1) (buf[pos := b]) = take pos buf @ [b]"
    using Cons.prems by (simp add: take_Suc_conv_app_nth)
  finally show ?case using Cons.prems by simp
qed simp

lemma put_bytes_panics: "length buf < pos + length bs \<Longrightarrow> pos \<le> length buf \<Longrightarrow> put_bytes pos bs buf = None"
  by (induction bs arbitrary: pos buf) auto

lemma labels_plain: "46 \<notin> set p \<Longrightarrow> labels p = [p]"
  by (induction p) auto

lemma labels_dot: "46 \<notin> set p \<Longrightarrow> labels (p @ 46 # r) = p # labels r"
  by (induction p) auto

text \<open>A store that fits or panics.\<close>

definition store_at :: "nat \<Rightarrow> u8 list \<Rightarrow> u8 list \<Rightarrow> (nat \<times> u8 list) option" where
  "store_at pos bs buf =
     (if pos + length bs \<le> length buf then Some (pos + length bs, take pos buf @ bs @ drop (pos + length bs) buf) else None)"

lemma store_at_end: "store_at pos bs buf = Some (q, b) \<Longrightarrow> q \<le> length b \<and> length b = length buf"
  by (auto simp: store_at_def split: if_splits)

lemma put_bytes_store: "pos \<le> length buf \<Longrightarrow> put_bytes pos bs buf = map_option snd (store_at pos bs buf)"
  using put_bytes_fits put_bytes_panics by (auto simp: store_at_def not_le)

lemma store_at_append:
  "pos \<le> length buf \<Longrightarrow> store_at pos (as @ bs) buf = Option.bind (store_at pos as buf) (\<lambda>(pos, buf). store_at pos bs buf)"
  by (auto simp: store_at_def ac_simps)

lemma label_step:
  assumes "pos \<le> length buf" and p: "p = take n (drop s domain)" "n \<le> length domain - s"
  shows "do {
      buf \<leftarrow> put_bytes pos [of_nat n] buf;
      buf \<leftarrow> put_bytes (pos + 1) p buf;
      f (pos + 1 + n) buf
    } = Option.bind (store_at pos (of_nat (length p) # p) buf) (\<lambda>(pos, buf). f pos buf)"
proof -
  have n: "length p = n" using p by simp
  show ?thesis
    using store_at_append [OF assms(1), of "[of_nat n]" p] assms(1)
    by (auto simp: put_bytes_store n store_at_def ac_simps simp del: put_bytes.simps split: if_splits)
qed

lemma query_loop_label:
  assumes "s \<le> i" "i \<le> length domain" "i = length domain \<or> domain ! i = 46" "pos \<le> length buf"
    and p: "p = take (i - s) (drop s domain)"
  shows "query_loop domain i s pos buf =
    Option.bind (store_at pos (of_nat (length p) # p) buf) (\<lambda>(q, b). query_loop domain (i + 1) (i + 1) q b)"
  unfolding query_loop.simps [of domain i s] if_P [OF assms(2)] if_P [OF assms(3)] p [symmetric]
  using label_step [OF assms(4) p, of "query_loop domain (i + 1) (i + 1)"] assms(1,2) by simp

lemma query_loop_end: "query_loop domain (Suc (length domain)) s q b = Some (q, b)"
  by (subst query_loop.simps) simp

lemma query_loop_stores:
  assumes "s \<le> i" "i \<le> length domain" "46 \<notin> set (take (i - s) (drop s domain))" "pos \<le> length buf"
  shows "query_loop domain i s pos buf = store_at pos (encode_name (labels (drop s domain))) buf"
  using assms
proof (induction "length domain - i" arbitrary: i s pos buf rule: less_induct)
  case less
  define p where "p = take (i - s) (drop s domain)"
  have d: "drop s domain = p @ drop i domain"
    using less.prems by (metis append_take_drop_id drop_drop le_add_diff_inverse2 p_def)
  have np: "46 \<notin> set p" using less.prems(3) by (simp only: p_def not_False_eq_True)
  note step = query_loop_label [OF less.prems(1,2) _ less.prems(4) p_def]
  show ?case
  proof (cases "i = length domain")
    case True
    then have "labels (drop s domain) = [p]" using labels_plain [OF np] d by simp
    then show ?thesis using step True by (simp add: encode_name_def query_loop_end)
  next
    case False
    then have i: "i < length domain" using less.prems(2) by simp
    have di: "drop i domain = domain ! i # drop (Suc i) domain" using i by (simp add: Cons_nth_drop_Suc)
    show ?thesis
    proof (cases "domain ! i = 46")
      case True
      have l: "labels (drop s domain) = p # labels (drop (Suc i) domain)"
        unfolding d di True by (rule labels_dot [OF np])
      have ih: "query_loop domain (i + 1) (i + 1) q b = store_at q (encode_name (labels (drop (Suc i) domain))) b" if "q \<le> length b" for q b
        using i that by (subst less.hyps) auto
      have "query_loop domain i s pos buf = store_at pos ((of_nat (length p) # p) @ encode_name (labels (drop (Suc i) domain))) buf"
        unfolding store_at_append [OF less.prems(4)] step [OF disjI2, OF True]
        using store_at_end [of pos "of_nat (length p) # p" buf]
        by (cases "store_at pos (of_nat (length p) # p) buf") (auto simp: ih [simplified])
      then show ?thesis unfolding l by (simp add: encode_name_def)
    next
      case nodot: False
      have "take (Suc i - s) (drop s domain) = p @ [domain ! i]"
        using i less.prems(1) by (simp add: Suc_diff_le take_Suc_conv_app_nth p_def)
      then have "46 \<notin> set (take (i + 1 - s) (drop s domain))" using nodot np by simp
      then have "query_loop domain (i + 1) s pos buf = store_at pos (encode_name (labels (drop s domain))) buf"
        using i less.prems(1,4) by (intro less.hyps) auto
      moreover have "query_loop domain i s pos buf = query_loop domain (i + 1) s pos buf"
        using i nodot by (subst query_loop.simps) simp
      ultimately show ?thesis by simp
    qed
  qed
qed

definition dns_query :: "u16 \<Rightarrow> u8 list \<Rightarrow> u8 list" where
  "dns_query txid domain = be16 txid @ [1, 0, 0, 1, 0, 0, 0, 0, 0, 0] @ encode_name (labels domain) @ [0, 0, 1, 0, 1]"

lemma length_dns_query: "length (dns_query txid domain) = length domain + 18"
  by (simp add: dns_query_def labels_length be16_def)

text \<open>
  A query in a buffer of at least 512 bytes is the header with the number of the query, the labels of
  the name each behind its length, and the type and class of an address record, followed by what the
  buffer held; the call panics when the name is too long for the buffer.
\<close>

lemma dns_query_correct:
  assumes "512 \<le> length buf"
  shows "build_dns_query domain buf txid =
    (if length domain + 18 \<le> length buf
     then Some (length domain + 18, dns_query txid domain @ drop (length domain + 18) buf, txid + 1) else None)"
proof -
  let ?h = "[hi8 txid, lo8 txid] @ [1, 0, 0, 1, 0, 0, 0, 0, 0, 0]" and ?n = "encode_name (labels domain)"
  define b1 where "b1 = ?h @ drop 12 buf"
  have h: "put_bytes 0 ?h buf = Some b1" using assms by (subst put_bytes_fits) (simp_all add: b1_def numeral_eq_Suc)
  have b1: "12 \<le> length b1" "length b1 = length buf" using assms by (simp_all add: b1_def)
  have q: "query_loop domain 0 0 12 b1 = store_at 12 ?n b1" using query_loop_stores [of 0 0 domain 12 b1] b1(1) by simp
  have "build_dns_query domain buf txid = do {
      (pos, b) \<leftarrow> store_at 12 ?n b1;
      b \<leftarrow> put_bytes pos [0] b;
      b \<leftarrow> put_bytes (pos + 1) [0, 1, 0, 1] b;
      Some (pos + 1 + 4, b, txid + 1)
    }"
    using assms h q by (simp add: build_dns_query_def del: put_bytes.simps)
  also have "\<dots> = map_option (\<lambda>(pos, b). (pos, b, txid + 1)) (store_at 12 (?n @ [0] @ [0, 1, 0, 1]) b1)"
  proof (cases "store_at 12 ?n b1")
    case None
    then show ?thesis using store_at_append [OF b1(1), of ?n "[0] @ [0, 1, 0, 1]"] by simp
  next
    case (Some pb)
    obtain pos b where pb: "pb = (pos, b)" by (cases pb)
    have p: "pos \<le> length b" using store_at_end Some pb by blast
    have "store_at 12 (?n @ [0] @ [0, 1, 0, 1]) b1 = store_at pos ([0] @ [0, 1, 0, 1]) b"
      using store_at_append [OF b1(1), of ?n "[0] @ [0, 1, 0, 1]"] Some pb by simp
    moreover have "put_bytes pos [0] b \<bind> (\<lambda>b. put_bytes (pos + 1) [0, 1, 0, 1] b \<bind> (\<lambda>b. Some (pos + 1 + 4, b, txid + 1))) =
      map_option (\<lambda>(pos, b). (pos, b, txid + 1)) (store_at pos ([0] @ [0, 1, 0, 1]) b)"
      using p by (cases "pos + 5 \<le> length b") (auto simp: put_bytes_store store_at_def numeral_eq_Suc simp del: put_bytes.simps)
    ultimately show ?thesis using Some pb by simp
  qed
  also have "\<dots> = (if length domain + 18 \<le> length buf
     then Some (length domain + 18, dns_query txid domain @ drop (length domain + 18) buf, txid + 1) else None)"
  proof -
    have "take 12 b1 = ?h" "drop (18 + length domain) b1 = drop (18 + length domain) buf"
      using assms by (simp_all add: b1_def numeral_eq_Suc)
    then show ?thesis using b1(2) by (simp add: store_at_def labels_length dns_query_def be16_def ac_simps)
  qed
  finally show ?thesis .
qed

section \<open>Reading a response\<close>

lemma skip_question_encode:
  assumes "\<forall>l \<in> set ls. 0 < length l \<and> length l < 0xC0" and "buf = xs @ encode_name ls @ 0 # ys"
  shows "skip_question buf (length xs) = length xs + length (encode_name ls)"
  using assms
proof (induction ls arbitrary: xs)
  case Nil
  then show ?case by (subst skip_question.simps) (simp add: encode_name_def)
next
  case (Cons l ls)
  have u: "unat (of_nat (length l) :: u8) = length l" using Cons.prems(1) by (simp add: unat_of_nat)
  have b: "buf = (xs @ of_nat (length l) # l) @ encode_name ls @ 0 # ys" using Cons.prems(2) by (simp add: encode_name_def)
  have n: "buf ! length xs = of_nat (length l)" "length xs < length buf" using b by (simp_all add: nth_append)
  have nz: "(of_nat (length l) :: u8) \<noteq> 0" using u Cons.prems(1) by (metis less_irrefl list.set_intros(1) unat_0)
  have "skip_question buf (length xs) = skip_question buf (length (xs @ of_nat (length l) # l))"
    using n nz u Cons.prems(1) by (subst skip_question.simps) simp
  also have "\<dots> = length (xs @ of_nat (length l) # l) + length (encode_name ls)"
    using Cons.IH [OF _ b] Cons.prems(1) by simp
  finally show ?case by (simp add: encode_name_def)
qed

text \<open>A response to a query for one name, with one answer record.\<close>

definition dns_response :: "u16 \<Rightarrow> u8 list \<Rightarrow> u8 list \<Rightarrow> u8 list" where
  "dns_response txid domain record =
     be16 txid @ [0x81, 0x80, 0, 1, 0, 1, 0, 0, 0, 0] @ encode_name (labels domain) @ [0, 0, 1, 0, 1] @ record"

text \<open>An address record, whose name points to the one in the question.\<close>

definition a_record :: "u32 \<Rightarrow> ip4 \<Rightarrow> u8 list" where
  "a_record ttl ip = [0xC0, 12] @ [0, 1, 0, 1] @ be32 ttl @ [0, 4] @ ip_bytes ip"

lemma response_record:
  assumes "\<forall>l \<in> set (labels domain). 0 < length l \<and> length l < 0xC0"
  obtains p where "parse_dns_response (dns_response txid domain r) = answer_loop (dns_response txid domain r) (Suc 0) p"
    "length (dns_response txid domain r) = p + length r" "\<And>k. dns_response txid domain r ! (k + p) = r ! k"
proof -
  let ?h = "be16 txid @ [0x81, 0x80, 0, 1, 0, 1, 0, 0, 0, 0]" and ?n = "encode_name (labels domain)"
  define m where "m = dns_response txid domain r"
  have m: "m = ?h @ ?n @ 0 # [0, 1, 0, 1] @ r" by (simp add: m_def dns_response_def)
  define p where "p = 12 + length ?n"
  have s: "skip_question m 12 = p" using skip_question_encode [OF assms m] by (simp add: be16_def p_def numeral_eq_Suc)
  have lm: "length m = 5 + p + length r" by (simp add: m p_def be16_def)
  have nth: "m ! (k + (5 + p)) = r ! k" for k
    using nth_append_length_plus [of "?h @ ?n @ [0, 0, 1, 0, 1]" r k] by (simp add: m p_def be16_def ac_simps numeral_eq_Suc)
  have "m ! p = 0" using nth_append_length [of "?h @ ?n" 0 "[0, 1, 0, 1] @ r"] by (simp add: m p_def be16_def)
  moreover have "rd_be16 m 6 = 1" by (simp add: m rd_be16_def be16_def from_be16_def nth_append)
  moreover have "12 \<le> p" by (simp add: p_def)
  ultimately have "parse_dns_response m = answer_loop m (Suc 0) (5 + p)"
    using lm s by (simp add: parse_dns_response_def Let_def ac_simps del: answer_loop.simps)
  then show thesis using that [of "5 + p"] lm nth unfolding m_def by blast
qed

text \<open>
  The address comes back: the answer to the query for a name, whose labels are not empty and shorter
  than 192 bytes, is read as the address it holds.
\<close>

lemma dns_round_trip:
  assumes "\<forall>l \<in> set (labels domain). 0 < length l \<and> length l < 0xC0"
  shows "parse_dns_response (dns_response txid domain (a_record ttl ip)) = Some (Some ip)"
proof -
  obtain a b c d where ip: "ip = (a, b, c, d)" by (cases ip)
  let ?r = "a_record ttl ip"
  define m where "m = dns_response txid domain ?r"
  obtain p where p: "parse_dns_response m = answer_loop m (Suc 0) p" "length m = p + length ?r" "\<And>k. m ! (k + p) = ?r ! k"
    using response_record [OF assms, of txid ?r] unfolding m_def by blast
  have "m ! p AND 0xC0 = 0xC0" using p(3) [of 0] by (simp add: a_record_def)
  moreover have "rd_be16 m (2 + p) = 1" "rd_be16 m (10 + p) = 4"
    using p(3) [of 2] p(3) [of "2 + 1"] p(3) [of 10] p(3) [of "10 + 1"]
    by (simp_all only: rd_be16_def add.assoc add.commute [of p 1]) (simp_all add: a_record_def from_be16_def be32_def be16_def)
  moreover have "m ! (12 + p) = a" "m ! (13 + p) = b" "m ! (14 + p) = c" "m ! (15 + p) = d"
    using p(3) [of 12] p(3) [of 13] p(3) [of 14] p(3) [of 15] by (simp_all add: a_record_def be32_def be16_def ip)
  moreover have "unat (4 :: u16) = 4" by simp
  moreover have "length m = p + 16" using p(2) by (simp add: a_record_def be32_def be16_def)
  ultimately show ?thesis using p(1) unfolding m_def [symmetric] by (simp add: Let_def ip ac_simps)
qed

text \<open>
  A response that is cut off panics: when the last five or six bytes of the address record are missing,
  the check for ten bytes, made before the name is skipped, is passed, and the length of the record is
  read beyond the end of the buffer.
\<close>

lemma dns_cut_off_panics:
  assumes "\<forall>l \<in> set (labels domain). 0 < length l \<and> length l < 0xC0" and "n = 10 \<or> n = 11"
  shows "parse_dns_response (dns_response txid domain (take n (a_record ttl ip))) = None"
proof -
  let ?r = "take n (a_record ttl ip)"
  define m where "m = dns_response txid domain ?r"
  obtain p where p: "parse_dns_response m = answer_loop m (Suc 0) p" "length m = p + length ?r" "\<And>k. m ! (k + p) = ?r ! k"
    using response_record [OF assms(1), of txid ?r] unfolding m_def by blast
  have "m ! p AND 0xC0 = 0xC0" using p(3) [of 0] assms(2) by (auto simp: a_record_def)
  moreover have "length m = p + n" using p(2) assms(2) by (auto simp: a_record_def be32_def be16_def)
  ultimately show ?thesis using p(1) assms(2) unfolding m_def [symmetric] by auto
qed

text \<open>The name \<open>a.b\<close>.\<close>

lemma example_labels: "labels [97, 46, 98] = [[97], [98]]"
  by simp

end
