(* ===== verification/Dhcp.thy ===== *)
theory Dhcp
  imports Wire
begin

unbundle bit_operations_syntax

text \<open>
  The DHCP client (\<open>kernel/src/net/dhcp.rs\<close>): the discovery message, the reading of offers and
  acknowledgements, and the search for an option. A message is the list of its bytes; the fields of
  \<open>DhcpHeader\<close> lie at fixed offsets in it.
\<close>

section \<open>Messages\<close>

definition DHCP_OPTION_HOSTNAME :: u8 where "DHCP_OPTION_HOSTNAME = 12"

text \<open>\<open>size_of::<DhcpHeader>()\<close>.\<close>

definition DHCP_HEADER :: nat where "DHCP_HEADER = 240"

definition MAGIC_COOKIE :: "u8 list" where "MAGIC_COOKIE = [0x63, 0x82, 0x53, 0x63]"

definition build_dhcp_discover :: "u8 list" where
  "build_dhcp_discover =
     [1, 1, 6, 0] @ replicate 232 0 @ MAGIC_COOKIE @
     [DHCP_OPTION_HOSTNAME, 8] @ [0x45, 0x6C, 0x69, 0x74, 0x72, 0x61, 0x4F, 0x53] @ [0xFF, 0] @ replicate 48 0"

definition ip_at :: "nat \<Rightarrow> u8 list \<Rightarrow> ip4" where
  "ip_at i p = (p ! i, p ! (i + 1), p ! (i + 2), p ! (i + 3))"

section \<open>The client\<close>

datatype dhcp_state = Initial | Discovering | Offered | Requesting | Acknowledged | Failed

record dhcp_client =
  dh_state :: dhcp_state
  mac_address :: mac6
  ip_address :: ip4
  xid :: u32
  server_ip :: ip4
  timeout :: u32

definition dhcp_new :: "mac6 \<Rightarrow> ip4 \<Rightarrow> dhcp_client" where
  "dhcp_new mac ip =
     \<lparr>dh_state = Initial, mac_address = mac, ip_address = ip, xid = 0, server_ip = (0, 0, 0, 0), timeout = 10000\<rparr>"

text \<open>True is \<open>Ok(())\<close>, False \<open>Err(-1)\<close>.\<close>

definition handle_offer :: "u8 list \<Rightarrow> dhcp_client \<Rightarrow> bool \<times> dhcp_client" where
  "handle_offer packet c =
     (if length packet < DHCP_HEADER then (False, c)
      else if packet ! 0 \<noteq> 2 then (False, c)
      else (True, c\<lparr>server_ip := ip_at 20 packet, ip_address := ip_at 16 packet, dh_state := Offered\<rparr>))"

definition handle_ack :: "u8 list \<Rightarrow> dhcp_client \<Rightarrow> bool \<times> dhcp_client" where
  "handle_ack packet c =
     (if length packet < DHCP_HEADER then (False, c)
      else if packet ! 0 \<noteq> 2 then (False, c)
      else (True, c\<lparr>ip_address := ip_at 16 packet, dh_state := Acknowledged\<rparr>))"

function option_loop :: "u8 list \<Rightarrow> u8 \<Rightarrow> nat \<Rightarrow> nat option" where
  "option_loop packet opt pos =
     (if pos + 1 < length packet then
        if packet ! pos = 0xFF then None
        else if packet ! pos = 0 then option_loop packet opt (pos + 1)
        else let opt_len = unat (packet ! (pos + 1))
             in if packet ! pos = opt then Some pos else option_loop packet opt (pos + (2 + opt_len))
      else None)"
  by pat_completeness auto
termination by (relation "measure (\<lambda>(packet, opt, pos). length packet - pos)") auto

declare option_loop.simps [simp del]

definition find_option :: "u8 list \<Rightarrow> u8 \<Rightarrow> nat option" where
  "find_option packet opt = option_loop packet opt DHCP_HEADER"

section \<open>Finding an option\<close>

text \<open>Options as the protocol has them: padding, or a number and the bytes of the option behind their length.\<close>

datatype dhcp_option = Pad | Opt u8 "u8 list"

fun option_bytes :: "dhcp_option \<Rightarrow> u8 list" where
  "option_bytes Pad = [0]"
| "option_bytes (Opt n bs) = n # of_nat (length bs) # bs"

definition options_bytes :: "dhcp_option list \<Rightarrow> u8 list" where
  "options_bytes os = concat (map option_bytes os)"

fun option_ok :: "dhcp_option \<Rightarrow> bool" where
  "option_ok Pad \<longleftrightarrow> True"
| "option_ok (Opt n bs) \<longleftrightarrow> n \<noteq> 0 \<and> n \<noteq> 0xFF \<and> length bs < 256"

fun is_opt :: "u8 \<Rightarrow> dhcp_option \<Rightarrow> bool" where
  "is_opt k Pad \<longleftrightarrow> False"
| "is_opt k (Opt n bs) \<longleftrightarrow> n = k"

lemma option_loop_options:
  assumes "\<forall>x \<in> set os. option_ok x" "k \<noteq> 0" "k \<noteq> 0xFF" and "packet = pre @ options_bytes os @ 0xFF # post"
  shows "option_loop packet k (length pre) =
    (if \<exists>x \<in> set os. is_opt k x then Some (length pre + length (options_bytes (takeWhile (\<lambda>x. \<not> is_opt k x) os))) else None)"
  using assms
proof (induction os arbitrary: pre)
  case Nil
  then show ?case by (subst option_loop.simps) (auto simp: options_bytes_def)
next
  case (Cons x os)
  have p: "packet = (pre @ option_bytes x) @ options_bytes os @ 0xFF # post" using Cons.prems(4) by (simp add: options_bytes_def)
  note ih = Cons.IH [OF _ assms(2,3) p]
  show ?case
  proof (cases x)
    case Pad
    have "option_loop packet k (length pre) = option_loop packet k (length (pre @ option_bytes x))"
      using p Pad by (subst option_loop.simps) (simp add: nth_append)
    then show ?thesis using ih Cons.prems(1) Pad by (simp add: options_bytes_def)
  next
    case (Opt n bs)
    have u: "unat (of_nat (length bs) :: u8) = length bs" using Cons.prems(1) Opt by (simp add: unat_of_nat)
    have n: "packet ! length pre = n" "packet ! (length pre + 1) = of_nat (length bs)" "length pre + 1 < length packet"
      using p Opt by (simp_all add: nth_append)
    have z: "n \<noteq> 0" "n \<noteq> 0xFF" using Cons.prems(1) Opt by simp_all
    show ?thesis
    proof (cases "n = k")
      case True
      then show ?thesis using n z Opt by (subst option_loop.simps) (simp add: options_bytes_def)
    next
      case False
      have "option_loop packet k (length pre) = option_loop packet k (length (pre @ option_bytes x))"
        using n z u Opt False by (subst option_loop.simps) simp
      then show ?thesis using ih Cons.prems(1) Opt False by (simp add: options_bytes_def)
    qed
  qed
qed

text \<open>
  The search finds the first option with the number asked for, and none when there is none, whatever
  padding stands between the options.
\<close>

lemma find_option_correct:
  assumes "\<forall>x \<in> set os. option_ok x" "k \<noteq> 0" "k \<noteq> 0xFF" "length hdr = 240"
  shows "find_option (hdr @ options_bytes os @ 0xFF # post) k =
    (if \<exists>x \<in> set os. is_opt k x then Some (240 + length (options_bytes (takeWhile (\<lambda>x. \<not> is_opt k x) os))) else None)"
  using option_loop_options [OF assms(1-3) refl, of hdr post] assms(4) by (simp add: find_option_def DHCP_HEADER_def)

text \<open>An acknowledgement is accepted exactly when an offer is.\<close>

lemma ack_iff_offer: "fst (handle_ack packet c) \<longleftrightarrow> fst (handle_offer packet c)"
  by (simp add: handle_ack_def handle_offer_def)

end
