(* ===== verification/Socket.thy ===== *)
theory Socket
  imports Wire
begin

unbundle bit_operations_syntax

text \<open>
  Sockets (\<open>kernel/src/util/socket.rs\<close>): addresses, whose port is stored in network byte order, and the
  operations of a socket with its receive and send buffer. The port an unbound socket gets on connect is
  an argument. A slice beyond the end of a buffer panics, which is the value None.
\<close>

section \<open>Addresses\<close>

definition ENOTBOUND :: i32 where "ENOTBOUND = - 2"
definition ENOTCONN :: i32 where "ENOTCONN = - 3"
definition ENOBUFS :: i32 where "ENOBUFS = - 6"
definition EWOULDBLOCK :: i32 where "EWOULDBLOCK = - 100"

record socket_addr_in =
  sin_family :: u16
  sin_port :: u16
  sin_addr :: ip4

definition sockaddr_new :: "ip4 \<Rightarrow> u16 \<Rightarrow> socket_addr_in" where
  "sockaddr_new ip port = \<lparr>sin_family = 2, sin_port = swap16 port, sin_addr = ip\<rparr>"

definition port_be :: "socket_addr_in \<Rightarrow> u16" where
  "port_be a = swap16 (sin_port a)"

section \<open>Sockets\<close>

datatype socket_type = Stream | Datagram

datatype socket_state = SClosed | SBound | SListen | SConnected

record socket =
  sk_type :: socket_type
  sk_state :: socket_state
  sk_local :: "socket_addr_in option"
  sk_remote :: "socket_addr_in option"
  recv_buffer :: "u8 list"
  send_buffer :: "u8 list"
  sk_recv_pos :: usize
  sk_send_pos :: usize
  sk_backlog :: i32
  sk_error :: i32

definition socket_new :: "socket_type \<Rightarrow> socket" where
  "socket_new t = \<lparr>sk_type = t, sk_state = SClosed, sk_local = None, sk_remote = None, recv_buffer = replicate 4096 0,
     send_buffer = replicate 4096 0, sk_recv_pos = 0, sk_send_pos = 0, sk_backlog = 0, sk_error = 0\<rparr>"

definition sock_bind :: "socket_addr_in \<Rightarrow> socket \<Rightarrow> i32 \<times> socket" where
  "sock_bind addr s = (0, s\<lparr>sk_local := Some addr, sk_state := SBound\<rparr>)"

definition sock_listen :: "i32 \<Rightarrow> socket \<Rightarrow> i32 \<times> socket" where
  "sock_listen backlog s =
     (if sk_state s \<noteq> SBound then (ENOTBOUND, s\<lparr>sk_error := ENOTBOUND\<rparr>)
      else (0, s\<lparr>sk_state := SListen, sk_backlog := backlog\<rparr>))"

definition sock_accept :: "socket \<Rightarrow> socket_addr_in option" where
  "sock_accept s = (if sk_state s \<noteq> SListen then None else sk_remote s)"

text \<open>The port is taken from the counter \<open>next_port\<close> only when the socket has none; the counter is returned.\<close>

definition allocate_ephemeral_port :: "u16 \<Rightarrow> u16 \<times> u16" where
  "allocate_ephemeral_port next_port =
     (if next_port < 49152 then (49152, 49152) else (next_port, next_port + 1))"

definition sock_connect :: "socket_addr_in \<Rightarrow> u16 \<Rightarrow> socket \<Rightarrow> i32 \<times> socket \<times> u16" where
  "sock_connect addr next_port s =
     (let s = s\<lparr>sk_remote := Some addr\<rparr>;
          (s, next_port) =
            (if sk_local s = None then
               let (ephemeral, next_port) = allocate_ephemeral_port next_port
               in (s\<lparr>sk_local := Some (sockaddr_new (0, 0, 0, 0) ephemeral)\<rparr>, next_port)
             else (s, next_port))
      in (0, s\<lparr>sk_state := SConnected\<rparr>, next_port))"

definition sock_send :: "u8 list \<Rightarrow> socket \<Rightarrow> ((i32 + usize) \<times> socket) option" where
  "sock_send dat s =
     (if sk_state s \<noteq> SConnected then Some (Inl ENOTCONN, s)
      else let space = wsub (length (send_buffer s)) (sk_send_pos s);
               len = min (length dat) space
           in if len = 0 then Some (Inl ENOBUFS, s)
              else if sk_send_pos s + len \<le> length (send_buffer s) then
                Some (Inr len, s\<lparr>send_buffer := take (sk_send_pos s) (send_buffer s) @ take len dat @
                                               drop (sk_send_pos s + len) (send_buffer s),
                                 sk_send_pos := sk_send_pos s + len\<rparr>)
              else None)"

text \<open>The bytes read, for a buffer of \<open>n\<close> bytes.\<close>

definition sock_recv :: "nat \<Rightarrow> socket \<Rightarrow> ((i32 + u8 list) \<times> socket) option" where
  "sock_recv n s =
     (if sk_recv_pos s = 0 then Some (Inl EWOULDBLOCK, s)
      else let len = min n (sk_recv_pos s)
           in if len > length (recv_buffer s) then None
              else let out = take len (recv_buffer s);
                       rest = sk_recv_pos s - len;
                       s = s\<lparr>sk_recv_pos := rest\<rparr>
                   in if rest > 0 then
                        if len + rest \<le> length (recv_buffer s) then
                          Some (Inr out, s\<lparr>recv_buffer := take rest (drop len (recv_buffer s)) @ drop rest (recv_buffer s)\<rparr>)
                        else None
                      else Some (Inr out, s))"

definition sock_close :: "socket \<Rightarrow> socket" where
  "sock_close s = s\<lparr>sk_state := SClosed, sk_recv_pos := 0, sk_send_pos := 0, sk_local := None, sk_remote := None\<rparr>"

definition has_data :: "socket \<Rightarrow> bool" where
  "has_data s \<longleftrightarrow> sk_recv_pos s > 0"

section \<open>The buffers as queues\<close>

definition socket_ok :: "socket \<Rightarrow> bool" where
  "socket_ok s \<longleftrightarrow> length (recv_buffer s) = 4096 \<and> length (send_buffer s) = 4096 \<and> sk_recv_pos s \<le> 4096 \<and> sk_send_pos s \<le> 4096"

definition received :: "socket \<Rightarrow> u8 list" where
  "received s = take (sk_recv_pos s) (recv_buffer s)"

lemma socket_new_ok [simp]: "socket_ok (socket_new t)" "received (socket_new t) = []"
  by (simp_all add: socket_ok_def socket_new_def received_def)

lemma sock_recv_queue:
  assumes "socket_ok s"
  shows "\<exists>s'. sock_recv n s = Some (if received s = [] then Inl EWOULDBLOCK else Inr (take n (received s)), s') \<and>
    socket_ok s' \<and> received s' = drop n (received s)"
proof (cases "sk_recv_pos s = 0")
  case True
  then show ?thesis using assms by (simp add: sock_recv_def received_def)
next
  case False
  define len where "len = min n (sk_recv_pos s)"
  define rest where "rest = sk_recv_pos s - len"
  have b: "length (recv_buffer s) = 4096" "sk_recv_pos s \<le> 4096" using assms by (simp_all add: socket_ok_def)
  have ne: "received s \<noteq> []" using False b by (auto simp: received_def)
  have o: "take len (recv_buffer s) = take n (received s)" using b by (simp add: received_def len_def)
  have d: "take rest (drop len (recv_buffer s)) = drop n (received s)" using b by (simp add: received_def rest_def len_def drop_take min_def)
  have fit: "len \<le> 4096" "len + rest \<le> 4096" using b by (simp_all add: len_def rest_def)
  show ?thesis
  proof (cases "rest > 0")
    case True
    let ?s = "s\<lparr>sk_recv_pos := rest, recv_buffer := take rest (drop len (recv_buffer s)) @ drop rest (recv_buffer s)\<rparr>"
    have "sock_recv n s = Some (Inr (take n (received s)), ?s)"
      using False True fit b by (simp add: sock_recv_def len_def [symmetric] rest_def [symmetric] o Let_def)
    moreover have "length (drop n (received s)) = rest" using b by (simp add: received_def rest_def len_def min_def)
    then have "socket_ok ?s" "received ?s = drop n (received s)"
      using assms fit b by (simp_all add: d socket_ok_def) (simp add: received_def)
    ultimately show ?thesis using ne by auto
  next
    case z: False
    have "sock_recv n s = Some (Inr (take n (received s)), s\<lparr>sk_recv_pos := rest\<rparr>)"
      using False z fit b by (simp add: sock_recv_def len_def [symmetric] rest_def [symmetric] o Let_def)
    then show ?thesis using ne assms fit d z by (auto simp: socket_ok_def received_def)
  qed
qed

text \<open>Ports survive the change of byte order.\<close>

lemma port_of_new [simp]: "port_be (sockaddr_new ip p) = p"
  by (simp add: port_be_def sockaddr_new_def)

end
