(* ===== verification/E1000.thy ===== *)
theory E1000
  imports Wire
begin

unbundle bit_operations_syntax

text \<open>
  The network card (\<open>kernel/src/net/e1000.rs\<close>): the receive and the transmit ring with the driver's
  positions in them, and the registers the driver writes. The rings are shared with the card, which sets
  the status byte of a descriptor when it has filled or sent the buffer. The address in a transmit
  descriptor stands for the bytes at it. Finding the card and setting it up are left out.
\<close>

section \<open>State\<close>

record rx_desc =
  rx_length :: u16
  rx_status :: u8
  rx_buffer :: "u8 list"

record tx_desc =
  tx_bytes :: "u8 list"
  tx_length :: u16
  tx_cmd :: u8
  tx_status :: u8

record e1000 =
  initialized :: bool
  mac_addr :: mac6
  rx_descs :: "rx_desc list"
  tx_descs :: "tx_desc list"
  rx_cur :: usize
  tx_cur :: usize
  mmio :: "u16 \<Rightarrow> u32"

datatype net_error = BufferTooSmall | InvalidArgument | NoRoute | NotConnected | WouldBlock | Unknown

definition NUM_RX_DESC :: usize where "NUM_RX_DESC = 32"
definition NUM_TX_DESC :: usize where "NUM_TX_DESC = 32"
definition REG_RDT :: u16 where "REG_RDT = 0x2818"
definition REG_TDT :: u16 where "REG_TDT = 0x3818"
definition RX_STA_DD :: u8 where "RX_STA_DD = 0x01"

definition mmio_write :: "u16 \<Rightarrow> u32 \<Rightarrow> e1000 \<Rightarrow> e1000" where
  "mmio_write reg v d = d\<lparr>mmio := (mmio d)(reg := v)\<rparr>"

section \<open>Operations\<close>

definition dd :: "usize \<Rightarrow> e1000 \<Rightarrow> bool" where
  "dd i d \<longleftrightarrow> rx_status (rx_descs d ! i) AND RX_STA_DD \<noteq> 0"

partial_function (option) poll :: "e1000 \<Rightarrow> e1000 option" where
  "poll d =
     (if \<not> initialized d then Some d
      else if \<not> dd (rx_cur d) d then Some d
      else let nx = (rx_cur d + 1) mod NUM_RX_DESC
           in poll ((mmio_write REG_RDT (of_nat (rx_cur d)) d)\<lparr>rx_cur := nx\<rparr>))"

text \<open>The wait for the card ends after 10000 rounds at the latest and has no effect on the result.\<close>

definition dev_send :: "u8 list \<Rightarrow> e1000 \<Rightarrow> (net_error + unit) \<times> e1000" where
  "dev_send buf d =
     (if \<not> initialized d then (Inl NotConnected, d)
      else let d = d\<lparr>tx_descs := (tx_descs d)[tx_cur d := (tx_descs d ! tx_cur d)
                       \<lparr>tx_bytes := buf, tx_length := of_nat (length buf), tx_cmd := 0x0B, tx_status := 0\<rparr>]\<rparr>;
               nx = (tx_cur d + 1) mod NUM_TX_DESC
           in (Inr (), (mmio_write REG_TDT (of_nat nx) d)\<lparr>tx_cur := nx\<rparr>))"

text \<open>The bytes received into a buffer of \<open>n\<close> bytes.\<close>

definition dev_receive :: "nat \<Rightarrow> e1000 \<Rightarrow> (net_error + u8 list) \<times> e1000" where
  "dev_receive n d =
     (if \<not> initialized d then (Inl NotConnected, d)
      else let nx = (rx_cur d + 1) mod NUM_RX_DESC;
               desc = rx_descs d ! rx_cur d
           in if rx_status desc AND RX_STA_DD = 0 then (Inl WouldBlock, d)
              else let len = unat (rx_length desc)
                   in if len > n then (Inl BufferTooSmall, d)
                      else let d = d\<lparr>rx_descs := (rx_descs d)[rx_cur d := desc\<lparr>rx_status := 0\<rparr>]\<rparr>
                           in (Inr (take len (rx_buffer desc)),
                               (mmio_write REG_RDT (of_nat (rx_cur d)) d)\<lparr>rx_cur := nx\<rparr>))"

definition dev_mac_address :: "e1000 \<Rightarrow> mac6" where
  "dev_mac_address d = mac_addr d"

section \<open>The receive ring\<close>

definition e1000_ok :: "e1000 \<Rightarrow> bool" where
  "e1000_ok d \<longleftrightarrow> initialized d \<and> length (rx_descs d) = 32 \<and> rx_cur d < 32 \<and> length (tx_descs d) = 32 \<and> tx_cur d < 32"

text \<open>
  Polling moves past every filled descriptor without reading it.
\<close>

lemma poll_step:
  assumes "e1000_ok d" "dd (rx_cur d) d"
  shows "poll d = poll ((mmio_write REG_RDT (of_nat (rx_cur d)) d)\<lparr>rx_cur := (rx_cur d + 1) mod 32\<rparr>)"
  using assms by (subst poll.simps) (simp add: e1000_ok_def NUM_RX_DESC_def Let_def)

lemma poll_stops:
  assumes "e1000_ok d" and "i < 32" "\<not> dd ((rx_cur d + i) mod 32) d" "\<forall>j < i. dd ((rx_cur d + j) mod 32) d"
  shows "\<exists>d'. poll d = Some d' \<and> e1000_ok d' \<and> rx_cur d' = (rx_cur d + i) mod 32 \<and> rx_descs d' = rx_descs d"
  using assms
proof (induction i arbitrary: d)
  case 0
  then have "\<not> dd (rx_cur d) d" by (simp add: e1000_ok_def)
  then show ?case using 0 by (subst poll.simps) (simp add: e1000_ok_def)
next
  case (Suc i)
  let ?d = "(mmio_write REG_RDT (of_nat (rx_cur d)) d)\<lparr>rx_cur := (rx_cur d + 1) mod 32\<rparr>"
  have "dd ((rx_cur d + 0) mod 32) d" using Suc.prems(4) by blast
  then have s: "poll d = poll ?d" using poll_step [OF Suc.prems(1)] Suc.prems(1) by (simp add: e1000_ok_def)
  have ok: "e1000_ok ?d" using Suc.prems(1) by (simp add: e1000_ok_def mmio_write_def)
  have r: "(rx_cur ?d + j) mod 32 = (rx_cur d + Suc j) mod 32" for j by (simp add: mod_simps)
  have dd: "dd k ?d = dd k d" for k by (simp add: dd_def mmio_write_def)
  have "\<forall>j < i. dd ((rx_cur d + Suc j) mod 32) d" using Suc.prems(4) by blast
  then show ?case
    using Suc.IH [OF ok] Suc.prems(2,3) unfolding r dd s by (auto simp: mmio_write_def)
qed

lemma first_free:
  fixes c :: nat
  assumes "\<exists>i < 32. \<not> P i" "c < 32"
  obtains i where "i < 32" "\<not> P ((c + i) mod 32)" "\<forall>j < i. P ((c + j) mod 32)"
proof -
  obtain k where k: "k < 32" "\<not> P k" using assms(1) by blast
  let ?j = "(k + 32 - c) mod 32"
  have "(c + ?j) mod 32 = k" using k(1) assms(2) by (simp add: mod_simps)
  then have ex: "\<not> P ((c + ?j) mod 32)" using k(2) by simp
  define i where "i = (LEAST i. \<not> P ((c + i) mod 32))"
  have "\<not> P ((c + i) mod 32)" unfolding i_def by (rule LeastI, rule ex)
  moreover have "i \<le> ?j" unfolding i_def by (rule Least_le, rule ex)
  then have "i < 32" using mod_less_divisor [of 32 "k + 32 - c"] by linarith
  moreover have "\<forall>j < i. P ((c + j) mod 32)" unfolding i_def using not_less_Least by blast
  ultimately show thesis using that by blast
qed

lemma poll_returns:
  assumes "e1000_ok d" "\<exists>i < 32. \<not> dd i d"
  obtains d' where "poll d = Some d'" "e1000_ok d'" "rx_descs d' = rx_descs d" "\<not> dd (rx_cur d') d'"
proof -
  have "rx_cur d < 32" using assms(1) by (simp add: e1000_ok_def)
  with assms(2) obtain i where i: "i < 32" "\<not> dd ((rx_cur d + i) mod 32) d" "\<forall>j < i. dd ((rx_cur d + j) mod 32) d"
    by (rule first_free)
  show thesis using poll_stops [OF assms(1) i] i(2) that by (metis dd_def)
qed

lemma poll_full:
  assumes "poll d = Some d'" "e1000_ok d" "\<forall>i < 32. dd i d"
  shows False
proof -
  have "\<not> (e1000_ok d \<and> (\<forall>i < 32. dd i d))"
  proof (rule poll.raw_induct [where P = "\<lambda>d _. \<not> (e1000_ok d \<and> (\<forall>i < 32. dd i d))", OF _ assms(1)], rule notI, elim conjE)
    fix poll d y
    let ?d = "(mmio_write REG_RDT (of_nat (rx_cur d)) d)\<lparr>rx_cur := (rx_cur d + 1) mod 32\<rparr>"
    assume ih: "\<And>d y. poll d = Some y \<Longrightarrow> \<not> (e1000_ok d \<and> (\<forall>i < 32. dd i d))" and ok: "e1000_ok d" "\<forall>i < 32. dd i d"
      and b: "(if \<not> initialized d then Some d else if \<not> dd (rx_cur d) d then Some d
        else let nx = (rx_cur d + 1) mod NUM_RX_DESC in poll ((mmio_write REG_RDT (of_nat (rx_cur d)) d)\<lparr>rx_cur := nx\<rparr>)) = Some y"
    have "dd (rx_cur d) d" using ok by (simp add: e1000_ok_def)
    then have "poll ?d = Some y" using b ok(1) by (simp add: e1000_ok_def NUM_RX_DESC_def Let_def)
    moreover have "e1000_ok ?d" "\<forall>i < 32. dd i ?d" using ok by (simp_all add: e1000_ok_def dd_def mmio_write_def)
    ultimately show False using ih by blast
  qed
  then show False using assms(2,3) by blast
qed

text \<open>
  Polling the card loses what it has received: every waiting frame is skipped unread, so that the next
  receive finds nothing; and when all descriptors are filled, which stay marked as such, polling never ends.
\<close>

lemma poll_discards:
  assumes "e1000_ok d"
  shows "case poll d of
      Some d' \<Rightarrow> (\<exists>i < 32. \<not> dd i d) \<and> rx_descs d' = rx_descs d \<and> fst (dev_receive n d') = Inl WouldBlock
    | None \<Rightarrow> \<forall>i < 32. dd i d"
proof (cases "\<exists>i < 32. \<not> dd i d")
  case True
  obtain d' where d': "poll d = Some d'" "e1000_ok d'" "rx_descs d' = rx_descs d" "\<not> dd (rx_cur d') d'"
    using assms True by (rule poll_returns)
  then have "fst (dev_receive n d') = Inl WouldBlock" by (simp add: dev_receive_def e1000_ok_def dd_def)
  then show ?thesis using d' True by simp
next
  case False
  then have "poll d = None" using poll_full [of d _] assms by (cases "poll d") auto
  then show ?thesis using False by simp
qed

section \<open>Receiving\<close>

definition waiting :: "e1000 \<Rightarrow> usize set" where
  "waiting d = {i. i < 32 \<and> dd i d}"

lemma receive_ok:
  assumes "e1000_ok d" "dev_receive n d = (r, d')"
  shows "e1000_ok d'" "\<And>f. r = Inr f \<Longrightarrow> waiting d' \<subset> waiting d \<and> length f \<le> n"
    "dd (rx_cur d) d \<Longrightarrow> unat (rx_length (rx_descs d ! rx_cur d)) \<le> n \<Longrightarrow>
      r = Inr (take (unat (rx_length (rx_descs d ! rx_cur d))) (rx_buffer (rx_descs d ! rx_cur d)))"
proof -
  show "e1000_ok d'" using assms by (auto simp: dev_receive_def e1000_ok_def mmio_write_def Let_def NUM_RX_DESC_def split: if_splits)
  show "waiting d' \<subset> waiting d \<and> length f \<le> n" if "r = Inr f" for f
  proof
    have d': "d' = (mmio_write REG_RDT (of_nat (rx_cur d)) (d\<lparr>rx_descs := (rx_descs d)[rx_cur d := (rx_descs d ! rx_cur d)\<lparr>rx_status := 0\<rparr>]\<rparr>))
        \<lparr>rx_cur := (rx_cur d + 1) mod 32\<rparr>" and c: "dd (rx_cur d) d"
      using assms that by (auto simp: dev_receive_def e1000_ok_def Let_def NUM_RX_DESC_def mmio_write_def dd_def split: if_splits)
    have "waiting d' = waiting d - {rx_cur d}"
      using assms(1) by (auto simp: waiting_def dd_def d' mmio_write_def e1000_ok_def nth_list_update split: if_splits)
    moreover have "rx_cur d \<in> waiting d" using c assms(1) by (simp add: waiting_def e1000_ok_def)
    ultimately show "waiting d' \<subset> waiting d" by blast
    show "length f \<le> n" using assms that by (auto simp: dev_receive_def Let_def split: if_splits)
  qed
  show "r = Inr (take (unat (rx_length (rx_descs d ! rx_cur d))) (rx_buffer (rx_descs d ! rx_cur d)))"
    if "dd (rx_cur d) d" "unat (rx_length (rx_descs d ! rx_cur d)) \<le> n"
    using assms that by (auto simp: dev_receive_def Let_def e1000_ok_def dd_def split: if_splits)
qed

lemma send_ok: "e1000_ok d \<Longrightarrow> e1000_ok (snd (dev_send buf d)) \<and> fst (dev_send buf d) = Inr () \<and> rx_descs (snd (dev_send buf d)) = rx_descs d \<and>
    rx_cur (snd (dev_send buf d)) = rx_cur d"
  by (simp add: dev_send_def e1000_ok_def mmio_write_def Let_def NUM_TX_DESC_def)

end
