(* ===== verification/Netstack.thy ===== *)
theory Netstack
  imports Packets Tcp Dns Dhcp Socket E1000
begin

unbundle bit_operations_syntax

text \<open>
  The network stack (\<open>kernel/src/net/mod.rs\<close>): the ARP cache, sending through the card, the socket calls
  and the processing of received packets, over the protocol theories, the sockets and the card.

  What the card does while a call waits is the parameter \<open>hw\<close>. The table of connections is protected by
  a spin lock, \<open>conns_locked\<close>: a call that takes it while it holds it never returns. The other locks are
  left out: none of the calls here takes one of them while holding it. None is a call that does not return or panics.
\<close>

section \<open>State\<close>

type_synonym arp_table = "(ip4 \<times> mac6) option list"

record net_stack =
  device :: e1000
  arp_cache :: arp_table

record net =
  NET_INITIALIZED :: bool
  cfg_ip :: ip4
  cfg_netmask :: ip4
  cfg_gateway :: ip4
  cfg_mac :: mac6
  conns :: "tcp_connection option list"
  conns_locked :: bool
  socks :: "socket option list"
  next_port :: u16
  stack :: "net_stack option"
  NET_IP :: ip4
  NET_MAC :: mac6
  dhcp :: "dhcp_client option"
  dns_txid :: u16
  isn_seed :: u32
  ticks :: u32

definition MAX_SOCKETS :: usize where "MAX_SOCKETS = 16"
definition ETHERTYPE_IPV4 :: u16 where "ETHERTYPE_IPV4 = 0x0800"
definition ETHERTYPE_ARP :: u16 where "ETHERTYPE_ARP = 0x0806"
definition PROTOCOL_ICMP :: u8 where "PROTOCOL_ICMP = 1"
definition PROTOCOL_TCP :: u8 where "PROTOCOL_TCP = 6"
definition PROTOCOL_UDP :: u8 where "PROTOCOL_UDP = 17"

definition to_ip :: "u8 list \<Rightarrow> ip4" where
  "to_ip b = (b ! 0, b ! 1, b ! 2, b ! 3)"

definition to_mac :: "u8 list \<Rightarrow> mac6" where
  "to_mac b = (b ! 0, b ! 1, b ! 2, b ! 3, b ! 4, b ! 5)"

section \<open>The ARP cache\<close>

fun arp_replace :: "ip4 \<Rightarrow> mac6 \<Rightarrow> arp_table \<Rightarrow> arp_table option" where
  "arp_replace ip mac [] = None"
| "arp_replace ip mac (e # es) =
     (case e of
        Some (cached_ip, _) \<Rightarrow>
          if cached_ip = ip then Some (Some (ip, mac) # es) else map_option ((#) e) (arp_replace ip mac es)
      | None \<Rightarrow> map_option ((#) e) (arp_replace ip mac es))"

fun fill_slot :: "'a \<Rightarrow> 'a option list \<Rightarrow> 'a option list" where
  "fill_slot x [] = []"
| "fill_slot x (e # es) = (if e = None then Some x # es else e # fill_slot x es)"

definition update_arp_cache :: "ip4 \<Rightarrow> mac6 \<Rightarrow> arp_table \<Rightarrow> arp_table" where
  "update_arp_cache ip mac es =
     (case arp_replace ip mac es of Some es \<Rightarrow> es | None \<Rightarrow> fill_slot (ip, mac) es)"

fun arp_lookup :: "ip4 \<Rightarrow> arp_table \<Rightarrow> mac6 option" where
  "arp_lookup ip [] = None"
| "arp_lookup ip (e # es) =
     (case e of Some (cached_ip, mac) \<Rightarrow> if cached_ip = ip then Some mac else arp_lookup ip es | None \<Rightarrow> arp_lookup ip es)"

definition handle_arp_packet :: "u16 \<Rightarrow> mac6 \<Rightarrow> ip4 \<Rightarrow> net_stack \<Rightarrow> net_stack" where
  "handle_arp_packet opcode sender_mac sender_ip st =
     (if opcode = OP_REPLY then st\<lparr>arp_cache := update_arp_cache sender_ip sender_mac (arp_cache st)\<rparr> else st)"

definition process_packet_raw :: "u8 list \<Rightarrow> arp_table \<Rightarrow> arp_table" where
  "process_packet_raw data es =
     (case parse_ethernet_frame data of
        None \<Rightarrow> es
      | Some (ethertype, payload) \<Rightarrow>
          if ethertype = ETHERTYPE_ARP then
            case parse_arp_packet payload of
              None \<Rightarrow> es
            | Some (opcode, sender_mac, sender_ip) \<Rightarrow>
                if opcode = OP_REPLY then update_arp_cache (to_ip sender_ip) (to_mac sender_mac) es else es
          else es)"

section \<open>Sending\<close>

text \<open>
  The card works on its own while the driver runs: \<open>hw\<close> is what it does to its registers and descriptors
  between two looks of the driver at them, and it may do so before each look.
\<close>

partial_function (option) arp_drain :: "(e1000 \<Rightarrow> e1000) \<Rightarrow> e1000 \<Rightarrow> arp_table \<Rightarrow> (e1000 \<times> arp_table) option" where
  "arp_drain hw d es =
     (case dev_receive 1500 (hw d) of
        (Inr pkt, d) \<Rightarrow> arp_drain hw d (process_packet_raw pkt es)
      | (Inl e, d) \<Rightarrow> Some (d, es))"

fun resolve_loop :: "(e1000 \<Rightarrow> e1000) \<Rightarrow> ip4 \<Rightarrow> nat \<Rightarrow> net_stack \<Rightarrow> ((net_error + mac6) \<times> net_stack) option" where
  "resolve_loop hw ip 0 st = Some (Inl NotConnected, st)"
| "resolve_loop hw ip (Suc n) st = do {
     (d, es) \<leftarrow> arp_drain hw (device st) (arp_cache st);
     case arp_lookup ip es of
       Some mac \<Rightarrow> Some (Inr mac, st\<lparr>device := d, arp_cache := es\<rparr>)
     | None \<Rightarrow> resolve_loop hw ip n (st\<lparr>device := d, arp_cache := es\<rparr>)
   }"

definition resolve_mac :: "(e1000 \<Rightarrow> e1000) \<Rightarrow> ip4 \<Rightarrow> ip4 \<Rightarrow> net_stack \<Rightarrow> ((net_error + mac6) \<times> net_stack) option" where
  "resolve_mac hw my_ip ip st =
     (case arp_lookup ip (arp_cache st) of
        Some mac \<Rightarrow> Some (Inr mac, st)
      | None \<Rightarrow> do {
          arp_request \<leftarrow> build_arp_request (replicate 42 0) (dev_mac_address (device st)) my_ip ip;
          let (_, d) = dev_send arp_request (device st);
          resolve_loop hw ip 50 (st\<lparr>device := d\<rparr>)
        })"

definition send_ethernet :: "u16 \<Rightarrow> mac6 \<Rightarrow> u8 list \<Rightarrow> net_stack \<Rightarrow> (net_error + unit) \<times> net_stack" where
  "send_ethernet ethertype dest_mac payload st =
     (let (frame_len, frame) =
            build_ethernet_frame (replicate 1514 0) (dev_mac_address (device st)) dest_mac ethertype payload
      in if frame_len = 0 then (Inl BufferTooSmall, st)
         else let (r, d) = dev_send (take frame_len frame) (device st) in (r, st\<lparr>device := d\<rparr>))"

definition send_ipv4 ::
  "(e1000 \<Rightarrow> e1000) \<Rightarrow> ip4 \<Rightarrow> ip4 \<Rightarrow> u8 \<Rightarrow> u8 list \<Rightarrow> net_stack \<Rightarrow> ((net_error + unit) \<times> net_stack) option" where
  "send_ipv4 hw my_ip dest_ip protocol payload st = do {
     (r, st) \<leftarrow> resolve_mac hw my_ip dest_ip st;
     case r of
       Inl e \<Rightarrow> Some (Inl e, st)
     | Inr dest_mac \<Rightarrow>
         let (ip_len, ip_packet) = build_ipv4_packet (replicate 1500 0) my_ip dest_ip protocol payload
         in Some (send_ethernet 0x0800 dest_mac (take ip_len ip_packet) st)
   }"

text \<open>Sending through the stack of the machine, if there is one.\<close>

definition net_send :: "(e1000 \<Rightarrow> e1000) \<Rightarrow> ip4 \<Rightarrow> u8 \<Rightarrow> u8 list \<Rightarrow> net \<Rightarrow> ((net_error + unit) \<times> net) option" where
  "net_send hw dest_ip protocol payload s =
     (case stack s of
        None \<Rightarrow> Some (Inr (), s)
      | Some st \<Rightarrow> do {
          (r, st) \<leftarrow> send_ipv4 hw (NET_IP s) dest_ip protocol payload st;
          Some (r, s\<lparr>stack := Some st\<rparr>)
        })"

section \<open>DHCP\<close>

definition discover_dhcp :: "net_stack \<Rightarrow> net \<Rightarrow> (net_error + unit) \<times> net" where
  "discover_dhcp st s =
     (let mac = mac_bytes (dev_mac_address (device st));
          packet = take 28 build_dhcp_discover @ mac @ drop 34 build_dhcp_discover;
          (packet, s) =
            (case dhcp s of
               None \<Rightarrow> (packet, s)
             | Some c \<Rightarrow>
                 let x = xid c + 1
                 in (take 4 packet @ be32 x @ drop 8 packet, s\<lparr>dhcp := Some (c\<lparr>xid := x\<rparr>)\<rparr>));
          (r, d) = dev_send packet (device st)
      in (case r of Inl _ \<Rightarrow> Inl Unknown | Inr _ \<Rightarrow> Inr (), s\<lparr>stack := Some (st\<lparr>device := d\<rparr>)\<rparr>))"

definition handle_dhcp_packet :: "u8 list \<Rightarrow> net \<Rightarrow> (net_error + unit) \<times> net" where
  "handle_dhcp_packet packet s =
     (if length packet < DHCP_HEADER then (Inl InvalidArgument, s)
      else case dhcp s of
        None \<Rightarrow> (Inr (), s)
      | Some client \<Rightarrow>
          (case handle_offer packet client of
             (True, client) \<Rightarrow> (Inr (), s\<lparr>dhcp := Some client, NET_IP := ip_address client\<rparr>)
           | (False, client) \<Rightarrow>
               (case handle_ack packet client of
                  (True, client) \<Rightarrow> (Inr (), s\<lparr>dhcp := Some client, NET_IP := ip_address client\<rparr>)
                | (False, client) \<Rightarrow> (Inr (), s\<lparr>dhcp := Some client\<rparr>))))"

definition start_dhcp_discovery :: "net_stack \<Rightarrow> net \<Rightarrow> (net_error + unit) \<times> net" where
  "start_dhcp_discovery st s =
     discover_dhcp st (s\<lparr>dhcp := Some (dhcp_new (dev_mac_address (device st)) (0, 0, 0, 0))\<rparr>)"

section \<open>Socket calls\<close>

fun first_free :: "'a option list \<Rightarrow> nat \<Rightarrow> nat option" where
  "first_free [] i = None"
| "first_free (e # es) i = (if e = None then Some i else first_free es (i + 1))"

definition net_socket :: "u32 \<Rightarrow> net \<Rightarrow> i32 \<times> net" where
  "net_socket socket_type s =
     (if socket_type \<noteq> 1 \<and> socket_type \<noteq> 2 then (- 1, s)
      else let stype = (if socket_type = 1 then Stream else Datagram)
           in case first_free (socks s) 0 of
                Some fd \<Rightarrow> (of_nat fd, s\<lparr>socks := (socks s)[fd := Some (socket_new stype)]\<rparr>)
              | None \<Rightarrow> (- 1, s))"

text \<open>The socket with a number, if the number is in range and the slot used.\<close>

definition bad_sock :: "i32 \<Rightarrow> bool" where
  "bad_sock sockfd \<longleftrightarrow> sint sockfd < 0 \<or> unat sockfd \<ge> MAX_SOCKETS"

definition port_bound :: "u16 \<Rightarrow> socket option \<Rightarrow> bool" where
  "port_bound port x = (case x of None \<Rightarrow> False | Some other \<Rightarrow>
     (case sk_local other of None \<Rightarrow> False | Some addr \<Rightarrow> port_be addr = port))"

definition net_bind :: "i32 \<Rightarrow> u16 \<Rightarrow> net \<Rightarrow> i32 \<times> net" where
  "net_bind sockfd port s =
     (if bad_sock sockfd then (- 1, s)
      else let fd = unat sockfd
           in if \<exists>i \<in> set [0..<length (socks s)]. i \<noteq> fd \<and> port_bound port (socks s ! i) then (- 1, s)
              else case socks s ! fd of
                Some sock \<Rightarrow>
                  let (r, sock) = sock_bind (sockaddr_new (0, 0, 0, 0) port) sock
                  in (r, s\<lparr>socks := (socks s)[fd := Some sock]\<rparr>)
              | None \<Rightarrow> (- 1, s))"

definition net_listen :: "i32 \<Rightarrow> i32 \<Rightarrow> net \<Rightarrow> i32 \<times> net" where
  "net_listen sockfd backlog s =
     (if bad_sock sockfd then (- 1, s)
      else case socks s ! unat sockfd of
        Some sock \<Rightarrow>
          let (r, sock) = sock_listen backlog sock
          in (r, s\<lparr>socks := (socks s)[unat sockfd := Some sock]\<rparr>)
      | None \<Rightarrow> (- 1, s))"

text \<open>A new connection with the next initial sequence number.\<close>

definition new_conn :: "socket_addr \<Rightarrow> socket_addr \<Rightarrow> net \<Rightarrow> tcp_connection \<times> net" where
  "new_conn la ra s = (let (c, seed) = tcp_new (isn_seed s) (ticks s) la ra in (c, s\<lparr>isn_seed := seed\<rparr>))"

definition net_connect :: "(e1000 \<Rightarrow> e1000) \<Rightarrow> i32 \<Rightarrow> ip4 \<Rightarrow> u16 \<Rightarrow> net \<Rightarrow> (i32 \<times> net) option" where
  "net_connect hw sockfd ip port s =
     (if bad_sock sockfd then Some (- 1, s)
      else case socks s ! unat sockfd of
        Some sock \<Rightarrow>
          let (result, sock, np) = sock_connect (sockaddr_new ip port) (next_port s) sock;
              s = s\<lparr>socks := (socks s)[unat sockfd := Some sock], next_port := np\<rparr>
          in if result = 0 then do {
               local_port \<leftarrow> map_option port_be (sk_local sock);
               let (conn, s) = new_conn \<lparr>sa_ip = cfg_ip s, sa_port = local_port\<rparr> \<lparr>sa_ip = ip, sa_port = port\<rparr> s;
               let conn = conn\<lparr>socket_fd := sockfd\<rparr>;
               case build_syn (ticks s) conn of
                 (Some (seq, syn_packet), conn) \<Rightarrow>
                   if conns_locked s then None
                   else do {
                     (_, s) \<leftarrow> net_send hw ip PROTOCOL_TCP syn_packet (s\<lparr>conns := fill_slot conn (conns s)\<rparr>);
                     Some (result, s)
                   }
               | (None, _) \<Rightarrow> Some (result, s)
             } else Some (result, s)
      | None \<Rightarrow> Some (- 1, s))"

text \<open>
  The search of a connection to send on: at each one that fits, data is sent, and the search ends with
  the first that takes it.
\<close>

fun send_scan :: "u16 \<Rightarrow> u16 \<Rightarrow> u8 list \<Rightarrow> tcp_connection option list \<Rightarrow> u8 list option \<times> tcp_connection option list" where
  "send_scan local_port port dat [] = (None, [])"
| "send_scan local_port port dat (e # es) =
     (let skip = (let (p, es) = send_scan local_port port dat es in (p, e # es))
      in case e of
           None \<Rightarrow> skip
         | Some conn \<Rightarrow>
             if sa_port (local_addr conn) = local_port \<and> sa_port (remote_addr conn) = port \<and> conn_state conn = Established then
               (case send_data dat conn of
                  (Some (_, packet), conn) \<Rightarrow> (Some packet, Some conn # es)
                | (None, conn) \<Rightarrow> let (p, es) = send_scan local_port port dat es in (p, Some conn # es))
             else skip)"

definition net_sendto :: "(e1000 \<Rightarrow> e1000) \<Rightarrow> i32 \<Rightarrow> u8 list \<Rightarrow> ip4 \<Rightarrow> u16 \<Rightarrow> net \<Rightarrow> ((i32 + usize) \<times> net) option" where
  "net_sendto hw sockfd dat ip port s =
     (if bad_sock sockfd then Some (Inl (- 1), s)
      else case socks s ! unat sockfd of
        Some sock \<Rightarrow> do {
          let (sock, np) =
            (if sk_local sock = None then
               let (ephemeral, np) = allocate_ephemeral_port (next_port s);
                   sock = sock\<lparr>sk_local := Some (sockaddr_new (0, 0, 0, 0) ephemeral)\<rparr>
               in (if sk_state sock = SClosed then sock\<lparr>sk_state := SBound\<rparr> else sock, np)
             else (sock, next_port s));
          let s = s\<lparr>socks := (socks s)[unat sockfd := Some sock], next_port := np\<rparr>;
          local_port \<leftarrow> map_option port_be (sk_local sock);
          case sk_type sock of
            Datagram \<Rightarrow>
              (let (len, udp_packet) = build_udp_packet (replicate 1500 0) local_port port dat (cfg_ip s) ip
               in if len = 0 then Some (Inl (- 7), s)
                  else do {
                    (r, s) \<leftarrow> net_send hw ip PROTOCOL_UDP (take len udp_packet) s;
                    Some (case r of Inl _ \<Rightarrow> Inl (- 1) | Inr _ \<Rightarrow> Inr (length dat), s)
                  })
          | Stream \<Rightarrow>
              if conns_locked s then None
              else (case send_scan local_port port dat (conns s) of
                      (Some packet, cs) \<Rightarrow> do {
                        let s = s\<lparr>conns := cs\<rparr>;
                        (r, s) \<leftarrow> net_send hw ip PROTOCOL_TCP packet s;
                        Some (if stack s \<noteq> None \<and> r = Inr () \<and> dat \<noteq> [] then Inr (length dat) else Inl (- 1), s)
                      }
                    | (None, cs) \<Rightarrow> Some (Inl (- 1), s\<lparr>conns := cs\<rparr>))
        }
      | None \<Rightarrow> Some (Inl (- 1), s))"

text \<open>The bytes read with the address they are said to come from, for a buffer of \<open>n\<close> bytes.\<close>

definition net_recvfrom :: "i32 \<Rightarrow> nat \<Rightarrow> net \<Rightarrow> ((i32 + u8 list \<times> ip4 \<times> u16) \<times> net) option" where
  "net_recvfrom sockfd n s =
     (if bad_sock sockfd then Some (Inl (- 1), s)
      else case socks s ! unat sockfd of
        Some sock \<Rightarrow>
          if \<not> has_data sock then Some (Inl EWOULDBLOCK, s)
          else do {
            (r, sock) \<leftarrow> sock_recv n sock;
            let s = s\<lparr>socks := (socks s)[unat sockfd := Some sock]\<rparr>;
            case r of
              Inl e \<Rightarrow> Some (Inl e, s)
            | Inr b \<Rightarrow>
                Some (Inr (b, case sk_remote sock of None \<Rightarrow> (0, 0, 0, 0) | Some a \<Rightarrow> sin_addr a,
                           case sk_remote sock of None \<Rightarrow> 0 | Some a \<Rightarrow> port_be a), s)
          }
      | None \<Rightarrow> Some (Inl (- 1), s))"

definition net_close_socket :: "i32 \<Rightarrow> net \<Rightarrow> i32 \<times> net" where
  "net_close_socket sockfd s =
     (if bad_sock sockfd then (- 1, s)
      else case socks s ! unat sockfd of
        Some sock \<Rightarrow> (0, s\<lparr>socks := (socks s)[unat sockfd := Some (sock_close sock)]\<rparr>)
      | None \<Rightarrow> (- 1, s))"

fun accept_scan :: "u16 \<Rightarrow> tcp_connection option list \<Rightarrow> (tcp_connection \<times> tcp_connection option list) option" where
  "accept_scan listen_port [] = None"
| "accept_scan listen_port (e # es) =
     (let skip = map_option (\<lambda>(c, es). (c, e # es)) (accept_scan listen_port es)
      in case e of
           None \<Rightarrow> skip
         | Some conn \<Rightarrow>
             if conn_state conn = Established \<and> swap16 (sa_port (local_addr conn)) = listen_port then Some (conn, None # es)
             else skip)"

text \<open>
  The number returned with the address and port of the peer. When there was a free slot the number is
  that of the first used one; otherwise the first connected socket with the port of the peer is looked for.
\<close>

definition net_accept :: "i32 \<Rightarrow> net \<Rightarrow> (i32 \<times> (ip4 \<times> u16) option \<times> net) option" where
  "net_accept sockfd s =
     (if bad_sock sockfd then Some (- 1, None, s)
      else case socks s ! unat sockfd of
        None \<Rightarrow> Some (- 1, None, s)
      | Some sock \<Rightarrow>
          if sk_state sock \<noteq> SListen then Some (- 1, None, s)
          else case sk_local sock of
            None \<Rightarrow> Some (- 1, None, s)
          | Some a \<Rightarrow>
              if conns_locked s then None
              else case accept_scan (port_be a) (conns s) of
                None \<Rightarrow> Some (- 1, None, s)
              | Some (conn, cs) \<Rightarrow>
                  let c_ip = sa_ip (remote_addr conn);
                      c_port = swap16 (sa_port (remote_addr conn));
                      l_ip = sa_ip (local_addr conn);
                      l_port = swap16 (sa_port (local_addr conn));
                      s = s\<lparr>conns := cs\<rparr>
                  in case first_free (socks s) 0 of
                       Some fd \<Rightarrow>
                         let new_sock = (socket_new Stream)\<lparr>sk_state := SConnected, sk_local := Some (sockaddr_new l_ip l_port),
                                          sk_remote := Some (sockaddr_new c_ip c_port)\<rparr>;
                             s = s\<lparr>socks := (socks s)[fd := Some new_sock]\<rparr>
                         in Some (of_nat (length (takeWhile (\<lambda>x. x = None) (socks s))), Some (c_ip, c_port), s)
                     | None \<Rightarrow>
                         let hit = (\<lambda>x. case x of None \<Rightarrow> False | Some k \<Rightarrow>
                               sk_state k = SConnected \<and> (case sk_remote k of None \<Rightarrow> False | Some a \<Rightarrow> sin_port a = swap16 c_port))
                         in Some (if \<exists>x \<in> set (socks s). hit x then of_nat (length (takeWhile (\<lambda>x. \<not> hit x) (socks s))) else - 1,
                                  Some (c_ip, c_port), s))"

definition net_socket_has_data :: "i32 \<Rightarrow> net \<Rightarrow> bool" where
  "net_socket_has_data sockfd s =
     (if bad_sock sockfd then False else case socks s ! unat sockfd of Some sock \<Rightarrow> has_data sock | None \<Rightarrow> False)"

section \<open>Received packets\<close>

text \<open>The datagram goes to the first datagram socket bound to the port.\<close>

fun deliver_udp_packet :: "u16 \<Rightarrow> u8 list \<Rightarrow> ip4 \<Rightarrow> socket option list \<Rightarrow> socket option list option" where
  "deliver_udp_packet dst_port payload src_ip [] = Some []"
| "deliver_udp_packet dst_port payload src_ip (e # es) =
     (if case e of None \<Rightarrow> False | Some sock \<Rightarrow> sk_type sock = Datagram \<and> port_bound dst_port e then
        let sock = the e;
            space = wsub (length (recv_buffer sock)) (sk_recv_pos sock);
            copy_len = min (length payload) space
        in if copy_len > 0 then
             if sk_recv_pos sock + copy_len \<le> length (recv_buffer sock) then
               Some (Some (sock\<lparr>recv_buffer := take (sk_recv_pos sock) (recv_buffer sock) @ take copy_len payload @
                                               drop (sk_recv_pos sock + copy_len) (recv_buffer sock),
                                sk_recv_pos := sk_recv_pos sock + copy_len,
                                sk_remote := Some (sockaddr_new src_ip (swap16 dst_port))\<rparr>) # es)
             else None
           else Some (e # es)
      else map_option ((#) e) (deliver_udp_packet dst_port payload src_ip es))"

text \<open>The first connection a segment belongs to takes it.\<close>

fun segment_scan ::
  "u32 \<Rightarrow> u16 \<Rightarrow> u16 \<Rightarrow> u16 \<Rightarrow> u32 \<Rightarrow> u32 \<Rightarrow> u16 \<Rightarrow> u8 list \<Rightarrow> tcp_connection option list \<Rightarrow>
     ((response \<times> tcp_connection option list) option) option" where
  "segment_scan now dst_port sport flags seq ack window payload [] = Some None"
| "segment_scan now dst_port sport flags seq ack window payload (e # es) =
     (if case e of None \<Rightarrow> False | Some conn \<Rightarrow>
           sa_port (local_addr conn) = dst_port \<and> (sa_port (remote_addr conn) = 0 \<or> sa_port (remote_addr conn) = sport)
      then do {
        (response, conn) \<leftarrow> process_segment now flags seq ack window payload (the e);
        Some (Some (response, Some conn # es))
      } else do {
        r \<leftarrow> segment_scan now dst_port sport flags seq ack window payload es;
        Some (map_option (\<lambda>(response, es). (response, e # es)) r)
      })"

definition listens :: "u16 \<Rightarrow> socket option \<Rightarrow> bool" where
  "listens dst_port x = (case x of None \<Rightarrow> False | Some sock \<Rightarrow>
     sk_state sock = SListen \<and> sk_type sock = Stream \<and> port_bound dst_port x)"

definition pending_count :: "u16 \<Rightarrow> tcp_connection option list \<Rightarrow> nat" where
  "pending_count dst_port cs = length (filter (\<lambda>x. case x of None \<Rightarrow> False | Some conn \<Rightarrow>
     swap16 (sa_port (local_addr conn)) = dst_port \<and> (conn_state conn = SynReceived \<or> conn_state conn = Established)) cs)"

text \<open>
  The lock is taken at the start and held to the end; a request for a connection that finds a listening
  socket takes it again, to count the connections or to enter the new one.
\<close>

definition lock_conns :: "net \<Rightarrow> net option" where
  "lock_conns s = (if conns_locked s then None else Some (s\<lparr>conns_locked := True\<rparr>))"

definition unlock_conns :: "net \<Rightarrow> net" where
  "unlock_conns s = s\<lparr>conns_locked := False\<rparr>"

definition syn_request :: "(e1000 \<Rightarrow> e1000) \<Rightarrow> socket \<Rightarrow> u16 \<Rightarrow> u16 \<Rightarrow> u32 \<Rightarrow> ip4 \<Rightarrow> net \<Rightarrow> net option" where
  "syn_request hw sock dst_port sport seq src_ip s = do {
     full \<leftarrow> (if sint (sk_backlog sock) > 0 then do {
               s \<leftarrow> lock_conns s;
               Some (int (pending_count dst_port (conns s)) \<ge> sint (sk_backlog sock))
             } else Some False);
     if full then Some s
     else do {
       let (conn, s) = new_conn \<lparr>sa_ip = cfg_ip s, sa_port = dst_port\<rparr> \<lparr>sa_ip = src_ip, sa_port = sport\<rparr> s;
       let conn = conn\<lparr>recv_seq := seq + 1, conn_state := SynReceived\<rparr>;
       let conn = update_activity (ticks s) conn;
       let conn = conn\<lparr>send_seq := send_seq conn + 1\<rparr>;
       (response, conn) \<leftarrow> process_segment (ticks s) (FLAG_SYN OR FLAG_ACK) seq 0 DEFAULT_WINDOW [] conn;
       s \<leftarrow> (case response of
               None \<Rightarrow> Some s
             | Some (_, p) \<Rightarrow> map_option snd (net_send hw src_ip PROTOCOL_TCP p s));
       s \<leftarrow> lock_conns s;
       Some (s\<lparr>conns := fill_slot conn (conns s)\<rparr>)
     }
   }"

definition process_tcp_packet :: "(e1000 \<Rightarrow> e1000) \<Rightarrow> tcp_header \<Rightarrow> u8 list \<Rightarrow> ip4 \<Rightarrow> net \<Rightarrow> net option" where
  "process_tcp_packet hw header payload src_ip s = do {
     let dst_port = swap16 (dest_port header);
     let sport = swap16 (src_port header);
     let flags = swap16 (data_offset_flags header) AND 0x3F;
     let seq = swap32 (seq_num header);
     let ack = swap32 (ack_num header);
     s \<leftarrow> lock_conns s;
     r \<leftarrow> segment_scan (ticks s) dst_port sport flags seq ack (swap16 (window_size header)) payload (conns s);
     case r of
       Some (response, cs) \<Rightarrow> do {
         let s = s\<lparr>conns := cs\<rparr>;
         s \<leftarrow> (case response of
                 None \<Rightarrow> Some s
               | Some (_, p) \<Rightarrow> map_option snd (net_send hw src_ip PROTOCOL_TCP p s));
         Some (unlock_conns s)
       }
     | None \<Rightarrow>
         if has_flag flags FLAG_SYN \<and> \<not> has_flag flags FLAG_ACK then
           (case filter (listens dst_port) (socks s) of
              Some sock # _ \<Rightarrow> map_option unlock_conns (syn_request hw sock dst_port sport seq src_ip s)
            | _ \<Rightarrow> Some (unlock_conns s))
         else Some (unlock_conns s)
   }"

definition process_icmp_packet :: "(e1000 \<Rightarrow> e1000) \<Rightarrow> u8 list \<Rightarrow> ip4 \<Rightarrow> net \<Rightarrow> net option" where
  "process_icmp_packet hw data src_ip s =
     (case parse_icmp_packet data of
        None \<Rightarrow> Some s
      | Some (icmp_type, icmp_id, icmp_seq, icmp_payload) \<Rightarrow>
          if icmp_type = ICMP_ECHO_REQUEST then
            let (len, reply_buf) = build_icmp_reply (replicate 1500 0) icmp_id icmp_seq icmp_payload
            in if len > 0 then map_option snd (net_send hw src_ip PROTOCOL_ICMP (take len reply_buf) s) else Some s
          else Some s)"

text \<open>The address at an offset of the IPv4 header, zeros when the packet is too short.\<close>

definition ip_field :: "nat \<Rightarrow> u8 list \<Rightarrow> ip4" where
  "ip_field i payload = (if length payload \<ge> 20 then ip_at i payload else (0, 0, 0, 0))"

definition udp_src_ip :: "u8 list \<Rightarrow> ip4" where
  "udp_src_ip payload =
     (if length payload \<ge> 20 then
        let ihl = unat (payload ! 0 AND 0x0F) * 4
        in if length payload \<ge> ihl + 4 then ip_at 12 payload else (0, 0, 0, 0)
      else (0, 0, 0, 0))"

definition process_ipv4 :: "(e1000 \<Rightarrow> e1000) \<Rightarrow> u8 list \<Rightarrow> net \<Rightarrow> net option" where
  "process_ipv4 hw payload s =
     (case parse_ipv4_packet payload of
        None \<Rightarrow> Some s
      | Some (protocol, ip_payload) \<Rightarrow>
          if protocol = PROTOCOL_UDP then do {
            u \<leftarrow> parse_udp_packet ip_payload;
            case u of
              None \<Rightarrow> Some s
            | Some (_, dst_port, udp_payload) \<Rightarrow>
                if dst_port = 67 \<or> dst_port = 68 then Some (snd (handle_dhcp_packet udp_payload s))
                else map_option (\<lambda>k. s\<lparr>socks := k\<rparr>) (deliver_udp_packet dst_port udp_payload (udp_src_ip payload) (socks s))
          } else if protocol = PROTOCOL_TCP then
            (case parse_tcp_packet ip_payload of
               None \<Rightarrow> Some s
             | Some (header, tcp_payload) \<Rightarrow> process_tcp_packet hw header tcp_payload (ip_field 12 payload) s)
          else if protocol = PROTOCOL_ICMP then process_icmp_packet hw ip_payload (ip_field 12 payload) s
          else Some s)"

definition process_arp :: "u8 list \<Rightarrow> net \<Rightarrow> net option" where
  "process_arp payload s =
     (case parse_arp_packet payload of
        None \<Rightarrow> Some s
      | Some (opcode, sender_mac, sender_ip) \<Rightarrow>
          (case stack s of
             None \<Rightarrow> Some s
           | Some st \<Rightarrow>
               if opcode = OP_REQUEST then do {
                 reply \<leftarrow> build_arp_reply (replicate 42 0) (cfg_mac s) (cfg_ip s) (to_mac sender_mac) (to_ip sender_ip);
                 let (_, d) = dev_send reply (device st);
                 Some (s\<lparr>stack := Some (st\<lparr>device := d\<rparr>)\<rparr>)
               } else if opcode = OP_REPLY then
                 Some (s\<lparr>stack := Some (handle_arp_packet opcode (to_mac sender_mac) (to_ip sender_ip) st)\<rparr>)
               else Some s))"

definition process_packet :: "(e1000 \<Rightarrow> e1000) \<Rightarrow> u8 list \<Rightarrow> net \<Rightarrow> net option" where
  "process_packet hw data s =
     (case parse_ethernet_frame data of
        None \<Rightarrow> Some s
      | Some (ethertype, payload) \<Rightarrow>
          if ethertype = ETHERTYPE_IPV4 then process_ipv4 hw payload s
          else if ethertype = ETHERTYPE_ARP then process_arp payload s
          else Some s)"

section \<open>Polling\<close>

definition on_device :: "e1000 \<Rightarrow> net \<Rightarrow> net" where
  "on_device d s = s\<lparr>stack := map_option (\<lambda>st. st\<lparr>device := d\<rparr>) (stack s)\<rparr>"

partial_function (option) receive_loop :: "(e1000 \<Rightarrow> e1000) \<Rightarrow> net \<Rightarrow> net option" where
  "receive_loop hw s =
     (case stack s of
        None \<Rightarrow> Some s
      | Some st \<Rightarrow>
          (case dev_receive 1500 (hw (device st)) of
             (Inl e, d) \<Rightarrow> Some (on_device d s)
           | (Inr data, d) \<Rightarrow> Option.bind (process_packet hw data (on_device d s)) (receive_loop hw)))"

fun retransmit_all :: "(e1000 \<Rightarrow> e1000) \<Rightarrow> (ip4 \<times> u8 list) list \<Rightarrow> net \<Rightarrow> net option" where
  "retransmit_all hw [] s = Some s"
| "retransmit_all hw ((ip, packet) # ps) s =
     Option.bind (net_send hw ip 6 packet s) (\<lambda>(_, s). retransmit_all hw ps s)"

definition krust_net_poll :: "(e1000 \<Rightarrow> e1000) \<Rightarrow> net \<Rightarrow> (i32 \<times> net) option" where
  "krust_net_poll hw s =
     (if \<not> NET_INITIALIZED s then Some (- 1, s)
      else do {
        s \<leftarrow> (case stack s of
                None \<Rightarrow> Some s
              | Some st \<Rightarrow> Option.bind (poll (device st)) (\<lambda>d. receive_loop hw (on_device d s)));
        s \<leftarrow> lock_conns s;
        let (ps, cs) = tcp_retransmit_check (ticks s) (conns s);
        let s = unlock_conns (s\<lparr>conns := cs\<rparr>);
        s \<leftarrow> retransmit_all hw ps s;
        Some (0, s)
      })"

definition krust_net_init :: "mac6 \<Rightarrow> ip4 \<Rightarrow> ip4 \<Rightarrow> ip4 \<Rightarrow> net \<Rightarrow> i32 \<times> net" where
  "krust_net_init mac ip netmask gateway s =
     (if NET_INITIALIZED s then (0, s)
      else (0, s\<lparr>cfg_mac := mac, cfg_ip := ip, cfg_netmask := netmask, cfg_gateway := gateway,
                 NET_IP := ip, NET_MAC := mac, NET_INITIALIZED := True\<rparr>))"

definition init_net_stack :: "e1000 \<Rightarrow> net \<Rightarrow> net" where
  "init_net_stack d s = s\<lparr>stack := Some \<lparr>device = d, arp_cache = replicate 64 None\<rparr>\<rparr>"

section \<open>Names\<close>

partial_function (option) dns_drain :: "(e1000 \<Rightarrow> e1000) \<Rightarrow> u16 \<Rightarrow> e1000 \<Rightarrow> (ip4 option option \<times> e1000) option" where
  "dns_drain hw local_port d =
     (case dev_receive 1500 (hw d) of
        (Inl e, d) \<Rightarrow> Some (None, d)
      | (Inr raw, d) \<Rightarrow>
          Option.bind
            (case parse_ethernet_frame raw of
               None \<Rightarrow> Some None
             | Some (ethertype, payload) \<Rightarrow>
                 if ethertype = ETHERTYPE_IPV4 then
                   (case parse_ipv4_packet payload of
                      None \<Rightarrow> Some None
                    | Some (proto, ip_payload) \<Rightarrow> if proto = PROTOCOL_UDP then parse_udp_packet ip_payload else Some None)
                 else Some None)
            (\<lambda>u. case u of
               Some (sp, dp, udp_payload) \<Rightarrow>
                 if dp = local_port \<and> sp = 53 then
                   Option.bind (parse_dns_response (take 512 udp_payload)) (\<lambda>r. Some (Some r, d))
                 else dns_drain hw local_port d
             | None \<Rightarrow> dns_drain hw local_port d))"

fun dns_wait :: "(e1000 \<Rightarrow> e1000) \<Rightarrow> u16 \<Rightarrow> nat \<Rightarrow> net \<Rightarrow> (ip4 option \<times> net) option" where
  "dns_wait hw local_port 0 s = Some (None, s)"
| "dns_wait hw local_port (Suc n) s =
     (case stack s of
        None \<Rightarrow> dns_wait hw local_port n s
      | Some st \<Rightarrow> do {
          d \<leftarrow> poll (hw (device st));
          (r, d) \<leftarrow> dns_drain hw local_port d;
          let s = on_device d s;
          case r of Some a \<Rightarrow> Some (a, s) | None \<Rightarrow> dns_wait hw local_port n s
        })"

definition dns_resolve :: "(e1000 \<Rightarrow> e1000) \<Rightarrow> u8 list \<Rightarrow> net \<Rightarrow> (ip4 option \<times> net) option" where
  "dns_resolve hw domain s = do {
     (query_len, tx_buf, txid) \<leftarrow> build_dns_query domain (replicate 512 0) (dns_txid s);
     let s = s\<lparr>dns_txid := txid\<rparr>;
     if query_len = 0 then Some (None, s)
     else do {
       let (local_port, np) = allocate_ephemeral_port (next_port s);
       let s = s\<lparr>next_port := np\<rparr>;
       let (len, udp_packet) = build_udp_packet (replicate 1500 0) local_port 53 (take query_len tx_buf) (NET_IP s) (8, 8, 8, 8);
       if len = 0 then Some (None, s)
       else if stack s = None then None
       else do {
         (_, s) \<leftarrow> net_send hw (8, 8, 8, 8) PROTOCOL_UDP (take len udp_packet) s;
         dns_wait hw local_port 200 s
       }
     }
   }"

end
