(* ===== verification/Network.thy ===== *)
theory Network
  imports Netstack
begin

unbundle bit_operations_syntax

text \<open>
  Properties of the network stack: the ARP cache as a map, the end of address resolution, datagrams from
  the wire to a socket, and what the socket calls and polling do not do.
\<close>

section \<open>The ARP cache as a map\<close>

lemma arp_replace_lookup:
  "arp_replace ip mac es = Some es' \<Longrightarrow> arp_lookup x es' = (if x = ip then Some mac else arp_lookup x es) \<and> length es' = length es"
  by (induction es arbitrary: es') (auto split: option.splits if_splits)

lemma arp_replace_None: "arp_replace ip mac es = None \<longleftrightarrow> arp_lookup ip es = None"
  by (induction es) (auto split: option.splits)

lemma fill_slot_lookup:
  "None \<in> set es \<Longrightarrow> arp_lookup ip es = None \<Longrightarrow> arp_lookup x (fill_slot (ip, mac) es) = (if x = ip then Some mac else arp_lookup x es)"
  by (induction es) (auto split: option.splits)

lemma fill_slot_full: "None \<notin> set es \<Longrightarrow> fill_slot x es = es"
proof (induction es)
  case (Cons e es)
  then show ?case by (cases e) auto
qed simp

lemma length_fill_slot [simp]: "length (fill_slot x es) = length es"
  by (induction es) auto

text \<open>
  The ARP cache is a map: an update makes the address known with its new hardware address and leaves
  every other one; only when the cache is full and the address is not in it is the update dropped.
\<close>

lemma arp_cache_refines:
  "length (update_arp_cache ip mac es) = length es \<and>
   (\<lambda>x. arp_lookup x (update_arp_cache ip mac es)) =
     (if arp_lookup ip es = None \<and> None \<notin> set es then (\<lambda>x. arp_lookup x es) else (\<lambda>x. arp_lookup x es)(ip \<mapsto> mac))"
proof (cases "arp_replace ip mac es")
  case None
  then have n: "arp_lookup ip es = None" by (simp add: arp_replace_None)
  show ?thesis
  proof (cases "None \<in> set es")
    case True
    then show ?thesis using None n by (auto simp: update_arp_cache_def fill_slot_lookup)
  next
    case False
    then show ?thesis using None n by (simp add: update_arp_cache_def fill_slot_full)
  qed
next
  case (Some es')
  then have "arp_lookup ip es \<noteq> None" using arp_replace_None [of ip mac es] by simp
  then show ?thesis using Some arp_replace_lookup [OF Some] by (auto simp: update_arp_cache_def)
qed

section \<open>Address resolution ends\<close>

text \<open>
  What is relied on of the card: it keeps its rings well formed, and it has only finitely many frames to
  deliver, so that each frame the driver takes leaves fewer.
\<close>

definition card_ok :: "(e1000 \<Rightarrow> e1000) \<Rightarrow> bool" where
  "card_ok hw \<longleftrightarrow> (\<forall>d. e1000_ok d \<longrightarrow> e1000_ok (hw d)) \<and>
     (\<exists>left :: e1000 \<Rightarrow> nat. \<forall>d f d'. e1000_ok d \<longrightarrow> dev_receive 1500 (hw d) = (Inr f, d') \<longrightarrow> left d' < left d)"

text \<open>The frames the driver takes from the card until the card has none, and those of several rounds of this.\<close>

inductive heard :: "(e1000 \<Rightarrow> e1000) \<Rightarrow> e1000 \<Rightarrow> u8 list list \<Rightarrow> e1000 \<Rightarrow> bool" for hw where
  heard_none: "dev_receive 1500 (hw d) = (Inl e, d') \<Longrightarrow> heard hw d [] d'"
| heard_frame: "dev_receive 1500 (hw d) = (Inr f, d1) \<Longrightarrow> heard hw d1 fs d' \<Longrightarrow> heard hw d (f # fs) d'"

inductive heard_rounds :: "(e1000 \<Rightarrow> e1000) \<Rightarrow> e1000 \<Rightarrow> u8 list list list \<Rightarrow> e1000 \<Rightarrow> bool" for hw where
  rounds_none: "heard_rounds hw d [] d"
| rounds_more: "heard hw d fs d1 \<Longrightarrow> heard_rounds hw d1 fss d' \<Longrightarrow> heard_rounds hw d (fs # fss) d'"

lemma finite_waiting: "finite (waiting d)"
  by (simp add: waiting_def)

lemma arp_drain_heard:
  assumes "card_ok hw" "e1000_ok d"
  shows "\<exists>fs d'. heard hw d fs d' \<and> arp_drain hw d es = Some (d', fold process_packet_raw fs es) \<and> e1000_ok d'"
proof -
  obtain left :: "e1000 \<Rightarrow> nat" where
    left: "\<And>d f d'. e1000_ok d \<Longrightarrow> dev_receive 1500 (hw d) = (Inr f, d') \<Longrightarrow> left d' < left d"
    using assms(1) unfolding card_ok_def by blast
  have hw: "e1000_ok (hw d)" if "e1000_ok d" for d using assms(1) that by (simp add: card_ok_def)
  show ?thesis
    using assms(2)
  proof (induction "left d" arbitrary: d es rule: less_induct)
    case less
    obtain r d1 where r: "dev_receive 1500 (hw d) = (r, d1)" by fastforce
    note ok = receive_ok(1) [OF hw [OF less.prems] r]
    show ?case
    proof (cases r)
      case (Inl e)
      then show ?thesis using r ok heard_none [of hw d e d1]
        by (intro exI [of _ "[]"] exI [of _ d1]) (simp add: arp_drain.simps)
    next
      case (Inr f)
      obtain fs d' where "heard hw d1 fs d'" "e1000_ok d'"
        "arp_drain hw d1 (process_packet_raw f es) = Some (d', fold process_packet_raw fs (process_packet_raw f es))"
        using less.hyps [OF left ok] less.prems r Inr by blast
      then show ?thesis using r Inr heard_frame [of hw d f d1 fs d']
        by (intro exI [of _ "f # fs"] exI [of _ d']) (simp add: arp_drain.simps [of hw d])
    qed
  qed
qed

text \<open>An address the cache knows stays known.\<close>

lemma process_raw_keeps: "arp_lookup ip es \<noteq> None \<Longrightarrow> arp_lookup ip (process_packet_raw f es) \<noteq> None"
proof -
  assume a: "arp_lookup ip es \<noteq> None"
  have "arp_lookup ip (update_arp_cache x m es) \<noteq> None" for x m
    using a fun_cong [OF conjunct2 [OF arp_cache_refines [of x m es]], of ip] by (simp del: not_None_eq split: if_splits)
  then show ?thesis using a by (simp add: process_packet_raw_def split: option.split)
qed

lemma process_all_keeps: "arp_lookup ip es \<noteq> None \<Longrightarrow> arp_lookup ip (fold process_packet_raw fs es) \<noteq> None"
  by (induction fs arbitrary: es) (simp_all add: process_raw_keeps del: not_None_eq)

definition learnt :: "arp_table \<Rightarrow> u8 list list list \<Rightarrow> arp_table" where
  "learnt es fss = fold process_packet_raw (concat fss) es"

text \<open>
  The outcome of waiting for an answer: the address the frames of the last round brought, or, after all the
  rounds, that none did.
\<close>

definition awaited :: "(e1000 \<Rightarrow> e1000) \<Rightarrow> nat \<Rightarrow> ip4 \<Rightarrow> e1000 \<Rightarrow> arp_table \<Rightarrow> u8 list list list \<Rightarrow> e1000 \<Rightarrow> bool" where
  "awaited hw n ip d es fss d' \<longleftrightarrow> heard_rounds hw d fss d' \<and>
     (if arp_lookup ip (learnt es fss) = None then length fss = n
      else fss \<noteq> [] \<and> length fss \<le> n \<and> arp_lookup ip (learnt es (butlast fss)) = None)"

lemma awaited_more:
  assumes "heard hw d fs d1" "awaited hw n ip d1 (fold process_packet_raw fs es) fss d'"
    "arp_lookup ip (fold process_packet_raw fs es) = None"
  shows "awaited hw (Suc n) ip d es (fs # fss) d'"
  using assms rounds_more [of hw d fs d1 fss d'] by (auto simp: awaited_def learnt_def split: if_splits)

lemma resolve_loop_waits:
  assumes "card_ok hw" "e1000_ok (device st)" "arp_lookup ip (arp_cache st) = None"
  shows "\<exists>fss d'. awaited hw n ip (device st) (arp_cache st) fss d' \<and> e1000_ok d' \<and>
    resolve_loop hw ip n st =
      Some (case arp_lookup ip (learnt (arp_cache st) fss) of None \<Rightarrow> Inl NotConnected | Some mac \<Rightarrow> Inr mac,
            st\<lparr>device := d', arp_cache := learnt (arp_cache st) fss\<rparr>)"
  using assms(2,3)
proof (induction n arbitrary: st)
  case 0
  then show ?case
    by (intro exI [of _ "[]"] exI [of _ "device st"]) (simp add: awaited_def learnt_def rounds_none)
next
  case (Suc n)
  obtain fs d where d: "heard hw (device st) fs d" "e1000_ok d"
    "arp_drain hw (device st) (arp_cache st) = Some (d, fold process_packet_raw fs (arp_cache st))"
    using arp_drain_heard [OF assms(1) Suc.prems(1)] by blast
  let ?es = "fold process_packet_raw fs (arp_cache st)"
  show ?case
  proof (cases "arp_lookup ip ?es")
    case None
    obtain fss d' where f: "awaited hw n ip d ?es fss d'" "e1000_ok d'"
      "resolve_loop hw ip n (st\<lparr>device := d, arp_cache := ?es\<rparr>) =
        Some (case arp_lookup ip (learnt ?es fss) of None \<Rightarrow> Inl NotConnected | Some mac \<Rightarrow> Inr mac,
              st\<lparr>device := d', arp_cache := learnt ?es fss\<rparr>)"
      using Suc.IH [of "st\<lparr>device := d, arp_cache := ?es\<rparr>"] d(2) None by auto
    moreover have "learnt (arp_cache st) (fs # fss) = learnt ?es fss" by (simp add: learnt_def)
    ultimately show ?thesis using d(3) None awaited_more [OF d(1) f(1) None]
      by (intro exI [of _ "fs # fss"] exI [of _ d']) simp
  next
    case (Some mac)
    then show ?thesis using d Suc.prems(2) rounds_more [OF d(1) rounds_none]
      by (intro exI [of _ "[fs]"] exI [of _ d]) (simp add: awaited_def learnt_def)
  qed
qed

text \<open>The card after the request for an address was sent.\<close>

definition asked :: "ip4 \<Rightarrow> ip4 \<Rightarrow> e1000 \<Rightarrow> e1000" where
  "asked my_ip ip d = snd (dev_send (the (build_arp_request (replicate 42 0) (mac_addr d) my_ip ip)) d)"

lemma resolve_mac_waits:
  assumes "card_ok hw" "e1000_ok (device st)" "arp_lookup ip (arp_cache st) = None"
  shows "\<exists>fss d'. awaited hw 50 ip (asked my_ip ip (device st)) (arp_cache st) fss d' \<and> e1000_ok d' \<and>
    resolve_mac hw my_ip ip st =
      Some (case arp_lookup ip (learnt (arp_cache st) fss) of None \<Rightarrow> Inl NotConnected | Some mac \<Rightarrow> Inr mac,
            st\<lparr>device := d', arp_cache := learnt (arp_cache st) fss\<rparr>)"
proof -
  obtain req where q: "build_arp_request (replicate 42 0) (dev_mac_address (device st)) my_ip ip = Some req"
    by (simp add: build_arp_request_def)
  obtain x d where d: "dev_send req (device st) = (x, d)" by fastforce
  have "e1000_ok d" using send_ok [OF assms(2), of req] d by simp
  moreover have "asked my_ip ip (device st) = d" using q d by (simp add: asked_def dev_mac_address_def)
  ultimately show ?thesis
    using resolve_loop_waits [OF assms(1), of "st\<lparr>device := d\<rparr>" ip 50] assms(3) q d by (simp add: resolve_mac_def)
qed

text \<open>The frame handed to the card last.\<close>

definition last_sent :: "e1000 \<Rightarrow> u8 list" where
  "last_sent d = tx_bytes (tx_descs d ! ((tx_cur d + 31) mod 32))"

lemma send_last:
  assumes "e1000_ok d"
  shows "last_sent (snd (dev_send buf d)) = buf" "mac_addr (snd (dev_send buf d)) = mac_addr d"
proof -
  have "((tx_cur d + 1) mod 32 + 31) mod 32 = tx_cur d" using assms by (simp add: e1000_ok_def mod_simps)
  then show "last_sent (snd (dev_send buf d)) = buf"
    using assms by (simp add: last_sent_def dev_send_def e1000_ok_def mmio_write_def Let_def NUM_TX_DESC_def)
  show "mac_addr (snd (dev_send buf d)) = mac_addr d" by (simp add: dev_send_def mmio_write_def Let_def)
qed

lemma send_ethernet_frame:
  assumes "e1000_ok (device st)" "length payload \<le> 1500" "send_ethernet ethertype mac payload st = (r, st')"
  shows "r = Inr () \<and> e1000_ok (device st') \<and> arp_cache st' = arp_cache st \<and>
    last_sent (device st') = mac_bytes mac @ mac_bytes (mac_addr (device st')) @ be16 ethertype @ payload"
proof -
  let ?f = "mac_bytes mac @ mac_bytes (mac_addr (device st)) @ be16 ethertype @ payload"
  obtain x d where d: "dev_send ?f (device st) = (x, d)" by fastforce
  have "send_ethernet ethertype mac payload st = (x, st\<lparr>device := d\<rparr>)"
    using assms(2) d by (simp add: send_ethernet_def build_ethernet_frame_def dev_mac_address_def be16_def)
  then show ?thesis using assms(3) send_ok [OF assms(1), of ?f] send_last [OF assms(1), of ?f] d by auto
qed

text \<open>The frame that carries a payload: without contents when the payload does not fit.\<close>

definition ipv4_frame :: "mac6 \<Rightarrow> mac6 \<Rightarrow> ip4 \<Rightarrow> ip4 \<Rightarrow> u8 \<Rightarrow> u8 list \<Rightarrow> u8 list" where
  "ipv4_frame mac my_mac my_ip ip protocol payload = mac_bytes mac @ mac_bytes my_mac @ be16 0x0800 @
     (if length payload \<le> 1480
      then take (20 + length payload) (snd (build_ipv4_packet (replicate 1500 0) my_ip ip protocol payload)) else [])"

lemma send_ipv4_resolved:
  assumes "resolve_mac hw my_ip ip st = Some (Inr mac, st1)" "e1000_ok (device st1)"
  shows "\<exists>d. send_ipv4 hw my_ip ip protocol payload st = Some (Inr (), st1\<lparr>device := d\<rparr>) \<and> e1000_ok d \<and>
    last_sent d = ipv4_frame mac (mac_addr d) my_ip ip protocol payload"
proof -
  define p where "p = (if length payload \<le> 1480
    then take (20 + length payload) (snd (build_ipv4_packet (replicate 1500 0) my_ip ip protocol payload)) else [])"
  obtain x st' where s: "send_ethernet 0x0800 mac p st1 = (x, st')" by fastforce
  have l: "length p \<le> 1500" by (simp add: p_def min_def)
  have "send_ipv4 hw my_ip ip protocol payload st = Some (x, st')"
    using assms(1) s by (simp add: send_ipv4_def p_def build_ipv4_packet_def Let_def split: if_splits)
  moreover obtain d where "st' = st1\<lparr>device := d\<rparr>"
    using s that by (cases st1) (auto simp: send_ethernet_def Let_def split: prod.splits if_splits)
  ultimately show ?thesis
    using send_ethernet_frame [OF assms(2) l s] unfolding ipv4_frame_def p_def [symmetric] by auto
qed

lemma send_ipv4_known:
  assumes "e1000_ok (device st)" "arp_lookup ip (arp_cache st) = Some mac"
  shows "\<exists>d. send_ipv4 hw my_ip ip protocol payload st = Some (Inr (), st\<lparr>device := d\<rparr>) \<and> e1000_ok d \<and>
    last_sent d = ipv4_frame mac (mac_addr d) my_ip ip protocol payload"
  using send_ipv4_resolved [of hw my_ip ip st mac st] assms by (simp add: resolve_mac_def)

lemma send_ipv4_asks:
  assumes "card_ok hw" "e1000_ok (device st)" "arp_lookup ip (arp_cache st) = None"
  shows "\<exists>fss d' d. awaited hw 50 ip (asked my_ip ip (device st)) (arp_cache st) fss d' \<and> e1000_ok d \<and>
    (case arp_lookup ip (learnt (arp_cache st) fss) of
       None \<Rightarrow> d = d' \<and> send_ipv4 hw my_ip ip protocol payload st = Some (Inl NotConnected, st\<lparr>device := d, arp_cache := learnt (arp_cache st) fss\<rparr>)
     | Some mac \<Rightarrow> send_ipv4 hw my_ip ip protocol payload st = Some (Inr (), st\<lparr>device := d, arp_cache := learnt (arp_cache st) fss\<rparr>) \<and>
         last_sent d = ipv4_frame mac (mac_addr d) my_ip ip protocol payload)"
proof -
  obtain fss d' where f: "awaited hw 50 ip (asked my_ip ip (device st)) (arp_cache st) fss d'" "e1000_ok d'"
    "resolve_mac hw my_ip ip st =
      Some (case arp_lookup ip (learnt (arp_cache st) fss) of None \<Rightarrow> Inl NotConnected | Some mac \<Rightarrow> Inr mac,
            st\<lparr>device := d', arp_cache := learnt (arp_cache st) fss\<rparr>)"
    using resolve_mac_waits [OF assms] by blast
  show ?thesis
  proof (cases "arp_lookup ip (learnt (arp_cache st) fss)")
    case None
    then show ?thesis using f by (intro exI [of _ fss] exI [of _ d'] exI [of _ d']) (simp add: send_ipv4_def)
  next
    case (Some mac)
    let ?st = "st\<lparr>device := d', arp_cache := learnt (arp_cache st) fss\<rparr>"
    obtain d where "send_ipv4 hw my_ip ip protocol payload st = Some (Inr (), ?st\<lparr>device := d\<rparr>)" "e1000_ok d"
      "last_sent d = ipv4_frame mac (mac_addr d) my_ip ip protocol payload"
      using send_ipv4_resolved [of hw my_ip ip st mac ?st protocol payload] f(2,3) Some by auto
    then show ?thesis using f(1) Some
      by (intro exI [of _ fss] exI [of _ d'] exI [of _ d]) (cases st; simp)
  qed
qed

lemma send_ipv4_returns:
  assumes "card_ok hw" "e1000_ok (device st)"
  shows "\<exists>r st'. send_ipv4 hw my_ip ip protocol payload st = Some (r, st') \<and> e1000_ok (device st')"
proof (cases "arp_lookup ip (arp_cache st)")
  case None
  obtain fss d where "e1000_ok d" "\<exists>r. send_ipv4 hw my_ip ip protocol payload st = Some (r, st\<lparr>device := d, arp_cache := learnt (arp_cache st) fss\<rparr>)"
    using send_ipv4_asks [OF assms None, of my_ip protocol payload] by (fastforce split: option.splits)
  then show ?thesis by auto
next
  case (Some mac)
  then show ?thesis using send_ipv4_known [OF assms(2) Some] by fastforce
qed

text \<open>
  C38. Sending ends, whatever the card does meanwhile, as long as it has finitely many frames to deliver. To
  a receiver whose hardware address is known the packet goes out at once. Otherwise the address is asked
  for, and the frames the card delivers are searched for answers in up to 50 rounds: the packet goes out
  after the first round that brought the address, to the address the answers gave, and it is refused
  when, and only when, no frame of all 50 rounds brought it. A payload of more than 1480 bytes, however, goes
  out as a frame without any contents, and no error is reported.
\<close>

theorem send_ipv4_correct:
  assumes "card_ok hw" and "e1000_ok (device st)"
  shows "case arp_lookup dest_ip (arp_cache st) of
      Some mac \<Rightarrow> \<exists>d. send_ipv4 hw my_ip dest_ip protocol payload st = Some (Inr (), st\<lparr>device := d\<rparr>) \<and> e1000_ok d \<and>
        last_sent d = ipv4_frame mac (mac_addr d) my_ip dest_ip protocol payload
    | None \<Rightarrow> \<exists>fss d' d. awaited hw 50 dest_ip (asked my_ip dest_ip (device st)) (arp_cache st) fss d' \<and> e1000_ok d \<and>
        (case arp_lookup dest_ip (learnt (arp_cache st) fss) of
           None \<Rightarrow> d = d' \<and>
             send_ipv4 hw my_ip dest_ip protocol payload st = Some (Inl NotConnected, st\<lparr>device := d, arp_cache := learnt (arp_cache st) fss\<rparr>)
         | Some mac \<Rightarrow>
             send_ipv4 hw my_ip dest_ip protocol payload st = Some (Inr (), st\<lparr>device := d, arp_cache := learnt (arp_cache st) fss\<rparr>) \<and>
             last_sent d = ipv4_frame mac (mac_addr d) my_ip dest_ip protocol payload)"
proof (cases "arp_lookup dest_ip (arp_cache st)")
  case None
  then show ?thesis using send_ipv4_asks [OF assms None] by simp
next
  case (Some mac)
  then show ?thesis using send_ipv4_known [OF assms(2) Some] by simp
qed

section \<open>Datagrams\<close>

definition socks_ok :: "socket option list \<Rightarrow> bool" where
  "socks_ok ks \<longleftrightarrow> (\<forall>k. Some k \<in> set ks \<longrightarrow> socket_ok k)"

text \<open>The socket a datagram for a port goes to.\<close>

definition udp_target :: "u16 \<Rightarrow> socket option \<Rightarrow> bool" where
  "udp_target port x = (case x of None \<Rightarrow> False | Some k \<Rightarrow> sk_type k = Datagram \<and> port_bound port x)"

definition receives :: "u16 \<Rightarrow> u8 list \<Rightarrow> ip4 \<Rightarrow> socket \<Rightarrow> socket \<Rightarrow> bool" where
  "receives port payload src k k' \<longleftrightarrow> socket_ok k' \<and> received k' = take 4096 (received k @ payload) \<and>
     sk_local k' = sk_local k \<and> sk_type k' = sk_type k \<and> sk_state k' = sk_state k \<and>
     sk_remote k' = (if payload = [] \<or> length (received k) = 4096 then sk_remote k else Some (sockaddr_new src (swap16 port)))"

lemma deliver_one:
  assumes "socket_ok k" "udp_target port (Some k)"
  shows "\<exists>k'. deliver_udp_packet port payload src (Some k # es) = Some (Some k' # es) \<and> receives port payload src k k'"
proof -
  have b: "length (recv_buffer k) = 4096" "sk_recv_pos k \<le> 4096" using assms(1) by (simp_all add: socket_ok_def)
  have r: "length (received k) = sk_recv_pos k" using b by (simp add: received_def)
  define n where "n = min (length payload) (4096 - sk_recv_pos k)"
  have w: "wsub 4096 (sk_recv_pos k) = 4096 - sk_recv_pos k" using b by (intro wsub_small) (simp_all add: usize_mod_def)
  have t: "take n payload = take (4096 - sk_recv_pos k) payload" by (simp add: n_def min_def)
  show ?thesis
  proof (cases "n > 0")
    case True
    define k' where "k' = k\<lparr>recv_buffer := take (sk_recv_pos k) (recv_buffer k) @ take n payload @ drop (sk_recv_pos k + n) (recv_buffer k),
      sk_recv_pos := sk_recv_pos k + n, sk_remote := Some (sockaddr_new src (swap16 port))\<rparr>"
    have fit: "sk_recv_pos k + n \<le> 4096" using b by (simp add: n_def)
    have ne: "payload \<noteq> []" "length (received k) \<noteq> 4096" using True r by (auto simp: n_def)
    have "deliver_udp_packet port payload src (Some k # es) = Some (Some k' # es)"
      using assms(2) True fit b w ne r by (simp add: udp_target_def n_def [symmetric] k'_def Let_def)
    moreover have "received k' = take 4096 (received k @ payload)"
      using b fit r by (simp add: received_def k'_def t [symmetric] n_def)
    ultimately show ?thesis using assms(1) fit b ne by (auto simp: receives_def socket_ok_def k'_def n_def)
  next
    case False
    then have z: "payload = [] \<or> sk_recv_pos k = 4096" using b by (auto simp: n_def min_def split: if_splits)
    have "deliver_udp_packet port payload src (Some k # es) = Some (Some k # es)"
      using assms(2) z b w by (auto simp: udp_target_def Let_def)
    then show ?thesis using z r assms(1) b by (auto simp: receives_def)
  qed
qed

lemma deliver_target:
  assumes "\<forall>x \<in> set as. \<not> udp_target port x" "socket_ok k" "udp_target port (Some k)"
  shows "\<exists>k'. deliver_udp_packet port payload src (as @ Some k # es) = Some (as @ Some k' # es) \<and> receives port payload src k k'"
  using assms(1)
proof (induction as)
  case (Cons a as)
  then show ?case by (auto simp: udp_target_def simp del: deliver_udp_packet.simps(1))
qed (use deliver_one [OF assms(2,3)] in \<open>simp only: append_Nil\<close>)

text \<open>A datagram as it comes from the wire.\<close>

definition udp_frame :: "mac6 \<Rightarrow> mac6 \<Rightarrow> ip4 \<Rightarrow> ip4 \<Rightarrow> u16 \<Rightarrow> u16 \<Rightarrow> u8 list \<Rightarrow> u8 list" where
  "udp_frame smac dmac src dst sport dport payload =
     (let u = take (8 + length payload) (snd (build_udp_packet (replicate 1500 0) sport dport payload src dst));
          p = take (20 + length u) (snd (build_ipv4_packet (replicate 1500 0) src dst PROTOCOL_UDP u))
      in take (14 + length p) (snd (build_ethernet_frame (replicate 1514 0) smac dmac ETHERTYPE_IPV4 p)))"

lemma udp_frame_parses:
  assumes "length payload \<le> 1472"
  obtains u p where "parse_ethernet_frame (udp_frame smac dmac src dst sport dport payload) = Some (ETHERTYPE_IPV4, p)"
    "parse_ipv4_packet p = Some (PROTOCOL_UDP, u)" "parse_udp_packet u = Some (Some (sport, dport, payload))" "udp_src_ip p = src"
proof -
  obtain n b where b: "build_udp_packet (replicate 1500 0) sport dport payload src dst = (n, b)" by fastforce
  have B: "n = 8 + length payload" "parse_udp_packet (take n b) = Some (Some (sport, dport, payload))"
    using udp_build_parse [OF _ _ b] assms by auto
  define u where "u = take n b"
  have lu: "length u = 8 + length payload"
    using b assms by (auto simp: u_def build_udp_packet_def Let_def be16_def)
  obtain m q where q: "build_ipv4_packet (replicate 1500 0) src dst PROTOCOL_UDP u = (m, q)" by fastforce
  have z: "take 2 (drop 10 (replicate 1500 (0 :: u8))) = [0, 0]" by (simp add: numeral_eq_Suc)
  have Q: "m = 20 + length u" "length q = 1500" "parse_ipv4_packet (take m q) = Some (PROTOCOL_UDP, u)"
    using ipv4_build_parse [OF _ z q] lu assms by auto
  define p where "p = take m q"
  have lp: "length p = 20 + length u" using Q lu assms by (simp add: p_def)
  obtain l f where f: "build_ethernet_frame (replicate 1514 0) smac dmac ETHERTYPE_IPV4 p = (l, f)" by fastforce
  have F: "parse_ethernet_frame (take l f) = Some (ETHERTYPE_IPV4, p)" "l = 14 + length p"
    using ethernet_arp_build_parse [of p "replicate 1514 0" "replicate 28 0", OF _ _ f] f lp lu assms by (auto simp: build_ethernet_frame_def)
  have "udp_frame smac dmac src dst sport dport payload = take l f"
    unfolding udp_frame_def Let_def b snd_conv B(1) [symmetric] u_def [symmetric] q Q(1) [symmetric] p_def [symmetric] f F(2) [symmetric] ..
  moreover obtain a1 a2 a3 a4 where src: "src = (a1, a2, a3, a4)" by (cases src)
  have "udp_src_ip p = src"
    using q Q(1) lp lu assms
    by (auto simp: udp_src_ip_def p_def build_ipv4_packet_def ipv4_front_def be16_def le16_def ip_at_def src nth_append Let_def)
  ultimately show thesis using that [of p u] F(1) Q(3) B(2) by (simp add: p_def u_def)
qed

lemma udp_delivered:
  assumes "length payload \<le> 1472" "dport \<noteq> 67" "dport \<noteq> 68" "socks s = as @ Some k # es"
    and "\<forall>x \<in> set as. \<not> udp_target dport x" "socket_ok k" "udp_target dport (Some k)"
  shows "\<exists>k'. process_packet hw (udp_frame smac dmac src dst sport dport payload) s = Some (s\<lparr>socks := as @ Some k' # es\<rparr>) \<and>
    receives dport payload src k k'"
proof -
  obtain u p where p: "parse_ethernet_frame (udp_frame smac dmac src dst sport dport payload) = Some (ETHERTYPE_IPV4, p)"
    "parse_ipv4_packet p = Some (PROTOCOL_UDP, u)" "parse_udp_packet u = Some (Some (sport, dport, payload))" "udp_src_ip p = src"
    using assms(1) by (rule udp_frame_parses)
  obtain k' where k': "deliver_udp_packet dport payload src (as @ Some k # es) = Some (as @ Some k' # es)" "receives dport payload src k k'"
    using deliver_target [OF assms(5-7)] by blast
  then show ?thesis using p assms(2-4) by (intro exI [of _ k']) (simp add: process_packet_def process_ipv4_def)
qed

lemma sock_number: "i < 16 \<Longrightarrow> unat (of_nat i :: i32) = i \<and> sint (of_nat i :: i32) = int i"
  by (simp add: unat_of_nat signed_of_nat signed_take_bit_int_eq_self)

text \<open>
  C37. A datagram from the wire to the program: a frame built from a payload of at most 1472 bytes is
  delivered to the first datagram socket bound to its port, behind what waits there, and the next call to
  receive gets the bytes with the address of the sender. The port it gets is not the sender's, but its own
  with the bytes swapped.
\<close>

theorem udp_round_trip:
  assumes "length payload \<le> 1472" "payload \<noteq> []" "dport \<noteq> 67" "dport \<noteq> 68" "socks s = as @ Some k # es" "length as < 16"
    and "\<forall>x \<in> set as. \<not> udp_target dport x" "socket_ok k" "udp_target dport (Some k)"
    and "length (received k) < 4096"
  shows "\<exists>s' s''. process_packet hw (udp_frame smac dmac src dst sport dport payload) s = Some s' \<and>
    net_recvfrom (of_nat (length as)) n s' = Some (Inr (take n (take 4096 (received k @ payload)), src, swap16 dport), s'')"
proof -
  obtain k' where k': "process_packet hw (udp_frame smac dmac src dst sport dport payload) s = Some (s\<lparr>socks := as @ Some k' # es\<rparr>)"
    "receives dport payload src k k'" using udp_delivered [OF assms(1,3,4,5,7,8,9)] by blast
  let ?s = "s\<lparr>socks := as @ Some k' # es\<rparr>"
  have fd: "unat (of_nat (length as) :: i32) = length as" "\<not> bad_sock (of_nat (length as))"
    using sock_number [OF assms(6)] assms(6) by (simp_all add: bad_sock_def MAX_SOCKETS_def)
  have "received k' \<noteq> []" "socket_ok k'" "sk_remote k' = Some (sockaddr_new src (swap16 dport))"
    using k'(2) assms(2,10) by (auto simp: receives_def)
  then have "has_data k'" by (auto simp: has_data_def received_def)
  obtain k2 where r: "sock_recv n k' = Some (Inr (take n (received k')), k2)"
    using sock_recv_queue [OF \<open>socket_ok k'\<close>, of n] \<open>received k' \<noteq> []\<close> by auto
  have "sk_remote k2 = sk_remote k'" using r by (auto simp: sock_recv_def Let_def split: if_splits)
  then have "net_recvfrom (of_nat (length as)) n ?s = Some (Inr (take n (received k'), src, swap16 dport), ?s\<lparr>socks := (socks ?s)[length as := Some k2]\<rparr>)"
    using fd r \<open>has_data k'\<close> \<open>sk_remote k' = _\<close> by (simp add: net_recvfrom_def nth_append sockaddr_new_def port_be_def)
  moreover have "received k' = take 4096 (received k @ payload)" using k'(2) by (simp add: receives_def)
  ultimately show ?thesis using k'(1) by auto
qed

section \<open>Requests for a connection\<close>

lemma segment_scan_None:
  "\<forall>c. Some c \<in> set cs \<longrightarrow> sa_port (local_addr c) \<noteq> dst_port \<Longrightarrow>
   segment_scan now dst_port sport flags seq ack window payload cs = Some None"
proof (induction cs)
  case (Cons e es)
  then show ?case by (cases e) auto
qed simp

lemma net_send_locked: "net_send hw ip pr p s = Some (r, s') \<Longrightarrow> conns_locked s' = conns_locked s"
  by (auto simp: net_send_def split: option.splits bind_splits)

lemma syn_request_locked:
  assumes "conns_locked s"
  shows "syn_request hw sock dst_port sport seq src_ip s = None"
proof -
  have l: "lock_conns t = None" if "conns_locked t" for t using that by (simp add: lock_conns_def)
  have n: "Option.bind (map_option snd (net_send hw src_ip PROTOCOL_TCP p t)) (\<lambda>s. Option.bind (lock_conns s) g) = None"
    if "conns_locked t" for p t and g :: "net \<Rightarrow> net option"
    using that net_send_locked [of hw src_ip PROTOCOL_TCP p t] by (cases "net_send hw src_ip PROTOCOL_TCP p t") (auto simp: l)
  obtain c seed where c: "tcp_new (isn_seed s) (ticks s) \<lparr>sa_ip = cfg_ip s, sa_port = dst_port\<rparr> \<lparr>sa_ip = src_ip, sa_port = sport\<rparr> = (c, seed)"
    by fastforce
  let ?c = "(update_activity (ticks s) (c\<lparr>recv_seq := seq + 1, conn_state := SynReceived\<rparr>))\<lparr>send_seq := send_seq c + 1\<rparr>"
  show ?thesis
  proof (cases "process_segment (ticks s) (FLAG_SYN OR FLAG_ACK) seq 0 DEFAULT_WINDOW [] ?c")
    case None
    then show ?thesis using c by (simp add: syn_request_def l assms new_conn_def update_activity_def)
  next
    case (Some rc)
    then show ?thesis
      using c by (cases rc; cases "fst rc") (auto simp: syn_request_def l n assms new_conn_def update_activity_def)
  qed
qed

text \<open>
  C39. A request for a connection never ends: a segment with the SYN flag, for a port a stream socket
  listens on and no connection uses yet, makes the call take the lock of the connection table that it
  holds already, whatever the backlog is.
\<close>

theorem syn_never_returns:
  assumes "\<forall>c. Some c \<in> set (conns s) \<longrightarrow> sa_port (local_addr c) \<noteq> swap16 (dest_port h)"
    and "\<exists>x \<in> set (socks s). listens (swap16 (dest_port h)) x"
    and "flags = swap16 (data_offset_flags h) AND 0x3F" "has_flag flags FLAG_SYN" "\<not> has_flag flags FLAG_ACK"
  shows "process_tcp_packet hw h payload src s = None"
proof (cases "conns_locked s")
  case True
  then show ?thesis by (simp add: process_tcp_packet_def lock_conns_def)
next
  case False
  let ?s = "s\<lparr>conns_locked := True\<rparr>"
  obtain x xs where x: "filter (listens (swap16 (dest_port h))) (socks s) = x # xs"
    using assms(2) by (cases "filter (listens (swap16 (dest_port h))) (socks s)") (auto simp: filter_empty_conv)
  then have "x \<in> set (filter (listens (swap16 (dest_port h))) (socks s))" by simp
  then obtain k where k: "x = Some k" by (auto simp: listens_def split: option.splits)
  have "segment_scan now (swap16 (dest_port h)) sport fl seq ack window payload (conns s) = Some None" for now sport fl seq ack window
    using assms(1) by (rule segment_scan_None)
  then show ?thesis
    using False x k assms(3-5) by (simp add: process_tcp_packet_def lock_conns_def syn_request_locked Let_def)
qed

section \<open>Polling hears nothing\<close>

lemma net_send_keeps: "net_send hw ip pr p s = Some (r, s') \<Longrightarrow> socks s' = socks s \<and> conns s' = conns s \<and> dhcp s' = dhcp s \<and> NET_IP s' = NET_IP s"
  by (auto simp: net_send_def split: option.splits bind_splits)

lemma retransmit_keeps: "retransmit_all hw ps s = Some s' \<Longrightarrow> socks s' = socks s \<and> conns s' = conns s \<and> dhcp s' = dhcp s \<and> NET_IP s' = NET_IP s"
proof (induction ps arbitrary: s)
  case (Cons p ps)
  obtain ip b where p: "p = (ip, b)" by (cases p)
  obtain r s1 where "net_send hw ip 6 b s = Some (r, s1)" "retransmit_all hw ps s1 = Some s'"
    using Cons.prems p by (auto simp: Option.bind_eq_Some_conv)
  then show ?case using Cons.IH net_send_keeps by metis
qed simp

lemma retransmit_total:
  assumes "card_ok hw" "\<forall>st. stack s = Some st \<longrightarrow> e1000_ok (device st)"
  shows "\<exists>s'. retransmit_all hw ps s = Some s'"
  using assms(2)
proof (induction ps arbitrary: s)
  case (Cons p ps)
  obtain ip b where p: "p = (ip, b)" by (cases p)
  have "\<exists>r s1. net_send hw ip 6 b s = Some (r, s1) \<and> (\<forall>st. stack s1 = Some st \<longrightarrow> e1000_ok (device st))"
  proof (cases "stack s")
    case (Some st)
    then show ?thesis using send_ipv4_returns [OF assms(1), of st "NET_IP s" ip 6 b] Cons.prems by (auto simp: net_send_def)
  qed (simp add: net_send_def)
  then show ?case using Cons.IH p by auto
qed simp

text \<open>
  C40. Polling the network does not hear what has arrived: the card is polled first, which skips all it has
  received, so that no waiting frame reaches a socket, a connection or the DHCP client; and when the card
  has filled all its descriptors, the call never returns. Only a frame the card delivers in the moment
  between the poll and the receive that follows could be heard; the hypothesis is that none comes then.
\<close>

theorem net_poll_deaf:
  assumes "NET_INITIALIZED s" "stack s = Some st" "e1000_ok (device st)" "\<not> conns_locked s"
    and "card_ok hw" "\<forall>d. poll (device st) = Some d \<longrightarrow> \<not> dd (rx_cur (hw d)) (hw d)"
  shows "case krust_net_poll hw s of
      None \<Rightarrow> \<forall>i < 32. dd i (device st)
    | Some (v, s') \<Rightarrow> (\<exists>i < 32. \<not> dd i (device st)) \<and> socks s' = socks s \<and> dhcp s' = dhcp s \<and> NET_IP s' = NET_IP s \<and>
        conns s' = snd (tcp_retransmit_check (ticks s) (conns s))"
proof (cases "poll (device st)")
  case None
  then have "\<forall>i < 32. dd i (device st)" using poll_returns [OF assms(3)] by (metis option.distinct(1))
  then show ?thesis using None assms by (simp add: krust_net_poll_def)
next
  case (Some d)
  have ex: "\<exists>i < 32. \<not> dd i (device st)" using Some poll_full [OF Some assms(3)] by blast
  obtain d' where "poll (device st) = Some d'" "e1000_ok d'" "\<not> dd (rx_cur d') d'"
    using poll_returns [OF assms(3) ex] by blast
  then have d: "e1000_ok d" "\<not> dd (rx_cur d) d" using Some by simp_all
  then have ok: "e1000_ok (hw d)" using assms(5) by (simp add: card_ok_def)
  moreover have "\<not> dd (rx_cur (hw d)) (hw d)" using assms(6) Some by simp
  ultimately have "dev_receive 1500 (hw d) = (Inl WouldBlock, hw d)" by (simp add: dev_receive_def e1000_ok_def dd_def)
  then have l: "receive_loop hw (on_device d s) = Some (on_device (hw d) s)"
    using assms(2) by (subst receive_loop.simps) (simp add: on_device_def)
  obtain ps cs where r: "tcp_retransmit_check (ticks s) (conns s) = (ps, cs)" by fastforce
  let ?t = "(on_device (hw d) s)\<lparr>conns := cs, conns_locked := False\<rparr>"
  have "\<forall>st. stack ?t = Some st \<longrightarrow> e1000_ok (device st)" using ok by (auto simp: on_device_def)
  then obtain s' where s': "retransmit_all hw ps ?t = Some s'" using retransmit_total [OF assms(5)] by blast
  have "krust_net_poll hw s = Some (0, s')"
    using s' assms(1,2,4) Some l r by (simp add: krust_net_poll_def lock_conns_def unlock_conns_def on_device_def)
  then show ?thesis using ex r retransmit_keeps [OF s'] by (simp add: on_device_def)
qed

section \<open>Sockets\<close>

lemma first_free_None: "first_free es i = None \<longleftrightarrow> None \<notin> set es"
  by (induction es arbitrary: i) auto

lemma close_keeps_used: "None \<notin> set (socks s) \<Longrightarrow> None \<notin> set (socks (snd (net_close_socket fd s)))"
  by (auto simp: net_close_socket_def split: option.split dest!: subsetD [OF set_update_subset_insert])

text \<open>
  Closed sockets are never given back: once all slots were used, no sequence of calls that close
  sockets makes a new socket possible.
\<close>

lemma sockets_run_out:
  assumes "None \<notin> set (socks s)"
  shows "net_socket t (fold (\<lambda>fd s. snd (net_close_socket fd s)) fds s) = (- 1, fold (\<lambda>fd s. snd (net_close_socket fd s)) fds s)"
proof -
  have "None \<notin> set (socks (fold (\<lambda>fd s. snd (net_close_socket fd s)) fds s))"
    using assms by (induction fds arbitrary: s) (simp_all add: close_keeps_used)
  then show ?thesis by (simp add: net_socket_def first_free_None [THEN iffD2] split: option.split)
qed

lemma accept_scan_None:
  "\<forall>c. Some c \<in> set cs \<longrightarrow> swap16 (sa_port (local_addr c)) \<noteq> p \<Longrightarrow> accept_scan p cs = None"
proof (induction cs)
  case (Cons e es)
  then show ?case by (cases e) auto
qed simp

text \<open>
  A connection is looked for under the port with its bytes swapped: on a port that reads differently
  that way, accept finds none of the connections made to it.
\<close>

lemma accept_finds_nothing:
  assumes "\<not> bad_sock fd" "socks s ! unat fd = Some k" "sk_state k = SListen" "sk_local k = Some a" "\<not> conns_locked s"
    and "\<forall>c. Some c \<in> set (conns s) \<longrightarrow> sa_port (local_addr c) = port_be a" "swap16 (port_be a) \<noteq> port_be a"
  shows "net_accept fd s = Some (- 1, None, s)"
  using assms accept_scan_None [of "conns s" "port_be a"] by (simp add: net_accept_def)

text \<open>No message brings the client to the state of a lease.\<close>

lemma dhcp_never_acknowledged:
  assumes "\<forall>c. dhcp s = Some c \<longrightarrow> dh_state c \<noteq> Acknowledged" "handle_dhcp_packet packet s = (r, s')"
  shows "\<forall>c. dhcp s' = Some c \<longrightarrow> dh_state c \<noteq> Acknowledged"
  using assms by (auto simp: handle_dhcp_packet_def handle_offer_def handle_ack_def split: option.splits if_splits)

section \<open>An example\<close>

text \<open>A card that has received nothing, and a machine with one datagram socket on port 53 and one that listens on port 80.\<close>

definition idle_card :: e1000 where
  "idle_card = \<lparr>initialized = True, mac_addr = (2, 0, 0, 0, 0, 1), rx_descs = replicate 32 \<lparr>rx_length = 0, rx_status = 0, rx_buffer = []\<rparr>,
     tx_descs = replicate 32 \<lparr>tx_bytes = [], tx_length = 0, tx_cmd = 0, tx_status = 0\<rparr>, rx_cur = 0, tx_cur = 0, mmio = (\<lambda>_. 0)\<rparr>"

definition udp_socket :: socket where
  "udp_socket = (socket_new Datagram)\<lparr>sk_state := SBound, sk_local := Some (sockaddr_new (0, 0, 0, 0) 53)\<rparr>"

definition web_socket :: socket where
  "web_socket = (socket_new Stream)\<lparr>sk_state := SListen, sk_local := Some (sockaddr_new (0, 0, 0, 0) 80), sk_backlog := 4\<rparr>"

definition small_net :: net where
  "small_net = \<lparr>NET_INITIALIZED = True, cfg_ip = (10, 0, 2, 15), cfg_netmask = (255, 255, 255, 0), cfg_gateway = (10, 0, 2, 2),
     cfg_mac = (2, 0, 0, 0, 0, 1), conns = replicate 16 None, conns_locked = False,
     socks = Some udp_socket # Some web_socket # replicate 14 None, next_port = 49152,
     stack = Some \<lparr>device = idle_card, arp_cache = Some ((10, 0, 2, 2), (2, 0, 0, 0, 0, 2)) # replicate 63 None\<rparr>,
     NET_IP = (10, 0, 2, 15), NET_MAC = (2, 0, 0, 0, 0, 1), dhcp = None, dns_txid = 1, isn_seed = 0, ticks = 0\<rparr>"

lemma idle_card_ok: "e1000_ok idle_card"
  by (simp add: e1000_ok_def idle_card_def)

text \<open>A card that answers the first request for the address 10.0.2.2, and counts the frame it delivered.\<close>

definition arp_answer :: "u8 list" where
  "arp_answer = [2, 0, 0, 0, 0, 1, 2, 0, 0, 0, 0, 2, 8, 6, 0, 1, 8, 0, 6, 4, 0, 2,
     2, 0, 0, 0, 0, 2, 10, 0, 2, 2, 2, 0, 0, 0, 0, 1, 10, 0, 2, 15]"

definition answering_card :: "e1000 \<Rightarrow> e1000" where
  "answering_card d =
     (if tx_cur d = 1 \<and> mmio d 0x4074 = 0
      then d\<lparr>rx_descs := (rx_descs d)[rx_cur d := \<lparr>rx_length = 42, rx_status = 1, rx_buffer = arp_answer\<rparr>], mmio := (mmio d)(0x4074 := 1)\<rparr>
      else d)"

lemma answering_card_ok: "card_ok answering_card"
proof -
  define left where "left d = card (waiting d) + (if mmio d 0x4074 = 0 then 1 else 0)" for d
  have ok: "e1000_ok (answering_card d)" if "e1000_ok d" for d using that by (simp add: answering_card_def e1000_ok_def)
  have le: "left (answering_card d) \<le> left d" if "e1000_ok d" for d
  proof (cases "tx_cur d = 1 \<and> mmio d 0x4074 = 0")
    case True
    have "waiting (answering_card d) \<subseteq> insert (rx_cur d) (waiting d)"
      by (auto simp: answering_card_def waiting_def dd_def nth_list_update split: if_splits)
    then have "card (waiting (answering_card d)) \<le> card (insert (rx_cur d) (waiting d))"
      by (intro card_mono) (simp_all add: finite_waiting)
    then show ?thesis using True card_insert_le_m1 [of "Suc (card (waiting d))" "waiting d" "rx_cur d"] by (simp add: left_def answering_card_def)
  qed (auto simp: answering_card_def)
  have "left d' < left d" if "e1000_ok d" "dev_receive 1500 (answering_card d) = (Inr f, d')" for d f d'
  proof -
    have "waiting d' \<subset> waiting (answering_card d)" using receive_ok(2) [OF ok [OF that(1)] that(2)] by simp
    then have "card (waiting d') < card (waiting (answering_card d))" by (intro psubset_card_mono) (simp_all add: finite_waiting)
    moreover have "mmio d' 0x4074 = mmio (answering_card d) 0x4074"
      using that(2) by (auto simp: dev_receive_def mmio_write_def REG_RDT_def Let_def split: if_splits)
    ultimately have "left d' < left (answering_card d)" by (simp add: left_def)
    then show ?thesis using le [OF that(1)] by simp
  qed
  then show ?thesis unfolding card_ok_def using ok by blast
qed

lemma answer_heard:
  assumes "heard answering_card (asked (10, 0, 2, 15) (10, 0, 2, 2) idle_card) fs d'"
  shows "\<exists>fs'. fs = arp_answer # fs'"
  using assms
  by (cases rule: heard.cases)
     (simp_all add: asked_def dev_send_def build_arp_request_def answering_card_def idle_card_def dev_receive_def mmio_write_def
        Let_def NUM_TX_DESC_def REG_TDT_def RX_STA_DD_def arp_answer_def)

theorem send_ipv4_correct_witness:
  "\<exists>st'. send_ipv4 answering_card (10, 0, 2, 15) (10, 0, 2, 2) 17 [1, 2] \<lparr>device = idle_card, arp_cache = replicate 64 None\<rparr> = Some (Inr (), st')"
proof -
  define es :: arp_table where "es = replicate 64 None"
  let ?st = "\<lparr>device = idle_card, arp_cache = es\<rparr>" and ?ip = "(10, 0, 2, 2) :: ip4"
  have n: "arp_lookup ?ip es = None" unfolding es_def by code_simp
  have a: "arp_lookup ?ip (process_packet_raw arp_answer es) \<noteq> None" unfolding es_def by code_simp
  obtain fss d' d where f: "awaited answering_card 50 ?ip (asked (10, 0, 2, 15) ?ip idle_card) es fss d'"
    and c: "arp_lookup ?ip (learnt es fss) \<noteq> None \<Longrightarrow>
      \<exists>st'. send_ipv4 answering_card (10, 0, 2, 15) ?ip 17 [1, 2] ?st = Some (Inr (), st')"
    using send_ipv4_correct [OF answering_card_ok, of ?st ?ip "(10, 0, 2, 15)" 17 "[1, 2]"] idle_card_ok n by fastforce
  have "heard_rounds answering_card (asked (10, 0, 2, 15) ?ip idle_card) fss d'" "fss \<noteq> []"
    using f by (auto simp: awaited_def split: if_splits)
  then obtain fs' fss' where "fss = (arp_answer # fs') # fss'"
    by (cases rule: heard_rounds.cases) (auto dest: answer_heard)
  then have "arp_lookup ?ip (learnt es fss) \<noteq> None"
    using process_all_keeps [OF a, of "fs' @ concat fss'"] by (simp add: learnt_def del: not_None_eq)
  then show ?thesis using c unfolding es_def by blast
qed

theorem udp_round_trip_witness:
  "\<exists>s' s''. process_packet (\<lambda>d. d) (udp_frame (2, 0, 0, 0, 0, 2) (2, 0, 0, 0, 0, 1) (10, 0, 2, 2) (10, 0, 2, 15) 4000 53 [1, 2]) small_net = Some s' \<and>
     net_recvfrom 0 100 s' = Some (Inr ([1, 2], (10, 0, 2, 2), swap16 53), s'')"
proof -
  have "udp_target 53 (Some udp_socket)" "socket_ok udp_socket" "received udp_socket = []"
    by (simp_all add: udp_target_def port_bound_def udp_socket_def socket_new_def socket_ok_def received_def)
  then show ?thesis
    using udp_round_trip [of "[1, 2]" 53 small_net "[]" udp_socket "Some web_socket # replicate 14 None" "\<lambda>d. d"
        "(2, 0, 0, 0, 0, 2)" "(2, 0, 0, 0, 0, 1)" "(10, 0, 2, 2)" "(10, 0, 2, 15)" 4000 100]
    by (simp add: small_net_def)
qed

text \<open>A segment with the SYN flag for port 80, its fields in network byte order.\<close>

definition syn_header :: tcp_header where
  "syn_header = \<lparr>src_port = swap16 4000, dest_port = swap16 80, seq_num = 0, ack_num = 0, data_offset_flags = swap16 0x5002,
     window_size = 0, checksum = 0, urgent_ptr = 0\<rparr>"

theorem syn_never_returns_witness: "process_tcp_packet (\<lambda>d. d) syn_header [] (10, 0, 2, 2) small_net = None"
proof (rule syn_never_returns [OF _ _ refl])
  show "\<exists>x \<in> set (socks small_net). listens (swap16 (dest_port syn_header)) x"
    by (simp add: small_net_def syn_header_def listens_def web_socket_def socket_new_def port_bound_def)
qed (simp_all add: small_net_def syn_header_def has_flag_def FLAG_SYN_def FLAG_ACK_def)

lemma still_card_ok: "card_ok (\<lambda>d. d)"
proof -
  have "card (waiting d') < card (waiting d)" if "e1000_ok d" "dev_receive 1500 d = (Inr f, d')" for d f d'
    using receive_ok(2) [OF that refl] by (intro psubset_card_mono) (simp_all add: finite_waiting)
  then show ?thesis unfolding card_ok_def by (intro conjI exI [of _ "\<lambda>d. card (waiting d)"]) blast+
qed

lemma poll_idle: "poll idle_card = Some idle_card"
  by (subst poll.simps) (simp add: idle_card_def dd_def)

theorem net_poll_deaf_witness: "\<exists>v s'. krust_net_poll (\<lambda>d. d) small_net = Some (v, s') \<and> socks s' = socks small_net"
proof -
  obtain st where st: "stack small_net = Some st" "device st = idle_card" by (simp add: small_net_def)
  have c: "NET_INITIALIZED small_net" "\<not> conns_locked small_net" by (simp_all add: small_net_def)
  have d: "\<not> dd (rx_cur idle_card) idle_card" by (simp add: dd_def idle_card_def)
  have "rx_cur idle_card < 32" using idle_card_ok by (simp add: e1000_ok_def)
  then show ?thesis
    using net_poll_deaf [OF c(1) st(1) _ c(2) still_card_ok] idle_card_ok poll_idle d
    unfolding st(2) by (auto split: option.splits)
qed

end
