(* ===== verification/Kheap.thy ===== *)
theory Kheap
  imports Kernel_Prelude "HOL-Library.Monad_Syntax"
begin

unbundle bit_operations_syntax

text \<open>
  The kernel heap (\<open>kernel/src/mm/heap.rs\<close>): a first-fit allocator over one linked list of blocks
  that tile the heap area, each a 17-byte packed header (\<open>size\<close>, \<open>free\<close>, \<open>next\<close>) followed by its
  payload. Headers are kept in a store from header address to header, payload bytes in a second
  store; the tiling invariant is what justifies keeping them apart. A walk along \<open>next\<close> may not end
  on a corrupted list, so the walks are partial functions with None for a loop that does not return.

  The concrete operations are shown to refine functions on the list of segments
  (address, size, free), and the theory ends with the allocator contract and its interpretation.
\<close>

section \<open>State\<close>

record heap_block =
  blk_size :: usize
  blk_free :: bool
  blk_next :: usize

record kheap =
  HEAP_HEAD :: usize
  blocks :: "usize \<Rightarrow> heap_block"
  hbytes :: "usize \<Rightarrow> u8"

definition HEAP_START :: usize where
  "HEAP_START = 0x40000000"

definition HEAP_SIZE :: usize where
  "HEAP_SIZE = 0x10000000"

text \<open>The size of the packed header: 8 + 1 + 8 bytes.\<close>

definition HDR :: usize where
  "HDR = 17"

section \<open>Operations\<close>

partial_function (option) find_block_loop ::
  "(usize \<Rightarrow> heap_block) \<Rightarrow> usize \<Rightarrow> usize \<Rightarrow> usize \<Rightarrow> (usize \<times> usize) option" where
  "find_block_loop h current prev sz =
     (if current = 0 then Some (0, prev)
      else if blk_free (h current) \<and> blk_size (h current) \<ge> sz then Some (current, prev)
      else find_block_loop h (blk_next (h current)) current sz)"

text \<open>The block found and the value stored through \<open>prev\<close>.\<close>

definition find_block :: "kheap \<Rightarrow> usize \<Rightarrow> (usize \<times> usize) option" where
  "find_block s sz = find_block_loop (blocks s) (HEAP_HEAD s) 0 sz"

definition split_block :: "usize \<Rightarrow> usize \<Rightarrow> kheap \<Rightarrow> kheap" where
  "split_block block sz s =
     (let h = blocks s
      in if blk_size (h block) < wadd (wadd sz HDR) 16 then s
         else let new_block = wadd (wadd block HDR) sz;
                  h = h(new_block := \<lparr>blk_size = wsub (wsub (blk_size (h block)) sz) HDR, blk_free = True,
                                      blk_next = blk_next (h block)\<rparr>);
                  h = h(block := (h block)\<lparr>blk_size := sz\<rparr>);
                  h = h(block := (h block)\<lparr>blk_next := new_block\<rparr>)
              in s\<lparr>blocks := h\<rparr>)"

partial_function (option) merge_loop ::
  "usize \<Rightarrow> (usize \<Rightarrow> heap_block) \<Rightarrow> (usize \<Rightarrow> heap_block) option" where
  "merge_loop current h =
     (if current = 0 \<or> blk_next (h current) = 0 then Some h
      else if blk_free (h current) \<and> blk_free (h (blk_next (h current))) then
        let h = h(current := (h current)\<lparr>blk_size :=
                   wadd (blk_size (h current)) (wadd HDR (blk_size (h (blk_next (h current)))))\<rparr>);
            h = h(current := (h current)\<lparr>blk_next := blk_next (h (blk_next (h current)))\<rparr>)
        in merge_loop current h
      else merge_loop (blk_next (h current)) h)"

definition merge_adjacent :: "kheap \<Rightarrow> kheap option" where
  "merge_adjacent s = do {
     h \<leftarrow> merge_loop (HEAP_HEAD s) (blocks s);
     Some (s\<lparr>blocks := h\<rparr>)
   }"

definition krust_heap_init :: "kheap \<Rightarrow> kheap" where
  "krust_heap_init s =
     s\<lparr>HEAP_HEAD := HEAP_START,
       blocks := (blocks s)(HEAP_START :=
         \<lparr>blk_size = HEAP_SIZE - HDR, blk_free = True, blk_next = 0\<rparr>)\<rparr>"

text \<open>The request rounded up to a multiple of 16, with 1 byte for a request of 0.\<close>

definition round_request :: "u32 \<Rightarrow> usize" where
  "round_request sz = unat (((if sz = 0 then 1 else ucast sz) + 15) AND NOT (15 :: u64))"

definition krust_heap_alloc :: "u32 \<Rightarrow> kheap \<Rightarrow> (usize \<times> kheap) option" where
  "krust_heap_alloc sz s =
     (if HEAP_HEAD s = 0 then Some (0, s)
      else do {
        (block, prev) \<leftarrow> find_block s (round_request sz);
        if block = 0 then Some (0, s)
        else
          let s = split_block block (round_request sz) s;
              s = s\<lparr>blocks := (blocks s)(block := (blocks s block)\<lparr>blk_free := False\<rparr>)\<rparr>
          in Some (wadd block HDR, s)
      })"

definition krust_heap_free :: "usize \<Rightarrow> kheap \<Rightarrow> kheap option" where
  "krust_heap_free ptr s =
     (if ptr = 0 then Some s
      else
        let block = wsub ptr HDR
        in if blk_free (blocks s block) then Some s
           else merge_adjacent
             (s\<lparr>blocks := (blocks s)(block := (blocks s block)\<lparr>blk_free := True\<rparr>)\<rparr>))"

definition copy_nonoverlapping :: "usize \<Rightarrow> usize \<Rightarrow> usize \<Rightarrow> (usize \<Rightarrow> u8) \<Rightarrow> (usize \<Rightarrow> u8)" where
  "copy_nonoverlapping src dst n m = (\<lambda>a. if dst \<le> a \<and> a < dst + n then m (src + (a - dst)) else m a)"

definition krust_heap_realloc :: "usize \<Rightarrow> u32 \<Rightarrow> kheap \<Rightarrow> (usize \<times> kheap) option" where
  "krust_heap_realloc ptr sz s =
     (if ptr = 0 then krust_heap_alloc sz s
      else if sz = 0 then do { s \<leftarrow> krust_heap_free ptr s; Some (0, s) }
      else
        let block = wsub ptr HDR
        in if blk_size (blocks s block) \<ge> unat sz then Some (ptr, split_block block (unat sz) s)
           else do {
             (new_ptr, s) \<leftarrow> krust_heap_alloc sz s;
             if new_ptr \<noteq> 0 then
               let copy_size = min (blk_size (blocks s (wsub ptr HDR))) (unat sz);
                   s = s\<lparr>hbytes := copy_nonoverlapping ptr new_ptr copy_size (hbytes s)\<rparr>
               in do { s \<leftarrow> krust_heap_free ptr s; Some (new_ptr, s) }
             else Some (new_ptr, s)
           })"

definition krust_malloc :: "u32 \<Rightarrow> kheap \<Rightarrow> (usize \<times> kheap) option" where
  "krust_malloc sz = krust_heap_alloc sz"

definition krust_free :: "usize \<Rightarrow> kheap \<Rightarrow> kheap option" where
  "krust_free ptr = krust_heap_free ptr"

definition krust_realloc :: "usize \<Rightarrow> u32 \<Rightarrow> kheap \<Rightarrow> (usize \<times> kheap) option" where
  "krust_realloc ptr sz = krust_heap_realloc ptr sz"

section \<open>The list of segments\<close>

type_synonym seg = "usize \<times> usize \<times> bool"

text \<open>
  \<open>rep h p L\<close>: following \<open>next\<close> from \<open>p\<close> in the header store runs through the segments of \<open>L\<close>.
  \<open>lay a L e\<close>: the segments of \<open>L\<close> tile the addresses from \<open>a\<close> up to \<open>e\<close>, headers included.
\<close>

fun rep :: "(usize \<Rightarrow> heap_block) \<Rightarrow> usize \<Rightarrow> seg list \<Rightarrow> bool" where
  "rep h p [] \<longleftrightarrow> p = 0"
| "rep h p ((a, z, f) # L) \<longleftrightarrow>
     p = a \<and> a \<noteq> 0 \<and> blk_size (h a) = z \<and> blk_free (h a) = f \<and> rep h (blk_next (h a)) L"

fun lay :: "usize \<Rightarrow> seg list \<Rightarrow> usize \<Rightarrow> bool" where
  "lay a [] e \<longleftrightarrow> a = e"
| "lay a ((b, z, f) # L) e \<longleftrightarrow> b = a \<and> lay (a + HDR + z) L e"

abbreviation seg_addrs :: "seg list \<Rightarrow> usize set" where
  "seg_addrs L \<equiv> fst ` set L"

definition heap_rep :: "kheap \<Rightarrow> seg list \<Rightarrow> bool" where
  "heap_rep s L \<longleftrightarrow>
     HEAP_HEAD s = HEAP_START \<and> rep (blocks s) HEAP_START L \<and> L \<noteq> [] \<and>
     lay HEAP_START L (HEAP_START + HEAP_SIZE)"

text \<open>What the operations do to the segments.\<close>

fun seg_merge :: "seg list \<Rightarrow> seg list" where
  "seg_merge ((a, z, f) # (b, y, g) # L) =
     (if f \<and> g then seg_merge ((a, z + (HDR + y), f) # L)
      else (a, z, f) # seg_merge ((b, y, g) # L))"
| "seg_merge [] = []"
| "seg_merge [x] = [x]"

fun seg_split :: "usize \<Rightarrow> usize \<Rightarrow> seg list \<Rightarrow> seg list" where
  "seg_split p n [] = []"
| "seg_split p n ((a, z, f) # L) =
     (if a = p then
        (if z < n + HDR + 16 then (a, z, f) # L
         else (a, n, f) # (a + HDR + n, z - n - HDR, True) # L)
      else (a, z, f) # seg_split p n L)"

fun seg_mark :: "usize \<Rightarrow> bool \<Rightarrow> seg list \<Rightarrow> seg list" where
  "seg_mark p b [] = []"
| "seg_mark p b ((a, z, f) # L) = (if a = p then (a, z, b) # L else (a, z, f) # seg_mark p b L)"


section \<open>Facts about segments\<close>

lemma lay_ge: "lay a L e \<Longrightarrow> a \<le> e"
  by (induction a L e rule: lay.induct) auto

lemma lay_addrs: "lay a L e \<Longrightarrow> (b, z, f) \<in> set L \<Longrightarrow> a \<le> b \<and> b + HDR + z \<le> e"
proof (induction a L e rule: lay.induct)
  case (2 a b' z' f' L e)
  then show ?case using lay_ge [of "a + HDR + z'" L e] by auto
qed simp

lemma lay_addrs_gt: "lay (a + HDR + z) L e \<Longrightarrow> a \<notin> seg_addrs L"
  using lay_addrs by (fastforce simp: HDR_def)

lemma lay_disjoint:
  assumes "lay a L e" and "(b, z, f) \<in> set L" and "(c, y, g) \<in> set L" and "b \<noteq> c"
  shows "b + HDR + z \<le> c \<or> c + HDR + y \<le> b"
  using assms
proof (induction a L e rule: lay.induct)
  case (2 a b' z' f' L e)
  then have l: "lay (a + HDR + z') L e" "b' = a" by auto
  consider "(b, z, f) = (a, z', f')" "(c, y, g) \<in> set L" | "(c, y, g) = (a, z', f')" "(b, z, f) \<in> set L"
    | "(b, z, f) \<in> set L" "(c, y, g) \<in> set L"
    using 2(3-5) l(2) by auto
  then show ?case
  proof cases
    case 3
    with 2(1) l(1) 2(5) show ?thesis by blast
  qed (use lay_addrs [OF l(1)] in auto)
qed simp

lemma lay_unique:
  "lay a L e \<Longrightarrow> (b, z, f) \<in> set L \<Longrightarrow> (b, y, g) \<in> set L \<Longrightarrow> z = y \<and> f = g"
proof (induction a L e rule: lay.induct)
  case (2 a b' z' f' L e)
  then show ?case using lay_addrs_gt [of a z' L e] by force
qed simp

lemma rep_upd [simp]: "a \<notin> seg_addrs L \<Longrightarrow> rep (h(a := x)) p L = rep h p L"
  by (induction h p L rule: rep.induct) (auto)

lemma rep_mem: "rep h p L \<Longrightarrow> (a, z, f) \<in> set L \<Longrightarrow> blk_size (h a) = z \<and> blk_free (h a) = f \<and> a \<noteq> 0"
  by (induction h p L rule: rep.induct) auto

lemma rep_cong: "(\<And>a. a \<in> seg_addrs L \<Longrightarrow> h' a = h a) \<Longrightarrow> rep h' p L = rep h p L"
  by (induction h p L rule: rep.induct) auto

lemma rep_head: "rep h p L \<Longrightarrow> L \<noteq> [] \<Longrightarrow> p = fst (hd L) \<and> p \<noteq> 0"
  by (cases L) auto

section \<open>The walks on a well-formed list\<close>

lemma find_block_loop_rep:
  "rep h p L \<Longrightarrow> \<exists>q. find_block_loop h p prev n =
     Some (case List.find (\<lambda>(a, z, f). f \<and> n \<le> z) L of None \<Rightarrow> 0 | Some (a, z, f) \<Rightarrow> a, q)"
proof (induction h p L arbitrary: prev rule: rep.induct)
  case (1 h p)
  then show ?case by (subst find_block_loop.simps) simp
next
  case (2 h p a z f L)
  then show ?case by (subst find_block_loop.simps) auto
qed

lemma merge_loop_rep:
  assumes "rep h p L" and "lay a L e" and "e < usize_mod" and "L \<noteq> []"
  shows "\<exists>h'. merge_loop p h = Some h' \<and> rep h' p (seg_merge L) \<and> (\<forall>b. b \<notin> seg_addrs L \<longrightarrow> h' b = h b)"
  using assms
proof (induction L arbitrary: h p a rule: seg_merge.induct)
  case (1 b z f c y g L)
  have r: "p = b" "b \<noteq> 0" "blk_next (h b) = c" "c \<noteq> 0" "blk_size (h b) = z" "blk_free (h b) = f"
    "blk_size (h c) = y" "blk_free (h c) = g" "rep h (blk_next (h c)) L"
    using 1(3) by auto
  have l: "b = a" "c = b + HDR + z" "lay (c + HDR + y) L e" using 1(4) by auto
  have bnd: "z + (HDR + y) < usize_mod" using lay_ge [OF l(3)] l(2) 1(5) by simp
  have nin: "b \<notin> seg_addrs L" "c \<notin> seg_addrs L" "b \<noteq> c"
    using lay_addrs [OF l(3)] l(2) by (fastforce simp: HDR_def)+
  show ?case
  proof (cases "f \<and> g")
    case True
    define h1 where "h1 = h(b := (h b)\<lparr>blk_size := z + (HDR + y), blk_next := blk_next (h c)\<rparr>)"
    have step: "merge_loop p h = merge_loop b h1"
      using True r bnd nin(3)
      by (subst merge_loop.simps) (simp add: h1_def wadd_small Let_def)
    have "rep h1 b ((b, z + (HDR + y), f) # L)" using r nin True by (simp add: h1_def)
    moreover have "lay a ((b, z + (HDR + y), f) # L) e" using l by (simp add: add.assoc)
    ultimately obtain h' where "merge_loop b h1 = Some h'" "rep h' b (seg_merge ((b, z + (HDR + y), f) # L))"
      "\<forall>x. x \<notin> seg_addrs ((b, z + (HDR + y), f) # L) \<longrightarrow> h' x = h1 x"
      using 1(1) [OF True] 1(5) by blast
    with step True r(1) show ?thesis by (auto simp: h1_def)
  next
    case False
    have step: "merge_loop p h = merge_loop c h" using False r by (subst merge_loop.simps) auto
    obtain h' where h': "merge_loop c h = Some h'" "rep h' c (seg_merge ((c, y, g) # L))"
      "\<forall>x. x \<notin> seg_addrs ((c, y, g) # L) \<longrightarrow> h' x = h x"
      using 1(2) [OF False, of h c c] r l 1(5) by auto
    have "h' b = h b" using h'(3) nin by auto
    with step False r h' show ?thesis by auto
  qed
next
  case (3 v)
  then show ?case by (cases v) (subst merge_loop.simps, auto)
qed simp


lemma rep_det: "rep h p L \<Longrightarrow> rep h p M \<Longrightarrow> L = M"
proof (induction L arbitrary: p M)
  case (Cons x L)
  obtain a z f where x: "x = (a, z, f)" by (cases x)
  show ?case
  proof (cases M)
    case (Cons y N)
    obtain b w g where y: "y = (b, w, g)" by (cases y)
    have "rep h (blk_next (h a)) L" "rep h (blk_next (h a)) N" "x = y"
      using Cons.prems Cons x y by auto
    with Cons.IH Cons show ?thesis by blast
  qed (use Cons.prems x in auto)
next
  case Nil
  then show ?case by (cases M) auto
qed

section \<open>Allocated segments\<close>

definition live_of :: "seg list \<Rightarrow> (usize \<times> usize) set" where
  "live_of L = {(a + HDR, z) | a z. (a, z, False) \<in> set L}"

lemma live_of_Nil [simp]: "live_of [] = {}"
  by (simp add: live_of_def)

lemma live_of_Cons [simp]:
  "live_of ((a, z, f) # L) = (if f then live_of L else insert (a + HDR, z) (live_of L))"
  by (auto simp: live_of_def)

lemma lay_merge: "lay a L e \<Longrightarrow> lay a (seg_merge L) e"
  by (induction L arbitrary: a rule: seg_merge.induct) (auto simp: add.assoc)

lemma live_of_merge [simp]: "live_of (seg_merge L) = live_of L"
  by (induction L rule: seg_merge.induct) auto

lemma seg_merge_Nil [simp]: "seg_merge L = [] \<longleftrightarrow> L = []"
  by (induction L rule: seg_merge.induct) auto

text \<open>After a merge no two neighbours are both free.\<close>

fun coalesced :: "seg list \<Rightarrow> bool" where
  "coalesced ((a, z, f) # (b, y, g) # L) \<longleftrightarrow> \<not> (f \<and> g) \<and> coalesced ((b, y, g) # L)"
| "coalesced [] \<longleftrightarrow> True"
| "coalesced [x] \<longleftrightarrow> True"

lemma hd_seg_merge: "L \<noteq> [] \<Longrightarrow> snd (snd (hd (seg_merge L))) = snd (snd (hd L))"
  by (induction L rule: seg_merge.induct) auto

lemma coalesced_Cons: "coalesced ((a, z, f) # L) \<longleftrightarrow> (L = [] \<or> \<not> (f \<and> snd (snd (hd L))) \<and> coalesced L)"
  by (cases L) auto

lemma coalesced_merge: "coalesced (seg_merge L)"
proof (induction L rule: seg_merge.induct)
  case (1 a z f b y g L)
  then show ?case using hd_seg_merge [of "(b, y, g) # L"] by (auto simp: coalesced_Cons)
qed auto

lemma lay_split: "lay a L e \<Longrightarrow> lay a (seg_split p n L) e"
  by (induction p n L arbitrary: a rule: seg_split.induct) (auto simp: HDR_def algebra_simps)

lemma lay_mark: "lay a L e \<Longrightarrow> lay a (seg_mark p b L) e"
  by (induction p b L arbitrary: a rule: seg_mark.induct) auto

lemma seg_addrs_mark [simp]: "seg_addrs (seg_mark p b L) = seg_addrs L"
  by (induction p b L rule: seg_mark.induct) auto

lemma seg_mark_Nil [simp]: "seg_mark p b L = [] \<longleftrightarrow> L = []"
  by (induction p b L rule: seg_mark.induct) auto

lemma seg_split_Nil [simp]: "seg_split p n L = [] \<longleftrightarrow> L = []"
  by (induction p n L rule: seg_split.induct) auto

lemma rep_mark:
  "rep h p L \<Longrightarrow> lay a L e \<Longrightarrow> q \<in> seg_addrs L \<Longrightarrow>
     rep (h(q := (h q)\<lparr>blk_free := b\<rparr>)) p (seg_mark q b L)"
proof (induction h p L arbitrary: a rule: rep.induct)
  case (2 h p c z f L)
  then have l: "lay (a + HDR + z) L e" "c = a" by auto
  have nin: "c \<notin> seg_addrs L" using lay_addrs_gt [OF l(1)] l(2) by simp
  show ?case
  proof (cases "q = c")
    case True
    have "rep (h(c := (h c)\<lparr>blk_free := b\<rparr>)) (blk_next (h c)) L"
      unfolding rep_upd [OF nin] using 2(2) by simp
    with True 2(2) show ?thesis by (simp add: fun_upd_def)
  next
    case False
    then have "q \<in> seg_addrs L" using 2(4) by auto
    with False 2(1) [OF _ l(1)] 2(2) show ?thesis by (simp add: fun_upd_def)
  qed
qed simp

definition split_size :: "usize \<Rightarrow> usize \<Rightarrow> usize" where
  "split_size z n = (if z < n + HDR + 16 then z else n)"

lemma rep_split:
  "rep (blocks s) p L \<Longrightarrow> lay a L e \<Longrightarrow> e < usize_mod \<Longrightarrow> n + HDR + 16 < usize_mod \<Longrightarrow>
     q \<in> seg_addrs L \<Longrightarrow> rep (blocks (split_block q n s)) p (seg_split q n L)"
proof (induction "blocks s" p L arbitrary: a rule: rep.induct)
  case (2 p c z f L)
  then have l: "lay (a + HDR + z) L e" "c = a" by auto
  show ?case
  proof (cases "q = c")
    case True
    have nin: "a \<notin> seg_addrs L" using lay_addrs_gt [OF l(1)] .
    show ?thesis
    proof (cases "z < n + HDR + 16")
      case True
      with \<open>q = c\<close> 2 show ?thesis by (simp add: split_block_def wadd_small Let_def)
    next
      case False
      have e: "a + HDR + z \<le> e" using lay_ge [OF l(1)] .
      have nn: "a + HDR + n \<notin> seg_addrs L"
        using lay_addrs [OF l(1)] False by (fastforce simp: HDR_def)
      have sub: "wsub (wsub z n) HDR = z - n - HDR"
        using False e 2(4) by (simp add: wsub_small)
      have add: "wadd (wadd a HDR) n = a + HDR + n" "wadd (wadd n HDR) 16 = n + HDR + 16"
        using False e 2(4,5) by (auto simp: wadd_small)
      show ?thesis
        using \<open>q = c\<close> 2(2) l(2) False nn nin
        by (simp add: split_block_def Let_def add sub) (simp add: HDR_def)
    qed
  next
    case False
    then have q: "q \<in> seg_addrs L" using 2(6) by auto
    have "q \<noteq> a" using False l by simp
    have r: "rep (blocks (split_block q n s)) (blk_next (blocks s c)) (seg_split q n L)"
      using 2(1) [OF _ l(1) 2(4,5) q] 2(2) by simp
    obtain y g where y: "(q, y, g) \<in> set L" using q by auto
    have "blocks (split_block q n s) c = blocks s c"
    proof (cases "blk_size (blocks s q) < wadd (wadd n HDR) 16")
      case True then show ?thesis by (simp add: split_block_def Let_def)
    next
      case ns: False
      have "blk_size (blocks s q) = y" using rep_mem [of "blocks s" "blk_next (blocks s c)" L] y 2(2) by auto
      then have "a + HDR + z \<le> q" "q + HDR + n \<le> e"
        using lay_addrs [OF l(1) y] ns 2(5) by (auto simp: wadd_small)
      then have "wadd (wadd q HDR) n = q + HDR + n" "q + HDR + n \<noteq> a"
        using 2(4) by (auto simp: wadd_small HDR_def)
      then show ?thesis using \<open>q \<noteq> a\<close> l(2) by (simp add: split_block_def Let_def)
    qed
    with r False 2(2) show ?thesis by simp
  qed
qed simp

lemma live_of_mark_split:
  assumes "lay a L e" and "(q, z, True) \<in> set L"
  shows "live_of (seg_mark q False (seg_split q n L)) = insert (q + HDR, split_size z n) (live_of L)"
  using assms
proof (induction q n L arbitrary: a rule: seg_split.induct)
  case (2 q n c y f L)
  then have l: "lay (a + HDR + y) L e" "c = a" by auto
  then have "a \<notin> seg_addrs L" by (intro lay_addrs_gt)
  then show ?case using 2 l by (force simp: split_size_def)
qed simp

lemma live_of_split:
  assumes "lay a L e" and "(q, z, False) \<in> set L"
  shows "live_of (seg_split q n L) = insert (q + HDR, split_size z n) (live_of L - {(q + HDR, z)})"
  using assms
proof (induction q n L arbitrary: a rule: seg_split.induct)
  case (2 q n c y f L)
  then have l: "lay (a + HDR + y) L e" "c = a" by auto
  then have "a \<notin> seg_addrs L" by (intro lay_addrs_gt)
  then have "(a + HDR, w) \<notin> live_of L" for w by (force simp: live_of_def)
  then show ?case using 2 l \<open>a \<notin> seg_addrs L\<close> by (force simp: split_size_def)
qed simp

lemma live_of_mark_free:
  assumes "lay a L e" and "(q, z, False) \<in> set L"
  shows "live_of (seg_mark q True L) = live_of L - {(q + HDR, z)}"
  using assms
proof (induction q True L arbitrary: a rule: seg_mark.induct)
  case (2 q c y f L)
  then have l: "lay (a + HDR + y) L e" "c = a" by auto
  then have "a \<notin> seg_addrs L" by (intro lay_addrs_gt)
  then have "(a + HDR, w) \<notin> live_of L" for w by (force simp: live_of_def)
  then show ?case using 2 l \<open>a \<notin> seg_addrs L\<close> by force
qed simp


section \<open>The operations on a well-formed heap\<close>

lemma heap_bound: "HEAP_START + HEAP_SIZE < usize_mod"
  by (simp add: HEAP_START_def HEAP_SIZE_def usize_mod_def)

lemma round_request_nat: "round_request sz = (max 1 (unat sz) + 15) div 16 * 16"
proof -
  define w :: u64 where "w = (if sz = 0 then 1 else ucast sz)"
  have w: "unat w = max 1 (unat sz)"
    by (auto simp: w_def unat_ucast_up max_def Suc_le_eq unat_gt_0)
  have "unat sz < 2 ^ 32" using unat_bound [of sz] by simp
  then have "unat (w + 15) = unat w + 15"
    using w by (intro unat_plus_numeral) simp
  moreover have "(15 :: u64) = mask 4" by (simp add: mask_eq_exp_minus_1)
  ultimately have "round_request sz = (unat w + 15) div 16 * 16"
    unfolding round_request_def w_def [symmetric] by (simp only: unat_and_not_mask) simp
  with w show ?thesis by simp
qed

lemma round_request_bounds:
  "unat sz \<le> round_request sz" "0 < round_request sz" "round_request sz + HDR + 16 < usize_mod"
proof -
  let ?n = "max 1 (unat sz)"
  have r: "?n \<le> round_request sz" "round_request sz < ?n + 16"
    using round_up [of 16 ?n] by (simp_all add: round_request_nat add.commute)
  then show "unat sz \<le> round_request sz" "0 < round_request sz" by auto
  have "unat sz < 2 ^ 32" using unat_bound [of sz] by simp
  with r show "round_request sz + HDR + 16 < usize_mod" by (simp add: HDR_def usize_mod_def)
qed

lemma heap_rep_lay: "heap_rep s L \<Longrightarrow> lay HEAP_START L (HEAP_START + HEAP_SIZE)"
  by (simp add: heap_rep_def)

lemma heap_rep_addr:
  assumes "heap_rep s L" and "(a, z, f) \<in> set L"
  shows "HEAP_START \<le> a" "a + HDR + z \<le> HEAP_START + HEAP_SIZE" "wadd a HDR = a + HDR"
    "wsub (a + HDR) HDR = a" "blk_free (blocks s a) = f" "blk_size (blocks s a) = z"
proof -
  show l: "HEAP_START \<le> a" "a + HDR + z \<le> HEAP_START + HEAP_SIZE"
    using lay_addrs [OF heap_rep_lay [OF assms(1)] assms(2)] by auto
  then have "a + HDR < usize_mod" using heap_bound by linarith
  then show "wadd a HDR = a + HDR" "wsub (a + HDR) HDR = a" by (simp_all add: wadd_small wsub_small)
  show "blk_free (blocks s a) = f" "blk_size (blocks s a) = z"
    using assms rep_mem [of "blocks s" HEAP_START L a z f] by (auto simp: heap_rep_def)
qed

lemma split_block_fields [simp]:
  "HEAP_HEAD (split_block b n s) = HEAP_HEAD s" "hbytes (split_block b n s) = hbytes s"
  by (simp_all add: split_block_def Let_def)

lemma heap_rep_split:
  assumes "heap_rep s L" and "a \<in> seg_addrs L" and "n + HDR + 16 < usize_mod"
  shows "heap_rep (split_block a n s) (seg_split a n L)"
  using assms rep_split [of s HEAP_START L HEAP_START "HEAP_START + HEAP_SIZE" n a] heap_bound
  by (auto simp: heap_rep_def intro: lay_split)

lemma heap_rep_mark:
  assumes "heap_rep s L" and "a \<in> seg_addrs L"
  shows "heap_rep (s\<lparr>blocks := (blocks s)(a := (blocks s a)\<lparr>blk_free := b\<rparr>)\<rparr>) (seg_mark a b L)"
  using assms rep_mark [of "blocks s" HEAP_START L HEAP_START "HEAP_START + HEAP_SIZE" a b]
  by (auto simp: heap_rep_def intro: lay_mark)

lemma seg_addrs_split: "a \<in> seg_addrs L \<Longrightarrow> a \<in> seg_addrs (seg_split p n L)"
  by (induction p n L rule: seg_split.induct) auto

lemma heap_alloc_rep:
  assumes "heap_rep s L"
  shows "case List.find (\<lambda>(a, z, f). f \<and> round_request sz \<le> z) L of
           None \<Rightarrow> krust_heap_alloc sz s = Some (0, s)
         | Some (a, z, f) \<Rightarrow> \<exists>s'. krust_heap_alloc sz s = Some (a + HDR, s') \<and> hbytes s' = hbytes s \<and>
             heap_rep s' (seg_mark a False (seg_split a (round_request sz) L))"
proof -
  let ?n = "round_request sz" and ?P = "\<lambda>(a, z, f). f \<and> round_request sz \<le> z"
  have h: "HEAP_HEAD s = HEAP_START" "rep (blocks s) HEAP_START L" "HEAP_START \<noteq> 0"
    using assms by (auto simp: heap_rep_def HEAP_START_def)
  obtain q where fb: "find_block s ?n =
      Some (case List.find ?P L of None \<Rightarrow> 0 | Some (a, z, f) \<Rightarrow> a, q)"
    using find_block_loop_rep [OF h(2), of 0 ?n] h(1) by (auto simp: find_block_def)
  show ?thesis
  proof (cases "List.find ?P L")
    case None
    with fb h show ?thesis by (simp add: krust_heap_alloc_def)
  next
    case (Some x)
    obtain a z f where x: "x = (a, z, f)" by (cases x)
    have m: "(a, z, f) \<in> set L" using Some x by (metis find_Some_iff nth_mem)
    then have a: "a \<in> seg_addrs L" by force
    have "a \<noteq> 0" using heap_rep_addr(1) [OF assms m] h(3) by simp
    let ?s1 = "split_block a ?n s"
    have "krust_heap_alloc sz s = Some (a + HDR,
        ?s1\<lparr>blocks := (blocks ?s1)(a := (blocks ?s1 a)\<lparr>blk_free := False\<rparr>)\<rparr>)"
      using fb Some x h \<open>a \<noteq> 0\<close> heap_rep_addr(3) [OF assms m]
      by (simp add: krust_heap_alloc_def Let_def)
    moreover note heap_rep_mark [OF heap_rep_split [OF assms a round_request_bounds(3)]
        seg_addrs_split [OF a], where b = False]
    ultimately show ?thesis using Some x by auto
  qed
qed

lemma heap_free_rep:
  assumes "heap_rep s L" and "(a, z, False) \<in> set L"
  shows "\<exists>s'. krust_heap_free (a + HDR) s = Some s' \<and> hbytes s' = hbytes s \<and>
           heap_rep s' (seg_merge (seg_mark a True L))"
proof -
  note ad = heap_rep_addr [OF assms]
  let ?s1 = "s\<lparr>blocks := (blocks s)(a := (blocks s a)\<lparr>blk_free := True\<rparr>)\<rparr>"
  have "a \<in> seg_addrs L" using assms(2) by force
  then have r: "heap_rep ?s1 (seg_mark a True L)" by (rule heap_rep_mark [OF assms(1)])
  then obtain h' where h': "merge_loop HEAP_START (blocks ?s1) = Some h'"
    "rep h' HEAP_START (seg_merge (seg_mark a True L))"
    using merge_loop_rep [of "blocks ?s1" HEAP_START "seg_mark a True L"] heap_bound
    unfolding heap_rep_def by metis
  have "krust_heap_free (a + HDR) s = merge_adjacent ?s1"
    using ad by (simp add: krust_heap_free_def HDR_def Let_def)
  also have "\<dots> = Some (?s1\<lparr>blocks := h'\<rparr>)"
    using h'(1) assms(1) by (simp add: merge_adjacent_def heap_rep_def)
  finally show ?thesis using h'(2) r by (auto simp: heap_rep_def intro: lay_merge)
qed


section \<open>The allocator contract\<close>

definition heap_inv :: "kheap \<Rightarrow> bool" where
  "heap_inv s \<longleftrightarrow> (\<exists>L. heap_rep s L)"

definition heap_live :: "kheap \<Rightarrow> (usize \<times> usize) set" where
  "heap_live s = {b. \<exists>L. heap_rep s L \<and> b \<in> live_of L}"

lemma heap_rep_det: "heap_rep s L \<Longrightarrow> heap_rep s M \<Longrightarrow> L = M"
  by (auto simp: heap_rep_def intro: rep_det)

lemma heap_live_rep: "heap_rep s L \<Longrightarrow> heap_live s = live_of L"
  using heap_rep_det by (auto simp: heap_live_def)

lemma heap_inv_rep: "heap_rep s L \<Longrightarrow> heap_inv s"
  by (auto simp: heap_inv_def)

lemma live_of_mem: "(p, z) \<in> live_of L \<longleftrightarrow> HDR \<le> p \<and> (p - HDR, z, False) \<in> set L"
  by (auto simp: live_of_def) (metis le_add_diff_inverse2)

lemma live_of_disjoint:
  assumes "lay a L e" and "(p, z) \<in> live_of L" and "(q, y) \<in> live_of L" and "p \<noteq> q"
  shows "p + z \<le> q \<or> q + y \<le> p"
proof -
  have "(p - HDR, z, False) \<in> set L" "(q - HDR, y, False) \<in> set L" "HDR \<le> p" "HDR \<le> q"
    using assms(2,3) by (auto simp: live_of_mem)
  with lay_disjoint [OF assms(1), of "p - HDR" z False "q - HDR" y False] assms(4) show ?thesis
    by arith
qed

text \<open>Where an allocation lands: nowhere, or in a free segment that becomes the new block.\<close>

lemma heap_alloc_cases:
  assumes "heap_rep s L"
  obtains (null) "krust_heap_alloc sz s = Some (0, s)"
      "\<forall>(a, z, f) \<in> set L. f \<longrightarrow> z < round_request sz"
  | (block) a z s' where "krust_heap_alloc sz s = Some (a + HDR, s')" "hbytes s' = hbytes s"
      "(a, z, True) \<in> set L" "round_request sz \<le> z"
      "heap_rep s' (seg_mark a False (seg_split a (round_request sz) L))"
      "live_of (seg_mark a False (seg_split a (round_request sz) L)) =
         insert (a + HDR, split_size z (round_request sz)) (live_of L)"
proof (cases "List.find (\<lambda>(a, z, f). f \<and> round_request sz \<le> z) L")
  case None
  have "krust_heap_alloc sz s = Some (0, s)" using heap_alloc_rep [OF assms, of sz] None by simp
  moreover have "\<forall>(a, z, f) \<in> set L. f \<longrightarrow> z < round_request sz"
    using None by (fastforce simp: find_None_iff)
  ultimately show ?thesis by (rule null)
next
  case (Some x)
  obtain a z f where x: "x = (a, z, f)" by (cases x)
  have m: "(a, z, True) \<in> set L" "round_request sz \<le> z"
    using Some x by (auto simp: find_Some_iff) (metis nth_mem)
  then show ?thesis
    using heap_alloc_rep [OF assms, of sz] Some x live_of_mark_split [OF heap_rep_lay [OF assms] m(1)]
      block by auto
qed

lemma split_size_ge: "n \<le> z \<Longrightarrow> n \<le> split_size z n"
  by (simp add: split_size_def)

lemma split_size_le: "n \<le> z \<Longrightarrow> split_size z n \<le> z"
  by (simp add: split_size_def)

lemma free_seg_not_live:
  assumes "lay a L e" and "(b, z, True) \<in> set L"
  shows "b + HDR \<notin> fst ` live_of L"
proof
  assume "b + HDR \<in> fst ` live_of L"
  then obtain y where "(b, y, False) \<in> set L" by (auto simp: live_of_def)
  then show False using lay_unique [OF assms] by blast
qed

interpretation kernel_heap: allocator krust_malloc krust_free heap_live heap_inv
proof
  fix s n p s' z q y
  assume "heap_inv s"
  then obtain L where L: "heap_rep s L" by (auto simp: heap_inv_def)
  note live = heap_live_rep [OF L]
  show "\<exists>p s'. krust_malloc n s = Some (p, s')"
    using L by (cases rule: heap_alloc_cases [where sz = n]) (auto simp: krust_malloc_def)
  show "heap_inv s'" if "krust_malloc n s = Some (p, s')"
    using L by (cases rule: heap_alloc_cases [where sz = n])
      (use that L in \<open>auto simp: krust_malloc_def intro: heap_inv_rep\<close>)
  show "heap_live s' = heap_live s" if "krust_malloc n s = Some (0, s')"
    using L by (cases rule: heap_alloc_cases [where sz = n])
      (use that in \<open>auto simp: krust_malloc_def HDR_def\<close>)
  show "\<exists>z \<ge> unat n. heap_live s' = insert (p, z) (heap_live s) \<and> p \<notin> fst ` heap_live s"
    if m: "krust_malloc n s = Some (p, s')" "p \<noteq> 0"
    using L
  proof (cases rule: heap_alloc_cases [where sz = n])
    case null
    with m show ?thesis by (simp add: krust_malloc_def)
  next
    case (block a z t)
    then have "s' = t" "p = a + HDR" using m by (auto simp: krust_malloc_def)
    moreover have "unat n \<le> split_size z (round_request n)"
      using split_size_ge [OF block(4)] round_request_bounds(1) [of n] by linarith
    moreover note heap_live_rep [OF block(5)] block(6) live
      free_seg_not_live [OF heap_rep_lay [OF L] block(3)]
    ultimately show ?thesis by auto
  qed
  show "p \<noteq> 0" if "(p, z) \<in> heap_live s" using that by (auto simp: live live_of_def HDR_def)
  show "p + z \<le> q \<or> q + y \<le> p" if "(p, z) \<in> heap_live s" "(q, y) \<in> heap_live s" "p \<noteq> q"
    using that live_of_disjoint [OF heap_rep_lay [OF L]] by (simp add: live)
  show "z = y" if "(p, z) \<in> heap_live s" "(p, y) \<in> heap_live s"
    using that lay_unique [OF heap_rep_lay [OF L]] by (auto simp: live live_of_mem)
  show "\<exists>s'. krust_free p s = Some s' \<and> heap_inv s' \<and> heap_live s' = heap_live s - {(p, z)}"
    if "(p, z) \<in> heap_live s"
  proof -
    have m: "(p - HDR, z, False) \<in> set L" "HDR \<le> p" using that by (auto simp: live live_of_mem)
    from heap_free_rep [OF L m(1)] obtain t where t: "krust_heap_free p s = Some t"
      "heap_rep t (seg_merge (seg_mark (p - HDR) True L))" using m(2) by auto
    have "heap_live t = heap_live s - {(p, z)}"
      using heap_live_rep [OF t(2)] live_of_mark_free [OF heap_rep_lay [OF L] m(1)] m(2)
      by (simp add: live)
    with t show ?thesis by (auto simp: krust_free_def intro: heap_inv_rep)
  qed
qed

interpretation kernel_blocks: steady_allocator krust_malloc krust_free heap_live heap_inv
proof
  show "s' = s" if "heap_inv s" and m: "krust_malloc n s = Some (0, s')" for s s' n
  proof -
    obtain L where "heap_rep s L" using \<open>heap_inv s\<close> by (auto simp: heap_inv_def)
    then show ?thesis
      by (cases rule: heap_alloc_cases [where sz = n]) (use m in \<open>auto simp: krust_malloc_def HDR_def\<close>)
  qed
qed


section \<open>Reallocation\<close>

lemma heap_rep_hbytes [simp]: "heap_rep (s\<lparr>hbytes := m\<rparr>) L = heap_rep s L"
  by (simp add: heap_rep_def)

lemma heap_live_hbytes [simp]: "heap_live (s\<lparr>hbytes := m\<rparr>) = heap_live s"
  by (simp add: heap_live_def)

lemma heap_inv_hbytes [simp]: "heap_inv (s\<lparr>hbytes := m\<rparr>) = heap_inv s"
  by (simp add: heap_inv_def)

lemma heap_alloc_bytes: "heap_inv s \<Longrightarrow> krust_heap_alloc n s = Some (p, s') \<Longrightarrow> hbytes s' = hbytes s"
  unfolding heap_inv_def by (auto elim: heap_alloc_cases [where sz = n])

lemma heap_free_bytes:
  assumes "heap_inv s" and "(p, z) \<in> heap_live s" and "krust_heap_free p s = Some s'"
  shows "hbytes s' = hbytes s"
proof -
  obtain L where L: "heap_rep s L" using assms(1) by (auto simp: heap_inv_def)
  then have "(p - HDR, z, False) \<in> set L" "HDR \<le> p"
    using assms(2) by (auto simp: heap_live_rep [OF L] live_of_mem)
  with heap_free_rep [OF L this(1)] assms(3) show ?thesis by auto
qed

lemma heap_live_block:
  assumes "heap_inv s" and "(p, z) \<in> heap_live s"
  shows "blk_size (blocks s (wsub p HDR)) = z" "HDR \<le> p" "p \<noteq> 0"
proof -
  obtain L where L: "heap_rep s L" using assms(1) by (auto simp: heap_inv_def)
  then have m: "(p - HDR, z, False) \<in> set L" "HDR \<le> p"
    using assms(2) by (auto simp: heap_live_rep [OF L] live_of_mem)
  with heap_rep_addr [OF L m(1)] show "blk_size (blocks s (wsub p HDR)) = z" "HDR \<le> p" "p \<noteq> 0"
    by (auto simp: HDR_def)
qed

lemma realloc_in_place:
  assumes "heap_inv s" and "(p, z) \<in> heap_live s"
  shows "heap_inv (split_block (wsub p HDR) (unat (n :: u32)) s) \<and>
         heap_live (split_block (wsub p HDR) (unat n) s) =
           insert (p, split_size z (unat n)) (heap_live s - {(p, z)})"
proof -
  obtain L where L: "heap_rep s L" using assms(1) by (auto simp: heap_inv_def)
  then have m: "(p - HDR, z, False) \<in> set L" "HDR \<le> p"
    using assms(2) by (auto simp: heap_live_rep [OF L] live_of_mem)
  have w: "wsub p HDR = p - HDR" using heap_rep_addr(4) [OF L m(1)] m(2) by simp
  have "unat n + HDR + 16 < usize_mod" using unat_bound [of n] by (simp add: HDR_def usize_mod_def)
  moreover have "p - HDR \<in> seg_addrs L" using m(1) by force
  ultimately have r: "heap_rep (split_block (p - HDR) (unat n) s) (seg_split (p - HDR) (unat n) L)"
    using heap_rep_split [OF L] by blast
  show ?thesis
    using heap_live_rep [OF r] live_of_split [OF heap_rep_lay [OF L] m(1), of "unat n"] m(2)
      heap_inv_rep [OF r] by (simp add: w heap_live_rep [OF L])
qed

lemma copy_inside: "i < n \<Longrightarrow> copy_nonoverlapping src dst n m (dst + i) = m (src + i)"
  by (simp add: copy_nonoverlapping_def)

lemma copy_outside: "a < dst \<or> dst + n \<le> a \<Longrightarrow> copy_nonoverlapping src dst n m a = m a"
  by (auto simp: copy_nonoverlapping_def)

lemma realloc_moved:
  assumes "heap_inv s" and "(p, z) \<in> heap_live s" and "z < unat n"
    and "krust_heap_alloc n s = Some (q, s1)" and "q \<noteq> 0"
  defines "c \<equiv> min z (unat n)"
  obtains y s' where "krust_heap_realloc p n s = Some (q, s')" "heap_inv s'" "unat n \<le> y"
    "heap_live s' = insert (q, y) (heap_live s - {(p, z)})" "q \<notin> fst ` heap_live s"
    "hbytes s' = copy_nonoverlapping p q c (hbytes s)"
proof -
  have m: "krust_malloc n s = Some (q, s1)" using assms(4) by (simp add: krust_malloc_def)
  obtain y where y: "unat n \<le> y" "heap_live s1 = insert (q, y) (heap_live s)" "q \<notin> fst ` heap_live s"
    using kernel_heap.malloc_block [OF assms(1) m assms(5)] by blast
  have i1: "heap_inv s1" using kernel_heap.malloc_inv [OF assms(1) m] .
  have pl: "(p, z) \<in> heap_live s1" using assms(2) y(2) by simp
  let ?s2 = "s1\<lparr>hbytes := copy_nonoverlapping p q c (hbytes s1)\<rparr>"
  obtain s' where s': "krust_heap_free p ?s2 = Some s'" "heap_inv s'"
    "heap_live s' = heap_live s1 - {(p, z)}"
    using kernel_heap.free_live [of ?s2 p z] i1 pl by (auto simp: krust_free_def)
  have "p \<noteq> q" using y(3) assms(2) by force
  have "n \<noteq> 0" using assms(3) by auto
  have "krust_heap_realloc p n s = Some (q, s')"
    using heap_live_block [OF assms(1,2)] heap_live_block [OF i1 pl] assms(3-5) s'(1) \<open>n \<noteq> 0\<close>
    by (simp add: krust_heap_realloc_def c_def Let_def)
  moreover have "heap_live s' = insert (q, y) (heap_live s - {(p, z)})"
    using s'(3) y(2) \<open>p \<noteq> q\<close> by auto
  moreover have "hbytes s' = copy_nonoverlapping p q c (hbytes s)"
    using heap_free_bytes [of ?s2 p z s'] i1 pl s'(1) heap_alloc_bytes [OF assms(1,4)] by simp
  ultimately show thesis using that s'(2) y(1,3) by blast
qed

section \<open>Properties\<close>

text \<open>
  C2. Allocation on a well-formed heap always returns. It returns null, changing nothing, only when
  no free block can hold the rounded request; otherwise the new block has at least the requested
  size, lies inside the heap, overlaps no live block, and is the only change to the live blocks.
\<close>

theorem heap_alloc_correct:
  assumes "heap_rep s L"
  shows "krust_heap_alloc n s = Some (0, s) \<and> (\<forall>(a, z, f) \<in> set L. f \<longrightarrow> z < round_request n) \<or>
    (\<exists>p z s'. krust_heap_alloc n s = Some (p, s') \<and> heap_inv s' \<and> unat n \<le> z \<and>
       HEAP_START \<le> p \<and> p + z \<le> HEAP_START + HEAP_SIZE \<and>
       heap_live s' = insert (p, z) (heap_live s) \<and>
       (\<forall>(q, y) \<in> heap_live s. p + z \<le> q \<or> q + y \<le> p))"
  using assms
proof (cases rule: heap_alloc_cases [where sz = n])
  case null
  then show ?thesis by simp
next
  case (block a z s')
  let ?z = "split_size z (round_request n)" and ?p = "a + HDR"
  have live: "heap_live s' = insert (?p, ?z) (heap_live s)"
    using heap_live_rep [OF block(5)] heap_live_rep [OF assms] block(6) by simp
  have inv: "heap_inv s'" using block(5) by (rule heap_inv_rep)
  have "unat n \<le> ?z" using split_size_ge [OF block(4)] round_request_bounds(1) [of n] by linarith
  moreover have "HEAP_START \<le> ?p" "?p + ?z \<le> HEAP_START + HEAP_SIZE"
    using heap_rep_addr(1,2) [OF assms block(3)] split_size_le [OF block(4)] by linarith+
  moreover have "?p + ?z \<le> q \<or> q + y \<le> ?p" if "(q, y) \<in> heap_live s" for q y
  proof -
    have "?p \<noteq> q"
      using that free_seg_not_live [OF heap_rep_lay [OF assms] block(3)] heap_live_rep [OF assms] by force
    then show ?thesis using that kernel_heap.live_disjoint [OF inv, of ?p ?z q y] live by simp
  qed
  ultimately show ?thesis using block(1) live inv by blast
qed

definition fresh_heap :: kheap where
  "fresh_heap = krust_heap_init \<lparr>HEAP_HEAD = 0,
     blocks = (\<lambda>_. \<lparr>blk_size = 0, blk_free = False, blk_next = 0\<rparr>), hbytes = (\<lambda>_. 0)\<rparr>"

lemma heap_init_rep: "heap_rep (krust_heap_init s) [(HEAP_START, HEAP_SIZE - HDR, True)]"
  by (simp add: heap_rep_def krust_heap_init_def HEAP_START_def HEAP_SIZE_def HDR_def)

theorem heap_alloc_correct_witness:
  "\<exists>p z s'. krust_heap_alloc 100 fresh_heap = Some (p, s') \<and> 100 \<le> z \<and> heap_live s' = {(p, z)}"
proof -
  have r: "heap_rep fresh_heap [(HEAP_START, HEAP_SIZE - HDR, True)]"
    unfolding fresh_heap_def by (rule heap_init_rep)
  have "heap_live fresh_heap = {}" using heap_live_rep [OF r] by simp
  moreover have "round_request 100 = 112" by (simp add: round_request_nat)
  ultimately show ?thesis
    using heap_alloc_correct [OF r, of 100] by (auto simp: HEAP_SIZE_def HDR_def)
qed

text \<open>
  C3. Freeing a live block returns, removes just that block from the live ones, and leaves no two
  neighbouring free blocks.
\<close>

theorem heap_free_correct:
  assumes "heap_inv s" and "(p, z) \<in> heap_live s"
  shows "\<exists>s' L. krust_heap_free p s = Some s' \<and> heap_rep s' L \<and> coalesced L \<and>
           heap_live s' = heap_live s - {(p, z)} \<and> hbytes s' = hbytes s"
proof -
  obtain L where L: "heap_rep s L" using assms(1) by (auto simp: heap_inv_def)
  then have m: "(p - HDR, z, False) \<in> set L" "HDR \<le> p"
    using assms(2) by (auto simp: heap_live_rep [OF L] live_of_mem)
  from heap_free_rep [OF L m(1)] obtain t where t: "krust_heap_free p s = Some t"
    "heap_rep t (seg_merge (seg_mark (p - HDR) True L))" "hbytes t = hbytes s" using m(2) by auto
  have "heap_live t = heap_live s - {(p, z)}"
    using heap_live_rep [OF t(2)] live_of_mark_free [OF heap_rep_lay [OF L] m(1)] m(2)
    by (simp add: heap_live_rep [OF L])
  with t coalesced_merge show ?thesis by blast
qed


lemma fresh_alloc:
  obtains p z s' where "krust_heap_alloc 100 fresh_heap = Some (p, s')" "heap_inv s'"
    "heap_live s' = {(p, z)}" "100 \<le> z"
proof -
  have r: "heap_rep fresh_heap [(HEAP_START, HEAP_SIZE - HDR, True)]"
    unfolding fresh_heap_def by (rule heap_init_rep)
  have l: "heap_live fresh_heap = {}" using heap_live_rep [OF r] by simp
  have "round_request 100 = 112" by (simp add: round_request_nat)
  from r show thesis
  proof (cases rule: heap_alloc_cases [where sz = 100])
    case null
    then show ?thesis using \<open>round_request 100 = 112\<close> by (simp add: HEAP_SIZE_def HDR_def)
  next
    case (block a z s')
    have "heap_live s' = {(a + HDR, split_size z 112)}"
      using heap_live_rep [OF block(5)] block(6) heap_live_rep [OF r] l \<open>round_request 100 = 112\<close> by simp
    moreover have "100 \<le> split_size z 112"
      using split_size_ge [OF block(4)] \<open>round_request 100 = 112\<close> by simp
    ultimately show ?thesis using that block(1) heap_inv_rep [OF block(5)] by blast
  qed
qed

theorem heap_free_correct_witness:
  "\<exists>p s1 s2. krust_heap_alloc 100 fresh_heap = Some (p, s1) \<and> krust_heap_free p s1 = Some s2 \<and>
     heap_live s2 = {}"
proof -
  obtain p z s1 where a: "krust_heap_alloc 100 fresh_heap = Some (p, s1)" "heap_inv s1"
    "heap_live s1 = {(p, z)}" by (rule fresh_alloc)
  with heap_free_correct [OF a(2), of p z] show ?thesis by auto
qed

lemma coalesced_all_free:
  "coalesced L \<Longrightarrow> live_of L = {} \<Longrightarrow> lay a L e \<Longrightarrow> L \<noteq> [] \<Longrightarrow> L = [(a, e - a - HDR, True)]"
proof (induction L rule: coalesced.induct)
  case (1 b z f c y g L)
  then have "f" "g" by (auto split: if_splits)
  with 1 show ?case by simp
next
  case (3 v)
  obtain b z f where "v = (b, z, f)" by (cases v)
  with 3 show ?case by (auto split: if_splits)
qed simp

text \<open>
  No permanent fragmentation: when the last live block is freed, whatever allocations and frees
  came before, the heap is again the single free block it started as.
\<close>

lemma heap_returns_to_one_block:
  assumes "heap_inv s" and "heap_live s = {(p, z)}"
  shows "\<exists>s'. krust_heap_free p s = Some s' \<and> heap_rep s' [(HEAP_START, HEAP_SIZE - HDR, True)]"
proof -
  have m: "(p, z) \<in> heap_live s" using assms(2) by simp
  obtain L where L: "heap_rep s L" using assms(1) by (auto simp: heap_inv_def)
  have i: "(p - HDR, z, False) \<in> set L" "HDR \<le> p" using m by (auto simp: heap_live_rep [OF L] live_of_mem)
  let ?L = "seg_merge (seg_mark (p - HDR) True L)"
  obtain t where t: "krust_heap_free p s = Some t" "heap_rep t ?L"
    using heap_free_rep [OF L i(1)] i(2) by auto
  have "live_of ?L = {}"
    using live_of_mark_free [OF heap_rep_lay [OF L] i(1)] i(2) assms(2) by (simp add: heap_live_rep [OF L])
  then have "?L = [(HEAP_START, HEAP_SIZE - HDR, True)]"
    using coalesced_all_free [OF coalesced_merge _ heap_rep_lay [OF t(2)]] t(2) by (simp add: heap_rep_def)
  with t show ?thesis by auto
qed

text \<open>
  C4. Reallocating a live block to a non-zero size returns; if it returns null nothing changed,
  otherwise the result is a live block of at least the new size that replaces the old one, its first
  bytes are those of the old block up to the smaller of the two sizes, and the bytes of every other
  live block are untouched.
\<close>

theorem heap_realloc_correct:
  assumes "heap_inv s" and "(p, z) \<in> heap_live s" and "n \<noteq> 0"
  shows "\<exists>q s'. krust_heap_realloc p n s = Some (q, s') \<and> heap_inv s' \<and>
    (if q = 0 then s' = s
     else (\<exists>y \<ge> unat n. heap_live s' = insert (q, y) (heap_live s - {(p, z)})) \<and>
          (\<forall>i < min z (unat n). hbytes s' (q + i) = hbytes s (p + i)) \<and>
          (\<forall>(r, w) \<in> heap_live s - {(p, z)}. \<forall>i < w. hbytes s' (r + i) = hbytes s (r + i)))"
proof (cases "unat n \<le> z")
  case True
  note b = heap_live_block [OF assms(1,2)]
  have e: "krust_heap_realloc p n s = Some (p, split_block (wsub p HDR) (unat n) s)"
    using True b assms(3) by (simp add: krust_heap_realloc_def Let_def)
  with realloc_in_place [OF assms(1,2), of n] b(3) split_size_ge [OF True] show ?thesis by auto
next
  case False
  obtain q s1 where a: "krust_heap_alloc n s = Some (q, s1)"
    using kernel_heap.malloc_returns [OF assms(1), of n] by (auto simp: krust_malloc_def)
  note b = heap_live_block [OF assms(1,2)]
  show ?thesis
  proof (cases "q = 0")
    case True
    obtain L where L: "heap_rep s L" using assms(1) by (auto simp: heap_inv_def)
    then have "s1 = s" using a True by (cases rule: heap_alloc_cases [where sz = n]) (auto simp: HDR_def)
    then show ?thesis using True a b False assms(1,3)
      by (simp add: krust_heap_realloc_def Let_def)
  next
    case q: False
    have zn: "z < unat n" using False by simp
    obtain y s' where
      r: "krust_heap_realloc p n s = Some (q, s')" "heap_inv s'" "unat n \<le> y"
        "heap_live s' = insert (q, y) (heap_live s - {(p, z)})" "q \<notin> fst ` heap_live s"
        "hbytes s' = copy_nonoverlapping p q (min z (unat n)) (hbytes s)"
      by (rule realloc_moved [OF assms(1,2) zn a q])
    have "hbytes s' (r + i) = hbytes s (r + i)" if rw: "(r, w) \<in> heap_live s - {(p, z)}" and i: "i < w"
      for r w i
    proof -
      have "r \<noteq> q" using rw r(5) by force
      then have "q + y \<le> r \<or> r + w \<le> q"
        using kernel_heap.live_disjoint [OF r(2), of q y r w] r(4) rw by auto
      then show ?thesis unfolding r(6) using i r(3) by (intro copy_outside) auto
    qed
    then show ?thesis using r q by (auto simp: copy_inside)
  qed
qed

theorem heap_realloc_correct_witness:
  "\<exists>p s1 q s2. krust_heap_alloc 100 fresh_heap = Some (p, s1) \<and>
     krust_heap_realloc p 300 s1 = Some (q, s2) \<and> heap_inv s2"
proof -
  obtain p z s1 where a: "krust_heap_alloc 100 fresh_heap = Some (p, s1)" "heap_inv s1"
    "heap_live s1 = {(p, z)}" by (rule fresh_alloc)
  with heap_realloc_correct [OF a(2), of p z 300] show ?thesis by auto
qed

end
