(* ===== verification/Vma.thy ===== *)
theory Vma
  imports Kheap
begin

text \<open>
  The list of memory regions of an address space (\<open>kernel/src/mm/vma.rs\<close>): a singly linked list of
  \<open>VMA\<close> nodes sorted by start address, each node a block from the kernel heap. The model keeps the
  nodes in a store by address, and takes \<open>malloc\<close> and \<open>free\<close> as arguments, as the source links them
  by name; the theorems are about the kernel heap's functions. The head pointer, which lives in the
  task, is passed in and returned. A walk of the list may not end on a cyclic list, so each is a
  partial function.
\<close>

section \<open>State and operations\<close>

record vma =
  vm_start :: u64
  vm_end :: u64
  vm_flags :: u64
  vm_next :: usize

record 'h vmm =
  vmas :: "usize \<Rightarrow> vma"
  vheap :: 'h

type_synonym 'h malloc = "u32 \<Rightarrow> 'h \<Rightarrow> (usize \<times> 'h) option"
type_synonym 'h mfree = "usize \<Rightarrow> 'h \<Rightarrow> 'h option"

text \<open>\<open>size_of::<VMA>()\<close>: three 64-bit fields and a pointer.\<close>

definition VMA_SIZE :: u32 where
  "VMA_SIZE = 32"

partial_function (option) krust_vmm_find :: "(usize \<Rightarrow> vma) \<Rightarrow> usize \<Rightarrow> u64 \<Rightarrow> usize option" where
  "krust_vmm_find m v addr =
     (if v = 0 then Some 0
      else if addr \<ge> vm_start (m v) \<and> addr < vm_end (m v) then Some v
      else krust_vmm_find m (vm_next (m v)) addr)"

partial_function (option) add_loop ::
  "(usize \<Rightarrow> vma) \<Rightarrow> u64 \<Rightarrow> usize \<Rightarrow> usize \<Rightarrow> (usize \<times> usize) option" where
  "add_loop m start prev cur =
     (if cur \<noteq> 0 \<and> vm_start (m cur) < start then add_loop m start cur (vm_next (m cur))
      else Some (prev, cur))"

text \<open>The result, the new head and the new state.\<close>

definition krust_vmm_add ::
  "'h malloc \<Rightarrow> usize \<Rightarrow> u64 \<Rightarrow> u64 \<Rightarrow> u64 \<Rightarrow> 'h vmm \<Rightarrow> (usize \<times> usize \<times> 'h vmm) option" where
  "krust_vmm_add malloc head start end flags s =
     (if start \<ge> end then Some (0, head, s)
      else do {
        (v, h) \<leftarrow> malloc VMA_SIZE (vheap s);
        let s = s\<lparr>vheap := h\<rparr>;
        if v = 0 then Some (0, head, s)
        else do {
          let m = (vmas s)(v := \<lparr>vm_start = start, vm_end = end, vm_flags = flags, vm_next = 0\<rparr>);
          if head = 0 then Some (v, v, s\<lparr>vmas := m\<rparr>)
          else do {
            (prev, cur) \<leftarrow> add_loop m start 0 head;
            if prev \<noteq> 0 then
              let m = m(prev := (m prev)\<lparr>vm_next := v\<rparr>);
                  m = m(v := (m v)\<lparr>vm_next := cur\<rparr>)
              in Some (v, head, s\<lparr>vmas := m\<rparr>)
            else
              Some (v, v, s\<lparr>vmas := m(v := (m v)\<lparr>vm_next := head\<rparr>)\<rparr>)
          }
        }
      })"

partial_function (option) remove_loop ::
  "'h malloc \<Rightarrow> 'h mfree \<Rightarrow> u64 \<Rightarrow> u64 \<Rightarrow> usize \<Rightarrow> usize \<Rightarrow> usize \<Rightarrow> u32 \<Rightarrow> 'h vmm \<Rightarrow>
     (u32 \<times> usize \<times> 'h vmm) option" where
  "remove_loop malloc mfree start end head prev cur count s =
     (if cur = 0 then Some (count, head, s)
      else
        let c = vmas s cur
        in if vm_start c < end \<and> vm_end c > start then
             let next = vm_next c
             in if vm_start c \<ge> start \<and> vm_end c \<le> end then
                  let s1 = (if prev \<noteq> 0 then
                              s\<lparr>vmas := (vmas s)(prev := (vmas s prev)\<lparr>vm_next := next\<rparr>)\<rparr>
                            else s);
                      head1 = (if prev \<noteq> 0 then head else next)
                  in Option.bind (mfree cur (vheap s1)) (\<lambda>h.
                       remove_loop malloc mfree start end head1 prev next (count + 1) (s1\<lparr>vheap := h\<rparr>))
                else if vm_start c < start \<and> vm_end c > end then
                  Option.bind (malloc VMA_SIZE (vheap s)) (\<lambda>(new_v, h).
                    let m = vmas s;
                        m1 = m(new_v := \<lparr>vm_start = end, vm_end = vm_end c, vm_flags = vm_flags c,
                                         vm_next = vm_next c\<rparr>);
                        m2 = m1(cur := (m1 cur)\<lparr>vm_end := start, vm_next := new_v\<rparr>)
                    in Some (count + 1, head, s\<lparr>vmas := (if new_v \<noteq> 0 then m2 else m), vheap := h\<rparr>))
                else
                  let c1 = (if vm_start c < start \<and> vm_end c > start then c\<lparr>vm_end := start\<rparr>
                            else if vm_start c < end \<and> vm_end c > end then c\<lparr>vm_start := end\<rparr>
                            else c);
                      count1 = (if vm_start c < start \<and> vm_end c > start \<or>
                                   vm_start c < end \<and> vm_end c > end then count + 1 else count)
                  in remove_loop malloc mfree start end head cur next count1
                       (s\<lparr>vmas := (vmas s)(cur := c1)\<rparr>)
           else remove_loop malloc mfree start end head cur (vm_next c) count s)"

definition krust_vmm_remove ::
  "'h malloc \<Rightarrow> 'h mfree \<Rightarrow> usize \<Rightarrow> u64 \<Rightarrow> u64 \<Rightarrow> 'h vmm \<Rightarrow> (u32 \<times> usize \<times> 'h vmm) option" where
  "krust_vmm_remove malloc mfree head start end s =
     remove_loop malloc mfree start end head 0 head 0 s"

partial_function (option) free_all_loop ::
  "'h mfree \<Rightarrow> usize \<Rightarrow> 'h vmm \<Rightarrow> 'h vmm option" where
  "free_all_loop mfree cur s =
     (if cur = 0 then Some s
      else
        let next = vm_next (vmas s cur)
        in Option.bind (mfree cur (vheap s)) (\<lambda>h. free_all_loop mfree next (s\<lparr>vheap := h\<rparr>)))"

definition krust_vmm_free_all :: "'h mfree \<Rightarrow> usize \<Rightarrow> 'h vmm \<Rightarrow> (usize \<times> 'h vmm) option" where
  "krust_vmm_free_all mfree head s = map_option (Pair 0) (free_all_loop mfree head s)"

partial_function (option) overlap_loop :: "(usize \<Rightarrow> vma) \<Rightarrow> u64 \<Rightarrow> u64 \<Rightarrow> usize \<Rightarrow> bool option" where
  "overlap_loop m start end v =
     (if v = 0 then Some False
      else if vm_start (m v) < end \<and> vm_end (m v) > start then Some True
      else overlap_loop m start end (vm_next (m v)))"

definition krust_vmm_has_overlap :: "(usize \<Rightarrow> vma) \<Rightarrow> usize \<Rightarrow> u64 \<Rightarrow> u64 \<Rightarrow> bool option" where
  "krust_vmm_has_overlap m head start end =
     (if start \<ge> end then Some True else overlap_loop m start end head)"

section \<open>Regions as a list\<close>

type_synonym region = "u64 \<times> u64 \<times> u64"

definition region_of :: "vma \<Rightarrow> region" where
  "region_of v = (vm_start v, vm_end v, vm_flags v)"

text \<open>\<open>vseg m p as q\<close>: the \<open>next\<close> pointers run from \<open>p\<close> through the nodes \<open>as\<close> to \<open>q\<close>.\<close>

fun vseg :: "(usize \<Rightarrow> vma) \<Rightarrow> usize \<Rightarrow> usize list \<Rightarrow> usize \<Rightarrow> bool" where
  "vseg m p [] q \<longleftrightarrow> p = q"
| "vseg m p (a # as) q \<longleftrightarrow> p = a \<and> a \<noteq> 0 \<and> vseg m (vm_next (m a)) as q"

fun vremove :: "u64 \<Rightarrow> u64 \<Rightarrow> bool \<Rightarrow> region list \<Rightarrow> region list" where
  "vremove s e ok [] = []"
| "vremove s e ok ((a, b, f) # L) =
     (if a < e \<and> b > s then
        if a \<ge> s \<and> b \<le> e then vremove s e ok L
        else if a < s \<and> b > e then (if ok then (a, s, f) # (e, b, f) # L else (a, b, f) # L)
        else if a < s \<and> b > s then (a, s, f) # vremove s e ok L
        else if a < e \<and> b > e then (e, b, f) # vremove s e ok L
        else (a, b, f) # vremove s e ok L
      else (a, b, f) # vremove s e ok L)"

definition vinsert :: "region \<Rightarrow> region list \<Rightarrow> region list" where
  "vinsert r L = takeWhile (\<lambda>q. fst q < fst r) L @ r # dropWhile (\<lambda>q. fst q < fst r) L"

text \<open>The flags of the region an address is in, and the lists the kernel keeps.\<close>

definition region_at :: "region list \<Rightarrow> u64 \<Rightarrow> u64 option" where
  "region_at L x = map_option (snd \<circ> snd) (List.find (\<lambda>(a, b, f). a \<le> x \<and> x < b) L)"

definition regions_ok :: "region list \<Rightarrow> bool" where
  "regions_ok L \<longleftrightarrow> sorted_wrt (\<lambda>p q. fst (snd p) \<le> fst q) L \<and> (\<forall>(a, b, f) \<in> set L. a < b)"

section \<open>Regions: lookup after removal and insertion\<close>

lemma region_at_Nil [simp]: "region_at [] x = None"
  by (simp add: region_at_def)

lemma region_at_Cons [simp]:
  "region_at ((a, b, f) # L) x = (if a \<le> x \<and> x < b then Some f else region_at L x)"
  by (simp add: region_at_def)

lemma regions_ok_Cons [simp]:
  "regions_ok ((a, b, f) # L) \<longleftrightarrow> a < b \<and> (\<forall>q \<in> set L. b \<le> fst q) \<and> regions_ok L"
  by (auto simp: regions_ok_def)

lemma regions_ok_Nil [simp]: "regions_ok []"
  by (simp add: regions_ok_def)

lemma region_at_below: "\<forall>q \<in> set L. b \<le> fst q \<Longrightarrow> x < b \<Longrightarrow> region_at L x = None"
  by (induction L) (auto dest: leD)

lemma vremove_lower: "\<forall>q \<in> set L. b \<le> fst q \<Longrightarrow> s < e \<Longrightarrow> q \<in> set (vremove s e ok L) \<Longrightarrow> b \<le> fst q"
  by (induction s e ok L rule: vremove.induct) (auto split: if_splits)

lemma vremove_correct:
  assumes "regions_ok L" and "s < e"
  shows "regions_ok (vremove s e True L) \<and>
    region_at (vremove s e True L) x = (if s \<le> x \<and> x < e then None else region_at L x)"
  using assms
proof (induction L)
  case (Cons r L)
  obtain a b f where r: "r = (a, b, f)" by (cases r)
  have ab: "a < b" and low: "\<forall>q \<in> set L. b \<le> fst q" and IH:
    "regions_ok (vremove s e True L)"
    "region_at (vremove s e True L) x = (if s \<le> x \<and> x < e then None else region_at L x)"
    using Cons r by auto
  have low': "\<forall>q \<in> set (vremove s e True L). b \<le> fst q"
    using vremove_lower [OF low assms(2)] by blast
  have none: "x < b \<Longrightarrow> region_at L x = None" using region_at_below [OF low] .
  consider (out) "\<not> (a < e \<and> s < b)" | (inside) "s \<le> a" "b \<le> e" "a < e" "s < b"
    | (mid) "a < s" "e < b" | (left) "a < s" "s < b" "b \<le> e" | (right) "s \<le> a" "a < e" "e < b"
    by (meson not_le)
  then show ?case
  proof cases
    case out
    have "vremove s e True (r # L) = (a, b, f) # vremove s e True L"
      by (simp only: out r vremove.simps if_False)
    moreover have "\<not> (s \<le> x \<and> x < e)" if "a \<le> x" "x < b" 
      using that out by (meson le_less_trans less_le_trans not_le)
    ultimately show ?thesis using IH ab low' r by simp
  next
    case inside
    then have v: "vremove s e True (r # L) = vremove s e True L" using r by simp
    moreover have "s \<le> x \<and> x < e" if "a \<le> x" "x < b" using that inside by auto
    ultimately show ?thesis using IH r by auto
  next
    case mid
    have "e < b" "s < b" "a < e" using mid assms(2) by auto
    then have "vremove s e True (r # L) = (a, s, f) # (e, b, f) # L" using mid r by auto
    moreover have "region_at L x = None" if "s \<le> x" "x < e" using none that \<open>e < b\<close> by auto
    moreover have "s \<le> fst q" if "q \<in> set L" for q using that low \<open>s < b\<close> by force
    ultimately show ?thesis using Cons.prems r mid \<open>e < b\<close> \<open>s < b\<close> \<open>a < e\<close> assms(2) by auto
  next
    case left
    then have "vremove s e True (r # L) = (a, s, f) # vremove s e True L" using r by auto
    moreover have "\<forall>q \<in> set (vremove s e True L). s \<le> fst q" using low' left(2) by force
    ultimately show ?thesis using IH r left by auto
  next
    case right
    then have "vremove s e True (r # L) = (e, b, f) # vremove s e True L" using r assms(2) by auto
    then show ?thesis using IH r right low' none by auto
  qed
qed simp


lemma vinsert_simps [simp]:
  "vinsert r [] = [r]"
  "vinsert r (q # L) = (if fst q < fst r then q # vinsert r L else r # q # L)"
  by (simp_all add: vinsert_def)

lemma set_vinsert [simp]: "set (vinsert r L) = insert r (set L)"
  by (induction L) auto

definition overlaps :: "region list \<Rightarrow> u64 \<Rightarrow> u64 \<Rightarrow> bool" where
  "overlaps L s e \<longleftrightarrow> (\<exists>(a, b, f) \<in> set L. a < e \<and> b > s)"

lemma overlaps_Cons [simp]: "overlaps ((a, b, f) # L) s e \<longleftrightarrow> a < e \<and> b > s \<or> overlaps L s e"
  by (auto simp: overlaps_def)

lemma vinsert_correct:
  assumes "regions_ok L" and "s < e" and "\<not> overlaps L s e"
  shows "regions_ok (vinsert (s, e, g) L) \<and>
    region_at (vinsert (s, e, g) L) x = (if s \<le> x \<and> x < e then Some g else region_at L x)"
  using assms
proof (induction L)
  case (Cons r L)
  obtain a b f where r: "r = (a, b, f)" by (cases r)
  have ab: "a < b" and low: "\<forall>q \<in> set L. b \<le> fst q" and IH:
    "regions_ok (vinsert (s, e, g) L)"
    "region_at (vinsert (s, e, g) L) x = (if s \<le> x \<and> x < e then Some g else region_at L x)"
    and no: "\<not> (a < e \<and> s < b)"
    using Cons r by auto
  show ?case
  proof (cases "a < s")
    case True
    then have "b \<le> s" using no assms(2) by auto
    then have "\<forall>q \<in> set (vinsert (s, e, g) L). b \<le> fst q" using low by auto
    with True IH ab r \<open>b \<le> s\<close> show ?thesis by auto
  next
    case False
    then have "e \<le> a" using no ab by (meson le_less_trans not_le)
    then have "\<forall>q \<in> set L. e \<le> fst q" using low ab by force
    with False \<open>e \<le> a\<close> Cons.prems r assms(2) show ?thesis by auto
  qed
qed simp

section \<open>Node lists in the store\<close>

lemma vseg_append: "vseg m p (as @ bs) q \<longleftrightarrow> (\<exists>r. vseg m p as r \<and> vseg m r bs q)"
  by (induction m p as q rule: vseg.induct) auto

lemma vseg_cong: "(\<And>a. a \<in> set as \<Longrightarrow> m' a = m a) \<Longrightarrow> vseg m' p as q = vseg m p as q"
  by (induction m p as q rule: vseg.induct) auto

lemma vseg_upd [simp]: "a \<notin> set as \<Longrightarrow> vseg (m(a := x)) p as q = vseg m p as q"
  by (rule vseg_cong) auto

lemma vseg_nonnull: "vseg m p as 0 \<Longrightarrow> p \<noteq> 0 \<Longrightarrow> \<exists>bs. as = p # bs \<and> vseg m (vm_next (m p)) bs 0"
  by (cases as) auto

lemma vseg_null: "vseg m 0 as 0 \<Longrightarrow> as = []"
  by (cases as) auto

lemma vseg_no_null: "vseg m p as q \<Longrightarrow> 0 \<notin> set as"
  by (induction m p as q rule: vseg.induct) auto

text \<open>The node before the current one: the last of those already passed.\<close>

definition prev_of :: "usize list \<Rightarrow> usize" where
  "prev_of pre = (if pre = [] then 0 else last pre)"

lemma prev_of_null: "vseg m p pre q \<Longrightarrow> prev_of pre = 0 \<longleftrightarrow> pre = []"
  unfolding prev_of_def using last_in_set [of pre] vseg_no_null [of m p pre q] by metis

lemma prev_of_snoc [simp]: "prev_of (pre @ [a]) = a"
  by (simp add: prev_of_def)

lemma vseg_relink:
  assumes "vseg m p pre q" and "distinct pre" and "pre \<noteq> []"
  shows "vseg (m(last pre := (m (last pre))\<lparr>vm_next := r\<rparr>)) p pre r"
proof -
  obtain us a where pre: "pre = us @ [a]" using assms(3) by (meson rev_exhaust)
  have "a \<notin> set us" using assms(2) pre by simp
  then show ?thesis using assms(1) by (auto simp: pre vseg_append)
qed

lemma map_upd_region [simp]:
  "a \<notin> set as \<Longrightarrow> map (\<lambda>b. region_of ((m(a := x)) b)) as = map (\<lambda>b. region_of (m b)) as"
  by auto

lemma region_of_next [simp]: "region_of (v\<lparr>vm_next := n\<rparr>) = region_of v"
  by (simp add: region_of_def)

abbreviation regions :: "(usize \<Rightarrow> vma) \<Rightarrow> usize list \<Rightarrow> region list" where
  "regions m as \<equiv> map (\<lambda>a. region_of (m a)) as"

section \<open>The walks\<close>

lemma vmm_find_walk:
  "vseg m p as 0 \<Longrightarrow> krust_vmm_find m p x =
     Some (case List.find (\<lambda>a. vm_start (m a) \<le> x \<and> x < vm_end (m a)) as of None \<Rightarrow> 0 | Some a \<Rightarrow> a)"
proof (induction as arbitrary: p)
  case Nil
  then show ?case by (subst krust_vmm_find.simps) simp
next
  case (Cons a as)
  then show ?case by (subst krust_vmm_find.simps) auto
qed

lemma overlap_walk:
  "vseg m p as 0 \<Longrightarrow> overlap_loop m s e p = Some (overlaps (regions m as) s e)"
proof (induction as arbitrary: p)
  case Nil
  then show ?case by (subst overlap_loop.simps) (simp add: overlaps_def)
next
  case (Cons a as)
  then show ?case by (subst overlap_loop.simps) (auto simp: region_of_def)
qed

lemma add_walk:
  assumes "vseg m head pre p" and "vseg m p as 0"
  shows "\<exists>us vs q. as = us @ vs \<and> vseg m head (pre @ us) q \<and> vseg m q vs 0 \<and>
    add_loop m s (prev_of pre) p = Some (prev_of (pre @ us), q) \<and>
    (\<forall>u \<in> set us. vm_start (m u) < s) \<and> (vs \<noteq> [] \<longrightarrow> \<not> vm_start (m (hd vs)) < s)"
  using assms
proof (induction as arbitrary: pre p)
  case Nil
  then show ?case by (subst add_loop.simps) auto
next
  case (Cons a as)
  then have pa: "p = a" "a \<noteq> 0" "vseg m (vm_next (m a)) as 0" by auto
  show ?case
  proof (cases "vm_start (m a) < s")
    case True
    have "vseg m head (pre @ [a]) (vm_next (m a))" using Cons.prems(1) pa by (auto simp: vseg_append)
    from Cons.IH [OF this pa(3)] obtain us vs q where
      "as = us @ vs" "vseg m head ((pre @ [a]) @ us) q" "vseg m q vs 0"
      "add_loop m s (prev_of (pre @ [a])) (vm_next (m a)) = Some (prev_of ((pre @ [a]) @ us), q)"
      "\<forall>u \<in> set us. vm_start (m u) < s" "vs \<noteq> [] \<longrightarrow> \<not> vm_start (m (hd vs)) < s" by blast
    with True pa show ?thesis
      by (intro exI [of _ "a # us"] exI [of _ vs] exI [of _ q]) (subst add_loop.simps, simp)
  next
    case False
    with Cons.prems pa show ?thesis
      by (intro exI [of _ "[]"] exI [of _ "a # as"] exI [of _ a]) (subst add_loop.simps, simp)
  qed
qed

lemma vinsert_split:
  assumes "\<forall>u \<in> set us. fst u < fst r" and "vs \<noteq> [] \<longrightarrow> \<not> fst (hd vs) < fst r"
  shows "vinsert r (us @ vs) = us @ r # vs"
  using assms by (induction us) (cases vs; simp)+


lemma vremove_no_split: "\<forall>q \<in> set L. s \<le> fst q \<Longrightarrow> vremove s e ok L = vremove s e True L"
  by (induction s e ok L rule: vremove.induct) auto

text \<open>Linking a node in between the nodes passed and the rest.\<close>

definition link_in :: "(usize \<Rightarrow> vma) \<Rightarrow> usize list \<Rightarrow> usize \<Rightarrow> usize \<Rightarrow> (usize \<Rightarrow> vma)" where
  "link_in m us v q =
     (if us = [] then m(v := (m v)\<lparr>vm_next := q\<rparr>)
      else (m(last us := (m (last us))\<lparr>vm_next := v\<rparr>))(v := (m v)\<lparr>vm_next := q\<rparr>))"

lemma vseg_link_in:
  assumes "vseg m head us q" and "vseg m q vs 0" and "v \<notin> set (us @ vs)" and "v \<noteq> 0"
    and "distinct (us @ vs)"
  shows "vseg (link_in m us v q) (if us = [] then v else head) (us @ v # vs) 0"
proof (cases "us = []")
  case True
  with assms show ?thesis by (simp add: link_in_def)
next
  case False
  let ?m = "m(last us := (m (last us))\<lparr>vm_next := v\<rparr>)"
  have "last us \<in> set us" using False by simp
  then have l: "last us \<noteq> v" "last us \<notin> set vs" using assms(3,5) by auto
  have "vseg ?m head us v" using vseg_relink assms(1,5) False by simp
  then have "vseg (link_in m us v q) head us v" using False assms(3) by (simp add: link_in_def)
  moreover have "vseg (link_in m us v q) q vs 0" using assms(2,3) l False by (simp add: link_in_def)
  moreover have "vm_next (link_in m us v q v) = q" using False by (simp add: link_in_def)
  ultimately show ?thesis using assms(4) False by (auto simp: vseg_append)
qed

lemma regions_link_in [simp]: "regions (link_in m us v q) as = regions m as"
  by (auto simp: link_in_def)

text \<open>The nodes of a list are distinct live blocks of the heap.\<close>

definition vma_rep :: "('h \<Rightarrow> usize set) \<Rightarrow> 'h vmm \<Rightarrow> usize \<Rightarrow> usize list \<Rightarrow> bool" where
  "vma_rep ptrs s head as \<longleftrightarrow>
     vseg (vmas s) head as 0 \<and> distinct as \<and> set as \<subseteq> ptrs (vheap s)"

text \<open>
  What removing from the rest \<open>as\<close> of a list, with \<open>pre\<close> already passed, must deliver: the regions
  of the rest are cut, those passed are kept, and no block of the heap is lost or taken away.
  \<open>ok\<close> is False when the block for the second half of a region cut in two was refused.
\<close>

definition remove_post ::
  "'h malloc \<Rightarrow> ('h \<Rightarrow> usize set) \<Rightarrow> ('h \<Rightarrow> bool) \<Rightarrow> u64 \<Rightarrow> u64 \<Rightarrow> 'h vmm \<Rightarrow> usize list \<Rightarrow> usize list \<Rightarrow>
     (u32 \<times> usize \<times> 'h vmm) option \<Rightarrow> bool" where
  "remove_post malloc ptrs hinv st en s pre as r \<longleftrightarrow>
     (\<exists>cnt head' s' as' ok. r = Some (cnt, head', s') \<and> hinv (vheap s') \<and>
        vma_rep ptrs s' head' (pre @ as') \<and>
        ptrs (vheap s') - set (pre @ as') = ptrs (vheap s) - set (pre @ as) \<and>
        regions (vmas s') pre = regions (vmas s) pre \<and>
        regions (vmas s') as' = vremove st en ok (regions (vmas s) as) \<and>
        (\<not> ok \<longrightarrow> (\<exists>h. malloc VMA_SIZE (vheap s) = Some (0, h))))"

lemma remove_postE:
  assumes "remove_post malloc ptrs hinv st en s pre as r"
  obtains cnt head' s' as' ok where "r = Some (cnt, head', s')" "hinv (vheap s')"
    "vma_rep ptrs s' head' (pre @ as')"
    "ptrs (vheap s') - set (pre @ as') = ptrs (vheap s) - set (pre @ as)"
    "regions (vmas s') pre = regions (vmas s) pre"
    "regions (vmas s') as' = vremove st en ok (regions (vmas s) as)"
    "\<not> ok \<longrightarrow> (\<exists>h. malloc VMA_SIZE (vheap s) = Some (0, h))"
  using assms unfolding remove_post_def by blast

lemma remove_post_keep:
  assumes "remove_post malloc ptrs hinv st en s1 (pre @ [a]) as r"
    and "vheap s1 = vheap s" and "regions (vmas s1) pre = regions (vmas s) pre"
    and "regions (vmas s1) as = regions (vmas s) as"
    and "\<And>ok. vremove st en ok (regions (vmas s) (a # as)) =
      region_of (vmas s1 a) # vremove st en ok (regions (vmas s) as)"
  shows "remove_post malloc ptrs hinv st en s pre (a # as) r"
proof -
  obtain cnt head' s' as' ok where r: "r = Some (cnt, head', s')" "hinv (vheap s')"
    "vma_rep ptrs s' head' ((pre @ [a]) @ as')"
    "ptrs (vheap s') - set ((pre @ [a]) @ as') = ptrs (vheap s1) - set ((pre @ [a]) @ as)"
    "regions (vmas s') (pre @ [a]) = regions (vmas s1) (pre @ [a])"
    "regions (vmas s') as' = vremove st en ok (regions (vmas s1) as)"
    "\<not> ok \<longrightarrow> (\<exists>h. malloc VMA_SIZE (vheap s1) = Some (0, h))"
    using assms(1) by (rule remove_postE)
  show ?thesis unfolding remove_post_def assms(5)
    using r assms(2-4)
    by (intro exI [of _ cnt] exI [of _ head'] exI [of _ s'] exI [of _ "a # as'"] exI [of _ ok]) auto
qed

section \<open>The operations over any allocator\<close>

context allocator
begin

lemma vmm_add_rep:
  assumes "inv (vheap s)" and "vma_rep ptrs s head as" and "st < en"
  shows "\<exists>v head' s' as'. krust_vmm_add malloc head st en fl s = Some (v, head', s') \<and>
    inv (vheap s') \<and> vma_rep ptrs s' head' as' \<and>
    ptrs (vheap s') - set as' = ptrs (vheap s) - set as \<and>
    regions (vmas s') as' =
      (if v = 0 then regions (vmas s) as else vinsert (st, en, fl) (regions (vmas s) as)) \<and>
    (\<forall>a \<in> ptrs (vheap s) - set as. vmas s' a = vmas s a)"
proof -
  have rep: "vseg (vmas s) head as 0" "distinct as" "set as \<subseteq> ptrs (vheap s)"
    using assms(2) by (auto simp: vma_rep_def)
  show ?thesis
    using assms(1)
  proof (cases rule: malloc_cases [where n = VMA_SIZE])
    case (null h)
    then have "krust_vmm_add malloc head st en fl s = Some (0, head, s\<lparr>vheap := h\<rparr>)"
      using assms(3) by (auto simp: krust_vmm_add_def)
    with null rep show ?thesis
      by (intro exI [of _ 0] exI [of _ head] exI [of _ "s\<lparr>vheap := h\<rparr>"] exI [of _ as])
        (simp add: vma_rep_def)
  next
    case (block v h)
    have v: "v \<notin> set as" using block(4) rep(3) by auto
    define m where "m = (vmas s)(v := \<lparr>vm_start = st, vm_end = en, vm_flags = fl, vm_next = 0\<rparr>)"
    have seg: "vseg m head as 0" using rep(1) v by (simp add: m_def)
    from add_walk [of m head "[]" head as st] seg obtain us vs q where
      w: "as = us @ vs" "vseg m head us q" "vseg m q vs 0"
        "add_loop m st 0 head = Some (prev_of us, q)"
        "\<forall>u \<in> set us. vm_start (m u) < st" "vs \<noteq> [] \<longrightarrow> \<not> vm_start (m (hd vs)) < st"
      by (auto simp: prev_of_def)
    let ?m' = "link_in m us v q" and ?head = "if us = [] then v else head"
    have lus: "last us \<noteq> v" if "us \<noteq> []" using that v w(1) by (metis Un_iff last_in_set set_append)
    have "prev_of us = 0 \<longleftrightarrow> us = []" using prev_of_null [OF w(2)] .
    moreover have "head = 0 \<Longrightarrow> us = [] \<and> q = 0" using rep(1) vseg_null w(1,2) by fastforce
    moreover have "us = [] \<Longrightarrow> q = head" using w(2) by simp
    ultimately have add: "krust_vmm_add malloc head st en fl s = Some (v, ?head, s\<lparr>vheap := h, vmas := ?m'\<rparr>)"
      using block(1,3) assms(3) w(4) lus
      by (auto simp: krust_vmm_add_def m_def [symmetric] link_in_def prev_of_def Let_def not_le
          simp del: fun_upd_apply) (auto simp: m_def)
    have seg': "vseg ?m' ?head (us @ v # vs) 0"
      using vseg_link_in [OF w(2,3)] v block(3) rep(2) w(1) by simp
    have rv: "region_of (m v) = (st, en, fl)" by (simp add: m_def region_of_def)
    have "regions m us = regions (vmas s) us" "regions m vs = regions (vmas s) vs"
      using v w(1) by (auto simp: m_def)
    moreover have "vinsert (st, en, fl) (regions m us @ regions m vs) =
        regions m us @ (st, en, fl) # regions m vs"
      using w(5,6) by (intro vinsert_split) (auto simp: region_of_def hd_map)
    ultimately have regs: "regions ?m' (us @ v # vs) = vinsert (st, en, fl) (regions (vmas s) as)"
      unfolding regions_link_in w(1) map_append list.map by (simp only: rv)
    have "?m' a = vmas s a" if "a \<in> ptrs (vheap s) - set as" for a
      using that block(4) w(1) last_in_set [of us] by (auto simp: link_in_def m_def)
    then show ?thesis
      using add seg' regs block rep v w(1)
      by (intro exI [of _ v] exI [of _ ?head] exI [of _ "s\<lparr>vheap := h, vmas := ?m'\<rparr>"]
          exI [of _ "us @ v # vs"]) (auto simp: vma_rep_def)
  qed
qed

lemma remove_split:
  assumes "inv (vheap s)" and "vseg (vmas s) head (pre @ a # as) 0" and "distinct (pre @ a # as)"
    and "set (pre @ a # as) \<subseteq> ptrs (vheap s)"
    and "vm_start (vmas s a) < st" and "en < vm_end (vmas s a)" and "st < en"
  shows "remove_post malloc ptrs inv st en s pre (a # as)
           (remove_loop malloc mfree st en head (prev_of pre) a c s)"
proof -
  have a: "a \<noteq> 0" using vseg_no_null [OF assms(2)] by auto
  have c: "vm_start (vmas s a) < en \<and> st < vm_end (vmas s a)"
    "\<not> st \<le> vm_start (vmas s a)" using assms(5-7) by auto
  show ?thesis
    using assms(1)
  proof (cases rule: malloc_cases [where n = VMA_SIZE])
    case (null h)
    have "remove_loop malloc mfree st en head (prev_of pre) a c s = Some (c + 1, head, s\<lparr>vheap := h\<rparr>)"
      using a c assms(5,6) null(1) by (subst remove_loop.simps) (simp add: Let_def)
    moreover have "vremove st en False (regions (vmas s) (a # as)) = regions (vmas s) (a # as)"
      using c assms(5,6) by (auto simp: region_of_def)
    ultimately show ?thesis unfolding remove_post_def
      using null assms(2-4)
      by (intro exI [of _ "c + 1"] exI [of _ head] exI [of _ "s\<lparr>vheap := h\<rparr>"]
          exI [of _ "a # as"] exI [of _ False]) (auto simp: vma_rep_def)
  next
    case (block v h)
    have v: "v \<notin> set (pre @ a # as)" using block(4) assms(4) by auto
    define m' where "m' = (vmas s)(v := \<lparr>vm_start = en, vm_end = vm_end (vmas s a),
        vm_flags = vm_flags (vmas s a), vm_next = vm_next (vmas s a)\<rparr>,
      a := (vmas s a)\<lparr>vm_end := st, vm_next := v\<rparr>)"
    have "remove_loop malloc mfree st en head (prev_of pre) a c s =
        Some (c + 1, head, s\<lparr>vmas := m', vheap := h\<rparr>)"
      using a c assms(5,6) block(1,3) v
      by (subst remove_loop.simps) (simp add: Let_def m'_def)
    moreover have "vseg m' head (pre @ a # v # as) 0"
      using assms(2,3) v block(3) by (auto simp: m'_def vseg_append)
    moreover have "regions m' (a # v # as) = vremove st en True (regions (vmas s) (a # as))"
      "regions m' pre = regions (vmas s) pre"
      using c assms(3,5,6) v by (auto simp: region_of_def m'_def)
    ultimately show ?thesis unfolding remove_post_def
      using block assms(3,4) v
      by (intro exI [of _ "c + 1"] exI [of _ head] exI [of _ "s\<lparr>vmas := m', vheap := h\<rparr>"]
          exI [of _ "a # v # as"] exI [of _ True]) (auto simp: vma_rep_def)
  qed
qed

lemma remove_drop:
  assumes "inv (vheap s)" and "vseg (vmas s) head pre a" and "vseg (vmas s) a (a # as) 0"
    and "distinct (pre @ a # as)" and "set (pre @ a # as) \<subseteq> ptrs (vheap s)"
    and "st \<le> vm_start (vmas s a)" and "vm_end (vmas s a) \<le> en"
    and "vm_start (vmas s a) < en" and "st < vm_end (vmas s a)"
    and "\<forall>q \<in> set (regions (vmas s) as). st \<le> fst q"
    and IH: "\<And>head1 s1. inv (vheap s1) \<Longrightarrow> vseg (vmas s1) head1 pre (vm_next (vmas s a)) \<Longrightarrow>
      vseg (vmas s1) (vm_next (vmas s a)) as 0 \<Longrightarrow> set (pre @ as) \<subseteq> ptrs (vheap s1) \<Longrightarrow>
      regions (vmas s1) as = regions (vmas s) as \<Longrightarrow>
      remove_post malloc ptrs inv st en s1 pre as
        (remove_loop malloc mfree st en head1 (prev_of pre) (vm_next (vmas s a)) (c + 1) s1)"
  shows "remove_post malloc ptrs inv st en s pre (a # as)
           (remove_loop malloc mfree st en head (prev_of pre) a c s)"
proof -
  let ?n = "vm_next (vmas s a)"
  define m1 where "m1 = (if pre = [] then vmas s
    else (vmas s)(last pre := (vmas s (last pre))\<lparr>vm_next := ?n\<rparr>))"
  define head1 where "head1 = (if pre = [] then ?n else head)"
  obtain h where h: "mfree a (vheap s) = Some h" "inv h" "ptrs h = ptrs (vheap s) - {a}"
    using assms(1,5) by (auto elim: free_ptr [of "vheap s" a])
  let ?s1 = "s\<lparr>vmas := m1, vheap := h\<rparr>"
  have a: "a \<noteq> 0" using assms(3) by auto
  have pre: "prev_of pre = 0 \<longleftrightarrow> pre = []" using prev_of_null [OF assms(2)] .
  have step: "remove_loop malloc mfree st en head (prev_of pre) a c s =
      remove_loop malloc mfree st en head1 (prev_of pre) ?n (c + 1) ?s1"
    using a h(1) assms(6-9) pre
    by (subst remove_loop.simps) (auto simp: Let_def m1_def head1_def prev_of_def)
  have last: "pre \<noteq> [] \<Longrightarrow> last pre \<notin> set as"
    using assms(4) last_in_set [of pre] by (auto simp del: last_in_set)
  have reg: "regions m1 bs = regions (vmas s) bs" for bs by (auto simp: m1_def)
  have post: "remove_post malloc ptrs inv st en ?s1 pre as
      (remove_loop malloc mfree st en head1 (prev_of pre) ?n (c + 1) ?s1)"
  proof (rule IH)
    show "vseg (vmas ?s1) head1 pre ?n"
      using vseg_relink [OF assms(2)] assms(4) by (auto simp: m1_def head1_def)
    show "vseg (vmas ?s1) ?n as 0" using assms(3) last by (auto simp: m1_def)
    show "set (pre @ as) \<subseteq> ptrs (vheap ?s1)" using assms(4,5) h(3) by auto
  qed (use h reg in auto)
  then obtain cnt head' s' as' ok where r:
    "remove_loop malloc mfree st en head1 (prev_of pre) ?n (c + 1) ?s1 = Some (cnt, head', s')"
    "inv (vheap s')" "vma_rep ptrs s' head' (pre @ as')"
    "ptrs (vheap s') - set (pre @ as') = ptrs (vheap ?s1) - set (pre @ as)"
    "regions (vmas s') pre = regions (vmas ?s1) pre"
    "regions (vmas s') as' = vremove st en ok (regions (vmas ?s1) as)"
    unfolding remove_post_def by blast
  have "vremove st en True (regions (vmas s) (a # as)) = vremove st en ok (regions (vmas s) as)"
    using assms(6-9) vremove_no_split [OF assms(10), of en ok] by (auto simp: region_of_def)
  with r h(3) assms(5) reg show ?thesis
    unfolding remove_post_def step
    by (intro exI [of _ cnt] exI [of _ head'] exI [of _ s'] exI [of _ as'] exI [of _ True]) auto
qed

lemma remove_loop_rep:
  assumes "inv (vheap s)" and "vseg (vmas s) head pre cur" and "vseg (vmas s) cur as 0"
    and "distinct (pre @ as)" and "set (pre @ as) \<subseteq> ptrs (vheap s)"
    and "regions_ok (regions (vmas s) as)" and "st < en"
  shows "remove_post malloc ptrs inv st en s pre as
           (remove_loop malloc mfree st en head (prev_of pre) cur c s)"
  using assms
proof (induction as arbitrary: pre cur head c s)
  case Nil
  then show ?case
    by (subst remove_loop.simps) (auto simp: remove_post_def vma_rep_def intro!: exI [of _ True])
next
  case (Cons a as)
  let ?v = "vmas s a" and ?n = "vm_next (vmas s a)"
  have cur: "cur = a" "a \<noteq> 0" "vseg (vmas s) ?n as 0" using Cons.prems(3) by auto
  have ok: "regions_ok (regions (vmas s) as)" "vm_start ?v < vm_end ?v"
    and low: "\<forall>q \<in> set (regions (vmas s) as). vm_end ?v \<le> fst q"
    using Cons.prems(6) by (auto simp: region_of_def)
  have seg: "vseg (vmas s) head (pre @ [a]) ?n" using Cons.prems(2) cur by (auto simp: vseg_append)
  consider (mid) "vm_start ?v < st" "en < vm_end ?v"
    | (inside) "st \<le> vm_start ?v" "vm_end ?v \<le> en" "vm_start ?v < en" "st < vm_end ?v"
    | (trim) "\<not> (vm_start ?v < st \<and> en < vm_end ?v)" "\<not> (st \<le> vm_start ?v \<and> vm_end ?v \<le> en)"
        "vm_start ?v < en" "st < vm_end ?v"
    | (out) "\<not> (vm_start ?v < en \<and> st < vm_end ?v)"
    by blast
  then show ?case
  proof cases
    case mid
    then show ?thesis
      using remove_split [OF Cons.prems(1) _ Cons.prems(4,5) mid Cons.prems(7)] Cons.prems(2,3) cur
      by (auto simp: vseg_append)
  next
    case inside
    have "\<forall>q \<in> set (regions (vmas s) as). st \<le> fst q" using low less_imp_le [OF inside(4)] by (meson order_trans)
    then show ?thesis unfolding cur(1)
    proof (intro remove_drop [OF Cons.prems(1)])
      fix head1 :: usize and s1 :: "'h vmm"
      assume s1: "inv (vheap s1)" "vseg (vmas s1) head1 pre ?n" "vseg (vmas s1) ?n as 0"
        "set (pre @ as) \<subseteq> ptrs (vheap s1)" "regions (vmas s1) as = regions (vmas s) as"
      have "distinct (pre @ as)" "regions_ok (regions (vmas s1) as)"
        using Cons.prems(4) ok(1) by (auto simp only: s1(5)) auto
      with s1 Cons.prems(7) show "remove_post malloc ptrs inv st en s1 pre as
          (remove_loop malloc mfree st en head1 (prev_of pre) ?n (c + 1) s1)"
        by (intro Cons.IH)
    qed (use Cons.prems cur inside in auto)
  next
    case trim
    define c1 where "c1 = (if vm_start ?v < st then ?v\<lparr>vm_end := st\<rparr>
      else if en < vm_end ?v then ?v\<lparr>vm_start := en\<rparr> else ?v)"
    define m1 where "m1 = (vmas s)(a := c1)"
    have "vm_next c1 = ?n" by (simp add: c1_def)
    moreover have nin: "a \<notin> set pre" "a \<notin> set as" using Cons.prems(4) by auto
    ultimately have m1: "vseg m1 head (pre @ [a]) ?n" "vseg m1 ?n as 0"
      "regions m1 as = regions (vmas s) as" "regions m1 pre = regions (vmas s) pre" "m1 a = c1"
      using Cons.prems(2) cur by (auto simp: m1_def vseg_append)
    define c' where "c' = (if vm_start ?v < st \<or> en < vm_end ?v then c + 1 else c)"
    have step: "remove_loop malloc mfree st en head (prev_of pre) a c s =
        remove_loop malloc mfree st en head (prev_of (pre @ [a])) ?n c' (s\<lparr>vmas := m1\<rparr>)"
      using cur(2) trim by (subst remove_loop.simps) (auto simp: Let_def c1_def c'_def m1_def)
    have "regions_ok (regions m1 as)" unfolding m1(3) by (rule ok(1))
    then have "remove_post malloc ptrs inv st en (s\<lparr>vmas := m1\<rparr>) (pre @ [a]) as
        (remove_loop malloc mfree st en head (prev_of (pre @ [a])) ?n c' (s\<lparr>vmas := m1\<rparr>))"
      using Cons.prems m1(1,2) by (intro Cons.IH) auto
    then show ?thesis unfolding cur(1) step
      by (rule remove_post_keep) (use m1(3-5) trim in \<open>auto simp: region_of_def c1_def\<close>)
  next
    case out
    have step: "remove_loop malloc mfree st en head (prev_of pre) a c s =
        remove_loop malloc mfree st en head (prev_of (pre @ [a])) ?n c s"
      using cur(2) out by (subst remove_loop.simps) (auto simp: Let_def)
    have "remove_post malloc ptrs inv st en s (pre @ [a]) as
        (remove_loop malloc mfree st en head (prev_of (pre @ [a])) ?n c s)"
      using Cons.prems cur seg ok by (intro Cons.IH) auto
    then show ?thesis unfolding cur(1) step
      using out by (intro remove_post_keep) (auto simp: region_of_def)
  qed
qed

lemma free_all_rep:
  assumes "inv (vheap s)" and "vma_rep ptrs s head as"
  shows "\<exists>s'. krust_vmm_free_all mfree head s = Some (0, s') \<and> inv (vheap s') \<and>
           ptrs (vheap s') = ptrs (vheap s) - set as"
proof -
  have "vseg (vmas s) head as 0" "distinct as" "set as \<subseteq> ptrs (vheap s)"
    using assms(2) by (auto simp: vma_rep_def)
  with assms(1) have "\<exists>s'. free_all_loop mfree head s = Some s' \<and> inv (vheap s') \<and>
           ptrs (vheap s') = ptrs (vheap s) - set as"
  proof (induction as arbitrary: head s)
    case Nil
    then show ?case by (subst free_all_loop.simps) simp
  next
    case (Cons a as)
    obtain h where h: "mfree a (vheap s) = Some h" "inv h" "ptrs h = ptrs (vheap s) - {a}"
      using Cons.prems by (auto elim: free_ptr [of "vheap s" a])
    have "\<exists>s'. free_all_loop mfree (vm_next (vmas s a)) (s\<lparr>vheap := h\<rparr>) = Some s' \<and> inv (vheap s') \<and>
        ptrs (vheap s') = ptrs (vheap (s\<lparr>vheap := h\<rparr>)) - set as"
      using Cons.prems h by (intro Cons.IH) auto
    with Cons.prems h show ?case by (subst free_all_loop.simps) auto
  qed
  then show ?thesis by (auto simp: krust_vmm_free_all_def)
qed

end


section \<open>The lists of the kernel\<close>

definition vma_list_ok :: "kheap vmm \<Rightarrow> usize \<Rightarrow> usize list \<Rightarrow> bool" where
  "vma_list_ok s head as \<longleftrightarrow>
     heap_inv (vheap s) \<and> vma_rep (\<lambda>h. fst ` heap_live h) s head as \<and> regions_ok (regions (vmas s) as)"

definition vheap_others :: "kheap vmm \<Rightarrow> usize list \<Rightarrow> usize set" where
  "vheap_others s as = fst ` heap_live (vheap s) - set as"

lemma kernel_ptrs: "kernel_heap.ptrs = (\<lambda>h. fst ` heap_live h)"
  by (rule ext) (simp add: kernel_heap.ptrs_def)

lemma vremove_refused:
  assumes "regions_ok L" and "s < e"
  shows "vremove s e False L = L \<or> vremove s e False L = vremove s e True L"
  using assms
proof (induction L)
  case (Cons r L)
  obtain a b f where r: "r = (a, b, f)" by (cases r)
  have low: "\<forall>q \<in> set L. b \<le> fst q" and IH: "vremove s e False L = L \<or> vremove s e False L = vremove s e True L"
    using Cons r by auto
  show ?case
  proof (cases "s < b")
    case True
    then have "\<forall>q \<in> set L. s \<le> fst q" using low by force
    from vremove_no_split [OF this, of e False] r show ?thesis by auto
  next
    case False
    with r IH show ?thesis by auto
  qed
qed simp

lemma vmm_find_region:
  assumes "vseg m head as 0"
  shows "\<exists>v. krust_vmm_find m head x = Some v \<and>
    region_at (regions m as) x = (if v = 0 then None else Some (vm_flags (m v)))"
proof -
  have "region_at (regions m as) x =
      map_option (\<lambda>a. vm_flags (m a)) (List.find (\<lambda>a. vm_start (m a) \<le> x \<and> x < vm_end (m a)) as)"
    by (induction as) (auto simp: region_of_def)
  moreover have "List.find (\<lambda>a. vm_start (m a) \<le> x \<and> x < vm_end (m a)) as \<noteq> Some 0"
    using vseg_no_null [OF assms] find_mem [of _ as 0] by blast
  ultimately show ?thesis using vmm_find_walk [OF assms, of x] by (auto split: option.splits)
qed

section \<open>Properties\<close>

text \<open>
  C5. Unmapping a range: \<open>krust_vmm_remove\<close> returns on every well-formed list, keeps it well-formed,
  and afterwards no address of the range is in a region while every other address is in a region with
  the flags it had; the one exception is a refused heap block when a region has to be cut in two, and
  then no region changes. No heap block outside the list is gained or lost.
\<close>

theorem vmm_remove_correct:
  assumes "vma_list_ok s head as" and "st < en"
  shows "\<exists>cnt head' s' as'. krust_vmm_remove krust_malloc krust_free head st en s = Some (cnt, head', s') \<and>
    vma_list_ok s' head' as' \<and> vheap_others s' as' = vheap_others s as \<and>
    ((\<forall>x. region_at (regions (vmas s') as') x =
        (if st \<le> x \<and> x < en then None else region_at (regions (vmas s) as) x)) \<or>
     (\<exists>h. krust_malloc VMA_SIZE (vheap s) = Some (0, h)) \<and> regions (vmas s') as' = regions (vmas s) as)"
proof -
  have a: "heap_inv (vheap s)" "vseg (vmas s) head as 0" "distinct as"
    "set as \<subseteq> fst ` heap_live (vheap s)" and ok: "regions_ok (regions (vmas s) as)"
    using assms(1) by (auto simp: vma_list_ok_def vma_rep_def)
  have "remove_post krust_malloc (\<lambda>h. fst ` heap_live h) heap_inv st en s [] as
      (krust_vmm_remove krust_malloc krust_free head st en s)"
    using kernel_heap.remove_loop_rep [of s head "[]" head as st en 0] a ok assms(2)
    by (simp add: krust_vmm_remove_def kernel_ptrs prev_of_def)
  then obtain cnt head' s' as' okf where r0:
    "krust_vmm_remove krust_malloc krust_free head st en s = Some (cnt, head', s')" "heap_inv (vheap s')"
    "vma_rep (\<lambda>h. fst ` heap_live h) s' head' ([] @ as')"
    "fst ` heap_live (vheap s') - set ([] @ as') = fst ` heap_live (vheap s) - set ([] @ as)"
    "regions (vmas s') [] = regions (vmas s) []"
    "regions (vmas s') as' = vremove st en okf (regions (vmas s) as)"
    "\<not> okf \<longrightarrow> (\<exists>h. krust_malloc VMA_SIZE (vheap s) = Some (0, h))"
    by (rule remove_postE)
  note r = r0 [unfolded append_Nil, folded vheap_others_def]
  have "regions_ok (regions (vmas s') as')"
    unfolding r(6) using vremove_correct [OF ok assms(2)] vremove_refused [OF ok assms(2)] ok
    by (cases okf) auto
  then have "vma_list_ok s' head' as'" using r(2,3) by (simp add: vma_list_ok_def)
  with r show ?thesis
    using vremove_correct [OF ok assms(2)] vremove_refused [OF ok assms(2)] by (cases okf) auto
qed

text \<open>A list with one region, in a heap where the first block was handed out.\<close>

lemma one_region:
  obtains s head as where "vma_list_ok s head as" "regions (vmas s) as = [(0x1000, 0x5000, 7)]"
proof -
  obtain p z h where h: "krust_heap_alloc 100 fresh_heap = Some (p, h)" "heap_inv h"
    "heap_live h = {(p, z)}" by (rule fresh_alloc)
  have "p \<noteq> 0" using kernel_heap.live_nonnull [OF h(2)] h(3) by auto
  let ?s = "\<lparr>vmas = (\<lambda>_. \<lparr>vm_start = 0x1000, vm_end = 0x5000, vm_flags = 7, vm_next = 0\<rparr>), vheap = h\<rparr>"
  have r: "regions (vmas ?s) [p] = [(0x1000, 0x5000, 7)]" by (simp add: region_of_def)
  have "vma_list_ok ?s p [p]"
    using h \<open>p \<noteq> 0\<close> by (simp add: vma_list_ok_def vma_rep_def region_of_def)
  then show thesis using r by (rule that)
qed

theorem vmm_remove_correct_witness:
  "\<exists>(s :: kheap vmm) head as r. regions (vmas s) as = [(0x1000, 0x5000, 7)] \<and>
     krust_vmm_remove krust_malloc krust_free head 0x2000 0x3000 s = Some r"
proof -
  obtain s head as where o: "vma_list_ok s head as" "regions (vmas s) as = [(0x1000, 0x5000, 7)]"
    by (rule one_region)
  have "(0x2000 :: u64) < 0x3000" by simp
  from vmm_remove_correct [OF o(1) this]
  obtain r where "krust_vmm_remove krust_malloc krust_free head 0x2000 0x3000 s = Some r" by blast
  with o(2) show ?thesis
    by (intro exI [of _ s] exI [of _ head] exI [of _ as] exI [of _ r] conjI)
qed

text \<open>A heap block for a node: what \<open>krust_vmm_add\<close> returns is what \<open>malloc\<close> gave.\<close>

lemma vmm_add_malloc:
  "krust_vmm_add malloc head st en fl s = Some (v, head', s') \<Longrightarrow> st < en \<Longrightarrow>
     \<exists>h. malloc VMA_SIZE (vheap s) = Some (v, h)"
  by (auto simp: krust_vmm_add_def Let_def split: Option.bind_splits if_splits)

lemma overlaps_region_at:
  assumes "regions_ok L" and "st < en"
  shows "overlaps L st en \<longleftrightarrow> (\<exists>x. st \<le> x \<and> x < en \<and> region_at L x \<noteq> None)"
  using assms(1)
proof (induction L)
  case Nil
  then show ?case by (simp add: overlaps_def)
next
  case (Cons r L)
  obtain a b f where r: "r = (a, b, f)" by (cases r)
  from Cons.prems have ab: "a < b" by (simp add: r)
  have "(a < en \<and> st < b) \<longleftrightarrow> (\<exists>x. st \<le> x \<and> x < en \<and> a \<le> x \<and> x < b)"
  proof
    assume "a < en \<and> st < b"
    with ab assms(2) show "\<exists>x. st \<le> x \<and> x < en \<and> a \<le> x \<and> x < b"
      by (intro exI [of _ "max st a"]) auto
  qed auto
  with Cons show ?case by (auto simp: r split: if_splits)
qed

text \<open>
  C6. Mapping a range: \<open>krust_vmm_has_overlap\<close> says yes exactly for an empty range or one in which
  some address already has a region. For any other range \<open>krust_vmm_add\<close> returns the block \<open>malloc\<close>
  gave for the node, and null only when \<open>malloc\<close> gave null. With a block the range gets its flags
  and every other address keeps what it had; with null no region changes. Either way the list stays
  sorted and disjoint and no other heap block is touched.
\<close>

theorem vmm_add_correct:
  assumes "vma_list_ok s head as"
  shows "krust_vmm_has_overlap (vmas s) head st en =
      Some (en \<le> st \<or> (\<exists>x. st \<le> x \<and> x < en \<and> region_at (regions (vmas s) as) x \<noteq> None)) \<and>
    (krust_vmm_has_overlap (vmas s) head st en = Some False \<longrightarrow>
      (\<exists>v head' s' as' h. krust_vmm_add krust_malloc head st en fl s = Some (v, head', s') \<and>
        krust_malloc VMA_SIZE (vheap s) = Some (v, h) \<and>
        vma_list_ok s' head' as' \<and> vheap_others s' as' = vheap_others s as \<and>
        (\<forall>x. region_at (regions (vmas s') as') x =
           (if v \<noteq> 0 \<and> st \<le> x \<and> x < en then Some fl else region_at (regions (vmas s) as) x))))"
proof (intro conjI impI)
  have a: "heap_inv (vheap s)" "vma_rep (\<lambda>h. fst ` heap_live h) s head as"
    and ok: "regions_ok (regions (vmas s) as)" using assms(1) by (auto simp: vma_list_ok_def)
  then have ov: "krust_vmm_has_overlap (vmas s) head st en =
      Some (en \<le> st \<or> overlaps (regions (vmas s) as) st en)"
    using overlap_walk [of "vmas s" head as st en]
    by (auto simp: krust_vmm_has_overlap_def vma_rep_def not_le)
  have "en \<le> st \<or> overlaps (regions (vmas s) as) st en \<longleftrightarrow>
      en \<le> st \<or> (\<exists>x. st \<le> x \<and> x < en \<and> region_at (regions (vmas s) as) x \<noteq> None)"
  proof (cases "en \<le> st")
    case False
    then show ?thesis using overlaps_region_at [OF ok, of st en] by (simp only: not_le simp_thms)
  qed simp
  with ov show "krust_vmm_has_overlap (vmas s) head st en =
      Some (en \<le> st \<or> (\<exists>x. st \<le> x \<and> x < en \<and> region_at (regions (vmas s) as) x \<noteq> None))"
    by (simp only:)
  assume "krust_vmm_has_overlap (vmas s) head st en = Some False"
  then have lt: "st < en" and no: "\<not> overlaps (regions (vmas s) as) st en"
    unfolding ov by (auto simp: not_le)
  obtain v head' s' as' where r: "krust_vmm_add krust_malloc head st en fl s = Some (v, head', s')"
    "heap_inv (vheap s')" "vma_rep (\<lambda>h. fst ` heap_live h) s' head' as'"
    "vheap_others s' as' = vheap_others s as"
    "regions (vmas s') as' =
      (if v = 0 then regions (vmas s) as else vinsert (st, en, fl) (regions (vmas s) as))"
    using kernel_heap.vmm_add_rep [unfolded kernel_ptrs, OF a lt, of fl, folded vheap_others_def]
    by (elim exE conjE) (rule that, assumption+)
  have "regions_ok (regions (vmas s') as')"
    unfolding r(5) using vinsert_correct [OF ok lt no] ok by simp
  then have "vma_list_ok s' head' as'" using r(2,3) by (simp add: vma_list_ok_def)
  with r(1,4) vmm_add_malloc [OF r(1) lt] vinsert_correct [OF ok lt no] r(5)
  show "\<exists>v head' s' as' h. krust_vmm_add krust_malloc head st en fl s = Some (v, head', s') \<and>
        krust_malloc VMA_SIZE (vheap s) = Some (v, h) \<and>
        vma_list_ok s' head' as' \<and> vheap_others s' as' = vheap_others s as \<and>
        (\<forall>x. region_at (regions (vmas s') as') x =
           (if v \<noteq> 0 \<and> st \<le> x \<and> x < en then Some fl else region_at (regions (vmas s) as) x))"
    by (intro exI [of _ v] exI [of _ head'] exI [of _ s'] exI [of _ as']) auto
qed

text \<open>The first region of an address space whose nodes come from a fresh heap.\<close>

theorem vmm_add_correct_witness:
  "\<exists>v head' s' as'. krust_vmm_add krust_malloc 0 0x6000 0x7000 5
       \<lparr>vmas = (\<lambda>_. \<lparr>vm_start = 0, vm_end = 0, vm_flags = 0, vm_next = 0\<rparr>), vheap = fresh_heap\<rparr> =
       Some (v, head', s') \<and> v \<noteq> 0 \<and>
     region_at (regions (vmas s') as') 0x6800 = Some 5 \<and> region_at (regions (vmas s') as') 0x7000 = None"
proof -
  let ?s = "\<lparr>vmas = (\<lambda>_. \<lparr>vm_start = 0, vm_end = 0, vm_flags = 0, vm_next = 0\<rparr>), vheap = fresh_heap\<rparr>"
  have r: "heap_rep fresh_heap [(HEAP_START, HEAP_SIZE - HDR, True)]"
    unfolding fresh_heap_def by (rule heap_init_rep)
  have ok: "vma_list_ok ?s 0 []"
    using heap_inv_rep [OF r] by (simp add: vma_list_ok_def vma_rep_def)
  have f: "krust_vmm_has_overlap (vmas ?s) 0 0x6000 0x7000 = Some False"
    using overlap_walk [of "vmas ?s" 0 "[]" "0x6000" "0x7000"]
    by (simp add: krust_vmm_has_overlap_def overlaps_def)
  have m: "krust_malloc VMA_SIZE (vheap ?s) = Some (v, h) \<Longrightarrow> v \<noteq> 0" for v h
    using r by (cases rule: heap_alloc_cases [where sz = VMA_SIZE])
      (auto simp: krust_malloc_def VMA_SIZE_def round_request_nat HEAP_SIZE_def HDR_def)
  obtain v head' s' as' h where a: "krust_vmm_add krust_malloc 0 0x6000 0x7000 5 ?s = Some (v, head', s')"
    "krust_malloc VMA_SIZE (vheap ?s) = Some (v, h)"
    "\<forall>x. region_at (regions (vmas s') as') x =
       (if v \<noteq> 0 \<and> 0x6000 \<le> x \<and> x < 0x7000 then Some 5 else region_at (regions (vmas ?s) []) x)"
    using vmm_add_correct [OF ok, of "0x6000" "0x7000" 5, THEN conjunct2, rule_format, OF f]
    by (elim exE conjE) (rule that, assumption+)
  have "region_at (regions (vmas s') as') 0x6800 = Some 5" "region_at (regions (vmas s') as') 0x7000 = None"
    using m [OF a(2)] a(3) by auto
  with a(1) m [OF a(2)] show ?thesis by blast
qed

text \<open>
  Tearing the list down frees every node exactly once and nothing else, and the lookup used by
  the page fault handler finds the region an address is in.
\<close>

lemma vmm_find_and_free_all:
  assumes "vma_list_ok s head as"
  shows "(\<exists>s'. krust_vmm_free_all krust_free head s = Some (0, s') \<and> heap_inv (vheap s') \<and>
           fst ` heap_live (vheap s') = vheap_others s as) \<and>
    (\<exists>v. krust_vmm_find (vmas s) head x = Some v \<and>
       region_at (regions (vmas s) as) x = (if v = 0 then None else Some (vm_flags (vmas s v))))"
proof -
  have a: "heap_inv (vheap s)" "vma_rep (\<lambda>h. fst ` heap_live h) s head as"
    using assms by (auto simp: vma_list_ok_def)
  then have "vseg (vmas s) head as 0" by (simp add: vma_rep_def)
  then show ?thesis
    using kernel_heap.free_all_rep [OF a(1), of head as] a(2) vmm_find_region [of "vmas s" head as x]
    by (simp add: kernel_ptrs vheap_others_def)
qed

end
