(* ===== verification/Pipe.thy ===== *)
theory Pipe
  imports Kernel_Prelude "HOL-Library.Monad_Syntax"
begin

text \<open>
  Pipes (the pipe part of \<open>kernel/src/fs/vfs.rs\<close>): a table of 16 ring buffers of 4096 bytes, found by
  file descriptor. Reading and writing move one byte at a time and, when the ring is empty or full,
  give up the processor up to 201 times in a row before they return short. What the other tasks do
  meanwhile is the argument \<open>yield\<close>, a function on the pipe table and on the rest of the kernel's
  state \<open>'e\<close>; \<open>krust_sched_yield\<close> of the source is reached through it. An index outside the ring
  panics, which is None.
\<close>

section \<open>State and operations\<close>

definition MAX_PIPES :: nat where
  "MAX_PIPES = 16"

definition PIPE_BUF_SIZE :: nat where
  "PIPE_BUF_SIZE = 4096"

definition PIPE_FD_START :: i32 where
  "PIPE_FD_START = 32"

record pipe_buffer =
  pb_buf :: "u8 list"
  pb_head :: u32
  pb_tail :: u32
  read_open :: bool
  write_open :: bool
  pb_used :: bool
  readers :: u32
  writers :: u32
  read_fd :: i32
  write_fd :: i32

record pipe_table =
  pipes :: "pipe_buffer list"
  next_pipe_fd :: i32

definition zero_pipe :: pipe_buffer where
  "zero_pipe = \<lparr>pb_buf = replicate PIPE_BUF_SIZE 0, pb_head = 0, pb_tail = 0, read_open = False,
     write_open = False, pb_used = False, readers = 0, writers = 0, read_fd = 0, write_fd = 0\<rparr>"

text \<open>The part of \<open>krust_vfs_init\<close> that clears the table.\<close>

definition pipes_init :: pipe_table where
  "pipes_init = \<lparr>pipes = replicate MAX_PIPES zero_pipe, next_pipe_fd = PIPE_FD_START\<rparr>"

text \<open>The position of the pipe in the table; None is the null pointer.\<close>

definition pipe_from_fd :: "i32 \<Rightarrow> bool \<Rightarrow> pipe_table \<Rightarrow> nat option" where
  "pipe_from_fd fd is_read t =
     List.find (\<lambda>i. let p = pipes t ! i
                    in pb_used p \<and> (is_read \<and> read_fd p = fd \<or> \<not> is_read \<and> write_fd p = fd))
       [0..<MAX_PIPES]"

definition next_pos :: "u32 \<Rightarrow> u32" where
  "next_pos k = (k + 1) mod of_nat PIPE_BUF_SIZE"

definition pipe_has_data :: "i32 \<Rightarrow> pipe_table \<Rightarrow> bool" where
  "pipe_has_data fd t =
     (case pipe_from_fd fd True t of
        None \<Rightarrow> False
      | Some i \<Rightarrow> pb_head (pipes t ! i) \<noteq> pb_tail (pipes t ! i))"

definition pipe_can_write :: "i32 \<Rightarrow> pipe_table \<Rightarrow> bool" where
  "pipe_can_write fd t =
     (case pipe_from_fd fd False t of
        None \<Rightarrow> False
      | Some i \<Rightarrow> next_pos (pb_head (pipes t ! i)) \<noteq> pb_tail (pipes t ! i))"

definition is_pipe_fd :: "i32 \<Rightarrow> pipe_table \<Rightarrow> bool" where
  "is_pipe_fd fd t \<longleftrightarrow> pipe_from_fd fd True t \<noteq> None \<or> pipe_from_fd fd False t \<noteq> None"

text \<open>\<open>fds\<close> is the address the two descriptors are stored at; they are returned here.\<close>

definition krust_vfs_pipe_create :: "usize \<Rightarrow> pipe_table \<Rightarrow> (i32 \<times> i32) option \<times> pipe_table" where
  "krust_vfs_pipe_create fds t =
     (if fds = 0 then (None, t) else case List.find (\<lambda>i. \<not> pb_used (pipes t ! i)) [0..<MAX_PIPES] of
        None \<Rightarrow> (None, t)
      | Some pi \<Rightarrow>
          let rfd = next_pipe_fd t;
              wfd = rfd + 1;
              p = zero_pipe\<lparr>pb_used := True, read_open := True, write_open := True, read_fd := rfd,
                            write_fd := wfd, readers := 1, writers := 1\<rparr>
          in (Some (rfd, wfd), t\<lparr>pipes := (pipes t)[pi := p], next_pipe_fd := wfd + 1\<rparr>))"

text \<open>One byte into and out of the ring.\<close>

definition pipe_put :: "u8 \<Rightarrow> pipe_buffer \<Rightarrow> pipe_buffer option" where
  "pipe_put b p =
     (if unat (pb_head p) < length (pb_buf p) then
        Some (p\<lparr>pb_buf := (pb_buf p)[unat (pb_head p) := b], pb_head := next_pos (pb_head p)\<rparr>)
      else None)"

definition pipe_get :: "pipe_buffer \<Rightarrow> (u8 \<times> pipe_buffer) option" where
  "pipe_get p =
     (if unat (pb_tail p) < length (pb_buf p) then
        Some (pb_buf p ! unat (pb_tail p), p\<lparr>pb_tail := next_pos (pb_tail p)\<rparr>)
      else None)"

definition set_pipe :: "nat \<Rightarrow> pipe_buffer \<Rightarrow> pipe_table \<Rightarrow> pipe_table" where
  "set_pipe i p t = t\<lparr>pipes := (pipes t)[i := p]\<rparr>"

type_synonym 'e yield = "'e \<times> pipe_table \<Rightarrow> 'e \<times> pipe_table"

text \<open>The reading loop; \<open>out\<close> holds the bytes stored in the caller's buffer so far.\<close>

function read_loop ::
  "'e yield \<Rightarrow> nat \<Rightarrow> nat \<Rightarrow> nat \<Rightarrow> nat \<Rightarrow> u8 list \<Rightarrow> 'e \<times> pipe_table \<Rightarrow> (u8 list \<times> 'e \<times> pipe_table) option" where
  "read_loop yield i sz n retries out s =
     (let p = pipes (snd s) ! i
      in if n < sz then
           if pb_head p \<noteq> pb_tail p then
             case pipe_get p of
               None \<Rightarrow> None
             | Some (b, p') \<Rightarrow>
                 read_loop yield i sz (n + 1) 0 (out @ [b]) (fst s, set_pipe i p' (snd s))
           else if \<not> write_open p then Some (out, s)
           else if retries > 200 then Some (out, s)
           else read_loop yield i sz n (retries + 1) out (yield s)
         else Some (out, s))"
  by pat_completeness auto
termination
  by (relation "measures [\<lambda>(yield, i, sz, n, retries, out, s). sz - n,
                          \<lambda>(yield, i, sz, n, retries, out, s). 201 - retries]") auto

declare read_loop.simps [simp del]

text \<open>The result is the return value and the bytes stored in the buffer.\<close>

definition krust_vfs_pipe_read ::
  "'e yield \<Rightarrow> i32 \<Rightarrow> u32 \<Rightarrow> 'e \<times> pipe_table \<Rightarrow> (i32 \<times> u8 list \<times> 'e \<times> pipe_table) option" where
  "krust_vfs_pipe_read yield fd sz s =
     (case pipe_from_fd fd True (snd s) of
        None \<Rightarrow> Some (- 1, [], s)
      | Some i \<Rightarrow> map_option (\<lambda>(out, s). (of_nat (length out), out, s)) (read_loop yield i (unat sz) 0 0 [] s))"

text \<open>The writing loop takes the bytes that are still to be written.\<close>

function write_loop ::
  "'e yield \<Rightarrow> nat \<Rightarrow> u8 list \<Rightarrow> nat \<Rightarrow> nat \<Rightarrow> 'e \<times> pipe_table \<Rightarrow> (nat \<times> 'e \<times> pipe_table) option" where
  "write_loop yield i data n retries s =
     (let p = pipes (snd s) ! i
      in if n < length data then
           if next_pos (pb_head p) \<noteq> pb_tail p then
             case pipe_put (data ! n) p of
               None \<Rightarrow> None
             | Some p' \<Rightarrow> write_loop yield i data (n + 1) 0 (fst s, set_pipe i p' (snd s))
           else if \<not> read_open p then Some (n, s)
           else if retries > 200 then Some (n, s)
           else write_loop yield i data n (retries + 1) (yield s)
         else Some (n, s))"
  by pat_completeness auto
termination
  by (relation "measures [\<lambda>(yield, i, data, n, retries, s). length data - n,
                          \<lambda>(yield, i, data, n, retries, s). 201 - retries]") auto

declare write_loop.simps [simp del]

definition krust_vfs_pipe_write ::
  "'e yield \<Rightarrow> i32 \<Rightarrow> u8 list \<Rightarrow> 'e \<times> pipe_table \<Rightarrow> (i32 \<times> 'e \<times> pipe_table) option" where
  "krust_vfs_pipe_write yield fd data s =
     (case pipe_from_fd fd False (snd s) of
        None \<Rightarrow> Some (- 1, s)
      | Some i \<Rightarrow> map_option (\<lambda>(n, s). (of_nat n, s)) (write_loop yield i data 0 0 s))"

definition close_ends :: "i32 \<Rightarrow> pipe_buffer \<Rightarrow> pipe_buffer" where
  "close_ends fd p =
     (let p = (if read_fd p = fd then
                 p\<lparr>read_open := False, readers := (if readers p > 0 then readers p - 1 else readers p)\<rparr>
               else p);
          p = (if write_fd p = fd then
                 p\<lparr>write_open := False, writers := (if writers p > 0 then writers p - 1 else writers p)\<rparr>
               else p)
      in if readers p = 0 \<and> writers p = 0 then p\<lparr>pb_used := False\<rparr> else p)"

definition krust_vfs_pipe_close :: "i32 \<Rightarrow> pipe_table \<Rightarrow> pipe_table" where
  "krust_vfs_pipe_close fd t =
     (case List.find (\<lambda>i. pb_used (pipes t ! i) \<and> (read_fd (pipes t ! i) = fd \<or> write_fd (pipes t ! i) = fd))
             [0..<MAX_PIPES] of
        None \<Rightarrow> t
      | Some i \<Rightarrow> set_pipe i (close_ends fd (pipes t ! i)) t)"

section \<open>The ring as a queue\<close>

definition pipe_ok :: "pipe_buffer \<Rightarrow> bool" where
  "pipe_ok p \<longleftrightarrow> length (pb_buf p) = 4096 \<and> unat (pb_head p) < 4096 \<and> unat (pb_tail p) < 4096"

definition pipe_len :: "pipe_buffer \<Rightarrow> nat" where
  "pipe_len p = (unat (pb_head p) + 4096 - unat (pb_tail p)) mod 4096"

definition queue :: "pipe_buffer \<Rightarrow> u8 list" where
  "queue p = map (\<lambda>k. pb_buf p ! ((unat (pb_tail p) + k) mod 4096)) [0..<pipe_len p]"

lemma length_queue [simp]: "length (queue p) = pipe_len p"
  by (simp add: queue_def)

lemma unat_next_pos: "unat k < 4096 \<Longrightarrow> unat (next_pos k) = (unat k + 1) mod 4096"
  by (simp add: next_pos_def PIPE_BUF_SIZE_def unat_mod_distrib unat_plus_one)

lemma empty_iff: "pipe_ok p \<Longrightarrow> pb_head p = pb_tail p \<longleftrightarrow> queue p = []"
proof -
  assume ok: "pipe_ok p"
  have "pipe_len p = 0 \<longleftrightarrow> unat (pb_head p) = unat (pb_tail p)"
    using ok unfolding pipe_len_def pipe_ok_def
    by (cases "unat (pb_tail p) \<le> unat (pb_head p)") (auto simp: mod_if)
  then show ?thesis by (auto simp: queue_def word_unat_eq_iff)
qed

lemma full_iff: "pipe_ok p \<Longrightarrow> next_pos (pb_head p) = pb_tail p \<longleftrightarrow> length (queue p) = 4095"
proof -
  assume ok: "pipe_ok p"
  then have "next_pos (pb_head p) = pb_tail p \<longleftrightarrow> (unat (pb_head p) + 1) mod 4096 = unat (pb_tail p)"
    by (simp add: word_unat_eq_iff unat_next_pos pipe_ok_def)
  also have "\<dots> \<longleftrightarrow> pipe_len p = 4095"
    using ok unfolding pipe_len_def pipe_ok_def
    by (cases "unat (pb_tail p) \<le> unat (pb_head p)") (auto simp: mod_if)
  finally show ?thesis by simp
qed

lemma queue_bound: "pipe_ok p \<Longrightarrow> length (queue p) \<le> 4095"
  unfolding length_queue pipe_len_def by (rule less_Suc_eq_le [THEN iffD1]) simp

text \<open>A first-in first-out queue of bounded size, as the loops use it.\<close>

locale fifo =
  fixes put :: "'b \<Rightarrow> 'p \<Rightarrow> 'p option"
    and get :: "'p \<Rightarrow> ('b \<times> 'p) option"
    and items :: "'p \<Rightarrow> 'b list"
    and okay :: "'p \<Rightarrow> bool"
    and cap :: nat
  assumes put_item: "okay p \<Longrightarrow> length (items p) < cap \<Longrightarrow>
      \<exists>p'. put b p = Some p' \<and> okay p' \<and> items p' = items p @ [b]"
    and get_item: "okay p \<Longrightarrow> items p \<noteq> [] \<Longrightarrow>
      \<exists>p'. get p = Some (hd (items p), p') \<and> okay p' \<and> items p' = tl (items p)"
    and items_cap: "okay p \<Longrightarrow> length (items p) \<le> cap"
begin

lemma put_E:
  assumes "okay p" and "length (items p) \<noteq> cap"
  obtains p' where "put b p = Some p'" "okay p'" "items p' = items p @ [b]"
proof -
  have "length (items p) < cap" using assms items_cap [of p] by simp
  from put_item [OF assms(1) this, of b] show thesis using that by blast
qed

lemma get_E:
  assumes "okay p" and "items p \<noteq> []"
  obtains b p' where "get p = Some (b, p')" "okay p'" "items p = b # items p'"
proof -
  obtain p' where "get p = Some (hd (items p), p')" "okay p'" "items p' = tl (items p)"
    using get_item [OF assms] by blast
  with assms(2) show thesis by (intro that) auto
qed

end

lemma ring_put:
  assumes ok: "pipe_ok p" and room: "length (queue p) < 4095"
  shows "\<exists>p'. pipe_put b p = Some p' \<and> pipe_ok p' \<and> queue p' = queue p @ [b]"
proof -
  let ?h = "unat (pb_head p)" and ?t = "unat (pb_tail p)"
  let ?p = "p\<lparr>pb_buf := (pb_buf p)[?h := b], pb_head := next_pos (pb_head p)\<rparr>"
  have b: "length (pb_buf p) = 4096" "?h < 4096" "?t < 4096" using ok by (auto simp: pipe_ok_def)
  have len: "pipe_len ?p = pipe_len p + 1"
    using b room unfolding pipe_len_def length_queue
    by (cases "?t \<le> ?h") (auto simp: unat_next_pos mod_if)
  have h: "(?t + pipe_len p) mod 4096 = ?h"
    using b unfolding pipe_len_def by (cases "?t \<le> ?h") (auto simp: mod_if)
  have ne: "(?t + k) mod 4096 \<noteq> ?h" if "k < pipe_len p" for k
  proof
    assume "(?t + k) mod 4096 = ?h"
    then have "(?t + k) mod 4096 = (?t + pipe_len p) mod 4096" using h by simp
    then have "k mod 4096 = pipe_len p mod 4096" by (simp add: nat_mod_eq_iff)
    moreover have "k < 4096" "pipe_len p < 4096" using that by (auto simp: pipe_len_def intro: less_trans)
    ultimately show False using that by simp
  qed
  have "queue ?p = queue p @ [b]"
    unfolding queue_def len using b h ne [THEN not_sym] by (auto simp: nth_list_update)
  moreover have "pipe_put b p = Some ?p" "pipe_ok ?p"
    using b by (auto simp: pipe_put_def pipe_ok_def unat_next_pos)
  ultimately show ?thesis by blast
qed

lemma ring_get:
  assumes ok: "pipe_ok p" and ne: "queue p \<noteq> []"
  shows "\<exists>p'. pipe_get p = Some (hd (queue p), p') \<and> pipe_ok p' \<and> queue p' = tl (queue p)"
proof -
  let ?h = "unat (pb_head p)" and ?t = "unat (pb_tail p)"
  let ?p = "p\<lparr>pb_tail := next_pos (pb_tail p)\<rparr>"
  have b: "length (pb_buf p) = 4096" "?h < 4096" "?t < 4096" using ok by (auto simp: pipe_ok_def)
  have pos: "0 < pipe_len p" using ne by (auto simp: queue_def)
  have len: "pipe_len ?p = pipe_len p - 1"
    using b pos unfolding pipe_len_def
    by (cases "?t \<le> ?h") (auto simp: unat_next_pos mod_if)
  have split: "[0..<pipe_len p] = 0 # map Suc [0..<pipe_len p - 1]"
    using pos by (simp add: map_Suc_upt upt_conv_Cons)
  have "queue ?p = tl (queue p)"
    unfolding queue_def len split using b by (simp add: unat_next_pos mod_simps)
  moreover have "hd (queue p) = pb_buf p ! ?t" unfolding queue_def split using b by simp
  moreover have "pipe_get p = Some (pb_buf p ! ?t, ?p)" "pipe_ok ?p"
    using b by (auto simp: pipe_get_def pipe_ok_def unat_next_pos)
  ultimately show ?thesis by simp
qed

interpretation ring: fifo pipe_put pipe_get queue pipe_ok 4095
  by unfold_locales (use ring_put ring_get queue_bound in auto)

section \<open>Reading and writing while other tasks run\<close>

definition table_ok :: "pipe_table \<Rightarrow> bool" where
  "table_ok t \<longleftrightarrow> length (pipes t) = MAX_PIPES \<and> (\<forall>p \<in> set (pipes t). pipe_ok p)"

abbreviation nth_queue :: "nat \<Rightarrow> 'e \<times> pipe_table \<Rightarrow> u8 list" where
  "nth_queue i s \<equiv> queue (pipes (snd s) ! i)"

lemma table_ok_nth: "table_ok t \<Longrightarrow> i < MAX_PIPES \<Longrightarrow> pipe_ok (pipes t ! i)"
  by (simp add: table_ok_def)

lemma set_pipe_ok: "table_ok t \<Longrightarrow> i < MAX_PIPES \<Longrightarrow> pipe_ok p \<Longrightarrow> table_ok (set_pipe i p t)"
  by (auto simp: table_ok_def set_pipe_def dest: set_update_subset_insert [THEN subsetD])

lemma nth_set_pipe: "table_ok t \<Longrightarrow> i < MAX_PIPES \<Longrightarrow> pipes (set_pipe i p t) ! i = p"
  by (simp add: table_ok_def set_pipe_def)

text \<open>What the other tasks may do to the table in the meantime: anything that keeps it well formed.\<close>

locale other_tasks =
  fixes yield :: "'e yield" and i :: nat
  assumes keeps: "i < MAX_PIPES \<Longrightarrow> table_ok (snd s) \<Longrightarrow> table_ok (snd (yield s))"

text \<open>
  The other tasks only read from pipe \<open>i\<close>: \<open>log\<close> is what they have read so far.
\<close>

locale only_readers = other_tasks +
  fixes log :: "'a \<Rightarrow> u8 list"
  assumes conserve: "i < MAX_PIPES \<Longrightarrow> table_ok (snd s) \<Longrightarrow>
    log (fst (yield s)) @ nth_queue i (yield s) = log (fst s) @ nth_queue i s"
begin

lemma write_loop_stream:
  assumes index: "i < MAX_PIPES"
  shows "table_ok (snd s) \<Longrightarrow> n \<le> length data \<Longrightarrow>
   \<exists>n' s'. write_loop yield i data n retries s = Some (n', s') \<and> n \<le> n' \<and> n' \<le> length data \<and>
     table_ok (snd s') \<and>
     log (fst s') @ nth_queue i s' = log (fst s) @ nth_queue i s @ take (n' - n) (drop n data) \<and>
     (n' < length data \<longrightarrow> length (nth_queue i s') = 4095)"
proof (induction y \<equiv> yield j \<equiv> i data n retries s rule: write_loop.induct)
  case (1 data n retries s)
  let ?p = "pipes (snd s) ! i"
  have ok: "pipe_ok ?p" using 1(3) index by (rule table_ok_nth)
  consider (put) "n < length data" "next_pos (pb_head ?p) \<noteq> pb_tail ?p"
    | (wait) "n < length data" "next_pos (pb_head ?p) = pb_tail ?p" "read_open ?p" "\<not> retries > 200"
    | (stop) "n < length data" "next_pos (pb_head ?p) = pb_tail ?p" "\<not> read_open ?p \<or> retries > 200"
    | (full) "n = length data"
    using 1(4) by linarith
  then show ?case
  proof cases
    case put
    then have "length (queue ?p) \<noteq> 4095" using full_iff [OF ok] by simp
    then obtain p' where p': "pipe_put (data ! n) ?p = Some p'" "pipe_ok p'" "queue p' = queue ?p @ [data ! n]"
      by (rule ring.put_E [OF ok])
    let ?s = "(fst s, set_pipe i p' (snd s))"
    have s: "table_ok (snd ?s)" "nth_queue i ?s = queue ?p @ [data ! n]"
      using 1(3) index p'(2,3) by (simp_all add: set_pipe_ok nth_set_pipe)
    have w: "write_loop yield i data n retries s = write_loop yield i data (n + 1) 0 ?s"
      using put p'(1) by (subst write_loop.simps) (simp add: Let_def)
    have d: "drop n data = data ! n # drop (n + 1) data" using put by (simp add: Cons_nth_drop_Suc)
    obtain n' s' where r: "write_loop yield i data (n + 1) 0 ?s = Some (n', s')" "n + 1 \<le> n'"
      "n' \<le> length data" "table_ok (snd s')"
      "log (fst s') @ nth_queue i s' = log (fst s) @ nth_queue i ?s @ take (n' - (n + 1)) (drop (n + 1) data)"
      "n' < length data \<longrightarrow> length (nth_queue i s') = 4095"
      using 1(1) [OF refl put p'(1) s(1)] put by auto
    have "take (n' - n) (drop n data) = data ! n # take (n' - (n + 1)) (drop (n + 1) data)"
      unfolding d using r(2) by (simp add: take_Cons')
    then show ?thesis using r s(2) unfolding w by (intro exI [of _ n'] exI [of _ s']) simp
  next
    case wait
    have w: "write_loop yield i data n retries s = write_loop yield i data n (retries + 1) (yield s)"
      using wait by (subst write_loop.simps) (simp add: Let_def)
    show ?thesis using 1(2) [OF refl _ _ _ _ keeps [OF index]] wait 1(3,4) conserve [OF index 1(3)] unfolding w by auto
  next
    case stop
    then have "write_loop yield i data n retries s = Some (n, s)"
      by (subst write_loop.simps) (auto simp: Let_def)
    with stop 1(3) full_iff [OF ok] show ?thesis by simp
  next
    case full
    then have "write_loop yield i data n retries s = Some (n, s)" by (subst write_loop.simps) (simp add: Let_def)
    with full 1(3) show ?thesis by simp
  qed
qed

end

text \<open>
  The other tasks only write to pipe \<open>i\<close>: \<open>log\<close> is what they have written so far.
\<close>

locale only_writers = other_tasks +
  fixes log :: "'a \<Rightarrow> u8 list"
  assumes extend: "i < MAX_PIPES \<Longrightarrow> table_ok (snd s) \<Longrightarrow>
    \<exists>ws. log (fst (yield s)) = log (fst s) @ ws \<and> nth_queue i (yield s) = nth_queue i s @ ws"
begin

lemma read_loop_stream:
  assumes index: "i < MAX_PIPES"
  shows "table_ok (snd s) \<Longrightarrow> n \<le> sz \<Longrightarrow> length out = n \<Longrightarrow>
   \<exists>bs ws s'. read_loop yield i sz n retries out s = Some (out @ bs, s') \<and> n + length bs \<le> sz \<and>
     table_ok (snd s') \<and> log (fst s') = log (fst s) @ ws \<and>
     bs @ nth_queue i s' = nth_queue i s @ ws \<and> (n + length bs < sz \<longrightarrow> nth_queue i s' = [])"
proof (induction y \<equiv> yield j \<equiv> i sz n retries out s rule: read_loop.induct)
  case (1 sz n retries out s)
  let ?p = "pipes (snd s) ! i"
  have ok: "pipe_ok ?p" using 1(3) index by (rule table_ok_nth)
  consider (get) "n < sz" "pb_head ?p \<noteq> pb_tail ?p"
    | (wait) "n < sz" "pb_head ?p = pb_tail ?p" "write_open ?p" "\<not> retries > 200"
    | (stop) "n < sz" "pb_head ?p = pb_tail ?p" "\<not> write_open ?p \<or> retries > 200"
    | (full) "n = sz"
    using 1(4) by linarith
  then show ?case
  proof cases
    case get
    then have "queue ?p \<noteq> []" using empty_iff [OF ok] by simp
    then obtain b p' where p': "pipe_get ?p = Some (b, p')" "pipe_ok p'" "queue ?p = b # queue p'"
      by (rule ring.get_E [OF ok])
    let ?s = "(fst s, set_pipe i p' (snd s))"
    have s: "table_ok (snd ?s)" "nth_queue i ?s = queue p'"
      using 1(3) index p'(2) by (simp_all add: set_pipe_ok nth_set_pipe)
    have w: "read_loop yield i sz n retries out s = read_loop yield i sz (n + 1) 0 (out @ [b]) ?s"
      using get p'(1) by (subst read_loop.simps) (simp add: Let_def)
    obtain bs ws s' where "read_loop yield i sz (n + 1) 0 (out @ [b]) ?s = Some ((out @ [b]) @ bs, s')"
      "n + 1 + length bs \<le> sz" "table_ok (snd s')" "log (fst s') = log (fst s) @ ws"
      "bs @ nth_queue i s' = nth_queue i ?s @ ws" "n + 1 + length bs < sz \<longrightarrow> nth_queue i s' = []"
      using 1(1) [OF refl get p'(1) refl s(1)] get 1(5) by auto
    then show ?thesis using s(2) p'(3) unfolding w
      by (intro exI [of _ "b # bs"] exI [of _ ws] exI [of _ s']) simp
  next
    case wait
    have w: "read_loop yield i sz n retries out s = read_loop yield i sz n (retries + 1) out (yield s)"
      using wait by (subst read_loop.simps) (simp add: Let_def)
    obtain ws where ws: "log (fst (yield s)) = log (fst s) @ ws" "nth_queue i (yield s) = nth_queue i s @ ws"
      using extend [OF index 1(3)] by blast
    obtain bs vs s' where "read_loop yield i sz n (retries + 1) out (yield s) = Some (out @ bs, s')"
      "n + length bs \<le> sz" "table_ok (snd s')" "log (fst s') = log (fst (yield s)) @ vs"
      "bs @ nth_queue i s' = nth_queue i (yield s) @ vs" "n + length bs < sz \<longrightarrow> nth_queue i s' = []"
      using 1(2) [OF refl _ _ _ _ keeps [OF index]] wait 1(3,4,5) by auto
    then show ?thesis using ws unfolding w
      by (intro exI [of _ bs] exI [of _ "ws @ vs"] exI [of _ s']) simp
  next
    case stop
    then have "read_loop yield i sz n retries out s = Some (out, s)"
      by (subst read_loop.simps) (auto simp: Let_def)
    with stop 1(3) empty_iff [OF ok] show ?thesis by simp
  next
    case full
    then have "read_loop yield i sz n retries out s = Some (out, s)" by (subst read_loop.simps) (simp add: Let_def)
    with full 1(3) show ?thesis by simp
  qed
qed

end

section \<open>A reader and a writer\<close>

text \<open>
  Tasks that run while another one waits: nobody; a reader that takes everything there is, adding it
  to its log; a writer that puts in what fits of its pending bytes, moving them to its log.
\<close>

definition drain :: "nat \<Rightarrow> u8 list yield" where
  "drain i s = (case read_loop id i PIPE_BUF_SIZE 0 0 [] s of
                  Some (out, log, t) \<Rightarrow> (log @ out, t)
                | None \<Rightarrow> s)"

definition feed :: "nat \<Rightarrow> (u8 list \<times> u8 list) yield" where
  "feed i s = (case write_loop id i (fst (fst s)) 0 0 s of
                 Some (n, (pending, log), t) \<Rightarrow> ((drop n pending, log @ take n pending), t)
               | None \<Rightarrow> s)"

interpretation idle_r: only_readers id i "\<lambda>_. []" for i
  by unfold_locales auto

interpretation idle_w: only_writers id i "\<lambda>_. []" for i
  by unfold_locales auto

text \<open>Nobody else runs: the rest of the state stays the same.\<close>

lemma idle_rest:
  "read_loop id i sz n retries out s = Some (out', s') \<Longrightarrow> fst s' = fst s"
  "write_loop id i data m retries s = Some (m', s') \<Longrightarrow> fst s' = fst s"
proof -
  show "read_loop id i sz n retries out s = Some (out', s') \<Longrightarrow> fst s' = fst s"
  proof (induction y \<equiv> "id :: 'a yield" i sz n retries out s rule: read_loop.induct)
    case (1 i sz n retries out s)
    from 1(3) show ?case
      by (subst (asm) read_loop.simps) (use 1(1,2) in \<open>auto simp: Let_def split: if_splits option.splits\<close>)
  qed
  show "write_loop id i data m retries s = Some (m', s') \<Longrightarrow> fst s' = fst s"
  proof (induction y \<equiv> "id :: 'a yield" i data m retries s rule: write_loop.induct)
    case (1 i data n retries s)
    from 1(3) show ?case
      by (subst (asm) write_loop.simps) (use 1(1,2) in \<open>auto simp: Let_def split: if_splits option.splits\<close>)
  qed
qed

text \<open>What reading and writing leave alone.\<close>

definition ends :: "pipe_buffer \<Rightarrow> bool \<times> bool \<times> bool \<times> i32 \<times> i32" where
  "ends p = (read_open p, write_open p, pb_used p, read_fd p, write_fd p)"

lemma ends_put_get [simp]:
  "pipe_put b p = Some p' \<Longrightarrow> ends p' = ends p"
  "pipe_get p = Some (b, p') \<Longrightarrow> ends p' = ends p"
  by (auto simp: pipe_put_def pipe_get_def ends_def split: if_splits)

lemma ends_set_pipe: "ends p = ends (pipes t ! i) \<Longrightarrow> map ends (pipes (set_pipe i p t)) = map ends (pipes t)"
  by (cases "i < length (pipes t)") (auto simp: set_pipe_def map_update intro: nth_equalityI simp: nth_list_update)

lemma idle_ends:
  "read_loop id i sz n retries out s = Some (out', s') \<Longrightarrow> map ends (pipes (snd s')) = map ends (pipes (snd s))"
  "write_loop id i data m retries s = Some (m', s') \<Longrightarrow> map ends (pipes (snd s')) = map ends (pipes (snd s))"
proof -
  show "read_loop id i sz n retries out s = Some (out', s') \<Longrightarrow> map ends (pipes (snd s')) = map ends (pipes (snd s))"
  proof (induction y \<equiv> "id :: 'a yield" i sz n retries out s rule: read_loop.induct)
    case (1 i sz n retries out s)
    from 1(3) show ?case
      by (subst (asm) read_loop.simps) (use 1(1,2) in \<open>auto simp: Let_def ends_set_pipe split: if_splits option.splits\<close>)
  qed
  show "write_loop id i data m retries s = Some (m', s') \<Longrightarrow> map ends (pipes (snd s')) = map ends (pipes (snd s))"
  proof (induction y \<equiv> "id :: 'a yield" i data m retries s rule: write_loop.induct)
    case (1 i data n retries s)
    from 1(3) show ?case
      by (subst (asm) write_loop.simps) (use 1(1,2) in \<open>auto simp: Let_def ends_set_pipe split: if_splits option.splits\<close>)
  qed
qed

lemma ends_nth: "map ends (pipes t') = map ends (pipes t) \<Longrightarrow> i < length (pipes t) \<Longrightarrow> ends (pipes t' ! i) = ends (pipes t ! i)"
  by (metis length_map nth_map)

lemma drain_spec:
  assumes "i < MAX_PIPES" and "table_ok (snd s)"
  obtains t where "drain i s = (fst s @ nth_queue i s, t)" "table_ok t" "queue (pipes t ! i) = []"
    "ends (pipes t ! i) = ends (pipes (snd s) ! i)"
proof -
  obtain bs s' where r: "read_loop id i PIPE_BUF_SIZE 0 0 [] s = Some (bs, s')" "table_ok (snd s')"
    "bs @ nth_queue i s' = nth_queue i s" "length bs < PIPE_BUF_SIZE \<longrightarrow> nth_queue i s' = []"
    using idle_w.read_loop_stream [OF assms, of 0 PIPE_BUF_SIZE "[]" 0] by auto
  have "length (bs @ nth_queue i s') \<le> 4095" unfolding r(3) using queue_bound [OF table_ok_nth [OF assms(2,1)]] .
  then have "nth_queue i s' = []" using r(4) by (simp add: PIPE_BUF_SIZE_def)
  moreover have "fst s' = fst s" using r(1) by (rule idle_rest)
  moreover have "ends (pipes (snd s') ! i) = ends (pipes (snd s) ! i)"
    using idle_ends(1) [OF r(1)] assms by (intro ends_nth) (auto simp: table_ok_def)
  ultimately show thesis using r by (intro that [of "snd s'"]) (auto simp: drain_def split: prod.splits)
qed

lemma feed_spec:
  assumes "i < MAX_PIPES" and "table_ok (snd s)"
  obtains n t where "feed i s = ((drop n (fst (fst s)), snd (fst s) @ take n (fst (fst s))), t)" "table_ok t"
    "queue (pipes t ! i) = nth_queue i s @ take n (fst (fst s))"
    "n < length (fst (fst s)) \<longrightarrow> length (queue (pipes t ! i)) = 4095"
    "ends (pipes t ! i) = ends (pipes (snd s) ! i)"
proof -
  obtain n s' where r: "write_loop id i (fst (fst s)) 0 0 s = Some (n, s')" "table_ok (snd s')"
    "[] @ nth_queue i s' = [] @ nth_queue i s @ take (n - 0) (drop 0 (fst (fst s)))"
    "n < length (fst (fst s)) \<longrightarrow> length (nth_queue i s') = 4095"
    using idle_r.write_loop_stream [OF assms, of 0 "fst (fst s)" 0] by blast
  have "fst s' = fst s" using r(1) by (rule idle_rest)
  moreover have "ends (pipes (snd s') ! i) = ends (pipes (snd s) ! i)"
    using idle_ends(2) [OF r(1)] assms by (intro ends_nth) (auto simp: table_ok_def)
  moreover have "feed i s = ((drop n (fst (fst s)), snd (fst s) @ take n (fst (fst s))), snd s')"
    using r(1) \<open>fst s' = fst s\<close> by (cases s; cases s'; cases "fst s") (auto simp: feed_def)
  ultimately show thesis using r by (intro that [of n "snd s'"]) simp_all
qed

interpretation reader: only_readers "drain i" i id for i
proof
  fix s :: "u8 list \<times> pipe_table"
  assume a: "i < MAX_PIPES" "table_ok (snd s)"
  then obtain t where d: "drain i s = (fst s @ nth_queue i s, t)" "table_ok t" "queue (pipes t ! i) = []"
    by (rule drain_spec)
  then show "table_ok (snd (drain i s))" "id (fst (drain i s)) @ nth_queue i (drain i s) = id (fst s) @ nth_queue i s"
    by simp_all
qed

interpretation writer: only_writers "feed i" i snd for i
proof
  fix s :: "(u8 list \<times> u8 list) \<times> pipe_table"
  assume a: "i < MAX_PIPES" "table_ok (snd s)"
  then obtain n t where "feed i s = ((drop n (fst (fst s)), snd (fst s) @ take n (fst (fst s))), t)" "table_ok t"
    "queue (pipes t ! i) = nth_queue i s @ take n (fst (fst s))"
    by (rule feed_spec)
  then show "table_ok (snd (feed i s))" "\<exists>ws. snd (fst (feed i s)) = snd (fst s) @ ws \<and>
      nth_queue i (feed i s) = nth_queue i s @ ws"
    by simp_all
qed

text \<open>With a reader at the other end everything is written; with a writer, everything asked for is read.\<close>

lemma write_completes:
  "i < MAX_PIPES \<Longrightarrow> table_ok (snd s) \<Longrightarrow> read_open (pipes (snd s) ! i) \<Longrightarrow> n \<le> length data \<Longrightarrow>
   retries = 0 \<or> length (nth_queue i s) \<noteq> 4095 \<Longrightarrow>
   \<exists>s'. write_loop (drain i) i data n retries s = Some (length data, s')"
proof (induction y \<equiv> "drain i" i data n retries s rule: write_loop.induct)
  case (1 i data n retries s)
  let ?p = "pipes (snd s) ! i"
  have ok: "pipe_ok ?p" using 1(4,3) by (rule table_ok_nth)
  show ?case
  proof (cases "n < length data")
    case False
    then show ?thesis using 1(6) by (subst write_loop.simps) (simp add: Let_def)
  next
    case n: True
    show ?thesis
    proof (cases "next_pos (pb_head ?p) = pb_tail ?p")
      case False
      then have "length (queue ?p) \<noteq> 4095" using full_iff [OF ok] by simp
      then obtain p' where p': "pipe_put (data ! n) ?p = Some p'" "pipe_ok p'"
        by (rule ring.put_E [OF ok])
      have "read_open p'" using p'(1) 1(5) by (auto simp: pipe_put_def split: if_splits)
      then have "\<exists>s'. write_loop (drain i) i data (n + 1) 0 (fst s, set_pipe i p' (snd s)) = Some (length data, s')"
        using n 1(3,4) p'(2) by (intro 1(1) [OF refl n False p'(1)]) (simp_all add: set_pipe_ok nth_set_pipe)
      then show ?thesis using n False p'(1) by (subst write_loop.simps) (simp add: Let_def)
    next
      case True
      then have r: "retries = 0" using 1(7) full_iff [OF ok] by simp
      obtain t where t: "drain i s = (fst s @ nth_queue i s, t)" "table_ok t" "queue (pipes t ! i) = []"
        "ends (pipes t ! i) = ends ?p" using 1(3,4) by (rule drain_spec)
      then have "\<exists>s'. write_loop (drain i) i data n (retries + 1) (drain i s) = Some (length data, s')"
        using n True r 1(3,5) by (intro 1(2)) (auto simp: ends_def)
      then show ?thesis using n True r 1(5) by (subst write_loop.simps) (simp add: Let_def)
    qed
  qed
qed

lemma read_completes:
  "i < MAX_PIPES \<Longrightarrow> table_ok (snd s) \<Longrightarrow> write_open (pipes (snd s) ! i) \<Longrightarrow> n \<le> sz \<Longrightarrow>
   retries = 0 \<or> nth_queue i s \<noteq> [] \<or> fst (fst s) = [] \<Longrightarrow>
   \<exists>s'. read_loop (feed i) i sz n retries out s = Some (out @ take (sz - n) (nth_queue i s @ fst (fst s)), s')"
proof (induction y \<equiv> "feed i" i sz n retries out s rule: read_loop.induct)
  case (1 i sz n retries out s)
  let ?p = "pipes (snd s) ! i"
  have ok: "pipe_ok ?p" using 1(4,3) by (rule table_ok_nth)
  consider (finished) "n = sz" | (get) "n < sz" "pb_head ?p \<noteq> pb_tail ?p"
    | (quit) "n < sz" "pb_head ?p = pb_tail ?p" "retries > 200"
    | (wait) "n < sz" "pb_head ?p = pb_tail ?p" "retries \<le> 200" using 1(6) by linarith
  then show ?case
  proof cases
    case finished
    then show ?thesis by (subst read_loop.simps) (simp add: Let_def)
  next
    case get
    then have "queue ?p \<noteq> []" using empty_iff [OF ok] by simp
    then obtain b p' where p': "pipe_get ?p = Some (b, p')" "pipe_ok p'" "queue ?p = b # queue p'"
      by (rule ring.get_E [OF ok])
    let ?s = "(fst s, set_pipe i p' (snd s))"
    have "write_open p'" using p'(1) 1(5) by (auto simp: pipe_get_def split: if_splits)
    then have "\<exists>s'. read_loop (feed i) i sz (n + 1) 0 (out @ [b]) ?s =
        Some ((out @ [b]) @ take (sz - (n + 1)) (nth_queue i ?s @ fst (fst ?s)), s')"
      using get 1(3,4) p'(2) by (intro 1(1) [OF refl get p'(1) refl]) (simp_all add: set_pipe_ok nth_set_pipe)
    moreover have "take (sz - n) (b # xs) = b # take (sz - (n + 1)) xs" for xs
      using get(1) by (simp add: take_Cons')
    ultimately show ?thesis using get p' 1(3,4)
      by (subst read_loop.simps) (simp add: Let_def nth_set_pipe)
  next
    case quit
    then have "nth_queue i s = []" "fst (fst s) = []" using 1(7) empty_iff [OF ok] by auto
    then show ?thesis using quit 1(5) by (subst read_loop.simps) (simp add: Let_def)
  next
    case wait
    then have q: "nth_queue i s = []" using empty_iff [OF ok] by simp
    obtain k t where t: "feed i s = ((drop k (fst (fst s)), snd (fst s) @ take k (fst (fst s))), t)" "table_ok t"
      "queue (pipes t ! i) = nth_queue i s @ take k (fst (fst s))"
      "k < length (fst (fst s)) \<longrightarrow> length (queue (pipes t ! i)) = 4095"
      "ends (pipes t ! i) = ends ?p" using 1(3,4) by (rule feed_spec)
    have "queue (pipes t ! i) \<noteq> [] \<or> drop k (fst (fst s)) = []"
      using t(4) by (cases "k < length (fst (fst s))") (auto simp del: length_queue)
    then have "\<exists>s'. read_loop (feed i) i sz n (retries + 1) out (feed i s) =
        Some (out @ take (sz - n) (nth_queue i (feed i s) @ fst (fst (feed i s))), s')"
      using wait 1(3,5) t by (intro 1(2)) (auto simp: ends_def)
    then show ?thesis using wait 1(5) t(1,3) q by (subst read_loop.simps) (simp add: Let_def)
  qed
qed

section \<open>The table\<close>

text \<open>
  Descriptors in use are below the next one to be given out, and no two ends share one.
\<close>

definition fds_of :: "pipe_buffer \<Rightarrow> i32 set" where
  "fds_of p = (if pb_used p then {read_fd p, write_fd p} else {})"

definition fds_ok :: "pipe_table \<Rightarrow> bool" where
  "fds_ok t \<longleftrightarrow>
     (\<forall>i < MAX_PIPES. \<forall>fd \<in> fds_of (pipes t ! i). unat fd < unat (next_pipe_fd t)) \<and>
     (\<forall>i < MAX_PIPES. pb_used (pipes t ! i) \<longrightarrow> read_fd (pipes t ! i) \<noteq> write_fd (pipes t ! i)) \<and>
     (\<forall>i < MAX_PIPES. \<forall>j < MAX_PIPES. i \<noteq> j \<longrightarrow> fds_of (pipes t ! i) \<inter> fds_of (pipes t ! j) = {})"

definition end_is :: "i32 \<Rightarrow> bool \<Rightarrow> pipe_buffer \<Rightarrow> bool" where
  "end_is fd is_read p \<longleftrightarrow> pb_used p \<and> (if is_read then read_fd p = fd else write_fd p = fd)"

lemma find_unique:
  "i < n \<Longrightarrow> P i \<Longrightarrow> (\<And>j. j < n \<Longrightarrow> P j \<Longrightarrow> j = i) \<Longrightarrow> List.find P [0..<n] = Some i"
  unfolding find_upt_Some by (metis le0 less_irrefl less_trans)

lemma pipe_from_fd_find: "pipe_from_fd fd r t = List.find (\<lambda>i. end_is fd r (pipes t ! i)) [0..<MAX_PIPES]"
  by (cases r) (simp_all add: pipe_from_fd_def end_is_def Let_def)

lemma pipe_from_fd_Some:
  "pipe_from_fd fd r t = Some i \<Longrightarrow> i < MAX_PIPES \<and> end_is fd r (pipes t ! i)"
  unfolding pipe_from_fd_find by (auto dest: find_mem)

lemma end_is_fds: "end_is fd r p \<Longrightarrow> fd \<in> fds_of p"
  by (auto simp: end_is_def fds_of_def split: if_splits)

lemma pipe_from_fd_iff:
  assumes "fds_ok t"
  shows "pipe_from_fd fd r t = Some i \<longleftrightarrow> i < MAX_PIPES \<and> end_is fd r (pipes t ! i)"
proof
  assume a: "i < MAX_PIPES \<and> end_is fd r (pipes t ! i)"
  have "j = i" if "j < MAX_PIPES" "end_is fd r (pipes t ! j)" for j
    using assms a that end_is_fds unfolding fds_ok_def by blast
  then show "pipe_from_fd fd r t = Some i" unfolding pipe_from_fd_find using a by (intro find_unique) auto
qed (rule pipe_from_fd_Some)

lemma close_iff:
  assumes "fds_ok t" and "i < MAX_PIPES" and "fd \<in> fds_of (pipes t ! i)"
  shows "krust_vfs_pipe_close fd t = set_pipe i (close_ends fd (pipes t ! i)) t"
proof -
  have "j = i" if "j < MAX_PIPES" "fd \<in> fds_of (pipes t ! j)" for j
    using assms that unfolding fds_ok_def by blast
  then have "List.find (\<lambda>i. fd \<in> fds_of (pipes t ! i)) [0..<MAX_PIPES] = Some i"
    using assms(2,3) by (intro find_unique)
  moreover have "(\<lambda>i. pb_used (pipes t ! i) \<and> (read_fd (pipes t ! i) = fd \<or> write_fd (pipes t ! i) = fd)) =
      (\<lambda>i. fd \<in> fds_of (pipes t ! i))"
    by (intro ext) (simp add: fds_of_def eq_commute)
  ultimately show ?thesis by (simp add: krust_vfs_pipe_close_def)
qed


lemma create_E:
  assumes "krust_vfs_pipe_create fds t = (Some (r, w), t')"
  obtains i p where "i < MAX_PIPES" "\<not> pb_used (pipes t ! i)" "r = next_pipe_fd t" "w = r + 1"
    "t' = t\<lparr>pipes := (pipes t)[i := p], next_pipe_fd := w + 1\<rparr>" "pipe_ok p" "queue p = []"
    "ends p = (True, True, True, r, w)" "readers p = 1" "writers p = 1"
proof -
  obtain i where i: "List.find (\<lambda>i. \<not> pb_used (pipes t ! i)) [0..<MAX_PIPES] = Some i"
    using assms by (auto simp: krust_vfs_pipe_create_def split: if_splits option.splits)
  let ?p = "zero_pipe\<lparr>pb_used := True, read_open := True, write_open := True, read_fd := r,
                      write_fd := w, readers := 1, writers := 1\<rparr>"
  have t': "r = next_pipe_fd t" "w = r + 1" "t' = t\<lparr>pipes := (pipes t)[i := ?p], next_pipe_fd := w + 1\<rparr>"
    using assms i by (auto simp: krust_vfs_pipe_create_def Let_def split: if_splits)
  show thesis
  proof (rule that [OF _ _ t'])
    show "i < MAX_PIPES" "\<not> pb_used (pipes t ! i)" using find_mem [OF i] by auto
  qed (auto simp: zero_pipe_def pipe_ok_def queue_def pipe_len_def ends_def PIPE_BUF_SIZE_def)
qed

lemma create_fds_ok:
  assumes "fds_ok t" and "length (pipes t) = MAX_PIPES" and "i < MAX_PIPES"
    and "ends p = (ro, wo, True, next_pipe_fd t, next_pipe_fd t + 1)" and "unat (next_pipe_fd t) + 2 < 2 ^ 32"
  shows "fds_ok (t\<lparr>pipes := (pipes t)[i := p], next_pipe_fd := next_pipe_fd t + 1 + 1\<rparr>)"
proof -
  let ?n = "next_pipe_fd t"
  have u1: "unat (?n + 1) = unat ?n + 1" using assms(5) by (intro unat_plus_one) simp
  have "unat (?n + 1 + 1) = unat (?n + 1) + 1" using assms(5) u1 by (intro unat_plus_one) simp
  then have u: "unat (?n + 1) = unat ?n + 1" "unat (?n + 1 + 1) = unat ?n + 2" using u1 by simp_all
  have p: "fds_of p = {?n, ?n + 1}" "read_fd p \<noteq> write_fd p"
    using assms(4) by (auto simp: fds_of_def ends_def)
  have old: "unat fd < unat ?n" if "j < MAX_PIPES" "fd \<in> fds_of (pipes t ! j)" for j fd
    using assms(1) that unfolding fds_ok_def by blast
  then have dis: "fds_of (pipes t ! j) \<inter> {?n, ?n + 1} = {}" if "j < MAX_PIPES" for j
    using that u(1) by fastforce
  have nth: "(pipes t)[i := p] ! j = (if j = i then p else pipes t ! j)" if "j < MAX_PIPES" for j
    using that assms(2) by (simp add: nth_list_update)
  let ?ps = "(pipes t)[i := p]"
  have "unat fd < unat (?n + 1 + 1)" if "j < MAX_PIPES" "fd \<in> fds_of (?ps ! j)" for j fd
    using that(2) old [OF that(1), of fd] p(1) u unfolding nth [OF that(1)] by (cases "j = i") (auto simp del: One_nat_def)
  moreover have "read_fd (?ps ! j) \<noteq> write_fd (?ps ! j)" if "j < MAX_PIPES" "pb_used (?ps ! j)" for j
    using that(2) p(2) assms(1) that(1) unfolding nth [OF that(1)] fds_ok_def by (cases "j = i") simp_all
  moreover have "fds_of (?ps ! j) \<inter> fds_of (?ps ! k) = {}" if "j < MAX_PIPES" "k < MAX_PIPES" "j \<noteq> k" for j k
    using assms(1) dis [of j] dis [of k] that p(1) unfolding nth [OF that(1)] nth [OF that(2)] fds_ok_def
    by (cases "j = i"; cases "k = i") auto
  ultimately show ?thesis unfolding fds_ok_def by simp
qed


lemma create_ok:
  assumes "table_ok t" and "fds_ok t" and "unat (next_pipe_fd t) + 2 < 2 ^ 32"
    and "krust_vfs_pipe_create fds t = (Some (r, w), t')"
  obtains i where "i < MAX_PIPES" "\<not> pb_used (pipes t ! i)" "table_ok t'" "fds_ok t'"
    "queue (pipes t' ! i) = []" "ends (pipes t' ! i) = (True, True, True, r, w)"
    "readers (pipes t' ! i) = 1" "writers (pipes t' ! i) = 1"
    "\<forall>j < MAX_PIPES. j \<noteq> i \<longrightarrow> pipes t' ! j = pipes t ! j"
proof -
  obtain i p where i: "i < MAX_PIPES" "\<not> pb_used (pipes t ! i)" and rw: "r = next_pipe_fd t" "w = r + 1"
    and t': "t' = t\<lparr>pipes := (pipes t)[i := p], next_pipe_fd := w + 1\<rparr>"
    and p: "pipe_ok p" "queue p = []" "ends p = (True, True, True, r, w)" "readers p = 1" "writers p = 1"
    using assms(4) by (rule create_E)
  have len: "length (pipes t) = MAX_PIPES" using assms(1) by (simp add: table_ok_def)
  then have nth: "pipes t' ! j = (if j = i then p else pipes t ! j)" if "j < MAX_PIPES" for j
    using that by (simp add: t' nth_list_update)
  have "table_ok t'" using set_pipe_ok [OF assms(1) i(1) p(1)] by (simp add: t' table_ok_def set_pipe_def)
  moreover have "fds_ok t'"
    unfolding t' rw using assms(2) len i(1) p(3) [unfolded rw] assms(3) by (rule create_fds_ok)
  ultimately show thesis using i p nth by (intro that [of i]) simp_all
qed

lemma set_pipe_fds_ok:
  assumes "fds_ok t" and "table_ok t" and "i < MAX_PIPES" and "fds_of p \<subseteq> fds_of (pipes t ! i)"
    and "pb_used p \<longrightarrow> read_fd p \<noteq> write_fd p"
  shows "fds_ok (set_pipe i p t)"
proof -
  have nth: "pipes (set_pipe i p t) ! j = (if j = i then p else pipes t ! j)" if "j < MAX_PIPES" for j
    using that assms(2) by (simp add: set_pipe_def table_ok_def nth_list_update)
  have sub: "fds_of (pipes (set_pipe i p t) ! j) \<subseteq> fds_of (pipes t ! j)" if "j < MAX_PIPES" for j
    unfolding nth [OF that] using assms(4) by simp
  have nx: "next_pipe_fd (set_pipe i p t) = next_pipe_fd t" by (simp add: set_pipe_def)
  show ?thesis unfolding fds_ok_def nx
  proof (intro conjI allI impI ballI)
    fix j fd assume "j < MAX_PIPES" "fd \<in> fds_of (pipes (set_pipe i p t) ! j)"
    then show "unat fd < unat (next_pipe_fd t)" using assms(1) sub unfolding fds_ok_def by blast
  next
    fix j assume "j < MAX_PIPES" "pb_used (pipes (set_pipe i p t) ! j)"
    then show "read_fd (pipes (set_pipe i p t) ! j) \<noteq> write_fd (pipes (set_pipe i p t) ! j)"
      using assms(1,5) nth [of j] by (cases "j = i") (simp_all add: fds_ok_def)
  next
    fix j k assume "j < MAX_PIPES" "k < MAX_PIPES" "j \<noteq> k"
    then show "fds_of (pipes (set_pipe i p t) ! j) \<inter> fds_of (pipes (set_pipe i p t) ! k) = {}"
      using assms(1) sub [of j] sub [of k] unfolding fds_ok_def by blast
  qed
qed

lemma init_ok: "table_ok pipes_init" "fds_ok pipes_init"
  by (simp_all add: table_ok_def fds_ok_def pipes_init_def fds_of_def zero_pipe_def pipe_ok_def
      PIPE_BUF_SIZE_def MAX_PIPES_def)

lemma first_pipe:
  obtains t i where "krust_vfs_pipe_create 1 pipes_init = (Some (32, 33), t)" "table_ok t" "fds_ok t"
    "pipe_from_fd 32 True t = Some i" "pipe_from_fd 33 False t = Some i" "queue (pipes t ! i) = []"
    "read_open (pipes t ! i)" "write_open (pipes t ! i)"
proof -
  have "List.find (\<lambda>i. \<not> pb_used (pipes pipes_init ! i)) [0..<MAX_PIPES] = Some 0"
    unfolding find_upt_Some by (simp add: pipes_init_def zero_pipe_def MAX_PIPES_def)
  then obtain t where c: "krust_vfs_pipe_create 1 pipes_init = (Some (32, 33), t)"
    by (simp add: krust_vfs_pipe_create_def Let_def) (simp add: pipes_init_def PIPE_FD_START_def)
  have "unat (next_pipe_fd pipes_init) + 2 < 2 ^ 32" by (simp add: pipes_init_def PIPE_FD_START_def)
  then obtain i where "i < MAX_PIPES" "table_ok t" "fds_ok t" "queue (pipes t ! i) = []"
    "ends (pipes t ! i) = (True, True, True, 32, 33)"
    using create_ok [OF init_ok _ c] by metis
  then show thesis using c by (intro that [of t i]) (simp_all add: pipe_from_fd_iff end_is_def ends_def)
qed

section \<open>Properties\<close>

text \<open>
  Nothing written to a pipe is lost, repeated or reordered: while a task writes, other tasks may
  run whenever it waits and read from the pipe as they like. The call returns; the bytes they have
  read followed by those in the pipe are the earlier ones followed by exactly the prefix of the data
  whose length is reported, and the call stops short only when the pipe is full.
\<close>

lemma pipe_write_stream:
  assumes "table_ok (snd s)" and "only_readers yield i log" and "pipe_from_fd fd False (snd s) = Some i"
  shows "\<exists>n s'. krust_vfs_pipe_write yield fd data s = Some (of_nat n, s') \<and> n \<le> length data \<and>
    table_ok (snd s') \<and> log (fst s') @ nth_queue i s' = log (fst s) @ nth_queue i s @ take n data \<and>
    (n < length data \<longrightarrow> length (nth_queue i s') = 4095)"
proof -
  have "i < MAX_PIPES" using pipe_from_fd_Some [OF assms(3)] by simp
  from only_readers.write_loop_stream [OF assms(2) this assms(1), of 0 data 0]
  show ?thesis using assms(3) by (fastforce simp: krust_vfs_pipe_write_def)
qed

text \<open>
  Reading takes bytes in the order they were written: while a task reads, other tasks may run
  whenever it waits and write to the pipe as they like. The call returns; the bytes read followed by
  those left in the pipe are the earlier ones followed by what the others wrote meanwhile, and the
  call stops short only when the pipe is empty.
\<close>

lemma pipe_read_stream:
  assumes "table_ok (snd s)" and "only_writers yield i log" and "pipe_from_fd fd True (snd s) = Some i"
  shows "\<exists>bs ws s'. krust_vfs_pipe_read yield fd sz s = Some (of_nat (length bs), bs, s') \<and>
    length bs \<le> unat sz \<and> table_ok (snd s') \<and> log (fst s') = log (fst s) @ ws \<and>
    bs @ nth_queue i s' = nth_queue i s @ ws \<and> (length bs < unat sz \<longrightarrow> nth_queue i s' = [])"
proof -
  have "i < MAX_PIPES" using pipe_from_fd_Some [OF assms(3)] by simp
  from only_writers.read_loop_stream [OF assms(2) this assms(1), of 0 "unat sz" "[]" 0]
  show ?thesis using assms(3) by (fastforce simp: krust_vfs_pipe_read_def)
qed

text \<open>
  C18. A transfer completes, when the other end works each time the caller yields: with a reader that empties
  the pipe at each yield, any amount of data is written in full, in one call, and arrives; with a writer that
  fills the pipe at each yield, one call reads everything asked for that the writer has.
\<close>

theorem pipe_transfer:
  assumes "table_ok t" and "pipe_from_fd wfd False t = Some i" and "read_open (pipes t ! i)"
    and "pipe_from_fd rfd True t = Some j" and "write_open (pipes t ! j)"
  shows "(\<exists>log' t'. krust_vfs_pipe_write (drain i) wfd data (log, t) = Some (of_nat (length data), log', t') \<and>
      log' @ queue (pipes t' ! i) = log @ queue (pipes t ! i) @ data) \<and>
    (\<exists>s'. krust_vfs_pipe_read (feed j) rfd sz ((pending, sent), t) =
      (let bs = take (unat sz) (queue (pipes t ! j) @ pending) in Some (of_nat (length bs), bs, s')))"
proof
  have i: "i < MAX_PIPES" using pipe_from_fd_Some [OF assms(2)] by simp
  obtain s' where c: "write_loop (drain i) i data 0 0 (log, t) = Some (length data, s')"
    using write_completes [of i "(log, t)" 0 data 0] i assms(1,3) by auto
  then show "\<exists>log' t'. krust_vfs_pipe_write (drain i) wfd data (log, t) = Some (of_nat (length data), log', t') \<and>
      log' @ queue (pipes t' ! i) = log @ queue (pipes t ! i) @ data"
    using reader.write_loop_stream [OF i, of "(log, t)" 0 data 0] assms(1,2)
    by (cases s') (auto simp: krust_vfs_pipe_write_def)
  have j: "j < MAX_PIPES" using pipe_from_fd_Some [OF assms(4)] by simp
  then show "\<exists>s'. krust_vfs_pipe_read (feed j) rfd sz ((pending, sent), t) =
      (let bs = take (unat sz) (queue (pipes t ! j) @ pending) in Some (of_nat (length bs), bs, s'))"
    using read_completes [of j "((pending, sent), t)" 0 "unat sz" 0 "[]"] assms(1,4,5)
    by (auto simp: krust_vfs_pipe_read_def Let_def)
qed

theorem pipe_transfer_witness:
  "\<exists>t i log' t'. krust_vfs_pipe_create 1 pipes_init = (Some (32, 33), t) \<and>
     krust_vfs_pipe_write (drain i) 33 (replicate 5000 1) ([], t) = Some (5000, log', t') \<and>
     log' @ queue (pipes t' ! i) = replicate 5000 1"
proof -
  obtain t i where t: "krust_vfs_pipe_create 1 pipes_init = (Some (32, 33), t)" "table_ok t"
    "pipe_from_fd 32 True t = Some i" "pipe_from_fd 33 False t = Some i" "queue (pipes t ! i) = []"
    "read_open (pipes t ! i)" "write_open (pipes t ! i)"
    by (rule first_pipe)
  show ?thesis
    using pipe_transfer [OF t(2,4,6,3,7), of "replicate 5000 1" "[]" 0 "[]" "[]"] t(1,5)
    by (intro exI [of _ t] exI [of _ i]) simp
qed

text \<open>
  The life of a pipe: creating one takes a free slot and gives it two new descriptors, without
  disturbing the others; the new pipe is empty. When its write end is closed it can still be read, and
  once both ends are closed the slot is free again.
\<close>

lemma pipe_lifecycle:
  assumes "table_ok t" and "fds_ok t" and "unat (next_pipe_fd t) + 2 < 2 ^ 32"
    and "krust_vfs_pipe_create fds t = (Some (r, w), t')"
  shows "table_ok t' \<and> fds_ok t' \<and> (\<exists>i < MAX_PIPES. \<not> pb_used (pipes t ! i) \<and>
    pipe_from_fd r True t' = Some i \<and> pipe_from_fd w False t' = Some i \<and> queue (pipes t' ! i) = [] \<and>
    (\<forall>fd b k. k \<noteq> i \<longrightarrow> pipe_from_fd fd b t' = Some k \<longleftrightarrow> pipe_from_fd fd b t = Some k) \<and>
    pipe_from_fd r True (krust_vfs_pipe_close w t') = Some i \<and>
    \<not> pb_used (pipes (krust_vfs_pipe_close r (krust_vfs_pipe_close w t')) ! i))"
proof -
  obtain i where i: "i < MAX_PIPES" "\<not> pb_used (pipes t ! i)" and ok: "table_ok t'" "fds_ok t'"
    and p: "queue (pipes t' ! i) = []" "ends (pipes t' ! i) = (True, True, True, r, w)"
      "readers (pipes t' ! i) = 1" "writers (pipes t' ! i) = 1"
    and rest: "\<forall>j < MAX_PIPES. j \<noteq> i \<longrightarrow> pipes t' ! j = pipes t ! j"
    using assms by (rule create_ok)
  let ?p = "pipes t' ! i"
  let ?p1 = "?p\<lparr>write_open := False, writers := 0\<rparr>"
  have e: "pb_used ?p" "read_fd ?p = r" "write_fd ?p = w" using p(2) by (simp_all add: ends_def)
  have "read_fd ?p \<noteq> write_fd ?p" using ok(2) i(1) e(1) by (simp add: fds_ok_def)
  then have rw: "r \<noteq> w" using e(2,3) by simp
  have from_fd: "pipe_from_fd r True t' = Some i" "pipe_from_fd w False t' = Some i"
    using i(1) e by (simp_all add: pipe_from_fd_iff [OF ok(2)] end_is_def)
  have other: "pipe_from_fd fd b t' = Some k \<longleftrightarrow> pipe_from_fd fd b t = Some k" if "k \<noteq> i" for fd b k
    unfolding pipe_from_fd_iff [OF ok(2)] pipe_from_fd_iff [OF assms(2)] using rest that by auto
  have c1: "krust_vfs_pipe_close w t' = set_pipe i ?p1 t'"
    using close_iff [OF ok(2) i(1), of w] e rw p(3,4) by (simp add: close_ends_def Let_def fds_of_def)
  have ok1: "fds_ok (set_pipe i ?p1 t')" "table_ok (set_pipe i ?p1 t')"
    using ok i(1) e rw table_ok_nth [OF ok(1) i(1)]
    by (auto intro!: set_pipe_fds_ok set_pipe_ok simp: fds_of_def pipe_ok_def)
  have n1: "pipes (set_pipe i ?p1 t') ! i = ?p1" using ok(1) i(1) by (rule nth_set_pipe)
  have "pipe_from_fd r True (set_pipe i ?p1 t') = Some i"
    unfolding pipe_from_fd_iff [OF ok1(1)] n1 using i(1) e by (simp add: end_is_def)
  moreover have "krust_vfs_pipe_close r (set_pipe i ?p1 t') = set_pipe i (close_ends r ?p1) (set_pipe i ?p1 t')"
    using close_iff [OF ok1(1) i(1), of r] e unfolding n1 by (simp add: fds_of_def)
  moreover have "\<not> pb_used (close_ends r ?p1)" using e rw p(3) by (simp add: close_ends_def Let_def)
  ultimately show ?thesis
    using i ok p(1) from_fd other unfolding c1
    by (intro conjI exI [of _ i]) (simp_all add: nth_set_pipe [OF ok1(2) i(1)])
qed

end
