(* ===== verification/Vnode.thy ===== *)
theory Vnode
  imports Klib Kheap Vma Pipe
begin

unbundle bit_operations_syntax

text \<open>
  The node tree of the virtual file system (\<open>kernel/src/fs/vfs.rs\<close>, with \<open>VNode\<close> from
  \<open>process/scheduler.rs\<close>): a tree of nodes linked by parent, first child and next sibling, each a
  block of the kernel heap. The nodes are kept in a store by address; file contents are blocks of the
  byte memory of \<open>Klib\<close>. Names, link targets and paths are C strings and appear as the list of bytes
  before the NUL, a null path as None. \<open>krust_malloc\<close> and \<open>krust_free\<close> are arguments, as in \<open>Vma\<close>.
  The current task, which the source gets from the scheduler, is part of the state. A result of None
  means that the call does not return.
\<close>

section \<open>State\<close>

record vnode =
  vn_name :: "u8 list"
  vn_type :: u8
  vn_size :: u32
  vn_parent :: usize
  vn_children :: usize
  vn_next :: usize
  vn_data :: usize
  dev_read :: "usize option"
  dev_write :: "usize option"
  link_target :: "u8 list"
  vn_uid :: u16
  vn_gid :: u16
  vn_mode :: u16

record fd_entry =
  fd_node :: usize
  fd_offset :: u32
  fd_flags :: u32
  fd_used :: bool
  fd_refcount :: u32

text \<open>What the file system uses of a task; a null descriptor table is None.\<close>

record task_view =
  t_uid :: u16
  t_gid :: u16
  t_cwd :: "u8 list"
  t_fds :: "fd_entry list option"

record 'h vfs =
  vnodes :: "usize \<Rightarrow> vnode"
  vroot :: usize
  vmem :: mem
  fheap :: 'h
  cur_task :: "task_view option"
  vpipes :: pipe_table

type_synonym path = "u8 list option"

definition NODE_FILE :: u8 where "NODE_FILE = 0"
definition NODE_DIR :: u8 where "NODE_DIR = 1"
definition NODE_DEVICE :: u8 where "NODE_DEVICE = 2"
definition NODE_SYMLINK :: u8 where "NODE_SYMLINK = 3"

text \<open>\<open>size_of::<VNode>()\<close>.\<close>

definition VNODE_SIZE :: u32 where
  "VNODE_SIZE = 384"

section \<open>Nodes and paths\<close>

definition default_mode :: "u8 \<Rightarrow> u16" where
  "default_mode ty =
     (if ty = NODE_FILE then 0x81A4 else if ty = NODE_DIR then 0x41ED
      else if ty = NODE_DEVICE then 0x21B6 else if ty = NODE_SYMLINK then 0xA1FF else 0)"

definition create_node_raw :: "'h malloc \<Rightarrow> u8 list \<Rightarrow> u8 \<Rightarrow> 'h vfs \<Rightarrow> (usize \<times> 'h vfs) option" where
  "create_node_raw malloc name node_type s = do {
     (node, h) \<leftarrow> malloc VNODE_SIZE (fheap s);
     let s = s\<lparr>fheap := h\<rparr>;
     if node = 0 then Some (0, s)
     else
       let (uid, gid) = (case cur_task s of None \<Rightarrow> (0, 0) | Some t \<Rightarrow> (t_uid t, t_gid t));
           n = \<lparr>vn_name = take 63 name, vn_type = node_type, vn_size = 0, vn_parent = 0, vn_children = 0,
                vn_next = 0, vn_data = 0, dev_read = None, dev_write = None, link_target = [],
                vn_uid = uid, vn_gid = gid, vn_mode = default_mode node_type\<rparr>
       in Some (node, s\<lparr>vnodes := (vnodes s)(node := n)\<rparr>)
   }"

definition check_permission :: "usize \<Rightarrow> u16 \<Rightarrow> 'h vfs \<Rightarrow> bool" where
  "check_permission node want s =
     (if node = 0 then False
      else case cur_task s of
             None \<Rightarrow> True
           | Some t \<Rightarrow>
               if t_uid t = 0 then True
               else let n = vnodes s node;
                        bits = (if t_uid t = vn_uid n then drop_bit 6 (vn_mode n) AND 7
                                else if t_gid t = vn_gid n then drop_bit 3 (vn_mode n) AND 7
                                else vn_mode n AND 7)
                    in bits AND want = want)"

partial_function (option) child_loop :: "(usize \<Rightarrow> vnode) \<Rightarrow> usize \<Rightarrow> u8 list \<Rightarrow> usize option" where
  "child_loop m c name =
     (if c = 0 then Some 0
      else if vn_name (m c) = name then Some c
      else child_loop m (vn_next (m c)) name)"

definition find_child :: "(usize \<Rightarrow> vnode) \<Rightarrow> usize \<Rightarrow> u8 list \<Rightarrow> usize option" where
  "find_child m dir name =
     (if dir = 0 then Some 0
      else if name = [46] then Some dir
      else if name = [46, 46] then Some (if vn_parent (m dir) = 0 then dir else vn_parent (m dir))
      else child_loop m (vn_children (m dir)) name)"

definition add_child :: "usize \<Rightarrow> usize \<Rightarrow> (usize \<Rightarrow> vnode) \<Rightarrow> usize \<Rightarrow> vnode" where
  "add_child parent child m =
     (let m = m(child := (m child)\<lparr>vn_next := vn_children (m parent)\<rparr>)
      in m(parent := (m parent)\<lparr>vn_children := child\<rparr>))"

lemma dropWhile_shorter: "xs \<noteq> [] \<Longrightarrow> P (hd xs) \<Longrightarrow> length (dropWhile P xs) < length xs"
  by (cases xs) (auto simp: le_imp_less_Suc length_dropWhile_le)

lemma rest_shorter:
  "dropWhile (\<lambda>c. c = (47 :: u8)) path \<noteq> [] \<Longrightarrow>
   length (dropWhile (\<lambda>c. c \<noteq> 47) (dropWhile (\<lambda>c. c = 47) path)) < length path"
proof -
  let ?p = "dropWhile (\<lambda>c. c = (47 :: u8)) path"
  assume ne: "?p \<noteq> []"
  then have "hd ?p \<noteq> 47" using hd_dropWhile [of "\<lambda>c. c = 47" path] by simp
  then have "length (dropWhile (\<lambda>c. c \<noteq> 47) ?p) < length ?p" using ne by (intro dropWhile_shorter)
  also have "\<dots> \<le> length path" by (rule length_dropWhile_le)
  finally show ?thesis .
qed

text \<open>
  Resolution of a path from a node. The target of a symbolic link replaces the name in the path, of
  which the first 510 bytes are kept, and at most five links are followed.
\<close>

function resolve_path_inner ::
  "(usize \<Rightarrow> vnode) \<Rightarrow> usize \<Rightarrow> usize \<Rightarrow> u8 list \<Rightarrow> nat \<Rightarrow> usize option" where
  "resolve_path_inner m root base path depth =
     (if depth > 5 then Some 0
      else if base = 0 then Some 0
      else let p = dropWhile (\<lambda>c. c = 47) path
           in if p = [] then Some base
              else let segment = takeWhile (\<lambda>c. c \<noteq> 47) p;
                       rest = dropWhile (\<lambda>c. c \<noteq> 47) p
                   in if length segment > 63 then Some 0
                      else case find_child m base segment of
                             None \<Rightarrow> None
                           | Some child \<Rightarrow>
                               if child = 0 then Some 0
                               else if vn_type (m child) = NODE_SYMLINK then
                                 let target = take 255 (link_target (m child));
                                     buf = target @ take (510 - length target) rest
                                 in resolve_path_inner m root
                                      (if take 1 (link_target (m child)) = [47] then root else base) buf (depth + 1)
                               else resolve_path_inner m root child rest depth)"
  by pat_completeness auto
termination
  by (relation "measures [\<lambda>(m, root, base, path, depth). 6 - depth, \<lambda>(m, root, base, path, depth). length path]")
    (auto simp: rest_shorter)

declare resolve_path_inner.simps [simp del]

definition resolve_path :: "usize \<Rightarrow> u8 list \<Rightarrow> 'h vfs \<Rightarrow> usize option" where
  "resolve_path base path s = resolve_path_inner (vnodes s) (vroot s) base path 0"

text \<open>The position of the last slash.\<close>

fun last_slash :: "nat \<Rightarrow> nat option \<Rightarrow> u8 list \<Rightarrow> nat option" where
  "last_slash i found [] = found"
| "last_slash i found (c # p) = last_slash (i + 1) (if c = 47 then Some i else found) p"

definition resolve_parent :: "u8 list \<Rightarrow> 'h vfs \<Rightarrow> usize option" where
  "resolve_parent path s =
     (let buf = take 255 path
      in case last_slash 0 None buf of
           None \<Rightarrow> Some (vroot s)
         | Some i \<Rightarrow> resolve_path (vroot s) (take i buf) s)"

fun extract_loop :: "u8 list \<Rightarrow> u8 list \<Rightarrow> u8 list" where
  "extract_loop name [] = name"
| "extract_loop name (c # p) = extract_loop (if c = 47 then p else name) p"

definition extract_name :: "u8 list \<Rightarrow> u8 list" where
  "extract_name path = extract_loop path path"

partial_function (option) count_children :: "(usize \<Rightarrow> vnode) \<Rightarrow> usize \<Rightarrow> u32 option" where
  "count_children m child =
     (if child = 0 then Some 0
      else Option.bind (count_children m (vn_children (m child))) (\<lambda>below.
           Option.bind (count_children m (vn_next (m child))) (\<lambda>others.
           Some (1 + below + others))))"

definition count_nodes_recursive :: "(usize \<Rightarrow> vnode) \<Rightarrow> usize \<Rightarrow> u32 option" where
  "count_nodes_recursive m node =
     (if node = 0 then Some 0
      else map_option (\<lambda>n. 1 + n) (count_children m (vn_children (m node))))"

section \<open>Operations on the tree\<close>

definition krust_vfs_init :: "'h malloc \<Rightarrow> 'h vfs \<Rightarrow> 'h vfs option" where
  "krust_vfs_init malloc s = do {
     let s = s\<lparr>vpipes := pipes_init\<rparr>;
     (r, s) \<leftarrow> create_node_raw malloc [] NODE_DIR s;
     let s = s\<lparr>vroot := r\<rparr>;
     if r = 0 then None
     else Some (s\<lparr>vnodes := (vnodes s)(r := (vnodes s r)\<lparr>vn_parent := r\<rparr>)\<rparr>)
   }"

definition krust_vfs_resolve :: "path \<Rightarrow> 'h vfs \<Rightarrow> usize option" where
  "krust_vfs_resolve path s =
     (case path of
        None \<Rightarrow> Some (vroot s)
      | Some p \<Rightarrow> if p = [] \<or> vroot s = 0 then Some (vroot s) else resolve_path (vroot s) p s)"

definition set_node :: "usize \<Rightarrow> vnode \<Rightarrow> 'h vfs \<Rightarrow> 'h vfs" where
  "set_node a n s = s\<lparr>vnodes := (vnodes s)(a := n)\<rparr>"

definition link_child :: "usize \<Rightarrow> usize \<Rightarrow> 'h vfs \<Rightarrow> 'h vfs" where
  "link_child parent child s = s\<lparr>vnodes := add_child parent child (vnodes s)\<rparr>"

definition krust_vfs_create_dir :: "'h malloc \<Rightarrow> path \<Rightarrow> 'h vfs \<Rightarrow> (i32 \<times> 'h vfs) option" where
  "krust_vfs_create_dir malloc path s =
     (case path of
        None \<Rightarrow> Some (- 1, s)
      | Some p \<Rightarrow>
          if p = [] then Some (- 1, s)
          else do {
            parent \<leftarrow> resolve_parent p s;
            if parent = 0 \<or> vn_type (vnodes s parent) \<noteq> NODE_DIR then Some (- 1, s)
            else if \<not> check_permission parent 6 s then Some (- 1, s)
            else let name = extract_name p
                 in if name = [] then Some (- 1, s)
                    else do {
                      other \<leftarrow> find_child (vnodes s) parent name;
                      if other \<noteq> 0 then Some (- 1, s)
                      else do {
                        (node, s) \<leftarrow> create_node_raw malloc name NODE_DIR s;
                        if node = 0 then Some (- 1, s)
                        else
                          let s = set_node node ((vnodes s node)\<lparr>vn_parent := parent\<rparr>) s
                          in Some (0, link_child parent node s)
                      }
                    }
          })"

text \<open>\<open>krust_memcpy\<close> and \<open>krust_memset\<close> on the memory of the state.\<close>

definition copy_mem :: "usize \<Rightarrow> usize \<Rightarrow> usize \<Rightarrow> 'h vfs \<Rightarrow> 'h vfs" where
  "copy_mem dest src n s = s\<lparr>vmem := snd (krust_memcpy dest src n (vmem s))\<rparr>"

definition clear_mem :: "usize \<Rightarrow> usize \<Rightarrow> 'h vfs \<Rightarrow> 'h vfs" where
  "clear_mem dest n s = s\<lparr>vmem := snd (krust_memset dest 0 n (vmem s))\<rparr>"

definition free_block :: "'h mfree \<Rightarrow> usize \<Rightarrow> 'h vfs \<Rightarrow> 'h vfs option" where
  "free_block mfree p s = map_option (\<lambda>h. s\<lparr>fheap := h\<rparr>) (mfree p (fheap s))"

definition krust_vfs_create_file ::
  "'h malloc \<Rightarrow> 'h mfree \<Rightarrow> path \<Rightarrow> usize \<Rightarrow> u32 \<Rightarrow> 'h vfs \<Rightarrow> (i32 \<times> 'h vfs) option" where
  "krust_vfs_create_file malloc mfree path data sz s =
     (case path of
        None \<Rightarrow> Some (- 1, s)
      | Some p \<Rightarrow>
          if p = [] then Some (- 1, s)
          else do {
            parent \<leftarrow> resolve_parent p s;
            if parent = 0 \<or> vn_type (vnodes s parent) \<noteq> NODE_DIR then Some (- 1, s)
            else if \<not> check_permission parent 2 s then Some (- 1, s)
            else let name = extract_name p
                 in if name = [] then Some (- 1, s)
                    else do {
                      (node, s) \<leftarrow> create_node_raw malloc name NODE_FILE s;
                      if node = 0 then Some (- 1, s)
                      else
                        let s = set_node node ((vnodes s node)\<lparr>vn_parent := parent, vn_size := sz\<rparr>) s
                        in if sz > 0 \<and> data \<noteq> 0 then do {
                             (d, h) \<leftarrow> malloc sz (fheap s);
                             let s = s\<lparr>fheap := h\<rparr>;
                             let s = set_node node ((vnodes s node)\<lparr>vn_data := d\<rparr>) s;
                             if d = 0 then do {
                               s \<leftarrow> free_block mfree node s;
                               Some (- 1, s)
                             } else
                               let s = copy_mem d data (unat sz) s
                               in Some (0, link_child parent node s)
                           } else Some (0, link_child parent node s)
                    }
          })"

definition krust_vfs_create_device ::
  "'h malloc \<Rightarrow> path \<Rightarrow> usize option \<Rightarrow> usize option \<Rightarrow> 'h vfs \<Rightarrow> (i32 \<times> 'h vfs) option" where
  "krust_vfs_create_device malloc path rd wr s =
     (case path of
        None \<Rightarrow> Some (- 1, s)
      | Some p \<Rightarrow>
          if p = [] then Some (- 1, s)
          else do {
            parent \<leftarrow> resolve_parent p s;
            if parent = 0 \<or> vn_type (vnodes s parent) \<noteq> NODE_DIR then Some (- 1, s)
            else let name = extract_name p
                 in if name = [] then Some (- 1, s)
                    else do {
                      other \<leftarrow> find_child (vnodes s) parent name;
                      if other \<noteq> 0 then Some (- 1, s)
                      else do {
                        (node, s) \<leftarrow> create_node_raw malloc name NODE_DEVICE s;
                        if node = 0 then Some (- 1, s)
                        else
                          let s = set_node node ((vnodes s node)\<lparr>vn_parent := parent, dev_read := rd,
                                                                dev_write := wr\<rparr>) s
                          in Some (0, link_child parent node s)
                      }
                    }
          })"

text \<open>
  Taking a node out of its parent's list: the pointer that is followed is the \<open>children\<close> field of the
  parent when \<open>prev\<close> is 0 and the \<open>next\<close> field of \<open>prev\<close> otherwise.
\<close>

partial_function (option) unlink_loop ::
  "usize \<Rightarrow> usize \<Rightarrow> usize \<Rightarrow> usize \<Rightarrow> (usize \<Rightarrow> vnode) \<Rightarrow> (usize \<Rightarrow> vnode) option" where
  "unlink_loop parent node prev c m =
     (if c = 0 then Some m
      else if c = node then
        Some (if prev = 0 then m(parent := (m parent)\<lparr>vn_children := vn_next (m node)\<rparr>)
              else m(prev := (m prev)\<lparr>vn_next := vn_next (m node)\<rparr>))
      else unlink_loop parent node c (vn_next (m c)) m)"

definition unlink_child :: "usize \<Rightarrow> usize \<Rightarrow> 'h vfs \<Rightarrow> 'h vfs option" where
  "unlink_child parent node s =
     map_option (\<lambda>m. s\<lparr>vnodes := m\<rparr>) (unlink_loop parent node 0 (vn_children (vnodes s parent)) (vnodes s))"

definition free_node :: "'h mfree \<Rightarrow> usize \<Rightarrow> 'h vfs \<Rightarrow> 'h vfs option" where
  "free_node mfree node s = do {
     s \<leftarrow> (if vn_data (vnodes s node) \<noteq> 0 then free_block mfree (vn_data (vnodes s node)) s else Some s);
     free_block mfree node s
   }"

partial_function (option) free_children :: "'h mfree \<Rightarrow> usize \<Rightarrow> 'h vfs \<Rightarrow> 'h vfs option" where
  "free_children mfree child s =
     (if child = 0 then Some s
      else let next = vn_next (vnodes s child)
           in Option.bind (free_node mfree child s) (\<lambda>s. free_children mfree next s))"

definition krust_vfs_remove_node :: "'h mfree \<Rightarrow> path \<Rightarrow> 'h vfs \<Rightarrow> (i32 \<times> 'h vfs) option" where
  "krust_vfs_remove_node mfree path s =
     (if path = None \<or> path = Some [] then Some (- 1, s)
      else do {
        node \<leftarrow> krust_vfs_resolve path s;
        if node = 0 \<or> node = vroot s then Some (- 1, s)
        else let parent = vn_parent (vnodes s node)
             in if parent = 0 then Some (- 1, s)
                else do {
                  s \<leftarrow> unlink_child parent node s;
                  s \<leftarrow> free_children mfree (vn_children (vnodes s node)) s;
                  s \<leftarrow> free_node mfree node s;
                  Some (0, s)
                }
      })"

definition krust_vfs_mkdir :: "'h malloc \<Rightarrow> path \<Rightarrow> 'h vfs \<Rightarrow> (i32 \<times> 'h vfs) option" where
  "krust_vfs_mkdir malloc path s = krust_vfs_create_dir malloc path s"

definition krust_vfs_unlink :: "'h mfree \<Rightarrow> path \<Rightarrow> 'h vfs \<Rightarrow> (i32 \<times> 'h vfs) option" where
  "krust_vfs_unlink mfree path s =
     (case path of
        None \<Rightarrow> Some (- 1, s)
      | Some p \<Rightarrow>
          if p = [] then Some (- 1, s)
          else do {
            parent \<leftarrow> resolve_parent p s;
            if parent = 0 then Some (- 1, s)
            else if \<not> check_permission parent 6 s then Some (- 1, s)
            else do {
              node \<leftarrow> find_child (vnodes s) parent (extract_name p);
              if node = 0 then Some (- 1, s)
              else if vn_type (vnodes s node) \<noteq> NODE_FILE \<and> vn_type (vnodes s node) \<noteq> NODE_SYMLINK then
                Some (- 1, s)
              else do {
                s \<leftarrow> unlink_child parent node s;
                s \<leftarrow> free_node mfree node s;
                Some (0, s)
              }
            }
          })"

definition krust_vfs_symlink :: "'h malloc \<Rightarrow> path \<Rightarrow> path \<Rightarrow> 'h vfs \<Rightarrow> (i32 \<times> 'h vfs) option" where
  "krust_vfs_symlink malloc target linkpath s =
     (case (target, linkpath) of
        (Some tgt, Some p) \<Rightarrow>
          if tgt = [] \<or> p = [] then Some (- 1, s)
          else do {
            parent \<leftarrow> resolve_parent p s;
            if parent = 0 \<or> vn_type (vnodes s parent) \<noteq> NODE_DIR then Some (- 1, s)
            else if \<not> check_permission parent 2 s then Some (- 1, s)
            else let name = extract_name p
                 in if name = [] then Some (- 1, s)
                    else do {
                      other \<leftarrow> find_child (vnodes s) parent name;
                      if other \<noteq> 0 then Some (- 1, s)
                      else do {
                        (node, s) \<leftarrow> create_node_raw malloc name NODE_SYMLINK s;
                        if node = 0 then Some (- 1, s)
                        else
                          let s = set_node node ((vnodes s node)\<lparr>vn_parent := parent,
                                                                link_target := take 255 tgt\<rparr>) s
                          in Some (0, link_child parent node s)
                      }
                    }
          }
      | _ \<Rightarrow> Some (- 1, s))"

primrec write_bytes :: "usize \<Rightarrow> u8 list \<Rightarrow> mem \<Rightarrow> mem" where
  "write_bytes a [] m = m"
| "write_bytes a (b # bs) m = write_bytes (a + 1) bs (m(a := b))"

text \<open>Copying a string of at most \<open>bufsize - 1\<close> bytes and a NUL into a buffer.\<close>

definition copy_out :: "usize \<Rightarrow> u32 \<Rightarrow> u8 list \<Rightarrow> 'h vfs \<Rightarrow> i32 \<times> 'h vfs" where
  "copy_out buf bufsize str s =
     (let bs = take (unat (bufsize - 1)) str
      in (of_nat (length bs), s\<lparr>vmem := write_bytes buf (bs @ [0]) (vmem s)\<rparr>))"

definition krust_vfs_readlink :: "path \<Rightarrow> usize \<Rightarrow> u32 \<Rightarrow> 'h vfs \<Rightarrow> (i32 \<times> 'h vfs) option" where
  "krust_vfs_readlink path buf bufsize s =
     (case path of
        None \<Rightarrow> Some (- 1, s)
      | Some p \<Rightarrow>
          if buf = 0 \<or> bufsize = 0 then Some (- 1, s)
          else do {
            parent \<leftarrow> resolve_parent p s;
            if parent = 0 then Some (- 1, s)
            else do {
              node \<leftarrow> find_child (vnodes s) parent (extract_name p);
              if node = 0 \<or> vn_type (vnodes s node) \<noteq> NODE_SYMLINK then Some (- 1, s)
              else Some (copy_out buf bufsize (link_target (vnodes s node)) s)
            }
          })"

definition krust_vfs_rmdir :: "'h mfree \<Rightarrow> path \<Rightarrow> 'h vfs \<Rightarrow> (i32 \<times> 'h vfs) option" where
  "krust_vfs_rmdir mfree path s =
     (if path = None \<or> path = Some [] then Some (- 1, s)
      else do {
        node \<leftarrow> krust_vfs_resolve path s;
        if node = 0 \<or> vn_type (vnodes s node) \<noteq> NODE_DIR \<or> node = vroot s then Some (- 1, s)
        else let parent = vn_parent (vnodes s node)
             in if parent \<noteq> 0 \<and> \<not> check_permission parent 2 s then Some (- 1, s)
                else if vn_children (vnodes s node) \<noteq> 0 then Some (- 1, s)
                else krust_vfs_remove_node mfree path s
      })"

definition krust_vfs_rename :: "path \<Rightarrow> path \<Rightarrow> 'h vfs \<Rightarrow> (i32 \<times> 'h vfs) option" where
  "krust_vfs_rename old_path new_path s =
     (case new_path of
        None \<Rightarrow> Some (- 1, s)
      | Some np \<Rightarrow>
          if old_path = None \<or> old_path = Some [] \<or> np = [] then Some (- 1, s)
          else do {
            old_node \<leftarrow> krust_vfs_resolve old_path s;
            if old_node = 0 \<or> old_node = vroot s then Some (- 1, s)
            else let old_parent = vn_parent (vnodes s old_node)
                 in if old_parent = 0 then Some (- 1, s)
                    else if \<not> check_permission old_parent 6 s then Some (- 1, s)
                    else do {
                      s \<leftarrow> unlink_child old_parent old_node s;
                      new_parent \<leftarrow> resolve_parent np s;
                      if new_parent = 0 then Some (- 1, link_child old_parent old_node s)
                      else if \<not> check_permission new_parent 6 s then
                        Some (- 1, link_child old_parent old_node s)
                      else
                        let s = set_node old_node ((vnodes s old_node)\<lparr>vn_name := take 63 (extract_name np),
                                  vn_parent := new_parent, vn_next := 0\<rparr>) s
                        in Some (0, link_child new_parent old_node s)
                    }
          })"

definition krust_vfs_chmod :: "path \<Rightarrow> u16 \<Rightarrow> 'h vfs \<Rightarrow> (i32 \<times> 'h vfs) option" where
  "krust_vfs_chmod path mode s =
     (if path = None \<or> path = Some [] then Some (- 1, s)
      else do {
        node \<leftarrow> krust_vfs_resolve path s;
        if node = 0 \<or> node = vroot s then Some (- 1, s)
        else let n = vnodes s node
             in if (case cur_task s of None \<Rightarrow> False | Some t \<Rightarrow> t_uid t \<noteq> 0 \<and> t_uid t \<noteq> vn_uid n) then
                  Some (- 1, s)
                else Some (0, set_node node (n\<lparr>vn_mode := (vn_mode n AND 0xF000) OR (mode AND 0xFFF)\<rparr>) s)
      })"

definition krust_vfs_chown :: "path \<Rightarrow> u16 \<Rightarrow> u16 \<Rightarrow> 'h vfs \<Rightarrow> (i32 \<times> 'h vfs) option" where
  "krust_vfs_chown path uid gid s =
     (if path = None \<or> path = Some [] then Some (- 1, s)
      else do {
        node \<leftarrow> krust_vfs_resolve path s;
        if node = 0 \<or> node = vroot s then Some (- 1, s)
        else if (case cur_task s of None \<Rightarrow> False | Some t \<Rightarrow> t_uid t \<noteq> 0) then Some (- 1, s)
        else Some (0, set_node node ((vnodes s node)\<lparr>vn_uid := uid, vn_gid := gid\<rparr>) s)
      })"

record file_stat =
  st_type :: u8
  st_size :: u32
  st_name :: "u8 list"
  st_uid :: u16
  st_gid :: u16
  st_mode :: u16

text \<open>\<open>stat\<close> is the address of the caller's structure, whose new contents are returned.\<close>

definition krust_vfs_stat :: "path \<Rightarrow> usize \<Rightarrow> 'h vfs \<Rightarrow> (i32 \<times> file_stat option) option" where
  "krust_vfs_stat path stat s =
     (if path = None \<or> stat = 0 then Some (- 1, None)
      else do {
        node \<leftarrow> krust_vfs_resolve path s;
        if node = 0 then Some (- 1, None)
        else let n = vnodes s node
             in Some (0, Some \<lparr>st_type = vn_type n, st_size = vn_size n, st_name = take 63 (vn_name n),
                               st_uid = vn_uid n, st_gid = vn_gid n, st_mode = vn_mode n\<rparr>)
      })"

definition krust_vfs_root_node :: "'h vfs \<Rightarrow> usize" where
  "krust_vfs_root_node s = vroot s"

definition krust_vfs_node_count :: "'h vfs \<Rightarrow> u32 option" where
  "krust_vfs_node_count s = count_nodes_recursive (vnodes s) (vroot s)"

end
