(* ===== verification/Vtree.thy ===== *)
theory Vtree
  imports Vnode
begin

text \<open>
  The node tree as a finite map from paths to nodes. \<open>tree_ok\<close> is the invariant of the linked
  structure: the set of nodes, for each of them the list of its children in the order of the sibling
  pointers, parent pointers that agree with them, names that are unique in their directory. Under it
  \<open>walk\<close>, which follows a list of names from a node, is what path resolution computes on paths
  without \<open>.\<close>, \<open>..\<close> and symbolic links; linking a new node into a directory is an update of that map
  and unlinking a leaf a deletion.
\<close>

section \<open>Lists of children\<close>

fun kseg :: "(usize \<Rightarrow> vnode) \<Rightarrow> usize \<Rightarrow> usize list \<Rightarrow> bool" where
  "kseg m c [] \<longleftrightarrow> c = 0"
| "kseg m c (k # ks) \<longleftrightarrow> c = k \<and> k \<noteq> 0 \<and> kseg m (vn_next (m k)) ks"

lemma kseg_cong: "(\<And>k. k \<in> set ks \<Longrightarrow> vn_next (m' k) = vn_next (m k)) \<Longrightarrow> kseg m' c ks = kseg m c ks"
  by (induction ks arbitrary: c) auto

definition named :: "(usize \<Rightarrow> vnode) \<Rightarrow> usize list \<Rightarrow> u8 list \<Rightarrow> usize option" where
  "named m ks name = List.find (\<lambda>k. vn_name (m k) = name) ks"

lemma named_simps [simp]:
  "named m [] name = None"
  "named m (k # ks) name = (if vn_name (m k) = name then Some k else named m ks name)"
  by (simp_all add: named_def)

lemma named_Some: "named m ks name = Some k \<Longrightarrow> k \<in> set ks \<and> vn_name (m k) = name"
  unfolding named_def by (rule find_mem)

lemma named_None: "named m ks name = None \<longleftrightarrow> (\<forall>k \<in> set ks. vn_name (m k) \<noteq> name)"
  by (auto simp: named_def find_None_iff)

lemma named_unique:
  "distinct (map (\<lambda>k. vn_name (m k)) ks) \<Longrightarrow> k \<in> set ks \<Longrightarrow> named m ks (vn_name (m k)) = Some k"
  by (induction ks) auto

lemma named_cong: "(\<And>k. k \<in> set ks \<Longrightarrow> vn_name (m' k) = vn_name (m k)) \<Longrightarrow> named m' ks name = named m ks name"
  by (induction ks) auto

lemma named_remove1:
  "distinct (map (\<lambda>k. vn_name (m k)) ks) \<Longrightarrow> c \<in> set ks \<Longrightarrow>
   named m (remove1 c ks) name = (if name = vn_name (m c) then None else named m ks name)"
proof (induction ks)
  case (Cons k ks)
  let ?f = "\<lambda>k. vn_name (m k)"
  have notin: "?f k \<notin> ?f ` set ks" using Cons.prems(1) by simp
  show ?case
  proof (cases "k = c")
    case True
    have "named m ks (?f c) = None" unfolding named_None using notin imageI [of _ "set ks" ?f] True by metis
    then show ?thesis using True by auto
  next
    case False
    then have c: "c \<in> set ks" using Cons.prems(2) by simp
    then have "?f c \<noteq> ?f k" using notin imageI [of c "set ks" ?f] by metis
    then show ?thesis using False c Cons by auto
  qed
qed simp

definition or_null :: "usize option \<Rightarrow> usize" where
  "or_null x = (case x of None \<Rightarrow> 0 | Some a \<Rightarrow> a)"

lemma or_null_simps [simp]: "or_null None = 0" "or_null (Some a) = a"
  by (simp_all add: or_null_def)

lemma child_loop_named: "kseg m c ks \<Longrightarrow> child_loop m c name = Some (or_null (named m ks name))"
  by (induction ks arbitrary: c) (subst child_loop.simps, simp)+

section \<open>The invariant\<close>

definition plain :: "u8 list \<Rightarrow> bool" where
  "plain n \<longleftrightarrow> n \<noteq> [] \<and> n \<noteq> [46] \<and> n \<noteq> [46, 46] \<and> 47 \<notin> set n \<and> length n \<le> 63"

text \<open>Following names downwards.\<close>

definition child :: "(usize \<Rightarrow> usize list) \<Rightarrow> (usize \<Rightarrow> vnode) \<Rightarrow> usize \<Rightarrow> u8 list \<Rightarrow> usize option" where
  "child K m a name = named m (K a) name"

fun down :: "(usize \<Rightarrow> usize list) \<Rightarrow> (usize \<Rightarrow> vnode) \<Rightarrow> usize \<Rightarrow> u8 list list \<Rightarrow> usize option" where
  "down K m a [] = Some a"
| "down K m a (n # ns) = Option.bind (child K m a n) (\<lambda>c. down K m c ns)"

lemma down_snoc: "down K m a (ns @ [n]) = Option.bind (down K m a ns) (\<lambda>c. child K m c n)"
  by (induction ns arbitrary: a) (auto split: bind_split)

lemma down_append: "down K m a (ns @ ps) = Option.bind (down K m a ns) (\<lambda>c. down K m c ps)"
  by (induction ns arbitrary: a) (auto split: bind_split)

definition kids_ok :: "(usize \<Rightarrow> vnode) \<Rightarrow> usize \<Rightarrow> usize set \<Rightarrow> (usize \<Rightarrow> usize list) \<Rightarrow> usize \<Rightarrow> bool" where
  "kids_ok m root N K a \<longleftrightarrow>
     kseg m (vn_children (m a)) (K a) \<and> distinct (K a) \<and> distinct (map (\<lambda>k. vn_name (m k)) (K a)) \<and>
     set (K a) \<subseteq> N - {root} \<and> (\<forall>c \<in> set (K a). vn_parent (m c) = a) \<and>
     (K a \<noteq> [] \<longrightarrow> vn_type (m a) = NODE_DIR)"

definition tree_ok :: "(usize \<Rightarrow> vnode) \<Rightarrow> usize \<Rightarrow> usize set \<Rightarrow> (usize \<Rightarrow> usize list) \<Rightarrow> bool" where
  "tree_ok m root N K \<longleftrightarrow>
     finite N \<and> 0 \<notin> N \<and> root \<in> N \<and> vn_parent (m root) = root \<and> vn_type (m root) = NODE_DIR \<and>
     (\<forall>a \<in> N. kids_ok m root N K a) \<and>
     (\<forall>c \<in> N - {root}. vn_parent (m c) \<in> N \<and> c \<in> set (K (vn_parent (m c))) \<and> plain (vn_name (m c))) \<and>
     (\<forall>c \<in> N. \<exists>ns. down K m root ns = Some c)"

lemma tree_okD:
  assumes "tree_ok m root N K"
  shows "finite N" "0 \<notin> N" "root \<in> N" "vn_parent (m root) = root" "vn_type (m root) = NODE_DIR"
    "a \<in> N \<Longrightarrow> kids_ok m root N K a"
    "c \<in> N \<Longrightarrow> c \<noteq> root \<Longrightarrow> vn_parent (m c) \<in> N \<and> c \<in> set (K (vn_parent (m c))) \<and> plain (vn_name (m c))"
    "c \<in> N \<Longrightarrow> \<exists>ns. down K m root ns = Some c"
  using assms unfolding tree_ok_def by blast+

lemma kids_okD:
  assumes "kids_ok m root N K a"
  shows "kseg m (vn_children (m a)) (K a)" "distinct (K a)" "distinct (map (\<lambda>k. vn_name (m k)) (K a))"
    "c \<in> set (K a) \<Longrightarrow> c \<in> N \<and> c \<noteq> root \<and> vn_parent (m c) = a" "K a \<noteq> [] \<Longrightarrow> vn_type (m a) = NODE_DIR"
  using assms unfolding kids_ok_def by blast+

lemma child_in:
  "tree_ok m root N K \<Longrightarrow> a \<in> N \<Longrightarrow> child K m a n = Some c \<Longrightarrow>
     c \<in> N \<and> c \<noteq> root \<and> vn_parent (m c) = a \<and> vn_name (m c) = n"
proof -
  assume t: "tree_ok m root N K" "a \<in> N" and c: "child K m a n = Some c"
  have "c \<in> set (K a) \<and> vn_name (m c) = n" using c unfolding child_def by (rule named_Some)
  with kids_okD(4) [OF tree_okD(6) [OF t], of c] show ?thesis by blast
qed

lemma down_in: "tree_ok m root N K \<Longrightarrow> a \<in> N \<Longrightarrow> down K m a ns = Some c \<Longrightarrow> c \<in> N"
proof (induction ns arbitrary: a)
  case (Cons n ns)
  then obtain b where "child K m a n = Some b" "down K m b ns = Some c" by (auto split: bind_splits)
  with Cons child_in show ?case by blast
qed simp

text \<open>A node is reached by one list of names only.\<close>

lemma down_unique:
  assumes "tree_ok m root N K"
  shows "down K m root ns = Some c \<Longrightarrow> down K m root ps = Some c \<Longrightarrow> ns = ps"
proof (induction ns arbitrary: ps c rule: rev_induct)
  case Nil
  show ?case
  proof (cases ps rule: rev_cases)
    case (snoc qs q)
    with Nil obtain b where b: "down K m root qs = Some b" "child K m b q = Some root"
      by (auto simp: down_snoc split: bind_splits)
    then have "b \<in> N" using down_in [OF assms tree_okD(3) [OF assms]] by blast
    with b(2) child_in [OF assms] show ?thesis by blast
  qed simp
next
  case (snoc n ns)
  obtain b where b: "down K m root ns = Some b" "child K m b n = Some c"
    using snoc.prems(1) by (auto simp: down_snoc split: bind_splits)
  have bN: "b \<in> N" using down_in [OF assms tree_okD(3) [OF assms] b(1)] .
  note c = child_in [OF assms bN b(2)]
  show ?case
  proof (cases ps rule: rev_cases)
    case Nil
    with snoc.prems(2) c show ?thesis by simp
  next
    case (snoc qs q)
    with snoc.prems obtain d where d: "down K m root qs = Some d" "child K m d q = Some c"
      by (auto simp: down_snoc split: bind_splits)
    have "d \<in> N" using down_in [OF assms tree_okD(3) [OF assms] d(1)] .
    from child_in [OF assms this d(2)] c have "d = b" "q = n" by auto
    with snoc.IH [OF b(1)] d(1) snoc show ?thesis by simp
  qed
qed

section \<open>Linking a new node\<close>

text \<open>A node \<open>nd\<close> that is about to be linked at the address \<open>p\<close> into the directory \<open>d\<close>.\<close>

definition fresh_at ::
  "(usize \<Rightarrow> vnode) \<Rightarrow> usize \<Rightarrow> usize set \<Rightarrow> (usize \<Rightarrow> usize list) \<Rightarrow> usize \<Rightarrow> usize \<Rightarrow> vnode \<Rightarrow> bool" where
  "fresh_at m root N K d p nd \<longleftrightarrow>
     tree_ok m root N K \<and> d \<in> N \<and> vn_type (m d) = NODE_DIR \<and> p \<notin> N \<and> p \<noteq> 0 \<and>
     vn_children nd = 0 \<and> vn_parent nd = d \<and> plain (vn_name nd) \<and> child K m d (vn_name nd) = None"

definition linked :: "(usize \<Rightarrow> vnode) \<Rightarrow> usize \<Rightarrow> usize \<Rightarrow> vnode \<Rightarrow> usize \<Rightarrow> vnode" where
  "linked m d p nd = add_child d p (m(p := nd))"

definition kids_linked :: "(usize \<Rightarrow> usize list) \<Rightarrow> usize \<Rightarrow> usize \<Rightarrow> usize \<Rightarrow> usize list" where
  "kids_linked K d p = K(d := p # K d, p := [])"

lemma fresh_atD:
  assumes "fresh_at m root N K d p nd"
  shows "tree_ok m root N K" "d \<in> N" "vn_type (m d) = NODE_DIR" "p \<notin> N" "p \<noteq> 0" "d \<noteq> p"
    "vn_children nd = 0" "vn_parent nd = d" "plain (vn_name nd)" "child K m d (vn_name nd) = None"
  using assms unfolding fresh_at_def by auto

lemma linked_new: "d \<noteq> p \<Longrightarrow> linked m d p nd p = nd\<lparr>vn_next := vn_children (m d)\<rparr>"
  by (simp add: linked_def add_child_def)

lemma linked_other:
  "d \<noteq> p \<Longrightarrow> a \<noteq> p \<Longrightarrow> linked m d p nd a = (if a = d then (m d)\<lparr>vn_children := p\<rparr> else m a)"
  by (simp add: linked_def add_child_def)

lemma linked_old:
  assumes "d \<noteq> p" and "a \<noteq> p"
  shows "vn_name (linked m d p nd a) = vn_name (m a)" "vn_parent (linked m d p nd a) = vn_parent (m a)"
    "vn_type (linked m d p nd a) = vn_type (m a)" "vn_next (linked m d p nd a) = vn_next (m a)"
    "vn_data (linked m d p nd a) = vn_data (m a)" "vn_size (linked m d p nd a) = vn_size (m a)"
    "a \<noteq> d \<Longrightarrow> vn_children (linked m d p nd a) = vn_children (m a)"
  by (simp_all add: linked_other [OF assms])

lemma kids_old: "tree_ok m root N K \<Longrightarrow> a \<in> N \<Longrightarrow> set (K a) \<subseteq> N - {root}"
  using kids_okD(4) tree_okD(6) by blast

lemma child_linked:
  assumes f: "fresh_at m root N K d p nd"
  shows "a \<in> N \<Longrightarrow> child (kids_linked K d p) (linked m d p nd) a n =
      (if a = d \<and> n = vn_name nd then Some p else child K m a n)"
    "child (kids_linked K d p) (linked m d p nd) p n = None"
proof -
  note F = fresh_atD [OF f]
  assume a: "a \<in> N"
  then have ap: "a \<noteq> p" using F(4) by auto
  have "named (linked m d p nd) (K a) n = named m (K a) n"
    using kids_old [OF F(1) a] F(4,6) by (intro named_cong linked_old(1)) auto
  then show "child (kids_linked K d p) (linked m d p nd) a n =
      (if a = d \<and> n = vn_name nd then Some p else child K m a n)"
    using a ap F(6) by (auto simp: child_def kids_linked_def linked_new)
qed (simp add: child_def kids_linked_def)

text \<open>The map from paths to nodes is updated at one place.\<close>

lemma down_linked_edge:
  assumes f: "fresh_at m root N K d p nd"
  shows "down (kids_linked K d p) (linked m d p nd) root ns =
     (if ns \<noteq> [] \<and> down K m root (butlast ns) = Some d \<and> last ns = vn_name nd then Some p
      else down K m root ns)"
proof (induction ns rule: rev_induct)
  case (snoc n ns)
  note F = fresh_atD [OF f] and cl = child_linked [OF f]
  let ?hit = "ns \<noteq> [] \<and> down K m root (butlast ns) = Some d \<and> last ns = vn_name nd"
  have miss: "?hit \<Longrightarrow> down K m root ns = None"
    using F(10) by (cases ns rule: rev_cases) (auto simp: down_snoc)
  show ?case
  proof (cases ?hit)
    case True
    then show ?thesis using miss snoc.IH by (simp add: down_snoc cl(2))
  next
    case False
    then show ?thesis
      using snoc.IH down_in [OF F(1) tree_okD(3) [OF F(1)], of ns]
      by (cases "down K m root ns") (auto simp: down_snoc cl(1))
  qed
qed simp

lemma down_linked:
  assumes f: "fresh_at m root N K d p nd" and ds: "down K m root ds = Some d"
  shows "down (kids_linked K d p) (linked m d p nd) root = (down K m root)(ds @ [vn_name nd] \<mapsto> p)"
proof
  fix ns
  have "down K m root ps = Some d \<longleftrightarrow> ps = ds" for ps
    using down_unique [OF fresh_atD(1) [OF f], of ps d ds] ds by blast
  then show "down (kids_linked K d p) (linked m d p nd) root ns = ((down K m root)(ds @ [vn_name nd] \<mapsto> p)) ns"
    unfolding down_linked_edge [OF f] by (cases ns rule: rev_cases) simp_all
qed

lemma kids_ok_linked:
  assumes f: "fresh_at m root N K d p nd" and a: "a \<in> N"
  shows "kids_ok (linked m d p nd) root (insert p N) (kids_linked K d p) a"
proof -
  note F = fresh_atD [OF f]
  note k = tree_okD(6) [OF F(1) a]
  let ?m = "linked m d p nd"
  have sub: "set (K a) \<subseteq> N - {root}" using F(1) a by (rule kids_old)
  then have notp: "k \<noteq> p" if "k \<in> set (K a)" for k using that F(4) by auto
  have seg: "kseg ?m c (K a) = kseg m c (K a)" for c using notp F(6) by (intro kseg_cong linked_old(4)) auto
  have names: "map (\<lambda>k. vn_name (?m k)) (K a) = map (\<lambda>k. vn_name (m k)) (K a)"
    using notp F(6) by (auto simp: linked_old(1))
  have dist: "distinct (map (\<lambda>k. vn_name (?m k)) (K a))" unfolding names using kids_okD(3) [OF k] .
  have par: "\<forall>c \<in> set (K a). vn_parent (?m c) = a" using notp F(6) kids_okD(4) [OF k] by (auto simp: linked_old(2))
  have ap: "a \<noteq> p" "p \<noteq> root" using a F(4) tree_okD(3) [OF F(1)] by auto
  have ty: "vn_type (?m a) = vn_type (m a)" using linked_old(3) [OF F(6) ap(1)] .
  show ?thesis
  proof (cases "a = d")
    case True
    have "vn_children (?m d) = p" "vn_name (?m p) = vn_name nd" "vn_parent (?m p) = d"
      "vn_next (?m p) = vn_children (m d)"
      using F(6,8) by (simp_all add: linked_other linked_new)
    moreover have "vn_name nd \<notin> (\<lambda>k. vn_name (?m k)) ` set (K d)"
      using F(10) arg_cong [OF names, of set] True by (auto simp: child_def named_None)
    moreover have "p \<notin> set (K d)" using notp True by auto
    ultimately show ?thesis
      using True kids_okD(1,2) [OF k] seg dist sub F(3,5,6) par ap ty
      unfolding kids_ok_def kids_linked_def by auto
  next
    case False
    then show ?thesis
      using kids_okD(1,2,5) [OF k] seg dist sub par ap ty linked_old(7) [OF F(6) ap(1) False]
      unfolding kids_ok_def kids_linked_def by auto
  qed
qed

lemma tree_linked:
  assumes f: "fresh_at m root N K d p nd"
  shows "tree_ok (linked m d p nd) root (insert p N) (kids_linked K d p)"
  unfolding tree_ok_def
proof (intro conjI ballI)
  note F = fresh_atD [OF f]
  have rp: "root \<noteq> p" using F(4) tree_okD(3) [OF F(1)] by auto
  show "vn_parent (linked m d p nd root) = root" "vn_type (linked m d p nd root) = NODE_DIR"
    using tree_okD(4,5) [OF F(1)] linked_old(2,3) [OF F(6) rp] by simp_all
  fix c assume c: "c \<in> insert p N"
  have "kids_ok (linked m d p nd) root (insert p N) (kids_linked K d p) p"
    using F(6,7) by (simp add: kids_ok_def kids_linked_def linked_new)
  then show "kids_ok (linked m d p nd) root (insert p N) (kids_linked K d p) c"
    using kids_ok_linked [OF f, of c] c by blast
  obtain ds where ds: "down K m root ds = Some d" using tree_okD(8) [OF F(1) F(2)] by blast
  show "\<exists>ns. down (kids_linked K d p) (linked m d p nd) root ns = Some c"
  proof (cases "c = p")
    case True
    then show ?thesis unfolding down_linked [OF f ds] by (intro exI [of _ "ds @ [vn_name nd]"]) simp
  next
    case False
    then obtain ns where ns: "down K m root ns = Some c" using c tree_okD(8) [OF F(1)] by blast
    then have "ns \<noteq> ds @ [vn_name nd]" using ds F(10) by (auto simp: down_snoc)
    then show ?thesis unfolding down_linked [OF f ds] using ns by (intro exI [of _ ns]) simp
  qed
next
  note F = fresh_atD [OF f]
  fix c assume c: "c \<in> insert p N - {root}"
  note old = tree_okD(7) [OF F(1), of c] and lo = linked_old [OF F(6), of c m nd]
  show "vn_parent (linked m d p nd c) \<in> insert p N" "plain (vn_name (linked m d p nd c))"
    using c F(2,6,8,9) old lo by (cases "c = p"; auto simp: linked_new)+
  show "c \<in> set (kids_linked K d p (vn_parent (linked m d p nd c)))"
    using c F(2,4,6,8) old lo by (cases "c = p") (auto simp: linked_new kids_linked_def)
qed (use tree_okD(1,2,3) [OF fresh_atD(1) [OF f]] fresh_atD(5) [OF f] in auto)

section \<open>Taking a leaf out\<close>

text \<open>The store after the loop that takes \<open>c\<close> out of the list \<open>ks\<close> of the directory \<open>d\<close>.\<close>

definition unlinked :: "(usize \<Rightarrow> vnode) \<Rightarrow> usize \<Rightarrow> usize \<Rightarrow> usize list \<Rightarrow> usize \<Rightarrow> vnode" where
  "unlinked m d c ks =
     (let xs = takeWhile (\<lambda>k. k \<noteq> c) ks
      in if xs = [] then m(d := (m d)\<lparr>vn_children := vn_next (m c)\<rparr>)
         else m(last xs := (m (last xs))\<lparr>vn_next := vn_next (m c)\<rparr>))"

lemma unlink_loop_walk:
  "kseg m a ks \<Longrightarrow> c \<in> set ks \<Longrightarrow>
   unlink_loop d c prev a m =
     Some (let xs = takeWhile (\<lambda>k. k \<noteq> c) ks; q = (if xs = [] then prev else last xs)
           in if q = 0 then m(d := (m d)\<lparr>vn_children := vn_next (m c)\<rparr>)
              else m(q := (m q)\<lparr>vn_next := vn_next (m c)\<rparr>))"
proof (induction ks arbitrary: a prev)
  case (Cons k ks)
  show ?case
  proof (cases "k = c")
    case True
    then show ?thesis using Cons.prems by (subst unlink_loop.simps) simp
  next
    case False
    then have "unlink_loop d c prev a m = unlink_loop d c k (vn_next (m k)) m"
      using Cons.prems by (subst unlink_loop.simps) simp
    then show ?thesis using Cons.IH [of "vn_next (m k)" k] Cons.prems False by (simp add: Let_def)
  qed
qed simp

lemma kseg_nonnull: "kseg m a ks \<Longrightarrow> 0 \<notin> set ks"
  by (induction ks arbitrary: a) auto

lemma unlink_loop_unlinked:
  assumes "kseg m a ks" and "c \<in> set ks"
  shows "unlink_loop d c 0 a m = Some (unlinked m d c ks)"
proof -
  let ?xs = "takeWhile (\<lambda>k. k \<noteq> c) ks"
  have "?xs \<noteq> [] \<Longrightarrow> last ?xs \<in> set ks" using last_in_set set_takeWhileD by metis
  then have "?xs \<noteq> [] \<Longrightarrow> last ?xs \<noteq> 0" using kseg_nonnull [OF assms(1)] by metis
  then show ?thesis unfolding unlink_loop_walk [OF assms] unlinked_def by (auto simp: Let_def)
qed

lemma unlinked_fields:
  "vn_name (unlinked m d c ks a) = vn_name (m a)" "vn_parent (unlinked m d c ks a) = vn_parent (m a)"
  "vn_type (unlinked m d c ks a) = vn_type (m a)" "vn_data (unlinked m d c ks a) = vn_data (m a)"
  "vn_size (unlinked m d c ks a) = vn_size (m a)"
  "a \<noteq> d \<Longrightarrow> vn_children (unlinked m d c ks a) = vn_children (m a)"
  "a \<notin> set ks \<Longrightarrow> vn_next (unlinked m d c ks a) = vn_next (m a)"
proof -
  have "takeWhile (\<lambda>k. k \<noteq> c) ks \<noteq> [] \<Longrightarrow> last (takeWhile (\<lambda>k. k \<noteq> c) ks) \<in> set ks"
    using last_in_set set_takeWhileD by metis
  then show "a \<notin> set ks \<Longrightarrow> vn_next (unlinked m d c ks a) = vn_next (m a)"
    by (auto simp: unlinked_def Let_def)
qed (auto simp: unlinked_def Let_def)

lemma kseg_skip:
  "kseg m a (xs @ c # ys) \<Longrightarrow> distinct (xs @ c # ys) \<Longrightarrow> xs \<noteq> [] \<Longrightarrow>
   vn_next (m' (last xs)) = vn_next (m c) \<Longrightarrow> (\<And>k. k \<noteq> last xs \<Longrightarrow> vn_next (m' k) = vn_next (m k)) \<Longrightarrow>
   kseg m' a (xs @ ys)"
proof (induction xs arbitrary: a)
  case (Cons x xs)
  show ?case
  proof (cases "xs = []")
    case True
    have "kseg m' (vn_next (m c)) ys = kseg m (vn_next (m c)) ys"
      using Cons.prems(2,5) True by (intro kseg_cong Cons.prems(5)) auto
    then show ?thesis using Cons.prems(1,4) True by simp
  next
    case False
    then have ne: "x \<noteq> last (x # xs)" using Cons.prems(2) last_in_set [OF False] by auto
    have "kseg m' (vn_next (m x)) (xs @ ys)"
      using Cons.prems False by (intro Cons.IH) auto
    then show ?thesis using Cons.prems(1) Cons.prems(5) [OF ne] by simp
  qed
qed simp

lemma split_at: "c \<in> set ks \<Longrightarrow> \<exists>ys. ks = takeWhile (\<lambda>k. k \<noteq> c) ks @ c # ys"
  by (induction ks) auto

lemma kseg_unlinked:
  assumes k: "kseg m (vn_children (m d)) ks" and dist: "distinct ks" and c: "c \<in> set ks"
  shows "kseg (unlinked m d c ks) (vn_children (unlinked m d c ks d)) (remove1 c ks)"
proof -
  let ?xs = "takeWhile (\<lambda>k. k \<noteq> c) ks"
  obtain ys where ys: "ks = ?xs @ c # ys" using split_at [OF c] by blast
  then have "c \<notin> set ?xs" using set_takeWhileD by fastforce
  then have rem: "remove1 c ks = ?xs @ ys" by (subst ys) (simp add: remove1_append)
  show ?thesis
  proof (cases "?xs = []")
    case True
    then have "ks = c # ys" using ys by simp
    moreover have "kseg (unlinked m d c ks) x ys = kseg m x ys" for x
      using True by (intro kseg_cong) (simp add: unlinked_def)
    moreover have "vn_children (unlinked m d c ks d) = vn_next (m c)" using True by (simp add: unlinked_def)
    ultimately show ?thesis using k by simp
  next
    case False
    have "kseg m (vn_children (m d)) (?xs @ c # ys)" "distinct (?xs @ c # ys)" using k dist ys by simp_all
    then have "kseg (unlinked m d c ks) (vn_children (m d)) (?xs @ ys)"
      using False by (rule kseg_skip) (simp_all add: unlinked_def Let_def False)
    moreover have "vn_children (unlinked m d c ks d) = vn_children (m d)" using False by (auto simp: unlinked_def Let_def)
    ultimately show ?thesis unfolding rem by simp
  qed
qed

definition leaf_at :: "(usize \<Rightarrow> vnode) \<Rightarrow> usize \<Rightarrow> usize set \<Rightarrow> (usize \<Rightarrow> usize list) \<Rightarrow> usize \<Rightarrow> usize \<Rightarrow> bool" where
  "leaf_at m root N K d c \<longleftrightarrow>
     tree_ok m root N K \<and> c \<in> N \<and> c \<noteq> root \<and> K c = [] \<and> d = vn_parent (m c)"

definition kids_unlinked :: "(usize \<Rightarrow> usize list) \<Rightarrow> usize \<Rightarrow> usize \<Rightarrow> usize \<Rightarrow> usize list" where
  "kids_unlinked K d c = K(d := remove1 c (K d))"

lemma leaf_atD:
  assumes "leaf_at m root N K d c"
  shows "tree_ok m root N K" "c \<in> N" "c \<noteq> root" "K c = []" "d \<in> N" "c \<in> set (K d)" "vn_parent (m c) = d" "d \<noteq> c"
    "kseg m (vn_children (m d)) (K d)" "distinct (K d)" "distinct (map (\<lambda>k. vn_name (m k)) (K d))"
proof -
  show a: "tree_ok m root N K" "c \<in> N" "c \<noteq> root" "K c = []" "vn_parent (m c) = d"
    using assms unfolding leaf_at_def by auto
  then show b: "d \<in> N" "c \<in> set (K d)" using tree_okD(7) by blast+
  then show "d \<noteq> c" using a(4) by auto
  show "kseg m (vn_children (m d)) (K d)" "distinct (K d)" "distinct (map (\<lambda>k. vn_name (m k)) (K d))"
    using kids_okD(1,2,3) [OF tree_okD(6) [OF a(1) b(1)]] .
qed

lemma child_unlinked:
  assumes l: "leaf_at m root N K d c" and a: "a \<in> N"
  shows "child (kids_unlinked K d c) (unlinked m d c (K d)) a n =
     (if child K m a n = Some c then None else child K m a n)"
proof -
  note L = leaf_atD [OF l]
  have nm: "named (unlinked m d c (K d)) ks n = named m ks n" for ks
    by (intro named_cong unlinked_fields(1))
  show ?thesis
  proof (cases "a = d")
    case True
    have "child K m d n = Some c \<longleftrightarrow> n = vn_name (m c)"
      using named_unique [OF L(11,6)] named_Some [of m "K d" n c] by (auto simp: child_def)
    then show ?thesis
      using True named_remove1 [OF L(11,6), of n] by (simp add: child_def kids_unlinked_def nm)
  next
    case False
    have "child K m a n \<noteq> Some c" using child_in [OF L(1) a, of n c] L(7) False by blast
    then show ?thesis using False by (simp add: child_def kids_unlinked_def nm)
  qed
qed

text \<open>The map from paths to nodes loses the leaf.\<close>

lemma down_unlinked:
  assumes l: "leaf_at m root N K d c"
  shows "down (kids_unlinked K d c) (unlinked m d c (K d)) root ns =
     (if down K m root ns = Some c then None else down K m root ns)"
proof (induction ns rule: rev_induct)
  case Nil
  then show ?case using leaf_atD(3) [OF l] by simp
next
  case (snoc n ns)
  note L = leaf_atD [OF l]
  show ?case
  proof (cases "down K m root ns")
    case None
    then show ?thesis using snoc by (simp add: down_snoc)
  next
    case (Some a)
    then have a: "a \<in> N" using down_in [OF L(1) tree_okD(3) [OF L(1)]] by blast
    show ?thesis
    proof (cases "a = c")
      case True
      then have "child K m a n = None" using L(4) by (simp add: child_def)
      then show ?thesis using True Some snoc by (simp add: down_snoc)
    next
      case False
      then show ?thesis using Some snoc child_unlinked [OF l a, of n] by (simp add: down_snoc)
    qed
  qed
qed

lemma kids_ok_unlinked:
  assumes l: "leaf_at m root N K d c" and a: "a \<in> N" "a \<noteq> c"
  shows "kids_ok (unlinked m d c (K d)) root (N - {c}) (kids_unlinked K d c) a"
proof -
  note L = leaf_atD [OF l] and k = tree_okD(6) [OF leaf_atD(1) [OF l] a(1)]
  let ?m = "unlinked m d c (K d)"
  show ?thesis
  proof (cases "a = d")
    case True
    have "set (remove1 c (K d)) = set (K d) - {c}" using L(10) by simp
    moreover have "distinct (map (\<lambda>k. vn_name (m k)) (remove1 c (K d)))"
      using L(11) distinct_remove1 [OF L(10), of c]
      by (auto simp: distinct_map intro: inj_on_subset dest: notin_set_remove1 [THEN contrapos_nn])
    moreover have "vn_type (m d) = NODE_DIR" using kids_okD(5) [OF k] True L(6) by fastforce
    ultimately show ?thesis
      using True kseg_unlinked [OF L(9,10,6)] kids_okD(4) [OF k] L(6,10)
      by (auto simp: kids_ok_def kids_unlinked_def unlinked_fields)
  next
    case False
    have "set (K a) \<inter> set (K d) = {}" using kids_okD(4) [OF k] kids_okD(4) [OF tree_okD(6) [OF L(1,5)]] False by blast
    then have "kseg ?m x (K a) = kseg m x (K a)" for x by (intro kseg_cong unlinked_fields(7)) auto
    moreover have "c \<notin> set (K a)" using kids_okD(4) [OF k] L(7) False by blast
    ultimately show ?thesis using False k by (auto simp: kids_ok_def kids_unlinked_def unlinked_fields)
  qed
qed

lemma tree_unlinked:
  assumes l: "leaf_at m root N K d c"
  shows "tree_ok (unlinked m d c (K d)) root (N - {c}) (kids_unlinked K d c)"
  unfolding tree_ok_def
proof (intro conjI ballI)
  note L = leaf_atD [OF l]
  fix a assume a: "a \<in> N - {c}"
  then show "kids_ok (unlinked m d c (K d)) root (N - {c}) (kids_unlinked K d c) a"
    using kids_ok_unlinked [OF l] by blast
  obtain ns where "down K m root ns = Some a" using tree_okD(8) [OF L(1), of a] a by blast
  then show "\<exists>ns. down (kids_unlinked K d c) (unlinked m d c (K d)) root ns = Some a"
    using a by (intro exI [of _ ns]) (simp add: down_unlinked [OF l])
next
  note L = leaf_atD [OF l]
  fix a assume a: "a \<in> N - {c} - {root}"
  note old = tree_okD(7) [OF L(1), of a]
  then have "vn_parent (m a) \<noteq> c" using a L(4) by auto
  then show "vn_parent (unlinked m d c (K d) a) \<in> N - {c}" "plain (vn_name (unlinked m d c (K d) a))"
    using a old by (auto simp: unlinked_fields)
  show "a \<in> set (kids_unlinked K d c (vn_parent (unlinked m d c (K d) a)))"
    using a old L(10) by (auto simp: unlinked_fields kids_unlinked_def)
qed (use leaf_atD [OF l] tree_okD(1-5) [OF leaf_atD(1) [OF l]] in \<open>auto simp: unlinked_fields\<close>)

section \<open>Paths\<close>

text \<open>The names a path is made of.\<close>

function comps :: "u8 list \<Rightarrow> u8 list list" where
  "comps path =
     (let p = dropWhile (\<lambda>c. c = 47) path
      in if p = [] then [] else takeWhile (\<lambda>c. c \<noteq> 47) p # comps (dropWhile (\<lambda>c. c \<noteq> 47) p))"
  by pat_completeness auto
termination
  by (relation "measure length") (auto simp: rest_shorter)

declare comps.simps [simp del]

lemma comps_Nil [simp]: "comps [] = []"
  by (subst comps.simps) simp

lemma comps_slash [simp]: "comps (47 # xs) = comps xs"
  by (subst (1 2) comps.simps) simp

lemma comps_name: "47 \<notin> set xs \<Longrightarrow> xs \<noteq> [] \<Longrightarrow> comps xs = [xs]"
proof -
  assume a: "47 \<notin> set xs" "xs \<noteq> []"
  then have e: "dropWhile (\<lambda>c. c = 47) xs = xs" by (cases xs) auto
  have t: "takeWhile (\<lambda>c. c \<noteq> 47) xs = xs" "dropWhile (\<lambda>c. c \<noteq> 47) xs = []"
    using a(1) by (auto simp: takeWhile_eq_all_conv dropWhile_eq_Nil_conv)
  have "comps xs = (if xs = [] then [] else xs # comps [])" unfolding comps.simps [of xs] Let_def e t ..
  then show ?thesis using a(2) by simp
qed

lemma cut_at_slash:
  "takeWhile (\<lambda>c. c \<noteq> 47) (zs @ 47 # ys) = takeWhile (\<lambda>c. c \<noteq> (47 :: u8)) zs"
  "dropWhile (\<lambda>c. c \<noteq> 47) (zs @ 47 # ys) = dropWhile (\<lambda>c. c \<noteq> 47) zs @ 47 # ys"
  by (induction zs) auto

lemma comps_append_slash: "comps (xs @ 47 # ys) = comps xs @ comps ys"
proof (induction xs rule: comps.induct)
  case (1 xs)
  let ?p = "dropWhile (\<lambda>c. c = 47) xs"
  show ?case
  proof (cases "?p = []")
    case True
    then have "\<forall>c \<in> set xs. c = 47" by (simp add: dropWhile_eq_Nil_conv)
    then have "comps (xs @ zs) = comps zs" for zs by (induction xs) auto
    then show ?thesis using True by (subst (2) comps.simps) simp
  next
    case False
    have d: "dropWhile (\<lambda>c. c = 47) (xs @ 47 # ys) = ?p @ 47 # ys"
      using False dropWhile_append1 [of _ xs "\<lambda>c. c = 47"] by (auto simp: dropWhile_eq_Nil_conv)
    have t: "takeWhile (\<lambda>c. c \<noteq> 47) (?p @ 47 # ys) = takeWhile (\<lambda>c. c \<noteq> 47) ?p"
      "dropWhile (\<lambda>c. c \<noteq> 47) (?p @ 47 # ys) = dropWhile (\<lambda>c. c \<noteq> 47) ?p @ 47 # ys"
      by (rule cut_at_slash)+
    show ?thesis unfolding comps.simps [of "xs @ 47 # ys"] comps.simps [of xs] Let_def d t
      using 1 [OF refl False] False by simp
  qed
qed

lemma last_slash_none: "47 \<notin> set xs \<Longrightarrow> last_slash i f xs = f"
  by (induction xs arbitrary: i f) auto

lemma last_slash_at: "47 \<notin> set ys \<Longrightarrow> last_slash i f (xs @ 47 # ys) = Some (i + length xs)"
  by (induction xs arbitrary: i f) (auto simp: last_slash_none)

lemma extract_none: "47 \<notin> set xs \<Longrightarrow> extract_loop n xs = n"
  by (induction xs arbitrary: n) auto

lemma extract_at: "47 \<notin> set ys \<Longrightarrow> extract_loop n (xs @ 47 # ys) = ys"
  by (induction xs arbitrary: n) (auto simp: extract_none)

lemma path_cases:
  obtains (name) "47 \<notin> set (p :: u8 list)" | (split) xs ys where "p = xs @ 47 # ys" "47 \<notin> set ys"
  using split_list_last [of 47 p] by blast

text \<open>The directory part of a path, as \<open>resolve_parent\<close> cuts it off.\<close>

definition dir_part :: "u8 list \<Rightarrow> u8 list" where
  "dir_part p = (case last_slash 0 None p of None \<Rightarrow> [] | Some i \<Rightarrow> take i p)"

lemma extract_name_slash: "47 \<notin> set (extract_name p)"
  by (cases p rule: path_cases) (auto simp: extract_name_def extract_none extract_at)

lemma comps_split: "extract_name p \<noteq> [] \<Longrightarrow> comps p = comps (dir_part p) @ [extract_name p]"
proof (cases p rule: path_cases)
  case name
  then show "extract_name p \<noteq> [] \<Longrightarrow> ?thesis"
    by (simp add: extract_name_def dir_part_def last_slash_none extract_none comps_name)
next
  case (split xs ys)
  then show "extract_name p \<noteq> [] \<Longrightarrow> ?thesis"
    by (simp add: extract_name_def dir_part_def last_slash_at extract_at comps_append_slash comps_name)
qed

lemma resolve_nil: "base \<noteq> 0 \<Longrightarrow> depth \<le> 5 \<Longrightarrow> resolve_path_inner m root base [] depth = Some base"
  by (subst resolve_path_inner.simps) simp

lemma resolve_parent_dir:
  "length p \<le> 255 \<Longrightarrow> vroot s \<noteq> 0 \<Longrightarrow> resolve_parent p s = resolve_path (vroot s) (dir_part p) s"
  by (auto simp: resolve_parent_def dir_part_def resolve_path_def resolve_nil split: option.splits)

section \<open>Resolution\<close>

lemma find_child_tree:
  assumes "tree_ok m root N K" and "a \<in> N"
  shows "find_child m a n = Some (if n = [46] then a else if n = [46, 46] then vn_parent (m a)
    else or_null (child K m a n))"
proof -
  have a: "a \<noteq> 0" using assms tree_okD(2) by metis
  have "vn_parent (m a) \<in> N" using tree_okD(3,4,7) [OF assms(1)] assms(2) by (cases "a = root") auto
  then have "vn_parent (m a) \<noteq> 0" using tree_okD(2) [OF assms(1)] by metis
  moreover have "child_loop m (vn_children (m a)) n = Some (or_null (child K m a n))"
    unfolding child_def using kids_okD(1) [OF tree_okD(6) [OF assms]] by (rule child_loop_named)
  ultimately show ?thesis using a by (simp add: find_child_def)
qed

lemma find_child_in:
  assumes "tree_ok m root N K" and "a \<in> N"
  obtains c where "find_child m a n = Some c" "c = 0 \<or> c \<in> N"
proof -
  have "vn_parent (m a) \<in> N" using tree_okD(3,4,7) [OF assms(1)] assms(2) by (cases "a = root") auto
  moreover have "child K m a n = Some c \<Longrightarrow> c \<in> N" for c using child_in [OF assms] by blast
  ultimately show thesis
    using assms(2) by (intro that [OF find_child_tree [OF assms]]) (cases "child K m a n", auto)
qed

text \<open>
  Resolution always returns, whatever the path and the links on it, and never leaves the tree.
\<close>

lemma resolve_total:
  "tree_ok m root N K \<Longrightarrow> base \<in> N \<Longrightarrow>
     \<exists>a. resolve_path_inner m root base path depth = Some a \<and> (a = 0 \<or> a \<in> N)"
proof (induction m root base path depth rule: resolve_path_inner.induct)
  case (1 m root base path depth)
  let ?p = "dropWhile (\<lambda>c. c = 47) path"
  let ?seg = "takeWhile (\<lambda>c. c \<noteq> 47) ?p"
  let ?rest = "dropWhile (\<lambda>c. c \<noteq> 47) ?p"
  obtain c where c: "find_child m base ?seg = Some c" "c = 0 \<or> c \<in> N" using 1(3,4) by (rule find_child_in)
  have b: "base \<noteq> 0" using 1(3,4) tree_okD(2) by metis
  consider (stop) "depth > 5 \<or> ?p = [] \<or> length ?seg > 63 \<or> c = 0"
    | (link) "\<not> depth > 5" "?p \<noteq> []" "\<not> length ?seg > 63" "c \<noteq> 0" "vn_type (m c) = NODE_SYMLINK"
    | (go) "\<not> depth > 5" "?p \<noteq> []" "\<not> length ?seg > 63" "c \<noteq> 0" "vn_type (m c) \<noteq> NODE_SYMLINK" by blast
  then show ?case
  proof cases
    case stop
    then show ?thesis using b c 1(4) by (subst resolve_path_inner.simps) (auto simp: Let_def simp del: dropWhile_eq_Nil_conv)
  next
    case link
    let ?t = "take 255 (link_target (m c))"
    let ?base = "if take 1 (link_target (m c)) = [47] then root else base"
    have "?base \<in> N" using 1(3,4) tree_okD(3) by auto
    then have "\<exists>a. resolve_path_inner m root ?base (?t @ take (510 - length ?t) ?rest) (depth + 1) = Some a \<and>
        (a = 0 \<or> a \<in> N)"
      using 1(1) [OF link(1) b refl link(2) refl refl link(3) c(1) link(4,5) refl refl 1(3)] by blast
    then show ?thesis using link b c(1) by (subst resolve_path_inner.simps) (simp add: Let_def del: dropWhile_eq_Nil_conv)
  next
    case go
    then have "c \<in> N" using c(2) by simp
    then have "\<exists>a. resolve_path_inner m root c ?rest depth = Some a \<and> (a = 0 \<or> a \<in> N)"
      using 1(2) [OF go(1) b refl go(2) refl refl go(3) c(1) go(4,5) 1(3)] by blast
    then show ?thesis using go b c(1) by (subst resolve_path_inner.simps) (simp add: Let_def del: dropWhile_eq_Nil_conv)
  qed
qed

text \<open>No symbolic link on the way.\<close>

fun nolinks :: "(usize \<Rightarrow> usize list) \<Rightarrow> (usize \<Rightarrow> vnode) \<Rightarrow> usize \<Rightarrow> u8 list list \<Rightarrow> bool" where
  "nolinks K m a [] = True"
| "nolinks K m a (n # ns) =
     (case child K m a n of None \<Rightarrow> True | Some c \<Rightarrow> vn_type (m c) \<noteq> NODE_SYMLINK \<and> nolinks K m c ns)"

definition undotted :: "u8 list list \<Rightarrow> bool" where
  "undotted ns \<longleftrightarrow> [46] \<notin> set ns \<and> [46, 46] \<notin> set ns"

lemma resolve_down:
  "tree_ok m root N K \<Longrightarrow> base \<in> N \<Longrightarrow> depth \<le> 5 \<Longrightarrow> undotted (comps path) \<Longrightarrow> nolinks K m base (comps path) \<Longrightarrow>
     resolve_path_inner m root base path depth = Some (or_null (down K m base (comps path)))"
proof (induction m root base path depth rule: resolve_path_inner.induct)
  case (1 m root base path depth)
  let ?p = "dropWhile (\<lambda>c. c = 47) path"
  let ?seg = "takeWhile (\<lambda>c. c \<noteq> 47) ?p"
  let ?rest = "dropWhile (\<lambda>c. c \<noteq> 47) ?p"
  have b: "base \<noteq> 0" using 1(3,4) tree_okD(2) by metis
  show ?case
  proof (cases "?p = []")
    case True
    then have "comps path = []" by (subst comps.simps) simp
    then show ?thesis using True b 1(5) by (subst resolve_path_inner.simps) simp
  next
    case False
    then have cp: "comps path = ?seg # comps ?rest" by (subst comps.simps) (simp add: Let_def)
    have dots: "?seg \<noteq> [46]" "?seg \<noteq> [46, 46]" "undotted (comps ?rest)" using 1(6) cp by (auto simp: undotted_def)
    have fc: "find_child m base ?seg = Some (or_null (child K m base ?seg))"
      using find_child_tree [OF 1(3,4), of ?seg] dots by simp
    show ?thesis
    proof (cases "child K m base ?seg")
      case None
      then show ?thesis using False b fc 1(5) unfolding cp by (subst resolve_path_inner.simps) (simp add: Let_def del: dropWhile_eq_Nil_conv)
    next
      case (Some c)
      note c = child_in [OF 1(3,4) Some]
      have "plain (vn_name (m c))" using tree_okD(7) [OF 1(3)] c by blast
      then have len: "\<not> length ?seg > 63" using c by (simp add: plain_def)
      have c0: "c \<noteq> 0" using c tree_okD(2) [OF 1(3)] by metis
      have nl: "vn_type (m c) \<noteq> NODE_SYMLINK" "nolinks K m c (comps ?rest)" using 1(7) Some unfolding cp by auto
      have "resolve_path_inner m root base path depth = resolve_path_inner m root c ?rest depth"
        using False b fc 1(5) len c0 nl Some by (subst resolve_path_inner.simps) (simp add: Let_def del: dropWhile_eq_Nil_conv)
      also have "\<dots> = Some (or_null (down K m c (comps ?rest)))"
        using 1(2) [OF _ b refl False refl refl len fc [unfolded Some or_null_simps] c0 nl(1) 1(3)] c nl(2) dots(3) 1(5)
        by auto
      finally show ?thesis using Some unfolding cp by simp
    qed
  qed
qed

section \<open>Counting\<close>

definition below :: "(usize \<Rightarrow> usize list) \<Rightarrow> (usize \<Rightarrow> vnode) \<Rightarrow> usize \<Rightarrow> usize set" where
  "below K m a = {c. \<exists>ns. down K m a ns = Some c}"

lemma below_in: "tree_ok m root N K \<Longrightarrow> a \<in> N \<Longrightarrow> below K m a \<subseteq> N"
  using down_in by (auto simp: below_def)

lemma kid_child:
  assumes "tree_ok m root N K" and "a \<in> N" and "k \<in> set (K a)"
  shows "child K m a (vn_name (m k)) = Some k"
  unfolding child_def using kids_okD(3) [OF tree_okD(6) [OF assms(1,2)]] assms(3) by (rule named_unique)

lemma below_step:
  assumes "tree_ok m root N K" and "a \<in> N"
  shows "below K m a = insert a (\<Union>k \<in> set (K a). below K m k)"
proof
  show "below K m a \<subseteq> insert a (\<Union>k \<in> set (K a). below K m k)"
  proof
    fix c assume "c \<in> below K m a"
    then obtain ns where ns: "down K m a ns = Some c" by (auto simp: below_def)
    show "c \<in> insert a (\<Union>k \<in> set (K a). below K m k)"
    proof (cases ns)
      case (Cons n ps)
      then obtain k where "child K m a n = Some k" "down K m k ps = Some c" using ns by (auto split: bind_splits)
      then show ?thesis using named_Some [of m "K a" n k] by (auto simp: child_def below_def)
    qed (use ns in simp)
  qed
  have "c \<in> below K m a" if "k \<in> set (K a)" "down K m k ns = Some c" for k c ns
    using kid_child [OF assms that(1)] that(2) unfolding below_def
    by (intro CollectI exI [of _ "vn_name (m k) # ns"]) simp
  moreover have "a \<in> below K m a" unfolding below_def by (intro CollectI exI [of _ "[]"]) simp
  ultimately show "insert a (\<Union>k \<in> set (K a). below K m k) \<subseteq> below K m a" by (auto simp: below_def)
qed

lemma below_path:
  assumes t: "tree_ok m root N K" and a: "a \<in> N" and k: "k \<in> set (K a)" and c: "c \<in> below K m k"
  obtains as ns where "down K m root as = Some a" "down K m root (as @ vn_name (m k) # ns) = Some c"
proof -
  obtain as where as: "down K m root as = Some a" using tree_okD(8) [OF t a] by blast
  obtain ns where "down K m k ns = Some c" using c by (auto simp: below_def)
  then have "down K m root (as @ vn_name (m k) # ns) = Some c"
    using as kid_child [OF t a k] by (simp add: down_append)
  with as show thesis by (rule that)
qed

lemma below_disjoint:
  assumes t: "tree_ok m root N K" and a: "a \<in> N" and k: "k \<in> set (K a)"
  shows "a \<notin> below K m k" "j \<in> set (K a) \<Longrightarrow> j \<noteq> k \<Longrightarrow> below K m j \<inter> below K m k = {}"
proof -
  show "a \<notin> below K m k"
  proof
    assume "a \<in> below K m k"
    with t a k obtain as ns where p: "down K m root as = Some a" "down K m root (as @ vn_name (m k) # ns) = Some a"
      by (rule below_path)
    from down_unique [OF t this] show False by simp
  qed
  assume j: "j \<in> set (K a)" "j \<noteq> k"
  show "below K m j \<inter> below K m k = {}"
  proof (rule equals0I)
    fix c assume c: "c \<in> below K m j \<inter> below K m k"
    obtain as ns where p: "down K m root as = Some a" "down K m root (as @ vn_name (m k) # ns) = Some c"
      using t a k c by (auto elim: below_path)
    obtain bs ps where q: "down K m root bs = Some a" "down K m root (bs @ vn_name (m j) # ps) = Some c"
      using t a j(1) c by (auto elim: below_path)
    have "as = bs" using t p(1) q(1) by (rule down_unique)
    moreover have "as @ vn_name (m k) # ns = bs @ vn_name (m j) # ps" using t p(2) q(2) by (rule down_unique)
    ultimately have "child K m a (vn_name (m k)) = child K m a (vn_name (m j))" by simp
    then show False using kid_child [OF t a k] kid_child [OF t a j(1)] j(2) by simp
  qed
qed

lemma count_children_below:
  assumes t: "tree_ok m root N K"
  shows "kseg m c ks \<Longrightarrow> a \<in> N \<Longrightarrow> set ks \<subseteq> set (K a) \<Longrightarrow> distinct ks \<Longrightarrow>
    count_children m c = Some (of_nat (card (\<Union>k \<in> set ks. below K m k)))"
proof (induction "card (\<Union>k \<in> set ks. below K m k)" arbitrary: c ks a rule: less_induct)
  case less
  note fin = finite_subset [OF below_in [OF t] tree_okD(1) [OF t]]
  show ?case
  proof (cases ks)
    case Nil
    then show ?thesis using less.prems by (subst count_children.simps) simp
  next
    case (Cons k js)
    have k: "c = k" "k \<noteq> 0" "kseg m (vn_next (m k)) js" using less.prems(1) Cons by auto
    have kK: "k \<in> set (K a)" using less.prems(3) Cons by auto
    have kN: "k \<in> N" using kids_okD(4) [OF tree_okD(6) [OF t less.prems(2)] kK] by blast
    let ?down = "\<Union>j \<in> set (K k). below K m j" and ?side = "\<Union>j \<in> set js. below K m j"
    have bk: "below K m k = insert k ?down" using t kN by (rule below_step)
    have js: "j \<in> N" if "j \<in> set js" for j
      using kids_okD(4) [OF tree_okD(6) [OF t less.prems(2)], of j] less.prems(3) Cons that by auto
    have f: "finite (below K m k)" "finite ?side" using fin kN js by auto
    have notk: "k \<notin> ?down" using below_disjoint(1) [OF t kN] by blast
    have dis: "below K m k \<inter> ?side = {}"
      using below_disjoint(2) [OF t less.prems(2) kK] less.prems(3,4) Cons by fastforce
    have tot: "card (\<Union>k \<in> set ks. below K m k) = 1 + card ?down + card ?side"
    proof -
      have "card (below K m k) = 1 + card ?down" using notk f(1) unfolding bk by simp
      then show ?thesis using card_Un_disjoint [OF f dis] unfolding Cons by simp
    qed
    have d: "count_children m (vn_children (m k)) = Some (of_nat (card ?down))"
      using kids_okD(1,2) [OF tree_okD(6) [OF t kN]] kN tot by (intro less.hyps) auto
    have "count_children m (vn_next (m k)) = Some (of_nat (card ?side))"
      using k(3) less.prems(2-4) Cons tot by (intro less.hyps [of js]) auto
    then show ?thesis using k d unfolding tot by (subst count_children.simps) (simp add: add.assoc)
  qed
qed

lemma count_nodes_card:
  assumes t: "tree_ok m root N K"
  shows "count_nodes_recursive m root = Some (of_nat (card N))"
proof -
  note R = tree_okD(3) [OF t]
  have "N = below K m root" using below_in [OF t R] tree_okD(8) [OF t] by (auto simp: below_def)
  then have N: "N = insert root (\<Union>k \<in> set (K root). below K m k)" using below_step [OF t R] by simp
  have "root \<notin> (\<Union>k \<in> set (K root). below K m k)" using below_disjoint(1) [OF t R] by blast
  then have "card N = 1 + card (\<Union>k \<in> set (K root). below K m k)"
    using N tree_okD(1) [OF t] by (metis card_insert_disjoint finite_insert plus_1_eq_Suc)
  moreover have "count_children m (vn_children (m root)) = Some (of_nat (card (\<Union>k \<in> set (K root). below K m k)))"
    using kids_okD(1,2) [OF tree_okD(6) [OF t R]] R by (intro count_children_below [OF t]) auto
  moreover have "root \<noteq> 0" using R tree_okD(2) [OF t] by metis
  ultimately show ?thesis by (simp add: count_nodes_recursive_def)
qed

end
