(* ===== verification/Vfs.thy ===== *)
theory Vfs
  imports Vtree
begin

text \<open>
  The operations of the virtual file system on the node tree, as operations on the map \<open>files\<close> from
  lists of names to nodes. The invariant adds to \<open>tree_ok\<close> that every node is a live block of the heap
  and that the contents of each file are a live block of their own, large enough for its size.
\<close>

section \<open>Files by path\<close>

definition step :: "(usize \<Rightarrow> vnode) \<Rightarrow> usize \<Rightarrow> u8 list \<Rightarrow> usize option" where
  "step m a n = (case child_loop m (vn_children (m a)) n of
                   Some c \<Rightarrow> if c = 0 then None else Some c
                 | None \<Rightarrow> None)"

fun walk :: "(usize \<Rightarrow> vnode) \<Rightarrow> usize \<Rightarrow> u8 list list \<Rightarrow> usize option" where
  "walk m a [] = Some a"
| "walk m a (n # ns) = Option.bind (step m a n) (\<lambda>c. walk m c ns)"

definition files :: "'h vfs \<Rightarrow> u8 list list \<Rightarrow> usize option" where
  "files s = walk (vnodes s) (vroot s)"

text \<open>No symbolic link on the way along the names.\<close>

fun straight :: "(usize \<Rightarrow> vnode) \<Rightarrow> usize \<Rightarrow> u8 list list \<Rightarrow> bool" where
  "straight m a [] = True"
| "straight m a (n # ns) =
     (case step m a n of None \<Rightarrow> True | Some c \<Rightarrow> vn_type (m c) \<noteq> NODE_SYMLINK \<and> straight m c ns)"

text \<open>
  The paths the theorems are about: they fit the buffer of \<open>resolve_parent\<close>, the last name fits a node,
  no name is \<open>.\<close> or \<open>..\<close>, and no directory on the way is a symbolic link.
\<close>

definition path_ok :: "'h vfs \<Rightarrow> u8 list \<Rightarrow> bool" where
  "path_ok s p \<longleftrightarrow> length p \<le> 255 \<and> length (extract_name p) \<le> 63 \<and>
     undotted (extract_name p # comps (dir_part p)) \<and> straight (vnodes s) (vroot s) (comps (dir_part p))"

lemma step_child:
  assumes "tree_ok m root N K" and "a \<in> N"
  shows "step m a n = child K m a n"
proof -
  have "child K m a n \<noteq> Some 0" using child_in [OF assms, of n 0] tree_okD(2) [OF assms(1)] by blast
  then show ?thesis
    using child_loop_named [OF kids_okD(1) [OF tree_okD(6) [OF assms]], of n]
    by (cases "child K m a n") (auto simp: step_def child_def)
qed

lemma walk_down: "tree_ok m root N K \<Longrightarrow> a \<in> N \<Longrightarrow> walk m a ns = down K m a ns"
proof (induction ns arbitrary: a)
  case (Cons n ns)
  then show ?case
    using step_child [OF Cons.prems, of n] child_in [OF Cons.prems, of n] by (cases "child K m a n") auto
qed simp

lemma straight_nolinks: "tree_ok m root N K \<Longrightarrow> a \<in> N \<Longrightarrow> straight m a ns = nolinks K m a ns"
proof (induction ns arbitrary: a)
  case (Cons n ns)
  then show ?case
    using step_child [OF Cons.prems, of n] child_in [OF Cons.prems, of n] by (cases "child K m a n") auto
qed simp

section \<open>The invariant\<close>

definition contents :: "'h vfs \<Rightarrow> usize \<Rightarrow> u8 list" where
  "contents s a = map (\<lambda>i. vmem s (vn_data (vnodes s a) + i)) [0..<unat (vn_size (vnodes s a))]"

definition data_ok :: "(usize \<times> usize) set \<Rightarrow> (usize \<Rightarrow> vnode) \<Rightarrow> usize set \<Rightarrow> bool" where
  "data_ok L m N \<longleftrightarrow>
     (\<forall>a \<in> N. if vn_data (m a) = 0 then vn_size (m a) = 0
              else vn_type (m a) = NODE_FILE \<and> vn_data (m a) \<notin> N \<and>
                   (\<exists>z \<ge> unat (vn_size (m a)). (vn_data (m a), z) \<in> L)) \<and>
     inj_on (\<lambda>a. vn_data (m a)) {a \<in> N. vn_data (m a) \<noteq> 0}"

definition vfs_inv :: "('h \<Rightarrow> (usize \<times> usize) set) \<Rightarrow> 'h vfs \<Rightarrow> usize set \<Rightarrow> (usize \<Rightarrow> usize list) \<Rightarrow> bool" where
  "vfs_inv live s N K \<longleftrightarrow>
     tree_ok (vnodes s) (vroot s) N K \<and> N \<subseteq> fst ` live (fheap s) \<and> data_ok (live (fheap s)) (vnodes s) N"

lemma vfs_invD:
  assumes "vfs_inv live s N K"
  shows "tree_ok (vnodes s) (vroot s) N K" "N \<subseteq> fst ` live (fheap s)" "data_ok (live (fheap s)) (vnodes s) N"
    "vroot s \<in> N" "vroot s \<noteq> 0"
  using assms tree_okD(2,3) unfolding vfs_inv_def by metis+

lemma files_down: "vfs_inv live s N K \<Longrightarrow> files s ns = down K (vnodes s) (vroot s) ns"
  unfolding files_def by (rule walk_down) (auto dest: vfs_invD)

lemma files_in: "vfs_inv live s N K \<Longrightarrow> files s ns = Some a \<Longrightarrow> a \<in> N"
  using down_in vfs_invD(1,4) files_down by metis

text \<open>Only the new blocks matter for a larger heap.\<close>

lemma data_ok_mono: "data_ok L m N \<Longrightarrow> L \<subseteq> L' \<Longrightarrow> data_ok L' m N"
proof -
  assume d: "data_ok L m N" and s: "L \<subseteq> L'"
  have "\<exists>z \<ge> k. (x, z) \<in> L \<Longrightarrow> \<exists>z \<ge> k. (x, z) \<in> L'" for k x using s by blast
  with d show ?thesis unfolding data_ok_def by (simp split: if_splits)
qed

lemma data_okD:
  assumes "data_ok L m N" and "a \<in> N"
  shows "vn_data (m a) = 0 \<Longrightarrow> vn_size (m a) = 0"
    "vn_data (m a) \<noteq> 0 \<Longrightarrow> vn_type (m a) = NODE_FILE \<and> vn_data (m a) \<notin> N \<and>
       (\<exists>z. (vn_data (m a), z) \<in> L \<and> unat (vn_size (m a)) \<le> z)"
    "vn_data (m a) \<noteq> 0 \<Longrightarrow> b \<in> N \<Longrightarrow> vn_data (m b) = vn_data (m a) \<Longrightarrow> b = a"
proof -
  have "if vn_data (m a) = 0 then vn_size (m a) = 0
     else vn_type (m a) = NODE_FILE \<and> vn_data (m a) \<notin> N \<and> (\<exists>z \<ge> unat (vn_size (m a)). (vn_data (m a), z) \<in> L)"
    using assms unfolding data_ok_def by blast
  then show "vn_data (m a) = 0 \<Longrightarrow> vn_size (m a) = 0"
    "vn_data (m a) \<noteq> 0 \<Longrightarrow> vn_type (m a) = NODE_FILE \<and> vn_data (m a) \<notin> N \<and>
       (\<exists>z. (vn_data (m a), z) \<in> L \<and> unat (vn_size (m a)) \<le> z)" by auto
  show "vn_data (m a) \<noteq> 0 \<Longrightarrow> b \<in> N \<Longrightarrow> vn_data (m b) = vn_data (m a) \<Longrightarrow> b = a"
    using assms unfolding data_ok_def inj_on_def by auto
qed

lemma data_ok_cong:
  "data_ok L m N \<Longrightarrow> (\<And>a. a \<in> N \<Longrightarrow> vn_data (m' a) = vn_data (m a) \<and> vn_size (m' a) = vn_size (m a) \<and>
     vn_type (m' a) = vn_type (m a)) \<Longrightarrow> data_ok L m' N"
  unfolding data_ok_def inj_on_def by auto

text \<open>Resolution of the paths considered.\<close>

lemma resolve_parent_files:
  assumes i: "vfs_inv live s N K" and p: "path_ok s p"
  shows "resolve_parent p s = Some (or_null (files s (comps (dir_part p))))"
proof -
  note I = vfs_invD [OF i]
  have "resolve_parent p s = resolve_path (vroot s) (dir_part p) s"
    using p I(5) by (intro resolve_parent_dir) (auto simp: path_ok_def)
  also have "\<dots> = Some (or_null (down K (vnodes s) (vroot s) (comps (dir_part p))))"
    unfolding resolve_path_def using p straight_nolinks [OF I(1,4)]
    by (intro resolve_down [OF I(1,4)]) (auto simp: path_ok_def undotted_def)
  finally show ?thesis unfolding files_down [OF i] .
qed

lemma files_name:
  assumes i: "vfs_inv live s N K" and d: "files s (comps (dir_part p)) = Some d" and n: "extract_name p \<noteq> []"
  shows "files s (comps p) = child K (vnodes s) d (extract_name p)"
  using d unfolding files_down [OF i] comps_split [OF n] down_snoc by simp

lemma find_child_files:
  assumes i: "vfs_inv live s N K" and p: "path_ok s p" and d: "files s (comps (dir_part p)) = Some d"
  shows "find_child (vnodes s) d (extract_name p) =
    Some (or_null (if extract_name p = [] then None else files s (comps p)))"
proof -
  note I = vfs_invD [OF i]
  have dN: "d \<in> N" using i d by (rule files_in)
  have "child K (vnodes s) d [] = None"
    using child_in [OF I(1) dN, of "[]"] tree_okD(7) [OF I(1)] by (cases "child K (vnodes s) d []") (auto simp: plain_def)
  then show ?thesis
    using find_child_tree [OF I(1) dN, of "extract_name p"] p files_name [OF i d]
    by (auto simp: path_ok_def undotted_def)
qed

lemma nodes_ran: "vfs_inv live s N K \<Longrightarrow> ran (files s) = N"
  using files_in tree_okD(8) [OF vfs_invD(1)] files_down by (fastforce simp: ran_def)

lemma resolve_inner:
  "vfs_inv live s N K \<Longrightarrow> krust_vfs_resolve (Some p) s = resolve_path_inner (vnodes s) (vroot s) (vroot s) p 0"
  by (frule vfs_invD(5)) (auto simp: krust_vfs_resolve_def resolve_path_def resolve_nil)

lemma resolve_ran:
  "vfs_inv live s N K \<Longrightarrow> \<exists>a. krust_vfs_resolve (Some p) s = Some a \<and> (a = 0 \<or> a \<in> ran (files s))"
  using resolve_total [OF vfs_invD(1,4)] by (simp add: resolve_inner nodes_ran)

lemma resolve_files:
  assumes v: "vfs_inv live s N K" and "undotted (comps p)" and "straight (vnodes s) (vroot s) (comps p)"
  shows "krust_vfs_resolve (Some p) s = Some (or_null (files s (comps p)))"
  unfolding resolve_inner [OF v] files_down [OF v] using assms straight_nolinks [OF vfs_invD(1,4) [OF v]]
  by (intro resolve_down [OF vfs_invD(1,4) [OF v]]) simp_all

text \<open>
  What a path means: the list of names it leads to from a directory \<open>d\<close>, when at most \<open>k\<close> links are
  followed. A dot stays, two dots go to the directory above, and the root is above itself. A link stands
  for its target, read from the root when it begins with a slash and otherwise from the directory that
  holds the link.
\<close>

function leads :: "'h vfs \<Rightarrow> nat \<Rightarrow> u8 list list \<Rightarrow> u8 list list \<Rightarrow> u8 list list option" where
  "leads s k d [] = Some d"
| "leads s k d (n # ns) =
     (if n = [46] then leads s k d ns
      else if n = [46, 46] then leads s k (butlast d) ns
      else case files s (d @ [n]) of
             None \<Rightarrow> None
           | Some a \<Rightarrow>
               if vn_type (vnodes s a) \<noteq> NODE_SYMLINK then leads s k (d @ [n]) ns
               else if k = 0 then None
               else let t = link_target (vnodes s a)
                    in leads s (k - 1) (if take 1 t = [47] then [] else d) (comps t @ ns))"
  by pat_completeness auto
termination
  by (relation "measures [\<lambda>(s, k, d, ns). k, \<lambda>(s, k, d, ns). length ns]") auto

text \<open>The node a path leads to, if any.\<close>

definition meant :: "u8 list \<Rightarrow> 'h vfs \<Rightarrow> usize option" where
  "meant p s = Option.bind (leads s 5 [] (comps p)) (files s)"

text \<open>The targets of the links are so short that the buffer for the path with targets filled in is not cut off.\<close>

definition links_fit :: "u8 list \<Rightarrow> 'h vfs \<Rightarrow> bool" where
  "links_fit p s \<longleftrightarrow>
     (\<exists>b. length p + 5 * b \<le> 510 \<and> (\<forall>a \<in> ran (files s). vn_type (vnodes s a) = NODE_SYMLINK \<longrightarrow> length (link_target (vnodes s a)) \<le> b))"

lemma comps_rest: "rest = [] \<or> hd rest = 47 \<Longrightarrow> comps (xs @ rest) = comps xs @ comps rest"
  by (cases rest) (auto simp: comps_append_slash)

lemma parent_files:
  assumes v: "vfs_inv live s N K" and d: "files s d = Some a"
  shows "files s (butlast d) = Some (vn_parent (vnodes s a))" "vn_type (vnodes s (vn_parent (vnodes s a))) \<noteq> NODE_SYMLINK"
proof -
  note I = vfs_invD [OF v]
  have dir: "NODE_DIR \<noteq> NODE_SYMLINK" by (simp add: NODE_DIR_def NODE_SYMLINK_def)
  have "files s (butlast d) = Some (vn_parent (vnodes s a)) \<and> vn_type (vnodes s (vn_parent (vnodes s a))) = NODE_DIR"
  proof (cases d rule: rev_cases)
    case Nil
    then show ?thesis using d tree_okD(4,5) [OF I(1)] by (simp add: files_def)
  next
    case (snoc e n)
    then obtain b where b: "files s e = Some b" "child K (vnodes s) b n = Some a"
      using d unfolding files_down [OF v] by (auto simp: down_snoc split: bind_splits)
    have bN: "b \<in> N" using files_in [OF v b(1)] .
    note c = child_in [OF I(1) bN b(2)]
    have "a \<in> set (K b)" using tree_okD(7) [OF I(1)] c by blast
    then have "K b \<noteq> []" by auto
    then have "vn_type (vnodes s b) = NODE_DIR" by (rule kids_okD(5) [OF tree_okD(6) [OF I(1) bN]])
    then show ?thesis using b(1) c snoc by simp
  qed
  then show "files s (butlast d) = Some (vn_parent (vnodes s a))" "vn_type (vnodes s (vn_parent (vnodes s a))) \<noteq> NODE_SYMLINK"
    using dir by auto
qed

lemma find_child_leads:
  assumes v: "vfs_inv live s N K" and d: "files s d = Some base"
  shows "find_child (vnodes s) base n =
    Some (if n = [46] then base else if n = [46, 46] then vn_parent (vnodes s base) else or_null (files s (d @ [n])))"
  using find_child_tree [OF vfs_invD(1) [OF v] files_in [OF v d], of n] d unfolding files_down [OF v] by (simp add: down_snoc)

lemma long_name: "vfs_inv live s N K \<Longrightarrow> length n > 63 \<Longrightarrow> files s (d @ [n]) = None"
proof (rule ccontr)
  assume v: "vfs_inv live s N K" and n: "length n > 63" and "files s (d @ [n]) \<noteq> None"
  then obtain a b where b: "files s d = Some b" "child K (vnodes s) b n = Some a"
    unfolding files_down [OF v] by (auto simp: down_snoc split: bind_splits)
  from child_in [OF vfs_invD(1) [OF v] files_in [OF v b(1)] b(2)] tree_okD(7) [OF vfs_invD(1) [OF v], of a] n
  show False by (auto simp: plain_def)
qed

text \<open>Resolution follows that meaning, with the links already followed as its depth.\<close>

lemma resolve_leads:
  assumes v: "vfs_inv live s N K" and fit: "5 * B \<le> 510"
    and B: "\<forall>a \<in> ran (files s). vn_type (vnodes s a) = NODE_SYMLINK \<longrightarrow> length (link_target (vnodes s a)) \<le> B"
  shows "m = vnodes s \<Longrightarrow> root = vroot s \<Longrightarrow> files s d = Some base \<Longrightarrow> vn_type (m base) \<noteq> NODE_SYMLINK \<Longrightarrow> depth \<le> 5 \<Longrightarrow>
    length path + (5 - depth) * B \<le> 510 \<Longrightarrow>
    resolve_path_inner m root base path depth = Some (or_null (Option.bind (leads s (5 - depth) d (comps path)) (files s)))"
proof (induction m root base path depth arbitrary: d rule: resolve_path_inner.induct)
  case (1 m root base path depth)
  note I = vfs_invD [OF v]
  let ?p = "dropWhile (\<lambda>c. c = 47) path" let ?seg = "takeWhile (\<lambda>c. c \<noteq> 47) ?p" and ?rest = "dropWhile (\<lambda>c. c \<noteq> 47) ?p"
  have b: "base \<noteq> 0" using files_in [OF v "1.prems"(3)] tree_okD(2) [OF I(1)] by metis
  have dep: "\<not> depth > 5" using "1.prems"(5) by simp
  have st: "vnodes s = m" "vroot s = root" using "1.prems"(1,2) by simp_all
  show ?case
  proof (cases "?p = []")
    case True
    then have "comps path = []" by (subst comps.simps) simp
    then show ?thesis using True b "1.prems" by (subst resolve_path_inner.simps) simp
  next
    case p: False
    have cp: "comps path = ?seg # comps ?rest" using p by (subst comps.simps) (simp add: Let_def)
    have rlen: "length ?rest + (5 - depth) * B \<le> 510" using rest_shorter [OF p] "1.prems"(6) by linarith
    define c where "c = (if ?seg = [46] then base else if ?seg = [46, 46] then vn_parent (m base) else or_null (files s (d @ [?seg])))"
    have fc: "find_child m base ?seg = Some c"
      using find_child_leads [OF v "1.prems"(3), of ?seg] unfolding c_def st by simp
    show ?thesis
    proof (cases "length ?seg > 63 \<or> c = 0")
      case True
      have "c \<noteq> 0" if "?seg = [46] \<or> ?seg = [46, 46]"
        using that b files_in [OF v parent_files(1) [OF v "1.prems"(3)]] tree_okD(2) [OF I(1)] unfolding c_def st by (metis n_not_Suc_n)
      then have s: "?seg \<noteq> [46]" "?seg \<noteq> [46, 46]" using True by auto
      moreover have "files s (d @ [?seg]) = None"
        using True long_name [OF v] s files_in [OF v, of "d @ [?seg]"] tree_okD(2) [OF I(1)]
        unfolding c_def by (cases "files s (d @ [?seg])") auto
      ultimately have "leads s (5 - depth) d (comps path) = None" unfolding cp by simp
      moreover have "resolve_path_inner m root base path depth = Some 0"
        using True p b fc dep by (subst resolve_path_inner.simps) (auto simp: Let_def simp del: dropWhile_eq_Nil_conv)
      ultimately show ?thesis by simp
    next
      case False
      then have seg: "\<not> length ?seg > 63" and c0: "c \<noteq> 0" by auto
      show ?thesis
      proof (cases "vn_type (m c) = NODE_SYMLINK")
        case go: False
        define e where "e = (if ?seg = [46] then d else if ?seg = [46, 46] then butlast d else d @ [?seg])"
        have e: "files s e = Some c"
          using c0 parent_files(1) [OF v "1.prems"(3)] "1.prems"(3) unfolding c_def e_def st
          by (cases "files s (d @ [?seg])") (auto split: if_splits)
        have "leads s (5 - depth) d (comps path) = leads s (5 - depth) e (comps ?rest)"
          using e go unfolding cp e_def st by (auto simp: st)
        moreover have "resolve_path_inner m root base path depth = resolve_path_inner m root c ?rest depth"
          using p b fc dep seg c0 go by (subst resolve_path_inner.simps) (simp add: Let_def del: dropWhile_eq_Nil_conv)
        ultimately show ?thesis
          using "1.IH"(2) [OF dep b refl p refl refl seg fc c0 go "1.prems"(1,2) e go "1.prems"(5) rlen] by simp
      next
        case link: True
        have s: "?seg \<noteq> [46]" "?seg \<noteq> [46, 46]"
          using link "1.prems"(4) parent_files(2) [OF v "1.prems"(3)] unfolding c_def st by (auto split: if_splits)
        then have f: "files s (d @ [?seg]) = Some c" using c0 unfolding c_def by (cases "files s (d @ [?seg])") auto
        let ?t = "link_target (m c)" and ?base = "if take 1 (link_target (m c)) = [47] then root else base"
        have R: "resolve_path_inner m root base path depth =
            resolve_path_inner m root ?base (take 255 ?t @ take (510 - length (take 255 ?t)) ?rest) (depth + 1)"
          using p b fc dep seg c0 link by (subst resolve_path_inner.simps) (simp add: Let_def del: dropWhile_eq_Nil_conv)
        show ?thesis
        proof (cases "depth = 5")
          case True
          then have "leads s (5 - depth) d (comps path) = None" using s f link unfolding cp by (simp add: st)
          then show ?thesis unfolding R using True by (subst resolve_path_inner.simps) simp
        next
          case False
          let ?d = "if take 1 ?t = [47] then [] else d"
          have tl: "length ?t \<le> B" using B f link unfolding st by (blast intro: ranI)
          have k: "5 - depth = Suc (5 - (depth + 1))" using False dep by simp
          have "take 255 ?t = ?t" "510 - length ?t \<ge> length ?rest" using tl fit rlen unfolding k by auto
          then have buf: "take 255 ?t @ take (510 - length (take 255 ?t)) ?rest = ?t @ ?rest" by simp
          have "?rest = [] \<or> hd ?rest = 47" using hd_dropWhile [of "\<lambda>c. c \<noteq> 47" ?p] by auto
          then have cr: "comps (?t @ ?rest) = comps ?t @ comps ?rest" by (rule comps_rest)
          have L: "leads s (5 - depth) d (comps path) = leads s (5 - (depth + 1)) ?d (comps (?t @ ?rest))"
            unfolding cp cr using s f link k by (simp add: st Let_def)
          have fb: "files s ?d = Some ?base" "vn_type (m ?base) \<noteq> NODE_SYMLINK"
            using "1.prems"(3,4) tree_okD(5) [OF I(1)] by (auto simp: files_def st NODE_DIR_def NODE_SYMLINK_def)
          have len: "length (?t @ ?rest) + (5 - (depth + 1)) * B \<le> 510" using tl rlen unfolding k by simp
          have "depth + 1 \<le> 5" using False dep by simp
          from "1.IH"(1) [OF dep b refl p refl refl seg fc c0 link refl refl "1.prems"(1,2) fb this, unfolded buf, OF len]
          show ?thesis unfolding R buf L .
        qed
      qed
    qed
  qed
qed

lemma resolve_meant:
  assumes v: "vfs_inv live s N K" and "links_fit p s"
  shows "krust_vfs_resolve (Some p) s = Some (or_null (meant p s))"
proof -
  obtain b where b: "length p + 5 * b \<le> 510"
    "\<forall>a \<in> ran (files s). vn_type (vnodes s a) = NODE_SYMLINK \<longrightarrow> length (link_target (vnodes s a)) \<le> b"
    using assms(2) by (auto simp: links_fit_def)
  have "files s [] = Some (vroot s)" "vn_type (vnodes s (vroot s)) \<noteq> NODE_SYMLINK"
    using tree_okD(5) [OF vfs_invD(1) [OF v]] by (simp_all add: files_def NODE_DIR_def NODE_SYMLINK_def)
  then show ?thesis
    unfolding resolve_inner [OF v] meant_def using resolve_leads [OF v _ b(2) refl refl, of "[]" "vroot s" 0 p] b(1) by simp
qed

lemma straight_snoc:
  "straight m a (ns @ [n]) \<longleftrightarrow> straight m a ns \<and>
     (\<forall>c. walk m a (ns @ [n]) = Some c \<longrightarrow> vn_type (m c) \<noteq> NODE_SYMLINK)"
  by (induction ns arbitrary: a) (auto split: option.splits)

text \<open>A path whose last name is not a link either.\<close>

lemma resolve_path_ok:
  assumes v: "vfs_inv live s N K" and p: "path_ok s p" "extract_name p \<noteq> []"
    and l: "\<And>a. files s (comps p) = Some a \<Longrightarrow> vn_type (vnodes s a) \<noteq> NODE_SYMLINK"
  shows "krust_vfs_resolve (Some p) s = Some (or_null (files s (comps p)))"
  using p l by (intro resolve_files [OF v])
    (auto simp: path_ok_def comps_split undotted_def straight_snoc files_def)

section \<open>Making and removing nodes\<close>

text \<open>A node as \<open>create_node_raw\<close> makes it, up to the fields the callers set.\<close>

definition raw_node :: "u8 list \<Rightarrow> u8 \<Rightarrow> 'h vfs \<Rightarrow> vnode" where
  "raw_node name ty s =
     (let (uid, gid) = (case cur_task s of None \<Rightarrow> (0, 0) | Some t \<Rightarrow> (t_uid t, t_gid t))
      in \<lparr>vn_name = take 63 name, vn_type = ty, vn_size = 0, vn_parent = 0, vn_children = 0,
          vn_next = 0, vn_data = 0, dev_read = None, dev_write = None, link_target = [],
          vn_uid = uid, vn_gid = gid, vn_mode = default_mode ty\<rparr>)"

lemma raw_node_fields [simp]:
  "vn_name (raw_node name ty s) = take 63 name" "vn_type (raw_node name ty s) = ty"
  "vn_children (raw_node name ty s) = 0" "vn_data (raw_node name ty s) = 0" "vn_size (raw_node name ty s) = 0"
  by (simp_all add: raw_node_def split: prod.splits)

lemma create_node_raw_node:
  "create_node_raw malloc name ty s = map_option (\<lambda>(p, h). if p = 0 then (0, s\<lparr>fheap := h\<rparr>)
     else (p, s\<lparr>fheap := h, vnodes := (vnodes s)(p := raw_node name ty s)\<rparr>)) (malloc VNODE_SIZE (fheap s))"
  by (cases "malloc VNODE_SIZE (fheap s)")
    (auto simp: create_node_raw_def raw_node_def Let_def fun_eq_iff split: prod.splits option.splits)

text \<open>The state after a node has been made at \<open>p\<close>, filled in and linked into \<open>d\<close>.\<close>

definition with_node :: "usize \<Rightarrow> usize \<Rightarrow> vnode \<Rightarrow> 'h \<Rightarrow> 'h vfs \<Rightarrow> 'h vfs" where
  "with_node d p nd h s = s\<lparr>fheap := h, vnodes := linked (vnodes s) d p nd\<rparr>"

lemma link_set_node:
  "link_child d p (set_node p nd (s\<lparr>fheap := h, vnodes := (vnodes s)(p := x)\<rparr>)) = with_node d p nd h s"
  by (simp add: link_child_def set_node_def with_node_def linked_def)

text \<open>What an operation may not change of the nodes that are there: all but the links.\<close>

definition attrs :: "vnode \<Rightarrow> vnode" where
  "attrs n = n\<lparr>vn_next := 0, vn_children := 0\<rparr>"

definition kept :: "'h vfs \<Rightarrow> 'h vfs \<Rightarrow> bool" where
  "kept s s' \<longleftrightarrow> vmem s' = vmem s \<and> vroot s' = vroot s \<and> cur_task s' = cur_task s \<and>
     (\<forall>a \<in> ran (files s) \<inter> ran (files s'). attrs (vnodes s' a) = attrs (vnodes s a))"

text \<open>When a node can be made at a path: the directory is there and may be written, the name is new.\<close>

definition can_create :: "u16 \<Rightarrow> u8 list \<Rightarrow> 'h vfs \<Rightarrow> bool" where
  "can_create want p s \<longleftrightarrow> extract_name p \<noteq> [] \<and> files s (comps p) = None \<and>
     (case files s (comps (dir_part p)) of
        None \<Rightarrow> False
      | Some d \<Rightarrow> vn_type (vnodes s d) = NODE_DIR \<and> check_permission d want s)"

text \<open>What the operations that make a node without contents do.\<close>

definition creation :: "'h malloc \<Rightarrow> u16 \<Rightarrow> u8 list \<Rightarrow> (usize \<Rightarrow> vnode) \<Rightarrow> 'h vfs \<Rightarrow> (i32 \<times> 'h vfs) option" where
  "creation malloc want p fill s =
     (if can_create want p s then
        let d = or_null (files s (comps (dir_part p)))
        in map_option (\<lambda>(a, h). if a = 0 then (- 1, s\<lparr>fheap := h\<rparr>) else (0, with_node d a (fill d) h s))
             (malloc VNODE_SIZE (fheap s))
      else Some (- 1, s))"

lemma or_null_files: "vfs_inv live s N K \<Longrightarrow> or_null (files s ns) = 0 \<longleftrightarrow> files s ns = None"
  using files_in tree_okD(2) [OF vfs_invD(1)] by (cases "files s ns") fastforce+

lemma check_permission_0: "d \<noteq> 0 \<Longrightarrow> check_permission d 0 s"
  by (simp add: check_permission_def Let_def split: option.splits)

lemma create_dir_creation:
  assumes v: "vfs_inv live s N K" and p: "path_ok s p"
  shows "krust_vfs_create_dir malloc (Some p) s =
    creation malloc 6 p (\<lambda>d. (raw_node (extract_name p) NODE_DIR s)\<lparr>vn_parent := d\<rparr>) s"
proof (cases "files s (comps (dir_part p))")
  case None
  then show ?thesis
    using resolve_parent_files [OF v p] by (simp add: krust_vfs_create_dir_def creation_def can_create_def)
next
  case (Some d)
  have "d \<noteq> 0" using or_null_files [OF v, of "comps (dir_part p)"] Some by simp
  moreover have "p \<noteq> []" if "extract_name p \<noteq> []" using that by (auto simp: extract_name_def)
  ultimately show ?thesis
    using Some resolve_parent_files [OF v p] find_child_files [OF v p Some] or_null_files [OF v, of "comps p"]
    by (auto simp: krust_vfs_create_dir_def creation_def can_create_def create_node_raw_node link_set_node Let_def
        map_option_case split: option.splits)
qed

lemma create_device_creation:
  assumes v: "vfs_inv live s N K" and p: "path_ok s p"
  shows "krust_vfs_create_device malloc (Some p) rd wr s =
    creation malloc 0 p (\<lambda>d. (raw_node (extract_name p) NODE_DEVICE s)\<lparr>vn_parent := d, dev_read := rd,
      dev_write := wr\<rparr>) s"
proof (cases "files s (comps (dir_part p))")
  case None
  then show ?thesis
    using resolve_parent_files [OF v p] by (simp add: krust_vfs_create_device_def creation_def can_create_def)
next
  case (Some d)
  have "d \<noteq> 0" using or_null_files [OF v, of "comps (dir_part p)"] Some by simp
  moreover have "p \<noteq> []" if "extract_name p \<noteq> []" using that by (auto simp: extract_name_def)
  ultimately show ?thesis
    using Some resolve_parent_files [OF v p] find_child_files [OF v p Some] or_null_files [OF v, of "comps p"]
    by (auto simp: krust_vfs_create_device_def creation_def can_create_def create_node_raw_node link_set_node
        check_permission_0 Let_def map_option_case split: option.splits)
qed

lemma symlink_creation:
  assumes v: "vfs_inv live s N K" and p: "path_ok s p" and t: "tgt \<noteq> []"
  shows "krust_vfs_symlink malloc (Some tgt) (Some p) s =
    creation malloc 2 p (\<lambda>d. (raw_node (extract_name p) NODE_SYMLINK s)\<lparr>vn_parent := d,
      link_target := take 255 tgt\<rparr>) s"
proof (cases "files s (comps (dir_part p))")
  case None
  then show ?thesis
    using resolve_parent_files [OF v p] by (simp add: krust_vfs_symlink_def creation_def can_create_def)
next
  case (Some d)
  have "d \<noteq> 0" using or_null_files [OF v, of "comps (dir_part p)"] Some by simp
  moreover have "p \<noteq> []" if "extract_name p \<noteq> []" using that by (auto simp: extract_name_def)
  ultimately show ?thesis
    using t Some resolve_parent_files [OF v p] find_child_files [OF v p Some] or_null_files [OF v, of "comps p"]
    by (auto simp: krust_vfs_symlink_def creation_def can_create_def create_node_raw_node link_set_node Let_def
        map_option_case split: option.splits)
qed

text \<open>When a node can be unlinked.\<close>

definition can_unlink :: "u8 list \<Rightarrow> 'h vfs \<Rightarrow> bool" where
  "can_unlink p s \<longleftrightarrow> extract_name p \<noteq> [] \<and>
     (case (files s (comps (dir_part p)), files s (comps p)) of
        (Some d, Some c) \<Rightarrow> check_permission d 6 s \<and> vn_type (vnodes s c) \<in> {NODE_FILE, NODE_SYMLINK}
      | _ \<Rightarrow> False)"

lemma unlink_cases:
  assumes v: "vfs_inv live s N K" and p: "path_ok s p"
  shows "krust_vfs_unlink mfree (Some p) s =
    (if can_unlink p s then
       let d = or_null (files s (comps (dir_part p))); c = or_null (files s (comps p))
       in do { s \<leftarrow> unlink_child d c s; s \<leftarrow> free_node mfree c s; Some (0, s) }
     else Some (- 1, s))"
proof (cases "files s (comps (dir_part p))")
  case None
  then show ?thesis
    using resolve_parent_files [OF v p] by (simp add: krust_vfs_unlink_def can_unlink_def)
next
  case (Some d)
  have "d \<noteq> 0" using or_null_files [OF v, of "comps (dir_part p)"] Some by simp
  moreover have "p \<noteq> []" if "extract_name p \<noteq> []" using that by (auto simp: extract_name_def)
  ultimately show ?thesis
    using Some resolve_parent_files [OF v p] find_child_files [OF v p Some] or_null_files [OF v, of "comps p"]
    by (auto simp: krust_vfs_unlink_def can_unlink_def Let_def split: option.splits)
qed

lemma can_unlink_leaf:
  assumes v: "vfs_inv live s N K" and u: "can_unlink p s"
  obtains d c where "files s (comps (dir_part p)) = Some d" "files s (comps p) = Some c"
    "leaf_at (vnodes s) (vroot s) N K d c"
proof -
  note V = vfs_invD [OF v]
  obtain d c where dc: "files s (comps (dir_part p)) = Some d" "files s (comps p) = Some c"
    "extract_name p \<noteq> []" "vn_type (vnodes s c) \<in> {NODE_FILE, NODE_SYMLINK}"
    using u by (auto simp: can_unlink_def split: option.splits)
  have dN: "d \<in> N" using v dc(1) by (rule files_in)
  have "child K (vnodes s) d (extract_name p) = Some c" using files_name [OF v dc(1,3)] dc(2) by simp
  note c = child_in [OF V(1) dN this]
  have "vn_type (vnodes s c) \<noteq> NODE_DIR" using dc(4) by (auto simp: NODE_FILE_def NODE_DIR_def NODE_SYMLINK_def)
  then have "K c = []" using kids_okD(5) [OF tree_okD(6) [OF V(1)], of c] c by blast
  then show thesis using that [OF dc(1,2)] c V(1) by (simp add: leaf_at_def)
qed

text \<open>The part of the invariant that does not name the nodes and lists.\<close>

definition vfs_good :: "('h \<Rightarrow> (usize \<times> usize) set) \<Rightarrow> ('h \<Rightarrow> bool) \<Rightarrow> 'h vfs \<Rightarrow> bool" where
  "vfs_good live hok s \<longleftrightarrow> hok (fheap s) \<and> (\<exists>N K. vfs_inv live s N K)"

context allocator
begin

lemma with_node_inv:
  assumes i: "inv (fheap s)" and v: "vfs_inv live s N K"
    and m: "malloc n (fheap s) = Some (p, h)" and p: "p \<noteq> 0"
    and d: "d \<in> N" "vn_type (vnodes s d) = NODE_DIR"
    and nd: "vn_parent nd = d" "vn_children nd = 0" "vn_data nd = 0" "vn_size nd = 0" "plain (vn_name nd)"
    and new: "child K (vnodes s) d (vn_name nd) = None"
  shows "inv h" "p \<notin> N" "fresh_at (vnodes s) (vroot s) N K d p nd"
    "vfs_inv live (with_node d p nd h s) (insert p N) (kids_linked K d p)"
proof -
  note V = vfs_invD [OF v]
  show "inv h" using i m by (rule malloc_inv)
  obtain z where z: "live h = insert (p, z) (live (fheap s))" "p \<notin> fst ` live (fheap s)"
    using malloc_block [OF i m p] by blast
  then show pN: "p \<notin> N" using V(2) by blast
  show f: "fresh_at (vnodes s) (vroot s) N K d p nd"
    unfolding fresh_at_def using V(1) d pN p nd new by simp
  let ?m = "linked (vnodes s) d p nd"
  note F = fresh_atD(6) [OF f]
  have old: "vn_data (?m a) = vn_data (vnodes s a) \<and> vn_size (?m a) = vn_size (vnodes s a) \<and>
      vn_type (?m a) = vn_type (vnodes s a)" if "a \<in> N" for a
  proof -
    have "a \<noteq> p" using that pN by blast
    then show ?thesis using linked_old(3,5,6) [OF F] by simp
  qed
  have new: "vn_data (?m p) = 0" "vn_size (?m p) = 0" using F nd by (simp_all add: linked_new)
  have notp: "vn_data (vnodes s a) \<noteq> p" if "a \<in> N" for a
  proof
    assume e: "vn_data (vnodes s a) = p"
    then have "\<exists>y. (p, y) \<in> live (fheap s)" using data_okD(2) [OF V(3) that] p by auto
    then show False using z(2) by (auto simp: image_iff)
  qed
  have "data_ok (live (fheap s)) ?m N" using data_ok_cong [OF V(3) old] .
  then have "data_ok (live h) ?m N" by (rule data_ok_mono) (auto simp: z)
  moreover have "{a \<in> insert p N. vn_data (?m a) \<noteq> 0} = {a \<in> N. vn_data (?m a) \<noteq> 0}" using new by auto
  moreover have "vn_data (?m a) \<noteq> p" if "a \<in> N" for a using notp [OF that] old [OF that] by simp
  ultimately have "data_ok (live h) ?m (insert p N)"
    using new by (auto simp: data_ok_def)
  moreover have "N \<subseteq> fst ` live h" "p \<in> fst ` live h" using V(2) z by auto
  ultimately show "vfs_inv live (with_node d p nd h s) (insert p N) (kids_linked K d p)"
    using tree_linked [OF f] by (simp add: vfs_inv_def with_node_def)
qed

text \<open>A call that fails for lack of memory leaves the tree alone.\<close>

lemma null_inv:
  assumes "inv (fheap s)" and "vfs_inv live s N K" and "malloc n (fheap s) = Some (0, h)"
  shows "inv h" "vfs_inv live (s\<lparr>fheap := h\<rparr>) N K"
  using assms malloc_inv [OF assms(1,3)] malloc_null [OF assms(1,3)] by (auto simp: vfs_inv_def)

lemma files_with_node:
  assumes v: "vfs_inv live s N K" "vfs_inv live (with_node d p nd h s) (insert p N) (kids_linked K d p)"
    and f: "fresh_at (vnodes s) (vroot s) N K d p nd" and ds: "files s ds = Some d"
  shows "files (with_node d p nd h s) = (files s)(ds @ [vn_name nd] \<mapsto> p)"
proof
  fix ns
  have "files (with_node d p nd h s) ns = down (kids_linked K d p) (linked (vnodes s) d p nd) (vroot s) ns"
    using files_down [OF v(2)] by (simp add: with_node_def)
  also have "\<dots> = ((down K (vnodes s) (vroot s))(ds @ [vn_name nd] \<mapsto> p)) ns"
    using ds unfolding files_down [OF v(1)] by (simp add: down_linked [OF f])
  finally show "files (with_node d p nd h s) ns = ((files s)(ds @ [vn_name nd] \<mapsto> p)) ns"
    using files_down [OF v(1)] by simp
qed


lemma make_node:
  assumes i: "inv (fheap s)" and v: "vfs_inv live s N K" and p: "path_ok s p"
    and d: "files s (comps (dir_part p)) = Some d" "vn_type (vnodes s d) = NODE_DIR"
    and name: "extract_name p \<noteq> []" "files s (comps p) = None"
    and m: "malloc n (fheap s) = Some (a, h)" "a \<noteq> 0"
    and nd: "vn_name nd = extract_name p" "vn_parent nd = d" "vn_children nd = 0" "vn_data nd = 0" "vn_size nd = 0"
  shows "inv h" "vfs_inv live (with_node d a nd h s) (insert a N) (kids_linked K d a)"
    "files (with_node d a nd h s) = (files s)(comps p \<mapsto> a)" "a \<notin> ran (files s)" "kept s (with_node d a nd h s)"
    "attrs (vnodes (with_node d a nd h s) a) = attrs nd"
proof -
  have dN: "d \<in> N" using v d(1) by (rule files_in)
  have pl: "plain (vn_name nd)"
    using p name(1) extract_name_slash [of p] unfolding nd(1) by (auto simp: plain_def path_ok_def undotted_def)
  have new: "child K (vnodes s) d (vn_name nd) = None"
    using files_name [OF v d(1) name(1)] name(2) unfolding nd(1) by simp
  note W = with_node_inv [OF i v m dN d(2) nd(2-5) pl new]
  show "inv h" "vfs_inv live (with_node d a nd h s) (insert a N) (kids_linked K d a)" using W(1,4) .
  show f: "files (with_node d a nd h s) = (files s)(comps p \<mapsto> a)"
    using files_with_node [OF v W(4,3) d(1)] nd(1) comps_split [OF name(1)] by simp
  show "a \<notin> ran (files s)" using W(2) files_in [OF v] by (auto simp: ran_def)
  then have "attrs (linked (vnodes s) d a nd b) = attrs (vnodes s b)" if "b \<in> ran (files s)" for b
    using that linked_other [OF fresh_atD(6) [OF W(3)], of b] by (cases "b = a") (auto simp: attrs_def)
  then show "kept s (with_node d a nd h s)" by (simp add: kept_def with_node_def)
  show "attrs (vnodes (with_node d a nd h s) a) = attrs nd"
    using linked_new [OF fresh_atD(6) [OF W(3)]] by (simp add: with_node_def attrs_def)
qed
lemma creation_rep:
  assumes g: "vfs_good live inv s" and p: "path_ok s p"
    and fill: "\<And>d. vn_name (fill d) = extract_name p \<and> vn_parent (fill d) = d \<and> vn_children (fill d) = 0 \<and>
      vn_data (fill d) = 0 \<and> vn_size (fill d) = 0"
  shows "\<exists>r s'. creation malloc want p fill s = Some (r, s') \<and> vfs_good live inv s' \<and> kept s s' \<and>
    (if can_create want p s \<and> map_option fst (malloc VNODE_SIZE (fheap s)) \<noteq> Some 0
     then r = 0 \<and> (\<exists>a. a \<notin> ran (files s) \<and> files s' = (files s)(comps p \<mapsto> a) \<and>
       attrs (vnodes s' a) = attrs (fill (or_null (files s (comps (dir_part p))))))
     else r = - 1 \<and> files s' = files s)"
proof -
  obtain N K where i: "inv (fheap s)" and v: "vfs_inv live s N K" using g by (auto simp: vfs_good_def)
  have keep: "kept s s" "kept s (s\<lparr>fheap := h\<rparr>)" "files (s\<lparr>fheap := h\<rparr>) = files s" for h
    by (simp_all add: kept_def files_def)
  show ?thesis
  proof (cases "can_create want p s")
    case False
    then show ?thesis using g keep by (simp add: creation_def)
  next
    case True
    then obtain d where d: "files s (comps (dir_part p)) = Some d" "vn_type (vnodes s d) = NODE_DIR"
      and n: "extract_name p \<noteq> []" "files s (comps p) = None"
      by (auto simp: can_create_def split: option.splits)
    obtain a h where m: "malloc VNODE_SIZE (fheap s) = Some (a, h)" using malloc_returns [OF i] by blast
    show ?thesis
    proof (cases "a = 0")
      case null: True
      note Z = null_inv [OF i v m [unfolded null]]
      then have "vfs_good live inv (s\<lparr>fheap := h\<rparr>)" by (auto simp: vfs_good_def)
      then show ?thesis using True null m keep by (simp add: creation_def Let_def)
    next
      case False
      note M = make_node [OF i v p d n m False, of "fill d"]
      have "vfs_good live inv (with_node d a (fill d) h s)"
        using M(1,2) fill [of d] by (auto simp: vfs_good_def with_node_def)
      then show ?thesis
        using True False m M(3-6) fill [of d] d(1) by (auto simp: creation_def Let_def)
    qed
  qed
qed

lemma free_data:
  assumes "inv (fheap s)" and "vn_data (vnodes s c) = 0 \<or> vn_data (vnodes s c) \<in> fst ` live (fheap s)"
  obtains h where "(if vn_data (vnodes s c) \<noteq> 0 then free_block mfree (vn_data (vnodes s c)) s else Some s) =
      Some (s\<lparr>fheap := h\<rparr>)" "inv h" "live h = {b \<in> live (fheap s). fst b \<noteq> vn_data (vnodes s c)}"
proof (cases "vn_data (vnodes s c) = 0")
  case True
  have "live (fheap s) = {b \<in> live (fheap s). fst b \<noteq> 0}" using live_nonnull [OF assms(1)] by auto
  then show thesis using True assms(1) by (intro that [of "fheap s"]) simp_all
next
  case False
  then obtain z where z: "(vn_data (vnodes s c), z) \<in> live (fheap s)" using assms(2) by auto
  obtain h where h: "mfree (vn_data (vnodes s c)) (fheap s) = Some h" "inv h"
    "live h = live (fheap s) - {(vn_data (vnodes s c), z)}" using free_live [OF assms(1) z] by blast
  have "live h = {b \<in> live (fheap s). fst b \<noteq> vn_data (vnodes s c)}"
    unfolding h(3) by (auto dest: live_unique [OF assms(1) z])
  then show thesis using False h(1,2) by (intro that [of h]) (simp_all add: free_block_def)
qed

lemma free_node_rep:
  assumes i: "inv (fheap s)" and c: "c \<in> fst ` live (fheap s)" "c \<noteq> vn_data (vnodes s c)"
    and d: "vn_data (vnodes s c) = 0 \<or> vn_data (vnodes s c) \<in> fst ` live (fheap s)"
  obtains h where "free_node mfree c s = Some (s\<lparr>fheap := h\<rparr>)" "inv h"
    "live h = {b \<in> live (fheap s). fst b \<noteq> vn_data (vnodes s c) \<and> fst b \<noteq> c}"
proof -
  obtain h1 where h1: "(if vn_data (vnodes s c) \<noteq> 0 then free_block mfree (vn_data (vnodes s c)) s else Some s) =
      Some (s\<lparr>fheap := h1\<rparr>)" "inv h1" "live h1 = {b \<in> live (fheap s). fst b \<noteq> vn_data (vnodes s c)}"
    using i d by (rule free_data)
  obtain z where "(c, z) \<in> live (fheap s)" using c(1) by force
  then have z: "(c, z) \<in> live h1" using h1(3) c(2) by simp
  obtain h where h: "mfree c h1 = Some h" "inv h" "live h = live h1 - {(c, z)}" using free_live [OF h1(2) z] by blast
  have "live h = {b \<in> live (fheap s). fst b \<noteq> vn_data (vnodes s c) \<and> fst b \<noteq> c}"
    unfolding h(3) using h1(3) by (auto dest: live_unique [OF h1(2) z])
  moreover have "free_node mfree c s = Some (s\<lparr>fheap := h\<rparr>)"
    unfolding free_node_def h1(1) using h(1) by (simp add: free_block_def)
  ultimately show thesis using h(2) by (intro that [of h])
qed

text \<open>Unlinking and freeing a leaf.\<close>

lemma drop_leaf:
  assumes i: "inv (fheap s)" and v: "vfs_inv live s N K" and l: "leaf_at (vnodes s) (vroot s) N K d c"
  obtains s' h where "unlink_child d c s = Some (s\<lparr>vnodes := unlinked (vnodes s) d c (K d)\<rparr>)"
    "free_node mfree c (s\<lparr>vnodes := unlinked (vnodes s) d c (K d)\<rparr>) = Some s'" "fheap s' = h"
    "vfs_good live inv s'" "kept s s'" "files s' = (\<lambda>ns. if files s ns = Some c then None else files s ns)"
    "live h = {b \<in> live (fheap s). fst b \<noteq> vn_data (vnodes s c) \<and> fst b \<noteq> c}"
proof -
  note V = vfs_invD [OF v] and L = leaf_atD [OF l]
  let ?m = "unlinked (vnodes s) d c (K d)"
  let ?s = "s\<lparr>vnodes := ?m\<rparr>"
  have u: "unlink_child d c s = Some ?s"
    using unlink_loop_unlinked [OF L(9,6)] by (simp add: unlink_child_def)
  have c: "c \<in> fst ` live (fheap s)" "c \<noteq> vn_data (vnodes s c)"
    "vn_data (vnodes s c) = 0 \<or> vn_data (vnodes s c) \<in> fst ` live (fheap s)"
    using V(2) L(2) data_okD(2) [OF V(3) L(2)] tree_okD(2) [OF L(1)] by force+
  obtain h where h: "free_node mfree c ?s = Some (?s\<lparr>fheap := h\<rparr>)" "inv h"
    "live h = {b \<in> live (fheap s). fst b \<noteq> vn_data (vnodes s c) \<and> fst b \<noteq> c}"
    using free_node_rep [of ?s c] i c by (auto simp: unlinked_fields)
  let ?s' = "?s\<lparr>fheap := h\<rparr>"
  have other: "vn_data (vnodes s a) \<noteq> c" if "a \<in> N" for a
    using data_okD(2) [OF V(3) that] L(2) tree_okD(2) [OF L(1)] by metis
  have "data_ok (live h) ?m (N - {c})"
    unfolding data_ok_def
  proof (intro conjI ballI)
    fix a assume a: "a \<in> N - {c}"
    then have "vn_data (vnodes s a) \<noteq> 0 \<Longrightarrow> vn_data (vnodes s a) \<noteq> vn_data (vnodes s c)"
      using data_okD(3) [OF V(3), of a c] L(2) by auto
    then show "if vn_data (?m a) = 0 then vn_size (?m a) = 0 else vn_type (?m a) = NODE_FILE \<and>
        vn_data (?m a) \<notin> N - {c} \<and> (\<exists>z \<ge> unat (vn_size (?m a)). (vn_data (?m a), z) \<in> live h)"
      using data_okD(1,2) [OF V(3), of a] a other [of a] unfolding h(3) unlinked_fields by auto
  next
    show "inj_on (\<lambda>a. vn_data (?m a)) {a \<in> N - {c}. vn_data (?m a) \<noteq> 0}"
      using V(3) unfolding data_ok_def unlinked_fields by (auto intro: inj_on_subset)
  qed
  moreover have "N - {c} \<subseteq> fst ` live h"
    using V(2) data_okD(2) [OF V(3) L(2)] L(2) tree_okD(2) [OF L(1)] unfolding h(3) by (force simp: image_iff)
  ultimately have v': "vfs_inv live ?s' (N - {c}) (kids_unlinked K d c)"
    using tree_unlinked [OF l] by (simp add: vfs_inv_def)
  then have "vfs_good live inv ?s'" using h(2) by (auto simp: vfs_good_def)
  moreover have "kept s ?s'" by (auto simp: kept_def attrs_def unlinked_def Let_def)
  moreover have "files ?s' = (\<lambda>ns. if files s ns = Some c then None else files s ns)"
    using down_unlinked [OF l] by (intro ext) (simp add: files_down [OF v'] files_down [OF v])
  ultimately show thesis using u h(1,3) by (intro that [of ?s' h]) simp_all
qed

lemma unlink_rep:
  assumes g: "vfs_good live inv s" and p: "path_ok s p"
  shows "\<exists>r s'. krust_vfs_unlink mfree (Some p) s = Some (r, s') \<and> vfs_good live inv s' \<and> kept s s' \<and>
    (if can_unlink p s
     then r = 0 \<and> files s' = (files s)(comps p := None) \<and>
       (let c = or_null (files s (comps p))
        in live (fheap s') = {b \<in> live (fheap s). fst b \<noteq> vn_data (vnodes s c) \<and> fst b \<noteq> c})
     else r = - 1 \<and> s' = s)"
proof -
  obtain N K where i: "inv (fheap s)" and v: "vfs_inv live s N K" using g by (auto simp: vfs_good_def)
  show ?thesis
  proof (cases "can_unlink p s")
    case False
    moreover have "kept s s" by (simp add: kept_def)
    ultimately show ?thesis using g unlink_cases [OF v p] by simp
  next
    case True
    obtain d c where dc: "files s (comps (dir_part p)) = Some d" "files s (comps p) = Some c"
      "leaf_at (vnodes s) (vroot s) N K d c" using v True by (rule can_unlink_leaf)
    obtain s' h where s': "unlink_child d c s = Some (s\<lparr>vnodes := unlinked (vnodes s) d c (K d)\<rparr>)"
      "free_node mfree c (s\<lparr>vnodes := unlinked (vnodes s) d c (K d)\<rparr>) = Some s'" "fheap s' = h"
      "vfs_good live inv s'" "kept s s'" "files s' = (\<lambda>ns. if files s ns = Some c then None else files s ns)"
      "live h = {b \<in> live (fheap s). fst b \<noteq> vn_data (vnodes s c) \<and> fst b \<noteq> c}"
      using i v dc(3) by (rule drop_leaf)
    have "files s ns = Some c \<longleftrightarrow> ns = comps p" for ns
      using down_unique [OF vfs_invD(1) [OF v], of ns c "comps p"] dc(2) unfolding files_down [OF v] by blast
    then have "files s' = (files s)(comps p := None)" unfolding s'(6) by (intro ext) simp
    then show ?thesis using True dc s' unlink_cases [OF v p] by simp
  qed
qed

lemma init_rep:
  assumes i: "inv (fheap s)" and m: "malloc VNODE_SIZE (fheap s) = Some (a, h)" "a \<noteq> 0"
  obtains s' where "krust_vfs_init malloc s = Some s'" "vfs_good live inv s'" "files s' = [[] \<mapsto> a]"
    "vpipes s' = pipes_init" "vroot s' = a" "vmem s' = vmem s" "cur_task s' = cur_task s" "fheap s' = h"
proof -
  let ?n = "(raw_node [] NODE_DIR s)\<lparr>vn_parent := a\<rparr>"
  let ?s = "s\<lparr>vpipes := pipes_init, fheap := h, vnodes := (vnodes s)(a := ?n), vroot := a\<rparr>"
  have "raw_node [] NODE_DIR (s\<lparr>vpipes := pipes_init\<rparr>) = raw_node [] NODE_DIR s" by (simp add: raw_node_def)
  then have r: "krust_vfs_init malloc s = Some ?s"
    using m by (simp add: krust_vfs_init_def create_node_raw_node Let_def)
  have "tree_ok ((vnodes s)(a := ?n)) a {a} (\<lambda>_. [])"
    unfolding tree_ok_def using m(2) by (auto simp: kids_ok_def intro!: exI [of _ "[]"])
  moreover have "{a} \<subseteq> fst ` live h" using malloc_block [OF i m] by auto
  ultimately have v: "vfs_inv live ?s {a} (\<lambda>_. [])"
    by (simp add: vfs_inv_def data_ok_def inj_on_def)
  then have "vfs_good live inv ?s" using malloc_inv [OF i m(1)] by (auto simp: vfs_good_def)
  moreover have "files ?s = [[] \<mapsto> a]"
  proof
    fix ns show "files ?s ns = [[] \<mapsto> a] ns"
      unfolding files_down [OF v] by (cases ns) (simp_all add: child_def)
  qed
  ultimately show thesis using r by (intro that [of ?s]) simp_all
qed

end

abbreviation vfs_ok :: "kheap vfs \<Rightarrow> bool" where
  "vfs_ok \<equiv> vfs_good heap_live heap_inv"

text \<open>The first states: an empty tree on a new heap, and one with a file.\<close>

lemma three_blocks:
  obtains a h b h' c h'' where "krust_malloc VNODE_SIZE fresh_heap = Some (a, h)" "a \<noteq> 0"
    "krust_malloc VNODE_SIZE h = Some (b, h')" "b \<noteq> 0" "krust_malloc 2 h' = Some (c, h'')" "c \<noteq> 0"
proof -
  let ?L = "[(HEAP_START, HEAP_SIZE - HDR, True)]"
  have rr: "round_request VNODE_SIZE = 384" by (simp add: round_request_def VNODE_SIZE_def)
  have "heap_rep fresh_heap ?L" unfolding fresh_heap_def by (rule heap_init_rep)
  then obtain a h where a: "krust_heap_alloc VNODE_SIZE fresh_heap = Some (a + HDR, h)" "a = HEAP_START"
    and h: "heap_rep h (seg_mark a False (seg_split a 384 ?L))"
    by (cases rule: heap_alloc_cases [where sz = VNODE_SIZE]) (auto simp: rr HEAP_SIZE_def HDR_def)
  from h obtain b h' where b: "krust_heap_alloc VNODE_SIZE h = Some (b + HDR, h')" "b = a + HDR + 384"
    and h': "heap_rep h' (seg_mark b False (seg_split b 384 (seg_mark a False (seg_split a 384 ?L))))"
    by (cases rule: heap_alloc_cases [where sz = VNODE_SIZE])
      (auto simp: rr a(2) HEAP_SIZE_def HDR_def HEAP_START_def)
  from h' obtain c h'' where c: "krust_heap_alloc 2 h' = Some (c + HDR, h'')"
    by (cases rule: heap_alloc_cases [where sz = 2])
      (auto simp: round_request_def a(2) b(2) HEAP_SIZE_def HDR_def HEAP_START_def)
  show thesis using a(1) b(1) c
    by (intro that [of "a + HDR" h "b + HDR" h' "c + HDR" h'']) (simp_all add: krust_malloc_def HDR_def)
qed

lemma first_vfs:
  obtains s :: "kheap vfs" and b h where "vfs_ok s" "files s = [[] \<mapsto> vroot s]" "cur_task s = None"
    "vn_type (vnodes s (vroot s)) = NODE_DIR" "vroot s \<noteq> 0" "krust_malloc VNODE_SIZE (fheap s) = Some (b, h)" "b \<noteq> 0"
    "\<exists>c h'. krust_malloc 2 h = Some (c, h') \<and> c \<noteq> 0"
proof -
  let ?s = "\<lparr>vnodes = (\<lambda>_. undefined), vroot = 0, vmem = (\<lambda>_. 0), fheap = fresh_heap, cur_task = None,
    vpipes = pipes_init\<rparr>"
  obtain a h b h' c h'' where m: "krust_malloc VNODE_SIZE fresh_heap = Some (a, h)" "a \<noteq> 0"
    and m': "krust_malloc VNODE_SIZE h = Some (b, h')" "b \<noteq> 0" "krust_malloc 2 h' = Some (c, h'')" "c \<noteq> 0" by (rule three_blocks)
  have "heap_rep fresh_heap [(HEAP_START, HEAP_SIZE - HDR, True)]" unfolding fresh_heap_def by (rule heap_init_rep)
  then have "heap_inv (fheap ?s)" using heap_inv_rep by simp
  from kernel_heap.init_rep [OF this, of a h] m
  obtain s' where s': "vfs_ok s'" "files s' = [[] \<mapsto> a]" "vroot s' = a" "cur_task s' = None" "fheap s' = h" by auto
  then obtain N K where "vfs_inv heap_live s' N K" by (auto simp: vfs_good_def)
  from tree_okD(5) [OF vfs_invD(1) [OF this]] s' m(2) m' show thesis by (intro that [of s' b h']) simp_all
qed

lemma file_vfs:
  obtains s :: "kheap vfs" and a where "vfs_ok s" "files s = [[] \<mapsto> vroot s, [[97]] \<mapsto> a]"
    "vn_type (vnodes s a) = NODE_FILE" "contents s a = []" "a \<noteq> 0"
    "map_option fst (krust_malloc 2 (fheap s)) \<noteq> Some 0" "cur_task s = None" "vroot s \<noteq> 0"
proof -
  obtain s :: "kheap vfs" and a h where s: "vfs_ok s" "files s = [[] \<mapsto> vroot s]"
    "vn_type (vnodes s (vroot s)) = NODE_DIR" "cur_task s = None" "vroot s \<noteq> 0" and m: "krust_malloc VNODE_SIZE (fheap s) = Some (a, h)" "a \<noteq> 0"
    and m2: "\<exists>c h'. krust_malloc 2 h = Some (c, h') \<and> c \<noteq> 0" by (rule first_vfs)
  have p: "extract_name [97] = [97]" "dir_part [97] = []" "comps [97] = [[97]]"
    by (simp_all add: extract_name_def dir_part_def comps_name)
  have ok: "path_ok s [97]" by (simp add: path_ok_def p undotted_def)
  obtain N K where v: "vfs_inv heap_live s N K" and i: "heap_inv (fheap s)" using s(1) by (auto simp: vfs_good_def)
  let ?nd = "(raw_node [97] NODE_FILE s)\<lparr>vn_parent := vroot s\<rparr>" let ?s = "with_node (vroot s) a ?nd h s"
  note M = kernel_heap.make_node [OF i v ok _ s(3) _ _ m, of ?nd, unfolded p]
  have f: "files ?s = [[] \<mapsto> vroot s, [[97]] \<mapsto> a]" and "heap_inv h" and w: "vfs_inv heap_live ?s (insert a N) (kids_linked K (vroot s) a)"
    and attr: "attrs (vnodes ?s a) = attrs ?nd"
    using M s(2) by simp_all
  moreover have "vn_type (vnodes ?s a) = NODE_FILE" "vn_size (vnodes ?s a) = 0"
    using arg_cong [OF attr, of vn_type] arg_cong [OF attr, of vn_size] by (simp_all add: attrs_def)
  moreover have "vroot ?s = vroot s" "fheap ?s = h" "cur_task ?s = cur_task s" by (simp_all add: with_node_def)
  ultimately show thesis using m(2) m2 s(4,5)
    by (intro that [of ?s a]) (auto simp: vfs_good_def contents_def)
qed

section \<open>Properties\<close>

text \<open>The outcome of making a node: an update of the map at the path, or a refusal.\<close>

definition created :: "u16 \<Rightarrow> u8 list \<Rightarrow> (usize \<Rightarrow> vnode) \<Rightarrow> kheap vfs \<Rightarrow> i32 \<Rightarrow> kheap vfs \<Rightarrow> bool" where
  "created want p fill s r s' \<longleftrightarrow> vfs_ok s' \<and> kept s s' \<and>
     (if can_create want p s \<and> map_option fst (krust_malloc VNODE_SIZE (fheap s)) \<noteq> Some 0
      then r = 0 \<and> (\<exists>a. a \<notin> ran (files s) \<and> files s' = (files s)(comps p \<mapsto> a) \<and>
        attrs (vnodes s' a) = attrs (fill (or_null (files s (comps (dir_part p))))))
      else r = - 1 \<and> files s' = files s)"

text \<open>
  C13. Making directories, devices and links refines an update of the map from paths to nodes: the call
  returns; when the directory exists and may be written, the name is new and memory is left, exactly
  the given path is added, with a new node that has the type, owner and mode of the caller's request;
  otherwise the result is -1 and no path changes. The invariant holds again and the nodes that were
  there keep their attributes.
\<close>

theorem vfs_create_refines:
  assumes "vfs_ok s" and "path_ok s p" and "tgt \<noteq> []"
  shows "(\<exists>r s'. krust_vfs_create_dir krust_malloc (Some p) s = Some (r, s') \<and>
      created 6 p (\<lambda>d. (raw_node (extract_name p) NODE_DIR s)\<lparr>vn_parent := d\<rparr>) s r s') \<and>
    (\<exists>r s'. krust_vfs_create_device krust_malloc (Some p) rd wr s = Some (r, s') \<and>
      created 0 p (\<lambda>d. (raw_node (extract_name p) NODE_DEVICE s)\<lparr>vn_parent := d, dev_read := rd,
        dev_write := wr\<rparr>) s r s') \<and>
    (\<exists>r s'. krust_vfs_symlink krust_malloc (Some tgt) (Some p) s = Some (r, s') \<and>
      created 2 p (\<lambda>d. (raw_node (extract_name p) NODE_SYMLINK s)\<lparr>vn_parent := d,
        link_target := take 255 tgt\<rparr>) s r s')"
proof -
  obtain N K where v: "vfs_inv heap_live s N K" using assms(1) by (auto simp: vfs_good_def)
  have "take 63 (extract_name p) = extract_name p" using assms(2) by (simp add: path_ok_def)
  then show ?thesis
    unfolding create_dir_creation [OF v assms(2)] create_device_creation [OF v assms(2)]
      symlink_creation [OF v assms(2,3)] created_def
    using assms by (intro conjI kernel_heap.creation_rep) simp_all
qed

theorem vfs_create_refines_witness:
  "\<exists>s r s'. vfs_ok s \<and> krust_vfs_create_dir krust_malloc (Some [47, 97]) s = Some (r, s') \<and>
     (r = 0 \<and> (\<exists>a. files s' = [[] \<mapsto> vroot s, [[97]] \<mapsto> a]) \<or>
      r = - 1 \<and> map_option fst (krust_malloc VNODE_SIZE (fheap s)) = Some 0)"
proof -
  obtain s :: "kheap vfs" where s: "vfs_ok s" "files s = [[] \<mapsto> vroot s]" "cur_task s = None"
    "vn_type (vnodes s (vroot s)) = NODE_DIR" "vroot s \<noteq> 0" by (rule first_vfs)
  have p: "extract_name [47, 97] = [97]" "dir_part [47, 97] = []" "comps [97] = [[97]]"
    by (simp_all add: extract_name_def dir_part_def comps_name)
  have "path_ok s [47, 97]" by (simp add: path_ok_def p undotted_def)
  moreover have "can_create 6 [47, 97] s"
    using s by (simp add: can_create_def p check_permission_def)
  moreover obtain r s' where r: "krust_vfs_create_dir krust_malloc (Some [47, 97]) s = Some (r, s')"
    "created 6 [47, 97] (\<lambda>d. (raw_node (extract_name [47, 97]) NODE_DIR s)\<lparr>vn_parent := d\<rparr>) s r s'"
    using vfs_create_refines [OF s(1), of "[47, 97]" "[97]" None None] calculation(1) by blast
  ultimately show ?thesis
    using s(1,2) unfolding created_def p comps_slash
    by (intro exI [of _ s] exI [of _ r] exI [of _ s']) (auto split: if_splits)
qed

text \<open>
  C14. Unlinking refines a deletion from the map: the call returns; when the directory may be written
  and the path leads to a file or a link, exactly that path disappears, and the blocks of the node and
  of its contents, no others, go back to the heap; otherwise nothing changes.
\<close>

theorem vfs_unlink_refines:
  assumes "vfs_ok s" and "path_ok s p"
  shows "\<exists>r s'. krust_vfs_unlink krust_free (Some p) s = Some (r, s') \<and> vfs_ok s' \<and> kept s s' \<and>
    (if can_unlink p s
     then r = 0 \<and> files s' = (files s)(comps p := None) \<and>
       (let c = or_null (files s (comps p))
        in heap_live (fheap s') = {b \<in> heap_live (fheap s). fst b \<noteq> vn_data (vnodes s c) \<and> fst b \<noteq> c})
     else r = - 1 \<and> s' = s)"
  using assms by (rule kernel_heap.unlink_rep)

theorem vfs_unlink_refines_witness:
  "\<exists>(s :: kheap vfs) s' a. files s = [[] \<mapsto> vroot s, [[97]] \<mapsto> a] \<and>
     krust_vfs_unlink krust_free (Some [97]) s = Some (0, s') \<and> files s' = [[] \<mapsto> vroot s]"
proof -
  obtain s :: "kheap vfs" and a where s: "vfs_ok s" "files s = [[] \<mapsto> vroot s, [[97]] \<mapsto> a]"
    "vn_type (vnodes s a) = NODE_FILE" "a \<noteq> 0" "cur_task s = None" "vroot s \<noteq> 0" by (rule file_vfs)
  have p: "extract_name [97] = [97]" "dir_part [97] = []" "comps [97] = [[97]]"
    by (simp_all add: extract_name_def dir_part_def comps_name)
  have ok: "path_ok s [97]" by (simp add: path_ok_def p undotted_def)
  have "can_unlink [97] s" using s(2-) by (simp add: can_unlink_def p check_permission_def)
  moreover have "(files s)(comps [97] := None) = [[] \<mapsto> vroot s]" using s(2) by (auto simp: p)
  ultimately show ?thesis
    using vfs_unlink_refines [OF s(1) ok] s(2) by auto
qed

text \<open>
  C15. Path resolution always ends, whatever the path and however the symbolic links point to each
  other, and gives the null pointer or a node of the tree. When the path with the targets of five links
  filled in fits the buffer, it gives the node the path means, with \<open>.\<close> and \<open>..\<close> and with each link
  read from the root or from its own directory; it gives the null pointer when there is none or a sixth
  link would have to be followed. On a path without \<open>.\<close>, \<open>..\<close> and links, of any length, that is the
  node the map has there.
\<close>

theorem vfs_resolve_total:
  assumes "vfs_ok s"
  shows "(\<exists>a. krust_vfs_resolve (Some p) s = Some a \<and> (a = 0 \<or> a \<in> ran (files s))) \<and>
    (links_fit p s \<longrightarrow> krust_vfs_resolve (Some p) s = Some (or_null (meant p s))) \<and>
    (undotted (comps p) \<and> straight (vnodes s) (vroot s) (comps p) \<longrightarrow>
       krust_vfs_resolve (Some p) s = Some (or_null (files s (comps p))))"
  using assms resolve_ran resolve_meant resolve_files by (auto simp: vfs_good_def)

text \<open>A tree with a directory \<open>d\<close> that holds a link \<open>l\<close> to the dot.\<close>

definition plain_node :: "u8 list \<Rightarrow> u8 \<Rightarrow> usize \<Rightarrow> usize \<Rightarrow> u8 list \<Rightarrow> vnode" where
  "plain_node name ty parent kids target =
     \<lparr>vn_name = name, vn_type = ty, vn_size = 0, vn_parent = parent, vn_children = kids, vn_next = 0, vn_data = 0,
      dev_read = None, dev_write = None, link_target = target, vn_uid = 0, vn_gid = 0, vn_mode = default_mode ty\<rparr>"

lemma link_vfs:
  obtains s :: "kheap vfs" and b c where "vfs_ok s" "files s [[100]] = Some b" "files s [[100], [108]] = Some c" "b \<noteq> vroot s"
    "vn_type (vnodes s b) = NODE_DIR" "vn_type (vnodes s c) = NODE_SYMLINK" "link_target (vnodes s c) = [46]"
    "\<forall>a \<in> ran (files s). length (link_target (vnodes s a)) \<le> 1"
proof -
  obtain a h b h' c h'' where m: "krust_malloc VNODE_SIZE fresh_heap = Some (a, h)" "a \<noteq> 0"
    "krust_malloc VNODE_SIZE h = Some (b, h')" "b \<noteq> 0" "krust_malloc 2 h' = Some (c, h'')" "c \<noteq> 0" by (rule three_blocks)
  have "heap_rep fresh_heap [(HEAP_START, HEAP_SIZE - HDR, True)]" unfolding fresh_heap_def by (rule heap_init_rep)
  then have i: "heap_inv fresh_heap" "heap_inv h" "heap_inv h'" "heap_inv h''"
    using heap_inv_rep kernel_heap.malloc_inv m by blast+
  have l: "a \<in> fst ` heap_live h" "fst ` heap_live h' = insert b (fst ` heap_live h)" "fst ` heap_live h'' = insert c (fst ` heap_live h')"
    "b \<notin> fst ` heap_live h" "c \<notin> fst ` heap_live h'"
    using kernel_heap.malloc_block [OF i(1) m(1,2)] kernel_heap.malloc_block [OF i(2) m(3,4)] kernel_heap.malloc_block [OF i(3) m(5,6)] by auto
  then have d: "a \<noteq> b" "a \<noteq> c" "b \<noteq> c" by auto
  let ?m = "(\<lambda>_. plain_node [] NODE_DIR a b [])(b := plain_node [100] NODE_DIR a c [], c := plain_node [108] NODE_SYMLINK b 0 [46])"
  let ?K = "(\<lambda>_. [])(a := [b], b := [c])"
  let ?s = "\<lparr>vnodes = ?m, vroot = a, vmem = (\<lambda>_. 0), fheap = h'', cur_task = None, vpipes = pipes_init\<rparr>"
  have "down ?K ?m a [] = Some a" "down ?K ?m a [[100]] = Some b" "down ?K ?m a [[100], [108]] = Some c"
    using d by (simp_all add: child_def plain_node_def)
  then have "\<forall>x \<in> {a, b, c}. \<exists>ns. down ?K ?m a ns = Some x" by blast
  moreover have "\<forall>x \<in> {a, b, c}. kids_ok ?m a {a, b, c} ?K x"
    using d m(2,4,6) by (simp add: kids_ok_def plain_node_def)
  ultimately have "tree_ok ?m a {a, b, c} ?K"
    unfolding tree_ok_def using d m(2,4,6) by (auto simp: plain_node_def plain_def)
  moreover have "{a, b, c} \<subseteq> fst ` heap_live h''" using l by auto
  ultimately have v: "vfs_inv heap_live ?s {a, b, c} ?K" by (simp add: vfs_inv_def data_ok_def plain_node_def)
  show thesis
  proof (rule that [of ?s b c])
    show "vfs_ok ?s" using v i(4) by (auto simp: vfs_good_def)
    show "files ?s [[100]] = Some b" "files ?s [[100], [108]] = Some c"
      unfolding files_down [OF v] using d by (simp_all add: child_def plain_node_def)
    show "\<forall>x \<in> ran (files ?s). length (link_target (vnodes ?s x)) \<le> 1"
      unfolding nodes_ran [OF v] using d by (simp add: plain_node_def)
  qed (use d in \<open>simp_all add: plain_node_def\<close>)
qed

theorem vfs_resolve_total_witness:
  "\<exists>(s :: kheap vfs) b. files s [[100]] = Some b \<and> b \<noteq> vroot s \<and> krust_vfs_resolve (Some [100, 47, 108]) s = Some b \<and>
     krust_vfs_resolve (Some [47]) s = Some (vroot s)"
proof -
  obtain s :: "kheap vfs" and b c where s: "vfs_ok s" "files s [[100]] = Some b" "files s [[100], [108]] = Some c" "b \<noteq> vroot s"
    "vn_type (vnodes s b) = NODE_DIR" "vn_type (vnodes s c) = NODE_SYMLINK" "link_target (vnodes s c) = [46]"
    "\<forall>a \<in> ran (files s). length (link_target (vnodes s a)) \<le> 1" by (rule link_vfs)
  have p: "comps [100, 47, 108] = [[100], [108]]" "comps [46] = [[46]]" "comps [47] = []"
    using comps_append_slash [of "[100]" "[108]"] by (simp_all add: comps_name)
  have fit: "links_fit [100, 47, 108] s" unfolding links_fit_def using s(8) by (intro exI [of _ 1]) simp
  have dir: "NODE_DIR \<noteq> NODE_SYMLINK" by (simp add: NODE_DIR_def NODE_SYMLINK_def)
  have "meant [100, 47, 108] s = Some b" using s(2,3,5-7) dir by (simp add: meant_def p)
  then have "krust_vfs_resolve (Some [100, 47, 108]) s = Some b" using vfs_resolve_total [OF s(1), of "[100, 47, 108]"] fit by simp
  moreover have "krust_vfs_resolve (Some [47]) s = Some (vroot s)"
    using vfs_resolve_total [OF s(1), of "[47]"] by (simp add: p undotted_def files_def)
  ultimately show ?thesis using s(2,4) by blast
qed

text \<open>
  The node count is exact: it ends, and is the number of nodes that have a path, in 32 bits.
\<close>

lemma vfs_node_count_exact:
  assumes "vfs_ok s"
  shows "finite (ran (files s)) \<and> krust_vfs_node_count s = Some (of_nat (card (ran (files s))))"
proof -
  obtain N K where v: "vfs_inv heap_live s N K" using assms by (auto simp: vfs_good_def)
  note V = vfs_invD [OF v]
  show ?thesis
    using count_nodes_card [OF V(1)] tree_okD(1) [OF V(1)] nodes_ran [OF v] by (simp add: krust_vfs_node_count_def)
qed

end
