(* ===== verification/Vfile.thy ===== *)
theory Vfile
  imports Vfs
begin

unbundle bit_operations_syntax

text \<open>
  File contents and descriptors (the rest of \<open>kernel/src/fs/vfs.rs\<close>): writing whole files, the
  descriptor table of the current task, reading and writing through a descriptor, polling, the working
  directory. The functions of a device are reached through \<open>dev\<close>, which gives the effect of the
  function at an address. The table that \<open>fd_ref\<close> falls back to when there is no task never has a used
  entry, since no operation marks one.
\<close>

section \<open>Whole files\<close>

definition krust_vfs_write_file ::
  "'h malloc \<Rightarrow> 'h mfree \<Rightarrow> path \<Rightarrow> usize \<Rightarrow> u32 \<Rightarrow> 'h vfs \<Rightarrow> (i32 \<times> 'h vfs) option" where
  "krust_vfs_write_file malloc mfree path data sz s =
     (if path = None \<or> path = Some [] then Some (- 1, s)
      else do {
        node \<leftarrow> krust_vfs_resolve path s;
        if node \<noteq> 0 \<and> vn_type (vnodes s node) = NODE_FILE then
          if \<not> check_permission node 2 s then Some (- 1, s)
          else do {
            s \<leftarrow> (if vn_data (vnodes s node) \<noteq> 0 then do {
                    s \<leftarrow> free_block mfree (vn_data (vnodes s node)) s;
                    Some (set_node node ((vnodes s node)\<lparr>vn_data := 0\<rparr>) s)
                  } else Some s);
            let s = set_node node ((vnodes s node)\<lparr>vn_size := 0\<rparr>) s;
            if sz > 0 \<and> data \<noteq> 0 then do {
              (d, h) \<leftarrow> malloc sz (fheap s);
              let s = s\<lparr>fheap := h\<rparr>;
              let s = set_node node ((vnodes s node)\<lparr>vn_data := d\<rparr>) s;
              if d = 0 then Some (- 1, s)
              else
                let s = copy_mem d data (unat sz) s
                in Some (0, set_node node ((vnodes s node)\<lparr>vn_size := sz\<rparr>) s)
            } else Some (0, set_node node ((vnodes s node)\<lparr>vn_size := sz\<rparr>) s)
          }
        else do {
          (r, s) \<leftarrow> krust_vfs_create_file malloc mfree path data sz s;
          Some (if r \<noteq> 0 then - 1 else 0, s)
        }
      })"

section \<open>Descriptors\<close>

definition MAX_FDS :: nat where
  "MAX_FDS = 128"

definition free_fd :: fd_entry where
  "free_fd = \<lparr>fd_node = 0, fd_offset = 0, fd_flags = 0, fd_used = False, fd_refcount = 0\<rparr>"

definition current_fd_table :: "'h vfs \<Rightarrow> fd_entry list option" where
  "current_fd_table s = (case cur_task s of None \<Rightarrow> None | Some t \<Rightarrow> t_fds t)"

definition fd_ref :: "'h vfs \<Rightarrow> fd_entry list" where
  "fd_ref s = (case current_fd_table s of None \<Rightarrow> replicate MAX_FDS free_fd | Some fds \<Rightarrow> fds)"

definition set_fd :: "nat \<Rightarrow> fd_entry \<Rightarrow> 'h vfs \<Rightarrow> 'h vfs" where
  "set_fd fd e s =
     s\<lparr>cur_task := map_option (\<lambda>t. t\<lparr>t_fds := map_option (\<lambda>fds. fds[fd := e]) (t_fds t)\<rparr>) (cur_task s)\<rparr>"

definition alloc_fd :: "'h vfs \<Rightarrow> i32" where
  "alloc_fd s =
     (case current_fd_table s of
        None \<Rightarrow> - 1
      | Some fds \<Rightarrow>
          (case List.find (\<lambda>i. \<not> fd_used (fds ! i)) [0..<MAX_FDS] of
             None \<Rightarrow> - 1
           | Some i \<Rightarrow> of_nat i))"

definition bad_fd :: "i32 \<Rightarrow> 'h vfs \<Rightarrow> bool" where
  "bad_fd fd s \<longleftrightarrow> sint fd < 0 \<or> sint fd \<ge> int MAX_FDS \<or> \<not> fd_used (fd_ref s ! unat fd)"

text \<open>Taking a free descriptor for a node.\<close>

definition open_node :: "usize \<Rightarrow> 'h vfs \<Rightarrow> i32 \<times> 'h vfs" where
  "open_node node s =
     (let fd = alloc_fd s
      in if sint fd < 0 then (- 1, s)
         else (fd, set_fd (unat fd) \<lparr>fd_node = node, fd_offset = 0, fd_flags = 0, fd_used = True,
                                     fd_refcount = 1\<rparr> s))"

definition krust_vfs_open :: "path \<Rightarrow> 'h vfs \<Rightarrow> (i32 \<times> 'h vfs) option" where
  "krust_vfs_open path s =
     (if path = None \<or> path = Some [] then Some (- 1, s)
      else do {
        node \<leftarrow> krust_vfs_resolve path s;
        if node = 0 \<or> vn_type (vnodes s node) \<noteq> NODE_FILE \<and> vn_type (vnodes s node) \<noteq> NODE_DEVICE then
          Some (- 1, s)
        else if \<not> check_permission node 4 s then Some (- 1, s)
        else Some (open_node node s)
      })"

definition krust_vfs_open_write :: "'h malloc \<Rightarrow> 'h mfree \<Rightarrow> path \<Rightarrow> 'h vfs \<Rightarrow> (i32 \<times> 'h vfs) option" where
  "krust_vfs_open_write malloc mfree path s =
     (case path of
        None \<Rightarrow> Some (- 1, s)
      | Some p \<Rightarrow>
          if p = [] then Some (- 1, s)
          else do {
            node \<leftarrow> krust_vfs_resolve path s;
            if node \<noteq> 0 \<and> vn_type (vnodes s node) = NODE_FILE then
              if \<not> check_permission node 2 s then Some (- 1, s)
              else do {
                s \<leftarrow> (if vn_data (vnodes s node) \<noteq> 0 then do {
                        s \<leftarrow> free_block mfree (vn_data (vnodes s node)) s;
                        Some (set_node node ((vnodes s node)\<lparr>vn_data := 0\<rparr>) s)
                      } else Some s);
                let s = set_node node ((vnodes s node)\<lparr>vn_size := 0\<rparr>) s;
                Some (open_node node s)
              }
            else if node = 0 then do {
              parent \<leftarrow> resolve_parent p s;
              if parent = 0 \<or> vn_type (vnodes s parent) \<noteq> NODE_DIR then Some (- 1, s)
              else if \<not> check_permission parent 2 s then Some (- 1, s)
              else let name = extract_name p
                   in if name = [] then Some (- 1, s)
                      else do {
                        (new_node, s) \<leftarrow> create_node_raw malloc name NODE_FILE s;
                        if new_node = 0 then Some (- 1, s)
                        else
                          let s = set_node new_node ((vnodes s new_node)\<lparr>vn_parent := parent\<rparr>) s;
                              s = link_child parent new_node s
                          in Some (open_node new_node s)
                      }
            } else Some (- 1, s)
          })"

text \<open>The function of a device, its arguments node, buffer, size and offset.\<close>

type_synonym 'h dev_call = "usize \<Rightarrow> usize \<Rightarrow> usize \<Rightarrow> u32 \<Rightarrow> u32 \<Rightarrow> 'h vfs \<Rightarrow> (i32 \<times> 'h vfs) option"

definition advance_fd :: "nat \<Rightarrow> u32 \<Rightarrow> 'h vfs \<Rightarrow> 'h vfs" where
  "advance_fd fd n s = set_fd fd ((fd_ref s ! fd)\<lparr>fd_offset := fd_offset (fd_ref s ! fd) + n\<rparr>) s"

definition krust_vfs_read :: "'h dev_call \<Rightarrow> i32 \<Rightarrow> usize \<Rightarrow> u32 \<Rightarrow> 'h vfs \<Rightarrow> (i32 \<times> 'h vfs) option" where
  "krust_vfs_read dev fd buf sz s =
     (if bad_fd fd s then Some (- 1, s)
      else let i = unat fd;
               f = fd_ref s ! i;
               node = fd_node f;
               n = vnodes s node
           in if \<not> check_permission node 4 s then Some (- 1, s)
              else if vn_type n = NODE_DEVICE then
                case dev_read n of
                  None \<Rightarrow> Some (0, s)
                | Some read_fn \<Rightarrow> do {
                    (k, s) \<leftarrow> dev read_fn node buf sz (fd_offset f) s;
                    Some (k, if sint k > 0 then advance_fd i k s else s)
                  }
              else if fd_offset f \<ge> vn_size n then Some (0, s)
              else let avail = vn_size n - fd_offset f;
                       to_read = (if sz < avail then sz else avail);
                       s = copy_mem buf (vn_data n + unat (fd_offset f)) (unat to_read) s
                   in Some (to_read, advance_fd i to_read s))"

definition krust_vfs_write_fd ::
  "'h malloc \<Rightarrow> 'h mfree \<Rightarrow> 'h dev_call \<Rightarrow> i32 \<Rightarrow> usize \<Rightarrow> u32 \<Rightarrow> 'h vfs \<Rightarrow> (i32 \<times> 'h vfs) option" where
  "krust_vfs_write_fd malloc mfree dev fd data sz s =
     (if bad_fd fd s then Some (- 1, s)
      else let i = unat fd;
               f = fd_ref s ! i;
               node = fd_node f;
               n = vnodes s node
           in if \<not> check_permission node 2 s then Some (- 1, s)
              else if vn_type n = NODE_DEVICE then
                case dev_write n of
                  None \<Rightarrow> Some (sz, s)
                | Some write_fn \<Rightarrow> do {
                    (k, s) \<leftarrow> dev write_fn node data sz (fd_offset f) s;
                    Some (k, if sint k > 0 then advance_fd i k s else s)
                  }
              else if vn_type n \<noteq> NODE_FILE then Some (- 1, s)
              else
                let new_size = fd_offset f + sz
                in do {
                  grown \<leftarrow>
                    (if new_size > vn_size n then do {
                       (new_data, h) \<leftarrow> malloc new_size (fheap s);
                       let s = s\<lparr>fheap := h\<rparr>;
                       if new_data = 0 then Some (Inl s)
                       else do {
                         s \<leftarrow> (if vn_data n \<noteq> 0 then
                                 free_block mfree (vn_data n) (copy_mem new_data (vn_data n) (unat (vn_size n)) s)
                               else Some s);
                         let s = clear_mem (new_data + unat (vn_size n)) (unat (new_size - vn_size n)) s;
                         Some (Inr (set_node node (n\<lparr>vn_data := new_data, vn_size := new_size\<rparr>) s))
                       }
                     } else Some (Inr s));
                  case grown of
                    Inl s \<Rightarrow> Some (- 1, s)
                  | Inr s \<Rightarrow>
                      let s = copy_mem (vn_data (vnodes s node) + unat (fd_offset f)) data (unat sz) s
                      in Some (sz, advance_fd i sz s)
                })"

definition krust_vfs_close :: "i32 \<Rightarrow> 'h vfs \<Rightarrow> i32 \<times> 'h vfs" where
  "krust_vfs_close fd s =
     (if bad_fd fd s then (- 1, s)
      else let i = unat fd; f = fd_ref s ! i
           in (0, if fd_refcount f > 1 then set_fd i (f\<lparr>fd_refcount := fd_refcount f - 1\<rparr>) s
                  else set_fd i (f\<lparr>fd_used := False, fd_node := 0, fd_offset := 0, fd_refcount := 0\<rparr>) s))"

text \<open>An \<open>i64\<close> is a 64-bit word; the sums wrap around.\<close>

definition krust_vfs_lseek :: "i32 \<Rightarrow> u64 \<Rightarrow> i32 \<Rightarrow> 'h vfs \<Rightarrow> u64 \<times> 'h vfs" where
  "krust_vfs_lseek fd offset whence s =
     (if bad_fd fd s then (- 1, s)
      else let i = unat fd; f = fd_ref s ! i
           in if whence \<noteq> 0 \<and> whence \<noteq> 1 \<and> whence \<noteq> 2 then (- 1, s)
              else let new_offset = (if whence = 0 then offset
                                     else if whence = 1 then ucast (fd_offset f) + offset
                                     else ucast (vn_size (vnodes s (fd_node f))) + offset)
                   in if sint new_offset < 0 then (- 1, s)
                      else (new_offset, set_fd i (f\<lparr>fd_offset := ucast new_offset\<rparr>) s))"

text \<open>The new entry of a duplicated descriptor, and the old one's counter.\<close>

definition dup_to :: "nat \<Rightarrow> nat \<Rightarrow> 'h vfs \<Rightarrow> 'h vfs" where
  "dup_to old new s =
     (let f = fd_ref s ! old;
          s = set_fd new \<lparr>fd_node = fd_node f, fd_offset = fd_offset f, fd_flags = fd_flags f, fd_used = True,
                          fd_refcount = 1\<rparr> s;
          f = fd_ref s ! old
      in set_fd old (f\<lparr>fd_refcount := fd_refcount f + 1\<rparr>) s)"

definition krust_vfs_dup :: "i32 \<Rightarrow> 'h vfs \<Rightarrow> i32 \<times> 'h vfs" where
  "krust_vfs_dup oldfd s =
     (if bad_fd oldfd s then (- 1, s)
      else let fd = alloc_fd s
           in if sint fd < 0 then (- 1, s) else (fd, dup_to (unat oldfd) (unat fd) s))"

definition krust_vfs_dup2 :: "i32 \<Rightarrow> i32 \<Rightarrow> 'h vfs \<Rightarrow> i32 \<times> 'h vfs" where
  "krust_vfs_dup2 oldfd newfd s =
     (if bad_fd oldfd s then (- 1, s)
      else if sint newfd < 0 \<or> sint newfd \<ge> int MAX_FDS then (- 1, s)
      else if oldfd = newfd then (newfd, s)
      else let f = fd_ref s ! unat newfd;
               s = (if fd_used f then
                      set_fd (unat newfd) (f\<lparr>fd_used := False, fd_node := 0, fd_offset := 0, fd_refcount := 0\<rparr>) s
                    else s)
           in (newfd, dup_to (unat oldfd) (unat newfd) s))"

definition krust_vfs_fcntl :: "i32 \<Rightarrow> i32 \<Rightarrow> u64 \<Rightarrow> 'h vfs \<Rightarrow> u64 \<times> 'h vfs" where
  "krust_vfs_fcntl fd cmd arg s =
     (if bad_fd fd s then (- 1, s)
      else if cmd = 0 then (let (r, s) = krust_vfs_dup fd s in (scast r, s))
      else if cmd = 1 then (ucast (fd_flags (fd_ref s ! unat fd)), s)
      else if cmd = 2 then (0, set_fd (unat fd) ((fd_ref s ! unat fd)\<lparr>fd_flags := ucast arg\<rparr>) s)
      else (- 1, s))"

definition krust_vfs_ioctl :: "i32 \<Rightarrow> u32 \<Rightarrow> u64 \<Rightarrow> u64" where
  "krust_vfs_ioctl fd request arg = - 1"

record poll_fd =
  pfd_fd :: i32
  pfd_events :: u16
  pfd_revents :: u16

text \<open>One entry: its new contents and what it adds to the count.\<close>

definition poll_one :: "'h vfs \<Rightarrow> poll_fd \<Rightarrow> poll_fd \<times> nat" where
  "poll_one s e =
     (let fd = pfd_fd e
      in if sint fd < 0 then (e, 0)
         else let e = e\<lparr>pfd_revents := 0\<rparr>
              in if sint fd \<ge> int MAX_FDS \<or> \<not> fd_used (fd_ref s ! unat fd) then
                   (e\<lparr>pfd_revents := pfd_revents e OR 0x20\<rparr>, 1)
                 else (e\<lparr>pfd_revents := pfd_revents e OR 1\<rparr>, 1))"

text \<open>A null pointer to the entries is None; the list has \<open>nfds\<close> entries.\<close>

definition krust_vfs_poll :: "poll_fd list option \<Rightarrow> 'h vfs \<Rightarrow> nat \<times> poll_fd list option" where
  "krust_vfs_poll fds s =
     (case fds of
        None \<Rightarrow> (0, None)
      | Some es \<Rightarrow> (sum_list (map (snd \<circ> poll_one s) es), Some (map (fst \<circ> poll_one s) es)))"

text \<open>
  One byte of a descriptor set: the bits of descriptors that are not in use are cleared, the others
  counted.
\<close>

definition select_byte :: "'h vfs \<Rightarrow> nat \<Rightarrow> nat \<Rightarrow> u8 \<Rightarrow> nat \<times> u8" where
  "select_byte s nfds byte_idx bits =
     fold (\<lambda>b (count, byte).
            let fd = byte_idx * 8 + b
            in if bit bits b then
                 if fd < MAX_FDS \<and> fd_used (fd_ref s ! fd) then (count + 1, byte)
                 else (count, byte AND NOT (push_bit b 1))
               else (count, byte))
       (takeWhile (\<lambda>b. byte_idx * 8 + b < nfds) [0..<8]) (0, bits)"

definition select_set :: "'h vfs \<Rightarrow> nat \<Rightarrow> u8 list option \<Rightarrow> nat \<times> u8 list option" where
  "select_set s nfds fds =
     (case fds of
        None \<Rightarrow> (0, None)
      | Some bytes \<Rightarrow>
          let rs = map (\<lambda>k. select_byte s nfds k (bytes ! k)) [0..<(nfds + 7) div 8]
          in (sum_list (map fst rs), Some (map snd rs @ drop (length rs) bytes)))"

definition krust_vfs_select ::
  "i32 \<Rightarrow> u8 list option \<Rightarrow> u8 list option \<Rightarrow> 'h vfs \<Rightarrow> nat \<times> u8 list option \<times> u8 list option" where
  "krust_vfs_select nfds readfds writefds s =
     (if sint nfds \<le> 0 \<or> sint nfds > 1024 then (0, readfds, writefds)
      else let (rc, readfds) = select_set s (unat nfds) readfds;
               (wc, writefds) = select_set s (unat nfds) writefds
           in (rc + wc, readfds, writefds))"

definition krust_vfs_chdir :: "path \<Rightarrow> 'h vfs \<Rightarrow> (i32 \<times> 'h vfs) option" where
  "krust_vfs_chdir path s =
     (case path of
        None \<Rightarrow> Some (- 1, s)
      | Some p \<Rightarrow>
          if p = [] then Some (- 1, s)
          else do {
            node \<leftarrow> krust_vfs_resolve path s;
            if node = 0 \<or> vn_type (vnodes s node) \<noteq> NODE_DIR then Some (- 1, s)
            else if \<not> check_permission node 1 s then Some (- 1, s)
            else case cur_task s of
                   None \<Rightarrow> Some (- 1, s)
                 | Some t \<Rightarrow> Some (0, s\<lparr>cur_task := Some (t\<lparr>t_cwd := take 127 p\<rparr>)\<rparr>)
          })"

definition krust_vfs_getcwd :: "usize \<Rightarrow> u32 \<Rightarrow> 'h vfs \<Rightarrow> i32 \<times> 'h vfs" where
  "krust_vfs_getcwd buf sz s =
     (if buf = 0 \<or> sz = 0 then (- 1, s)
      else case cur_task s of
             None \<Rightarrow> (- 1, s)
           | Some t \<Rightarrow> copy_out buf sz (t_cwd t) s)"

section \<open>Contents\<close>

definition bytes_at :: "mem \<Rightarrow> usize \<Rightarrow> nat \<Rightarrow> u8 list" where
  "bytes_at m a n = map (\<lambda>i. m (a + i)) [0..<n]"

lemma contents_bytes: "contents s a = bytes_at (vmem s) (vn_data (vnodes s a)) (unat (vn_size (vnodes s a)))"
  by (simp add: contents_def bytes_at_def)

lemma length_bytes_at [simp]: "length (bytes_at m a n) = n"
  by (simp add: bytes_at_def)

lemma bytes_at_cong: "(\<And>x. a \<le> x \<Longrightarrow> x < a + n \<Longrightarrow> m' x = m x) \<Longrightarrow> bytes_at m' a n = bytes_at m a n"
  by (simp add: bytes_at_def)

text \<open>Memory outside the kernel heap, where the buffers of the callers are.\<close>

definition outside :: "usize \<Rightarrow> nat \<Rightarrow> bool" where
  "outside a n \<longleftrightarrow> a \<noteq> 0 \<and> (a + n \<le> HEAP_START \<or> HEAP_START + HEAP_SIZE \<le> a)"

lemma heap_live_arena:
  assumes "heap_inv h" and "(p, z) \<in> heap_live h"
  shows "HEAP_START \<le> p" "p + z \<le> HEAP_START + HEAP_SIZE"
proof -
  obtain L where L: "heap_rep h L" using assms(1) by (auto simp: heap_inv_def)
  then have "HDR \<le> p" "(p - HDR, z, False) \<in> set L" using assms(2) by (auto simp: heap_live_rep live_of_mem)
  with heap_rep_addr(1,2) [OF L this(2)] show "HEAP_START \<le> p" "p + z \<le> HEAP_START + HEAP_SIZE" by auto
qed

text \<open>Setting the data and size of a node.\<close>

definition set_data :: "usize \<Rightarrow> usize \<Rightarrow> u32 \<Rightarrow> 'h vfs \<Rightarrow> 'h vfs" where
  "set_data a d sz s = set_node a ((vnodes s a)\<lparr>vn_data := d, vn_size := sz\<rparr>) s"

lemma set_data_nodes:
  "vnodes (set_data a d sz s) b = (if b = a then (vnodes s a)\<lparr>vn_data := d, vn_size := sz\<rparr> else vnodes s b)"
  "vroot (set_data a d sz s) = vroot s" "vmem (set_data a d sz s) = vmem s" "fheap (set_data a d sz s) = fheap s"
  "cur_task (set_data a d sz s) = cur_task s"
  by (simp_all add: set_data_def set_node_def)

text \<open>The links do not depend on data and size.\<close>

lemma tree_ok_cong:
  assumes t: "tree_ok m root N K"
    and e: "\<And>a. a \<in> N \<Longrightarrow> vn_name (m' a) = vn_name (m a) \<and> vn_type (m' a) = vn_type (m a) \<and>
      vn_parent (m' a) = vn_parent (m a) \<and> vn_children (m' a) = vn_children (m a) \<and> vn_next (m' a) = vn_next (m a)"
  shows "tree_ok m' root N K" "a \<in> N \<Longrightarrow> down K m' a ns = down K m a ns"
proof -
  have sub: "set (K a) \<subseteq> N" if "a \<in> N" for a using kids_old [OF t that] by blast
  have seg: "kseg m' c (K a) = kseg m c (K a)" if "a \<in> N" for a c
    using e sub [OF that] by (intro kseg_cong) blast
  have nm: "named m' (K a) n = named m (K a) n" if "a \<in> N" for a n
    using e sub [OF that] by (intro named_cong) blast
  have dist: "distinct (map (\<lambda>k. vn_name (m' k)) (K a))" if "a \<in> N" for a
  proof -
    have "map (\<lambda>k. vn_name (m' k)) (K a) = map (\<lambda>k. vn_name (m k)) (K a)" using e sub [OF that] by auto
    then show ?thesis using kids_okD(3) [OF tree_okD(6) [OF t that]] by (simp only:)
  qed
  have dn: "down K m' a ns = down K m a ns" if "a \<in> N" for a ns
    using that
  proof (induction ns arbitrary: a)
    case (Cons n ns)
    then show ?case using child_in [OF t Cons.prems, of n] nm [OF Cons.prems, of n]
      by (cases "child K m a n") (auto simp: child_def)
  qed simp
  then show "a \<in> N \<Longrightarrow> down K m' a ns = down K m a ns" .
  have k: "kids_ok m' root N K a" if "a \<in> N" for a
    using tree_okD(6) [OF t that] seg [OF that] dist [OF that] sub [OF that] e that unfolding kids_ok_def by auto
  show "tree_ok m' root N K"
    using tree_okD [OF t] e k dn unfolding tree_ok_def by auto
qed

lemma set_data_tree:
  assumes "vfs_inv live s N K"
  shows "tree_ok (vnodes (set_data a d sz s)) (vroot s) N K" "walk (vnodes (set_data a d sz s)) (vroot s) = files s"
proof -
  note V = vfs_invD [OF assms]
  show t: "tree_ok (vnodes (set_data a d sz s)) (vroot s) N K"
    by (rule tree_ok_cong [OF V(1)]) (simp add: set_data_nodes)
  show "walk (vnodes (set_data a d sz s)) (vroot s) = files s"
  proof
    fix ns
    have "down K (vnodes (set_data a d sz s)) (vroot s) ns = down K (vnodes s) (vroot s) ns"
      by (rule tree_ok_cong(2) [OF V(1) _ V(4)]) (simp add: set_data_nodes)
    then show "walk (vnodes (set_data a d sz s)) (vroot s) ns = files s ns"
      unfolding files_down [OF assms] walk_down [OF t V(4)] .
  qed
qed

context allocator
begin

text \<open>Giving a file a block that no node has.\<close>

lemma give_block:
  assumes i: "inv (fheap s)" and v: "vfs_inv live s N K" and a: "a \<in> N" "vn_type (vnodes s a) = NODE_FILE"
    and d: "(d, z) \<in> live (fheap s)" "unat sz \<le> z" "d \<notin> N" "\<And>b. b \<in> N \<Longrightarrow> vn_data (vnodes s b) \<noteq> d"
  shows "vfs_inv live (set_data a d sz s) N K"
    "b \<in> N \<Longrightarrow> vn_data (vnodes s b) \<noteq> 0 \<Longrightarrow>
       d + unat sz \<le> vn_data (vnodes s b) \<or> vn_data (vnodes s b) + unat (vn_size (vnodes s b)) \<le> d"
proof -
  note V = vfs_invD [OF v]
  let ?s = "set_data a d sz s"
  have d0: "d \<noteq> 0" using live_nonnull [OF i d(1)] .
  have "data_ok (live (fheap s)) (vnodes ?s) N"
    unfolding data_ok_def
  proof (intro conjI ballI)
    fix b assume b: "b \<in> N"
    show "if vn_data (vnodes ?s b) = 0 then vn_size (vnodes ?s b) = 0 else vn_type (vnodes ?s b) = NODE_FILE \<and>
        vn_data (vnodes ?s b) \<notin> N \<and>
        (\<exists>z \<ge> unat (vn_size (vnodes ?s b)). (vn_data (vnodes ?s b), z) \<in> live (fheap s))"
      using data_okD(1,2) [OF V(3) b] a d d0 by (cases "b = a") (auto simp: set_data_nodes)
  next
    show "inj_on (\<lambda>b. vn_data (vnodes ?s b)) {b \<in> N. vn_data (vnodes ?s b) \<noteq> 0}"
      using data_okD(3) [OF V(3)] d(4) by (auto simp: inj_on_def set_data_nodes)
  qed
  moreover have "tree_ok (vnodes ?s) (vroot s) N K"
    by (rule tree_ok_cong(1) [OF V(1)]) (simp add: set_data_nodes)
  ultimately show "vfs_inv live ?s N K" using V(2) by (simp add: vfs_inv_def set_data_nodes)
  assume b: "b \<in> N" "vn_data (vnodes s b) \<noteq> 0"
  then obtain y where y: "(vn_data (vnodes s b), y) \<in> live (fheap s)" "unat (vn_size (vnodes s b)) \<le> y"
    using data_okD(2) [OF V(3) b(1)] by blast
  from live_disjoint [OF i d(1) y(1)] d(4) [OF b(1)] d(2) y(2)
  show "d + unat sz \<le> vn_data (vnodes s b) \<or> vn_data (vnodes s b) + unat (vn_size (vnodes s b)) \<le> d" by force
qed

text \<open>A block just allocated is such a block.\<close>

lemma new_block:
  assumes i: "inv (fheap s)" and v: "vfs_inv live s N K" and m: "malloc n (fheap s) = Some (d, h)" "d \<noteq> 0"
  obtains z where "inv h" "vfs_inv live (s\<lparr>fheap := h\<rparr>) N K" "(d, z) \<in> live h" "unat n \<le> z" "d \<notin> N"
    "\<And>b. b \<in> N \<Longrightarrow> vn_data (vnodes s b) \<noteq> d"
proof -
  note V = vfs_invD [OF v]
  obtain z where z: "unat n \<le> z" "live h = insert (d, z) (live (fheap s))" "d \<notin> fst ` live (fheap s)"
    using malloc_block [OF i m] by blast
  moreover have "vn_data (vnodes s b) \<noteq> d" if "b \<in> N" for b
    using data_okD(2) [OF V(3) that] z(3) m(2) by (force simp: image_iff)
  moreover have "vfs_inv live (s\<lparr>fheap := h\<rparr>) N K"
    using V(1,2) data_ok_mono [OF V(3), of "live h"] z(2) by (auto simp: vfs_inv_def)
  ultimately show thesis using malloc_inv [OF i m(1)] V(2) by (intro that [of z]) auto
qed

text \<open>Taking the block of a file away.\<close>

lemma no_data:
  assumes i: "inv (fheap s)" and v: "vfs_inv live s N K" and a: "a \<in> N"
  obtains h t where "(if vn_data (vnodes s a) \<noteq> 0 then do {
                      s \<leftarrow> free_block mfree (vn_data (vnodes s a)) s;
                      Some (set_node a ((vnodes s a)\<lparr>vn_data := 0\<rparr>) s)
                    } else Some s) = Some t"
    "set_node a ((vnodes t a)\<lparr>vn_size := 0\<rparr>) t = set_data a 0 0 (s\<lparr>fheap := h\<rparr>)" "inv h" "vfs_inv live (set_data a 0 0 (s\<lparr>fheap := h\<rparr>)) N K"
    "live h = {b \<in> live (fheap s). fst b \<noteq> vn_data (vnodes s a)}"
proof -
  note V = vfs_invD [OF v]
  have "vn_data (vnodes s a) = 0 \<or> vn_data (vnodes s a) \<in> fst ` live (fheap s)"
    using data_okD(2) [OF V(3) a] by force
  then obtain h where h: "(if vn_data (vnodes s a) \<noteq> 0 then free_block mfree (vn_data (vnodes s a)) s else Some s) =
      Some (s\<lparr>fheap := h\<rparr>)" "inv h" "live h = {b \<in> live (fheap s). fst b \<noteq> vn_data (vnodes s a)}"
    by (rule free_data [OF i])
  let ?s = "set_data a 0 0 (s\<lparr>fheap := h\<rparr>)"
  have "data_ok (live h) (vnodes ?s) N"
    unfolding data_ok_def
  proof (intro conjI ballI)
    fix b assume b: "b \<in> N"
    show "if vn_data (vnodes ?s b) = 0 then vn_size (vnodes ?s b) = 0 else vn_type (vnodes ?s b) = NODE_FILE \<and>
        vn_data (vnodes ?s b) \<notin> N \<and> (\<exists>z \<ge> unat (vn_size (vnodes ?s b)). (vn_data (vnodes ?s b), z) \<in> live h)"
    proof (cases "b = a")
      case False
      then have "vn_data (vnodes s b) \<noteq> 0 \<Longrightarrow> vn_data (vnodes s b) \<noteq> vn_data (vnodes s a)"
        using data_okD(3) [OF V(3) b, of a] a by metis
      then show ?thesis using data_okD(1,2) [OF V(3) b] False unfolding h(3) by (auto simp: set_data_nodes)
    qed (simp add: set_data_nodes)
  next
    show "inj_on (\<lambda>b. vn_data (vnodes ?s b)) {b \<in> N. vn_data (vnodes ?s b) \<noteq> 0}"
      using data_okD(3) [OF V(3)] by (auto simp: inj_on_def set_data_nodes)
  qed
  moreover have "N \<subseteq> fst ` live h"
    using V(2) data_okD(2) [OF V(3) a] tree_okD(2) [OF V(1)] unfolding h(3) by (force simp: image_iff)
  moreover have "tree_ok (vnodes ?s) (vroot s) N K"
    by (rule tree_ok_cong(1) [OF V(1)]) (simp add: set_data_nodes)
  ultimately have "vfs_inv live ?s N K" by (simp add: vfs_inv_def set_data_nodes)
  note inv' = this
  show thesis
  proof (cases "vn_data (vnodes s a) = 0")
    case True
    moreover have hh: "h = fheap s" using h(1) True by (cases s) simp
    moreover have "set_node a ((vnodes s a)\<lparr>vn_size := 0\<rparr>) s = set_data a 0 0 (s\<lparr>fheap := h\<rparr>)"
      using True hh by (cases s; cases "vnodes s a") (simp add: set_data_def set_node_def)
    ultimately show thesis using h(2,3) inv' by (intro that [of s h]) simp_all
  next
    case False
    let ?t = "set_node a ((vnodes s a)\<lparr>vn_data := 0\<rparr>) (s\<lparr>fheap := h\<rparr>)"
    show thesis using False h inv' by (intro that [of ?t h]) (simp_all add: set_data_def set_node_def)
  qed
qed

end

lemma copy_mem_fields [simp]:
  "vnodes (copy_mem x y n s) = vnodes s" "vroot (copy_mem x y n s) = vroot s" "fheap (copy_mem x y n s) = fheap s"
  "cur_task (copy_mem x y n s) = cur_task s" "files (copy_mem x y n s) = files s"
  "vfs_inv live (copy_mem x y n s) N K = vfs_inv live s N K"
  by (simp_all add: copy_mem_def files_def vfs_inv_def)

lemma copy_mem_blit:
  "x \<le> y \<or> y + n \<le> x \<Longrightarrow> vmem (copy_mem x y n s) = blit x y n (vmem s)"
  by (simp add: copy_mem_def krust_memcpy_def fold_forward)

lemma outside_block:
  assumes "heap_inv h" and "(d, z) \<in> heap_live h" and "outside x n" and "k \<le> z"
  shows "x + n \<le> d \<or> d + k \<le> x"
  using heap_live_arena [OF assms(1,2)] assms(3,4) by (auto simp: outside_def)

lemma bytes_blit:
  "bytes_at (blit x y n m) x n = bytes_at m y n"
  "x + n \<le> a \<or> a + k \<le> x \<Longrightarrow> bytes_at (blit x y n m) a k = bytes_at m a k"
  by (auto simp: bytes_at_def blit_def)

lemma files_set_data [simp]: "vfs_inv live s N K \<Longrightarrow> files (set_data a d sz s) = files s"
  using set_data_tree(2) by (simp add: files_def set_data_nodes)

lemma files_fheap [simp]: "files (s\<lparr>fheap := h\<rparr>) = files s"
  by (simp add: files_def)

text \<open>Filling a file that has no block yet from a buffer of the caller.\<close>

lemma fill_block:
  assumes i: "heap_inv (fheap s)" and v: "vfs_inv heap_live s N K"
    and a: "a \<in> N" "vn_type (vnodes s a) = NODE_FILE" "vn_data (vnodes s a) = 0"
    and m: "krust_malloc sz (fheap s) = Some (d, h)" "d \<noteq> 0" and o: "outside data (unat sz)"
  defines "s' \<equiv> copy_mem d data (unat sz) (set_data a d sz (s\<lparr>fheap := h\<rparr>))"
  shows "heap_inv h" "vfs_inv heap_live s' N K" "contents s' a = bytes_at (vmem s) data (unat sz)"
    "files s' = files s" "b \<in> N \<Longrightarrow> b \<noteq> a \<Longrightarrow> contents s' b = contents s b"
proof -
  note V = vfs_invD [OF v]
  obtain z where z: "heap_inv h" "vfs_inv heap_live (s\<lparr>fheap := h\<rparr>) N K" "(d, z) \<in> heap_live h" "unat sz \<le> z"
      "d \<notin> N" "\<And>b. b \<in> N \<Longrightarrow> vn_data (vnodes s b) \<noteq> d"
    using i v m by (rule kernel_heap.new_block) blast
  have B: "vfs_inv heap_live (set_data a d sz (s\<lparr>fheap := h\<rparr>)) N K"
    "\<And>b. b \<in> N \<Longrightarrow> vn_data (vnodes s b) \<noteq> 0 \<Longrightarrow>
       d + unat sz \<le> vn_data (vnodes s b) \<or> vn_data (vnodes s b) + unat (vn_size (vnodes s b)) \<le> d"
    using kernel_heap.give_block [OF _ z(2) a(1) _ _ z(4,5)] z a(2) by simp_all
  show "heap_inv h" by fact
  show v': "vfs_inv heap_live s' N K" using B(1) by (simp add: s'_def)
  have "data + unat sz \<le> d \<or> d + unat sz \<le> data" using z(1,3) o z(4) by (rule outside_block)
  then have mem: "vmem s' = blit d data (unat sz) (vmem s)"
    unfolding s'_def by (subst copy_mem_blit) (auto simp: set_data_nodes)
  show "contents s' a = bytes_at (vmem s) data (unat sz)"
    unfolding contents_bytes mem by (simp add: s'_def set_data_nodes bytes_blit(1))
  show "files s' = files s"
    using set_data_tree(2) [OF v, of a d sz] by (simp add: s'_def files_def set_data_nodes set_data_def set_node_def)
  assume b: "b \<in> N" "b \<noteq> a"
  have same: "vn_data (vnodes s' b) = vn_data (vnodes s b)" "vn_size (vnodes s' b) = vn_size (vnodes s b)"
    using b(2) by (simp_all add: s'_def set_data_nodes)
  show "contents s' b = contents s b"
  proof (cases "vn_data (vnodes s b) = 0")
    case True
    then show ?thesis using data_okD(1) [OF V(3) b(1)] same by (simp add: contents_def)
  next
    case False
    from B(2) [OF b(1) False] show ?thesis unfolding contents_bytes mem same by (rule bytes_blit(2))
  qed
qed

text \<open>Making a file with contents.\<close>

lemma create_file_cases:
  assumes v: "vfs_inv live s N K" and p: "path_ok s p" and new: "files s (comps p) = None" and z: "sz > 0" "data \<noteq> 0"
  shows "krust_vfs_create_file malloc mfree (Some p) data sz s =
    (if can_create 2 p s then
       let d = or_null (files s (comps (dir_part p)));
           nd = (raw_node (extract_name p) NODE_FILE s)\<lparr>vn_parent := d\<rparr>
       in Option.bind (malloc VNODE_SIZE (fheap s)) (\<lambda>(a, h).
            if a = 0 then Some (- 1, s\<lparr>fheap := h\<rparr>)
            else let s1 = s\<lparr>fheap := h, vnodes := (vnodes s)(a := nd\<lparr>vn_size := sz\<rparr>)\<rparr>
                 in Option.bind (malloc sz h) (\<lambda>(b, h2).
                      let s2 = s1\<lparr>fheap := h2, vnodes := (vnodes s1)(a := (vnodes s1 a)\<lparr>vn_data := b\<rparr>)\<rparr>
                      in if b = 0 then map_option (Pair (- 1)) (free_block mfree a s2)
                         else Some (0, link_child d a (copy_mem b data (unat sz) s2))))
     else Some (- 1, s))"
proof (cases "files s (comps (dir_part p))")
  case None
  then show ?thesis
    using resolve_parent_files [OF v p] by (simp add: krust_vfs_create_file_def can_create_def)
next
  case (Some d)
  have d0: "d \<noteq> 0" using or_null_files [OF v, of "comps (dir_part p)"] Some by simp
  have pne: "p \<noteq> []" if "extract_name p \<noteq> []" using that by (auto simp: extract_name_def)
  have mb: "map_option f x = Option.bind x (\<lambda>y. Some (f y))" for f :: "'h vfs \<Rightarrow> i32 \<times> 'h vfs" and x
    by (cases x) auto
  show ?thesis
  proof (cases "malloc VNODE_SIZE (fheap s)")
    case None
    then show ?thesis
      using Some d0 resolve_parent_files [OF v p] new pne
      by (auto simp: krust_vfs_create_file_def can_create_def create_node_raw_node Let_def)
  next
    case ah: (Some ah)
    obtain a h where "ah = (a, h)" by (cases ah)
    then show ?thesis
      using Some ah d0 resolve_parent_files [OF v p] new z pne
      by (cases "malloc sz h")
        (auto simp: krust_vfs_create_file_def can_create_def create_node_raw_node set_node_def Let_def mb)
  qed
qed

lemma link_filled:
  assumes "d \<noteq> a"
  shows "link_child d a (copy_mem b data n (s\<lparr>fheap := h2, vnodes := (vnodes s)(a := nd\<lparr>vn_size := sz, vn_data := b\<rparr>)\<rparr>)) =
    copy_mem b data n (set_data a b sz ((with_node d a nd h s)\<lparr>fheap := h2\<rparr>))"
  using assms by (cases s; cases nd) (simp add: link_child_def copy_mem_def set_data_def set_node_def with_node_def
      linked_def add_child_def fun_upd_twist)

text \<open>Giving back a node that was not linked yet.\<close>

lemma undo_node:
  assumes i: "heap_inv (fheap s)" and v: "vfs_inv heap_live s N K"
    and a: "krust_malloc k (fheap s) = Some (a, h)" "a \<noteq> 0" and b: "krust_malloc sz h = Some (0, h2)"
  obtains h3 where "free_block krust_free a (s\<lparr>fheap := h2, vnodes := (vnodes s)(a := x)\<rparr>) =
      Some (s\<lparr>fheap := h2, vnodes := (vnodes s)(a := x), fheap := h3\<rparr>)"
    "vfs_ok (s\<lparr>fheap := h2, vnodes := (vnodes s)(a := x), fheap := h3\<rparr>)"
    "files (s\<lparr>fheap := h2, vnodes := (vnodes s)(a := x), fheap := h3\<rparr>) = files s"
    "\<forall>c \<in> N. contents (s\<lparr>fheap := h2, vnodes := (vnodes s)(a := x), fheap := h3\<rparr>) c = contents s c"
proof -
  obtain y where y: "heap_live h = insert (a, y) (heap_live (fheap s))" "a \<notin> fst ` heap_live (fheap s)"
    using kernel_heap.malloc_block [OF i a] by blast
  then have aN: "a \<notin> N" using vfs_invD(2) [OF v] by blast
  have ih: "heap_inv h" using kernel_heap.malloc_inv [OF i a(1)] .
  have i2: "heap_inv h2" "heap_live h2 = heap_live h"
    using kernel_heap.malloc_inv [OF ih b] kernel_heap.malloc_null [OF ih b] by auto
  then obtain h3 where h3: "krust_free a h2 = Some h3" "heap_inv h3" "heap_live h3 = heap_live h2 - {(a, y)}"
    using kernel_heap.free_live [OF i2(1), of a y] y(1) by auto
  let ?s3 = "s\<lparr>fheap := h2, vnodes := (vnodes s)(a := x), fheap := h3\<rparr>"
  have l3: "heap_live h3 = heap_live (fheap s)" using h3(3) i2(2) y by (auto simp: image_iff)
  have same: "vnodes ?s3 c = vnodes s c" if "c \<in> N" for c using that aN by auto
  have t: "tree_ok (vnodes ?s3) (vroot s) N K"
    using same by (intro tree_ok_cong(1) [OF vfs_invD(1) [OF v]]) simp
  have v3: "vfs_inv heap_live ?s3 N K"
    using t vfs_invD(2) [OF v] data_ok_cong [OF vfs_invD(3) [OF v], of "vnodes ?s3"] same l3
    by (simp add: vfs_inv_def)
  have "down K (vnodes ?s3) (vroot s) ns = down K (vnodes s) (vroot s) ns" for ns
    by (rule tree_ok_cong(2) [OF vfs_invD(1) [OF v] _ vfs_invD(4) [OF v]]) (simp only: same)
  then have "files ?s3 ns = files s ns" for ns unfolding files_down [OF v3] files_down [OF v] by simp
  then have "files ?s3 = files s" by (rule ext)
  moreover have "\<forall>c \<in> N. contents ?s3 c = contents s c" using same by (simp add: contents_def)
  moreover have "vfs_ok ?s3" using v3 h3(2) by (auto simp: vfs_good_def)
  ultimately show thesis using h3(1) by (intro that [of h3]) (simp_all add: free_block_def)
qed

text \<open>The heap has no block of a size, and what makes the creation of a file with contents fail.\<close>

definition no_memory :: "u32 \<Rightarrow> kheap \<Rightarrow> bool" where
  "no_memory n h \<longleftrightarrow> map_option fst (krust_malloc n h) = Some 0"

definition create_fails :: "u8 list \<Rightarrow> u32 \<Rightarrow> kheap vfs \<Rightarrow> bool" where
  "create_fails p sz s \<longleftrightarrow> \<not> can_create 2 p s \<or> no_memory VNODE_SIZE (fheap s) \<or>
     (\<exists>a h. krust_malloc VNODE_SIZE (fheap s) = Some (a, h) \<and> no_memory sz h)"

lemma create_file_rep:
  assumes i: "heap_inv (fheap s)" and v: "vfs_inv heap_live s N K" and p: "path_ok s p"
    and new: "files s (comps p) = None" and z: "sz > 0" and o: "outside data (unat sz)"
  shows "\<exists>r s'. krust_vfs_create_file krust_malloc krust_free (Some p) data sz s = Some (r, s') \<and> vfs_ok s' \<and>
    (\<forall>b \<in> N. contents s' b = contents s b) \<and>
    (if create_fails p sz s then r = - 1 \<and> files s' = files s
     else r = 0 \<and> (\<exists>a. a \<notin> N \<and> files s' = (files s)(comps p \<mapsto> a) \<and> contents s' a = bytes_at (vmem s) data (unat sz)))"
proof (cases "can_create 2 p s")
  case False
  have "data \<noteq> 0" using o by (simp add: outside_def)
  from create_file_cases [OF v p new z this] False show ?thesis using i v by (auto simp: vfs_good_def create_fails_def)
next
  case True
  have d0: "data \<noteq> 0" using o by (simp add: outside_def)
  obtain d where d: "files s (comps (dir_part p)) = Some d" "vn_type (vnodes s d) = NODE_DIR"
    and n: "extract_name p \<noteq> []" using True by (auto simp: can_create_def split: option.splits)
  let ?nd = "(raw_node (extract_name p) NODE_FILE s)\<lparr>vn_parent := d\<rparr>"
  obtain a h where a: "krust_malloc VNODE_SIZE (fheap s) = Some (a, h)" using kernel_heap.malloc_returns [OF i] by blast
  show ?thesis
  proof (cases "a = 0")
    case null: True
    then have "krust_vfs_create_file krust_malloc krust_free (Some p) data sz s = Some (- 1, s\<lparr>fheap := h\<rparr>)"
      using create_file_cases [OF v p new z d0] True a by (simp add: Let_def)
    moreover have "vfs_ok (s\<lparr>fheap := h\<rparr>)" using kernel_heap.null_inv [OF i v a [unfolded null]] by (auto simp: vfs_good_def)
    moreover have "create_fails p sz s" using a null by (simp add: create_fails_def no_memory_def)
    ultimately show ?thesis by (auto simp: contents_def)
  next
    case a0: False
    have nm: "take 63 (extract_name p) = extract_name p" using p by (simp add: path_ok_def)
    let ?w = "with_node d a ?nd h s"
    have ih: "heap_inv h" and vw: "vfs_inv heap_live ?w (insert a N) (kids_linked K d a)"
      and fw: "files ?w = (files s)(comps p \<mapsto> a)" and aN: "a \<notin> N"
      using kernel_heap.make_node(1-4) [OF i v p d n new a a0, of ?nd] nm nodes_ran [OF v] by simp_all
    have da: "d \<noteq> a" using files_in [OF v d(1)] aN by auto
    obtain b h2 where b: "krust_malloc sz h = Some (b, h2)" using kernel_heap.malloc_returns [OF ih] by blast
    let ?s2 = "s\<lparr>fheap := h2, vnodes := (vnodes s)(a := ?nd\<lparr>vn_size := sz, vn_data := b\<rparr>)\<rparr>"
    have res: "krust_vfs_create_file krust_malloc krust_free (Some p) data sz s =
        (if b = 0 then map_option (Pair (- 1)) (free_block krust_free a ?s2)
         else Some (0, link_child d a (copy_mem b data (unat sz) ?s2)))"
      using create_file_cases [OF v p new z d0, of krust_malloc krust_free] True a a0 b d(1) by (simp add: Let_def)
    show ?thesis
    proof (cases "b = 0")
      case b0: True
      obtain h3 where "free_block krust_free a ?s2 = Some (?s2\<lparr>fheap := h3\<rparr>)" "vfs_ok (?s2\<lparr>fheap := h3\<rparr>)"
        "files (?s2\<lparr>fheap := h3\<rparr>) = files s" "\<forall>c \<in> N. contents (?s2\<lparr>fheap := h3\<rparr>) c = contents s c"
        using i v a a0 b [unfolded b0] by (rule undo_node)
      moreover have "create_fails p sz s" using a b b0 by (simp add: create_fails_def no_memory_def)
      ultimately show ?thesis using res b0 by auto
    next
      case b1: False
      have nf: "\<not> create_fails p sz s" using True a b a0 b1 by (simp add: create_fails_def no_memory_def)
      let ?s' = "copy_mem b data (unat sz) (set_data a b sz (?w\<lparr>fheap := h2\<rparr>))"
      have wa: "vn_type (vnodes ?w a) = NODE_FILE" "vn_data (vnodes ?w a) = 0" "vmem ?w = vmem s" "fheap ?w = h"
        using da by (simp_all add: with_node_def linked_new)
      note F = fill_block [OF _ vw insertI1 wa(1,2) _ b1 o, of h2, unfolded wa(4), OF ih b]
      have "contents ?s' c = contents s c" if "c \<in> N" for c
      proof -
        have ca: "c \<noteq> a" using that aN by auto
        have "contents ?w c = contents s c"
          using linked_old(5,6) [OF da ca] by (simp add: contents_def with_node_def)
        then show ?thesis using F(5) [of c] that ca by simp
      qed
      moreover have "vfs_ok ?s'" using F(1,2) by (auto simp: vfs_good_def set_data_nodes)
      moreover have "files ?s' = (files s)(comps p \<mapsto> a)" using F(4) fw by simp
      moreover have "contents ?s' a = bytes_at (vmem s) data (unat sz)" using F(3) wa(3) by simp
      ultimately show ?thesis using nf res b1 aN link_filled [OF da, where h = h] by auto
    qed
  qed
qed

text \<open>Replacing the contents of a file. The old contents are given back before the new block is asked for.\<close>

definition heap_without :: "usize \<Rightarrow> kheap vfs \<Rightarrow> kheap option" where
  "heap_without a s = (if vn_data (vnodes s a) = 0 then Some (fheap s) else krust_free (vn_data (vnodes s a)) (fheap s))"

lemma write_existing:
  assumes i: "heap_inv (fheap s)" and v: "vfs_inv heap_live s N K"
    and r: "krust_vfs_resolve (Some p) s = Some a" "p \<noteq> []"
    and a: "a \<in> N" "vn_type (vnodes s a) = NODE_FILE" and z: "sz > 0" and o: "outside data (unat sz)"
  shows "\<exists>r s'. krust_vfs_write_file krust_malloc krust_free (Some p) data sz s = Some (r, s') \<and> vfs_ok s' \<and>
    files s' = files s \<and> (\<forall>b \<in> N. b \<noteq> a \<longrightarrow> contents s' b = contents s b) \<and>
    (if \<not> check_permission a 2 s then r = - 1 \<and> contents s' a = contents s a
     else if \<exists>h. heap_without a s = Some h \<and> no_memory sz h then r = - 1 \<and> contents s' a = []
     else r = 0 \<and> contents s' a = bytes_at (vmem s) data (unat sz))"
proof -
  have a0: "a \<noteq> 0" using a(1) tree_okD(2) [OF vfs_invD(1) [OF v]] by metis
  have d0: "data \<noteq> 0" using o by (simp add: outside_def)
  show ?thesis
  proof (cases "check_permission a 2 s")
    case False
    then show ?thesis using i v r a0 a(2) by (auto simp: krust_vfs_write_file_def vfs_good_def)
  next
    case perm: True
    obtain h t where t: "(if vn_data (vnodes s a) \<noteq> 0 then do {
            s \<leftarrow> free_block krust_free (vn_data (vnodes s a)) s;
            Some (set_node a ((vnodes s a)\<lparr>vn_data := 0\<rparr>) s)
          } else Some s) = Some t"
      "set_node a ((vnodes t a)\<lparr>vn_size := 0\<rparr>) t = set_data a 0 0 (s\<lparr>fheap := h\<rparr>)"
      and h: "heap_inv h" "vfs_inv heap_live (set_data a 0 0 (s\<lparr>fheap := h\<rparr>)) N K"
      using i v a(1) by (rule kernel_heap.no_data)
    have "fheap t = h" using arg_cong [OF t(2), of fheap] by (simp add: set_data_def set_node_def)
    then have hw: "heap_without a s = Some h"
      using t(1) by (auto simp: heap_without_def free_block_def set_node_def bind_eq_Some_conv split: if_splits)
    let ?w = "set_data a 0 0 (s\<lparr>fheap := h\<rparr>)"
    have w: "vn_type (vnodes ?w a) = NODE_FILE" "vn_data (vnodes ?w a) = 0" "vmem ?w = vmem s" "fheap ?w = h"
      "vnodes ?w a = (vnodes s a)\<lparr>vn_data := 0, vn_size := 0\<rparr>"
      using a(2) by (simp_all add: set_data_nodes)
    have fw: "files ?w = files s" using set_data_tree(2) [OF v, of a 0 0]
      by (simp add: files_def set_data_def set_node_def)
    have cw: "contents ?w b = contents s b" if "b \<noteq> a" for b using that by (simp add: contents_def set_data_nodes)
    obtain d h2 where m: "krust_malloc sz h = Some (d, h2)" using kernel_heap.malloc_returns [OF h(1)] by blast
    let ?x = "?w\<lparr>fheap := h2\<rparr>"
    have c: "a \<noteq> 0 \<and> vn_type (vnodes s a) = NODE_FILE" "sz > 0 \<and> data \<noteq> 0" "\<not> (Some p = None \<or> Some p = Some [])"
      "\<not> \<not> check_permission a 2 s" using a0 a(2) z d0 r(2) perm by auto
    have "krust_vfs_write_file krust_malloc krust_free (Some p) data sz s =
        (let u = ?w\<lparr>fheap := h2\<rparr>; u = set_node a ((vnodes u a)\<lparr>vn_data := d\<rparr>) u
         in if d = 0 then Some (- 1, u)
            else let u = copy_mem d data (unat sz) u in Some (0, set_node a ((vnodes u a)\<lparr>vn_size := sz\<rparr>) u))"
      unfolding krust_vfs_write_file_def r(1)
      by (simp only: if_P [OF c(1)] if_P [OF c(2)] if_not_P [OF c(3)] if_not_P [OF c(4)] t bind.bind_lunit Let_def w(4)
          m prod.case)
    also have "\<dots> = (if d = 0 then Some (- 1, ?w\<lparr>fheap := h2\<rparr>)
        else Some (0, copy_mem d data (unat sz) (set_data a d sz (?w\<lparr>fheap := h2\<rparr>))))"
      using w(2) by (cases s; cases "vnodes s a") (simp add: Let_def set_data_def set_node_def copy_mem_def)
    finally have res: "krust_vfs_write_file krust_malloc krust_free (Some p) data sz s = \<dots>" .
    show ?thesis
    proof (cases "d = 0")
      case True
      have "heap_inv h2" "heap_live h2 = heap_live h"
        using kernel_heap.malloc_inv [OF h(1) m] kernel_heap.malloc_null [OF h(1)] m True by auto
      then have "vfs_ok (?w\<lparr>fheap := h2\<rparr>)" using h(2) by (auto simp: vfs_good_def vfs_inv_def w)
      moreover have "contents (?w\<lparr>fheap := h2\<rparr>) a = []" by (simp add: contents_def set_data_nodes)
      ultimately show ?thesis using res True fw cw perm hw m by (simp add: contents_def no_memory_def)
    next
      case False
      note F = fill_block [OF _ h(2) a(1) w(1,2) _ False o, unfolded w(4), OF h(1) m, unfolded w(3)]
      have "vfs_ok (copy_mem d data (unat sz) (set_data a d sz (?w\<lparr>fheap := h2\<rparr>)))"
        using F(1,2) by (auto simp: vfs_good_def set_data_nodes)
      then show ?thesis using res False F(3,4,5) fw cw perm hw m by (simp add: no_memory_def)
    qed
  qed
qed

section \<open>Growing a file\<close>

lemma set_data_twice [simp]: "set_data a d sz (set_data a e sz' s) = set_data a d sz s"
  by (cases s) (simp add: set_data_def set_node_def)

lemma clear_mem_fill:
  "clear_mem a n s = s\<lparr>vmem := (\<lambda>x. if a \<le> x \<and> x < a + n then 0 else vmem s x)\<rparr>"
  by (simp add: clear_mem_def krust_memset_def memset_fill)

lemma blit_0 [simp]: "blit x y 0 m = m"
  by (auto simp: blit_def fun_eq_iff)

lemma free_no_data:
  assumes "(if vn_data (vnodes s a) \<noteq> 0 then do {
              s \<leftarrow> free_block mfree (vn_data (vnodes s a)) s;
              Some (set_node a ((vnodes s a)\<lparr>vn_data := 0\<rparr>) s)
            } else Some s) = Some t"
    and "set_node a ((vnodes t a)\<lparr>vn_size := 0\<rparr>) t = set_data a 0 0 (s\<lparr>fheap := h\<rparr>)"
  shows "if vn_data (vnodes s a) \<noteq> 0 then mfree (vn_data (vnodes s a)) (fheap s) = Some h else fheap s = h"
  using assms(1) arg_cong [OF assms(2), of fheap]
  by (cases "mfree (vn_data (vnodes s a)) (fheap s)")
    (auto simp: free_block_def set_node_def set_data_def split: if_splits)

text \<open>The old block is copied into the new one before it is given back.\<close>

lemma grow_block:
  assumes i: "heap_inv (fheap s)" and v: "vfs_inv heap_live s N K" and a: "a \<in> N" "vn_type (vnodes s a) = NODE_FILE"
    and m: "krust_malloc n (fheap s) = Some (d, h)" "d \<noteq> 0" and n: "n > vn_size (vnodes s a)"
  obtains h' where
    "(if vn_data (vnodes s a) \<noteq> 0 then free_block krust_free (vn_data (vnodes s a))
        (copy_mem d (vn_data (vnodes s a)) (unat (vn_size (vnodes s a))) (s\<lparr>fheap := h\<rparr>)) else Some (s\<lparr>fheap := h\<rparr>)) =
       Some (s\<lparr>fheap := h', vmem := blit d (vn_data (vnodes s a)) (unat (vn_size (vnodes s a))) (vmem s)\<rparr>)"
    "heap_inv h'" "vfs_inv heap_live (set_data a d n (s\<lparr>fheap := h'\<rparr>)) N K"
    "\<And>b. b \<in> N \<Longrightarrow> b \<noteq> a \<Longrightarrow> vn_data (vnodes s b) \<noteq> 0 \<Longrightarrow>
       d + unat n \<le> vn_data (vnodes s b) \<or> vn_data (vnodes s b) + unat (vn_size (vnodes s b)) \<le> d"
proof -
  let ?x = "vn_data (vnodes s a)" and ?k = "unat (vn_size (vnodes s a))"
  obtain z where z: "heap_inv h" "vfs_inv heap_live (s\<lparr>fheap := h\<rparr>) N K" "(d, z) \<in> heap_live h" "unat n \<le> z"
      "d \<notin> N" "\<And>b. b \<in> N \<Longrightarrow> vn_data (vnodes s b) \<noteq> d"
    using i v m by (rule kernel_heap.new_block) blast
  note V = vfs_invD [OF z(2)]
  have "heap_inv (fheap (s\<lparr>fheap := h\<rparr>))" using z(1) by simp
  from kernel_heap.no_data [OF this z(2) a(1)]
  obtain h' where h': "if ?x \<noteq> 0 then krust_free ?x h = Some h' else h = h'" "heap_inv h'"
      "vfs_inv heap_live (set_data a 0 0 (s\<lparr>fheap := h'\<rparr>)) N K" "heap_live h' = {b \<in> heap_live h. fst b \<noteq> ?x}"
  proof cases
    case (1 h' t)
    from free_no_data [OF 1(1,2)] 1(3-) show thesis by (intro that [of h']) (simp_all split: if_splits)
  qed
  let ?s = "set_data a 0 0 (s\<lparr>fheap := h'\<rparr>)"
  have other: "vn_data (vnodes ?s b) \<noteq> d" if "b \<in> N" for b
    using z(6) [OF that] m(2) by (simp add: set_data_nodes)
  have "heap_inv (fheap ?s)" "vn_type (vnodes ?s a) = NODE_FILE" "(d, z) \<in> heap_live (fheap ?s)"
    using h'(2,4) z(3) z(6) [OF a(1)] a(2) by (auto simp: set_data_nodes)
  note G = kernel_heap.give_block [OF this(1) h'(3) a(1) this(2,3) z(4,5) other, unfolded set_data_twice]
  have B: "d + unat n \<le> vn_data (vnodes s b) \<or> vn_data (vnodes s b) + unat (vn_size (vnodes s b)) \<le> d"
    if "b \<in> N" "b \<noteq> a" "vn_data (vnodes s b) \<noteq> 0" for b
    using G(2) [OF _ that(1)] that by (simp add: set_data_nodes)
  have "?x \<noteq> 0 \<Longrightarrow> d + ?k \<le> ?x \<or> ?x + ?k \<le> d"
  proof -
    assume "?x \<noteq> 0"
    then obtain y where "(?x, y) \<in> heap_live h" "?k \<le> y" using data_okD(2) [OF V(3) a(1)] by auto
    with kernel_heap.live_disjoint [OF z(1,3), of ?x y] z(4,6) a(1) n show ?thesis by (force simp: word_less_nat_alt)
  qed
  then have "?x \<noteq> 0 \<Longrightarrow> copy_mem d ?x ?k (s\<lparr>fheap := h\<rparr>) = s\<lparr>fheap := h, vmem := blit d ?x ?k (vmem s)\<rparr>"
    by (auto simp: copy_mem_def krust_memcpy_def fold_forward)
  moreover have "?x = 0 \<Longrightarrow> ?k = 0" using data_okD(1) [OF vfs_invD(3) [OF v] a(1)] by simp
  ultimately show thesis using h'(1,2) G(1) B by (intro that [of h']) (auto simp: free_block_def)
qed

section \<open>Writing at an offset\<close>

text \<open>Bytes laid over contents at an offset, a gap filled with zeros.\<close>

definition overwrite :: "u8 list \<Rightarrow> nat \<Rightarrow> u8 list \<Rightarrow> u8 list" where
  "overwrite c k w =
     (let c' = c @ replicate (k + length w - length c) 0 in take k c' @ w @ drop (k + length w) c')"

lemma bytes_overwrite:
  "k + n \<le> z \<Longrightarrow> bytes_at (blit (d + k) y n m) d z =
     take k (bytes_at m d z) @ bytes_at m y n @ drop (k + n) (bytes_at m d z)"
  by (rule nth_equalityI) (auto simp: bytes_at_def blit_def nth_append)

lemma bytes_sub: "k + n \<le> z \<Longrightarrow> bytes_at m (d + k) n = take n (drop k (bytes_at m d z))"
  by (rule nth_equalityI) (simp_all add: bytes_at_def add.assoc)

lemma bytes_grown:
  "k \<le> n \<Longrightarrow> bytes_at (\<lambda>a. if d + k \<le> a \<and> a < d + k + (n - k) then 0 else blit d y k m a) d n =
     bytes_at m y k @ replicate (n - k) 0"
  by (rule nth_equalityI) (auto simp: bytes_at_def blit_def nth_append)

lemma copy_mem_0 [simp]: "copy_mem x y 0 s = s"
  by (simp add: copy_mem_def krust_memcpy_def)

lemma vfs_inv_mem [simp]: "vfs_inv live (s\<lparr>vmem := m\<rparr>) N K = vfs_inv live s N K"
  "files (s\<lparr>vmem := m\<rparr>) = files s"
  by (simp_all add: vfs_inv_def files_def)

context allocator
begin

lemma blocks_apart:
  assumes i: "inv (fheap s)" and v: "vfs_inv live s N K" and n: "a \<in> N" "b \<in> N" "a \<noteq> b"
    and d: "vn_data (vnodes s a) \<noteq> 0" "vn_data (vnodes s b) \<noteq> 0"
  shows "vn_data (vnodes s a) + unat (vn_size (vnodes s a)) \<le> vn_data (vnodes s b) \<or>
    vn_data (vnodes s b) + unat (vn_size (vnodes s b)) \<le> vn_data (vnodes s a)"
proof -
  note D = data_okD [OF vfs_invD(3) [OF v]]
  obtain y z where "(vn_data (vnodes s a), y) \<in> live (fheap s)" "unat (vn_size (vnodes s a)) \<le> y"
    "(vn_data (vnodes s b), z) \<in> live (fheap s)" "unat (vn_size (vnodes s b)) \<le> z"
    using D(2) [OF n(1) d(1)] D(2) [OF n(2) d(2)] by blast
  with live_disjoint [OF i this(1,3)] D(3) [OF n(1) d(1) n(2)] n(3) show ?thesis by force
qed

end

lemma buffer_apart:
  assumes i: "heap_inv (fheap s)" and v: "vfs_inv heap_live s N K" and o: "outside x n"
    and c: "c \<in> N" "vn_data (vnodes s c) \<noteq> 0"
  shows "x + n \<le> vn_data (vnodes s c) \<or> vn_data (vnodes s c) + unat (vn_size (vnodes s c)) \<le> x"
proof -
  obtain y where y: "(vn_data (vnodes s c), y) \<in> heap_live (fheap s)" "unat (vn_size (vnodes s c)) \<le> y"
    using data_okD(2) [OF vfs_invD(3) [OF v] c] by blast
  from outside_block [OF i y(1) o y(2)] show ?thesis .
qed

lemma write_at:
  assumes i: "heap_inv (fheap s)" and v: "vfs_inv heap_live s N K" and a: "a \<in> N"
    and k: "k + n \<le> unat (vn_size (vnodes s a))" and o: "outside data n"
  defines "s' \<equiv> copy_mem (vn_data (vnodes s a) + k) data n s"
  shows "contents s' a = take k (contents s a) @ bytes_at (vmem s) data n @ drop (k + n) (contents s a)"
    "b \<in> N \<Longrightarrow> b \<noteq> a \<Longrightarrow> contents s' b = contents s b"
proof -
  let ?d = "vn_data (vnodes s a)" and ?z = "unat (vn_size (vnodes s a))"
  note D = data_okD [OF vfs_invD(3) [OF v]]
  have "n = 0 \<and> k = 0" if "?d = 0" using D(1) [OF a that] k by simp
  moreover have "data + n \<le> ?d + k \<or> ?d + k + n \<le> data" if "?d \<noteq> 0"
    using buffer_apart [OF i v o a that] k by linarith
  ultimately have mem: "vmem s' = blit (?d + k) data n (vmem s)"
    unfolding s'_def by (cases "?d = 0") (auto simp: copy_mem_blit)
  have same: "vnodes s' = vnodes s" by (simp add: s'_def)
  show "contents s' a = take k (contents s a) @ bytes_at (vmem s) data n @ drop (k + n) (contents s a)"
    unfolding contents_bytes mem same using k by (rule bytes_overwrite)
  assume b: "b \<in> N" "b \<noteq> a"
  have "?d + k + n \<le> vn_data (vnodes s b) \<or> vn_data (vnodes s b) + unat (vn_size (vnodes s b)) \<le> ?d + k"
    if "vn_data (vnodes s b) \<noteq> 0" "?d \<noteq> 0"
    using kernel_heap.blocks_apart [OF i v a b(1)] b(2) that k by force
  then have "?d \<noteq> 0 \<Longrightarrow> vn_data (vnodes s b) \<noteq> 0 \<Longrightarrow> contents s' b = contents s b"
    unfolding contents_bytes mem same by (intro bytes_blit(2))
  moreover have "vn_data (vnodes s b) = 0 \<Longrightarrow> contents s' b = contents s b"
    using D(1) [OF b(1)] by (simp add: contents_def same)
  moreover have "?d = 0 \<Longrightarrow> s' = s" using \<open>?d = 0 \<Longrightarrow> n = 0 \<and> k = 0\<close> by (simp add: s'_def)
  ultimately show "contents s' b = contents s b" by blast
qed

section \<open>Descriptor tables\<close>

lemma set_fd_fields [simp]:
  "vnodes (set_fd i e s) = vnodes s" "vroot (set_fd i e s) = vroot s" "fheap (set_fd i e s) = fheap s"
  "vmem (set_fd i e s) = vmem s" "files (set_fd i e s) = files s" "contents (set_fd i e s) = contents s"
  "vfs_inv live (set_fd i e s) N K = vfs_inv live s N K"
  "vfs_good live ok (set_fd i e s) = vfs_good live ok s"
  by (simp_all add: set_fd_def files_def vfs_inv_def contents_def fun_eq_iff vfs_good_def)

lemma fd_ref_set_fd: "current_fd_table s \<noteq> None \<Longrightarrow> fd_ref (set_fd i e s) = (fd_ref s)[i := e]"
  by (auto simp: fd_ref_def current_fd_table_def set_fd_def split: option.splits)

lemma table_set_fd [simp]: "current_fd_table (set_fd i e s) = map_option (\<lambda>fds. fds[i := e]) (current_fd_table s)"
  by (auto simp: current_fd_table_def set_fd_def split: option.splits)

lemma advance_fd_fields [simp]:
  "files (advance_fd i n s) = files s" "contents (advance_fd i n s) = contents s" "vmem (advance_fd i n s) = vmem s"
  "vfs_good live ok (advance_fd i n s) = vfs_good live ok s" "fheap (advance_fd i n s) = fheap s"
  "vfs_inv live (advance_fd i n s) N K = vfs_inv live s N K"
  by (simp_all add: advance_fd_def)

lemma sint_nat: "\<not> sint (x :: i32) < 0 \<Longrightarrow> sint x = int (unat x)"
  using sint_less [of x] uint_sint [of x] by (simp add: take_bit_int_eq_self)

lemma small_fd: "i < MAX_FDS \<Longrightarrow> unat (of_nat i :: i32) = i \<and> sint (of_nat i :: i32) = int i"
  by (simp add: MAX_FDS_def unat_of_nat signed_of_nat signed_take_bit_int_eq_self)

lemma sint_up: "sint (ucast (x :: u32) :: u64) = uint x"
proof -
  have "- (2 ^ 63) \<le> uint x" "uint x < 2 ^ 63" 
    using uint_lt2p [of x] order_trans [OF _ uint_ge_0 [of x], of "- (2 ^ 63)"] by simp_all
  then show ?thesis by (simp add: sint_uint uint_up_ucast is_up signed_take_bit_int_eq_self)
qed

lemma good_fd: "\<not> bad_fd fd s \<Longrightarrow> unat fd < MAX_FDS \<and> current_fd_table s \<noteq> None"
proof -
  assume b: "\<not> bad_fd fd s"
  then have "unat fd < MAX_FDS" using sint_nat [of fd] by (auto simp: bad_fd_def simp del: of_nat_unat uint_nat)
  moreover have "current_fd_table s \<noteq> None"
  proof
    assume "current_fd_table s = None"
    then show False using b calculation by (simp add: bad_fd_def fd_ref_def free_fd_def)
  qed
  ultimately show ?thesis by simp
qed

lemma fd_ref_cong: "cur_task s' = cur_task s \<Longrightarrow> fd_ref s' = fd_ref s"
  by (simp add: fd_ref_def current_fd_table_def)

lemma advance_fd_ref:
  "\<not> bad_fd fd s \<Longrightarrow> cur_task s' = cur_task s \<Longrightarrow> fd_ref (advance_fd (unat fd) n s') =
     (fd_ref s)[unat fd := (fd_ref s ! unat fd)\<lparr>fd_offset := fd_offset (fd_ref s ! unat fd) + n\<rparr>]"
  using good_fd [of fd s] fd_ref_cong [of s' s] fd_ref_set_fd [of s'] by (simp add: advance_fd_def current_fd_table_def)

section \<open>Properties\<close>

text \<open>What the checks of the calls read of a node.\<close>

definition usable :: "'h vfs \<Rightarrow> usize \<Rightarrow> u8 \<times> (u16 \<Rightarrow> bool)" where
  "usable s a = (vn_type (vnodes s a), \<lambda>w. check_permission a w s)"

lemma usable_same [simp]:
  "usable (set_fd i e s) a = usable s a" "usable (copy_mem x y n s) a = usable s a"
  "usable (s\<lparr>vmem := m\<rparr>) a = usable s a" "usable (s\<lparr>fheap := h\<rparr>) a = usable s a"
  "usable (set_data b d z s) a = usable s a"
  by (auto simp: usable_def check_permission_def set_fd_def copy_mem_def set_data_nodes fun_eq_iff Let_def
      split: option.splits)

lemma usableD:
  "usable s' a = usable s a \<Longrightarrow> vn_type (vnodes s' a) = vn_type (vnodes s a)"
  "usable s' a = usable s a \<Longrightarrow> check_permission a w s' = check_permission a w s"
  by (simp_all add: usable_def fun_eq_iff)

lemma write_fd_grown:
  assumes i: "heap_inv (fheap s)" and v: "vfs_inv heap_live s N K" and a: "a \<in> N" "vn_type (vnodes s a) = NODE_FILE"
    and m: "krust_malloc z (fheap s) = Some (d, h)" "d \<noteq> 0" and z: "z > vn_size (vnodes s a)"
  obtains g where "(do {
      s' \<leftarrow> (if vn_data (vnodes s a) \<noteq> 0 then free_block krust_free (vn_data (vnodes s a))
        (copy_mem d (vn_data (vnodes s a)) (unat (vn_size (vnodes s a))) (s\<lparr>fheap := h\<rparr>)) else Some (s\<lparr>fheap := h\<rparr>));
      let s' = clear_mem (d + unat (vn_size (vnodes s a))) (unat (z - vn_size (vnodes s a))) s';
      Some (Inr (set_node a ((vnodes s a)\<lparr>vn_data := d, vn_size := z\<rparr>) s'))
    }) = Some (Inr g :: kheap vfs + kheap vfs)" "heap_inv (fheap g)" "vfs_inv heap_live g N K" "files g = files s"
    "cur_task g = cur_task s" "vn_data (vnodes g a) = d" "vn_size (vnodes g a) = z"
    "contents g a = contents s a @ replicate (unat z - unat (vn_size (vnodes s a))) 0"
    "\<forall>b \<in> N. b \<noteq> a \<longrightarrow> contents g b = contents s b"
    "\<And>x n. outside x n \<Longrightarrow> bytes_at (vmem g) x n = bytes_at (vmem s) x n" "usable g a = usable s a"
proof -
  let ?x = "vn_data (vnodes s a)" and ?k = "unat (vn_size (vnodes s a))"
  from i v a m z obtain h' where h': "(if ?x \<noteq> 0 then free_block krust_free ?x (copy_mem d ?x ?k (s\<lparr>fheap := h\<rparr>))
      else Some (s\<lparr>fheap := h\<rparr>)) = Some (s\<lparr>fheap := h', vmem := blit d ?x ?k (vmem s)\<rparr>)"
    "heap_inv h'" "vfs_inv heap_live (set_data a d z (s\<lparr>fheap := h'\<rparr>)) N K"
    and apart: "\<And>b. b \<in> N \<Longrightarrow> b \<noteq> a \<Longrightarrow> vn_data (vnodes s b) \<noteq> 0 \<Longrightarrow>
       d + unat z \<le> vn_data (vnodes s b) \<or> vn_data (vnodes s b) + unat (vn_size (vnodes s b)) \<le> d"
    by (rule grow_block) blast
  define M where "M = (\<lambda>x. if d + ?k \<le> x \<and> x < d + ?k + (unat z - ?k) then 0 else blit d ?x ?k (vmem s) x)"
  let ?g = "(set_data a d z (s\<lparr>fheap := h'\<rparr>))\<lparr>vmem := M\<rparr>"
  have k: "?k < unat z" using z by (simp add: word_less_nat_alt)
  then have zk: "unat (z - vn_size (vnodes s a)) = unat z - ?k" by (simp add: unat_sub word_le_nat_alt)
  have M: "M x = vmem s x" if "\<not> (d \<le> x \<and> x < d + unat z)" for x using that k by (auto simp: M_def blit_def)
  obtain y where y: "(d, y) \<in> heap_live h'" "unat z \<le> y"
    using data_okD(2) [OF vfs_invD(3) [OF h'(3)] a(1)] m(2) by (auto simp: set_data_nodes)
  have same: "contents ?g b = contents s b" if "b \<in> N" "b \<noteq> a" for b
  proof (cases "vn_data (vnodes s b) = 0")
    case True
    then show ?thesis using data_okD(1) [OF vfs_invD(3) [OF v] that(1)] that(2) by (simp add: contents_def set_data_nodes)
  next
    case False
    from apart [OF that this] show ?thesis
      unfolding contents_bytes using that(2) by (simp add: set_data_nodes) (rule bytes_at_cong, rule M, linarith)
  qed
  have "bytes_at M x n = bytes_at (vmem s) x n" if "outside x n" for x n
    using outside_block [OF h'(2) y(1) that y(2)] by (intro bytes_at_cong M) linarith
  moreover have "files ?g = files s"
    using set_data_tree(2) [OF v, of a d z] by (simp add: files_def set_data_def set_node_def)
  moreover have "contents ?g a = contents s a @ replicate (unat z - ?k) 0"
    unfolding contents_bytes using k bytes_grown [of ?k "unat z" d ?x "vmem s"] by (simp add: M_def set_data_nodes)
  moreover have "set_node a ((vnodes s a)\<lparr>vn_data := d, vn_size := z\<rparr>)
      (clear_mem (d + ?k) (unat (z - vn_size (vnodes s a))) (s\<lparr>fheap := h', vmem := blit d ?x ?k (vmem s)\<rparr>)) = ?g"
    by (rule vfs.equality) (simp_all add: clear_mem_fill zk set_node_def set_data_def M_def fun_eq_iff)
  ultimately show thesis
    using h'(2,3) same
    by (intro that [of ?g]; (simp only: h'(1) bind.bind_lunit Let_def)?) (simp_all add: set_data_nodes)
qed

text \<open>The call, once the block is large enough, and as a whole.\<close>

lemma write_fd_done:
  assumes v: "vfs_inv heap_live s N K" and b: "\<not> bad_fd fd s" and o: "outside data (unat sz)" and e: "e = fd_ref s ! unat fd"
    and a: "a \<in> N" and g: "heap_inv (fheap g)" "vfs_inv heap_live g N K" "files g = files s" "cur_task g = cur_task s"
      "unat (fd_offset e) + unat sz \<le> unat (vn_size (vnodes g a))"
      "contents g a = contents s a @ replicate (unat (fd_offset e) + unat sz - length (contents s a)) 0"
      "\<forall>b \<in> N. b \<noteq> a \<longrightarrow> contents g b = contents s b"
      "bytes_at (vmem g) data (unat sz) = bytes_at (vmem s) data (unat sz)" "usable g a = usable s a"
  defines "s' \<equiv> advance_fd (unat fd) sz (copy_mem (vn_data (vnodes g a) + unat (fd_offset e)) data (unat sz) g)"
  shows "vfs_ok s'" "files s' = files s" "b \<in> ran (files s) \<Longrightarrow> b \<noteq> a \<Longrightarrow> contents s' b = contents s b"
    "contents s' a = overwrite (contents s a) (unat (fd_offset e)) (bytes_at (vmem s) data (unat sz))"
    "fd_ref s' = (fd_ref s)[unat fd := e\<lparr>fd_offset := fd_offset e + sz\<rparr>]" "usable s' a = usable s a"
    "current_fd_table s' \<noteq> None"
proof -
  define w where "w = copy_mem (vn_data (vnodes g a) + unat (fd_offset e)) data (unat sz) g"
  have s': "s' = advance_fd (unat fd) sz w" by (simp add: s'_def w_def)
  have "cur_task w = cur_task s" using g(4) by (simp add: w_def)
  from advance_fd_ref [OF b this] show "fd_ref s' = (fd_ref s)[unat fd := e\<lparr>fd_offset := fd_offset e + sz\<rparr>]"
    by (simp add: s' e)
  show "vfs_ok s'" "files s' = files s" using g(1-3) by (auto simp: s' w_def vfs_good_def)
  show "usable s' a = usable s a" using g(9) by (simp add: s' advance_fd_def w_def)
  show "current_fd_table s' \<noteq> None" 
    using good_fd [OF b] arg_cong [OF \<open>cur_task w = cur_task s\<close>, of "case_option None t_fds"]
    by (simp add: s' advance_fd_def) (simp add: current_fd_table_def)
  note W = write_at [OF g(1,2) a g(5) o, folded w_def]
  show "contents s' a = overwrite (contents s a) (unat (fd_offset e)) (bytes_at (vmem s) data (unat sz))"
    using W(1) g(6,8) by (simp add: s' overwrite_def Let_def)
  show "b \<in> ran (files s) \<Longrightarrow> b \<noteq> a \<Longrightarrow> contents s' b = contents s b"
    using W(2) g(7) nodes_ran [OF v] by (simp add: s')
qed

lemma write_fd_cases:
  assumes "\<not> bad_fd fd s" and e: "e = fd_ref s ! unat fd" and a: "a = fd_node e" "vn_type (vnodes s a) = NODE_FILE"
    "check_permission a 2 s" and m: "malloc (fd_offset e + sz) (fheap s) = Some (d, h)"
  shows "krust_vfs_write_fd malloc mfree dev fd data sz s = do {
      grown \<leftarrow>
        (if fd_offset e + sz > vn_size (vnodes s a) then
           if d = 0 then Some (Inl (s\<lparr>fheap := h\<rparr>)) else do {
             s' \<leftarrow> (if vn_data (vnodes s a) \<noteq> 0 then free_block mfree (vn_data (vnodes s a))
                     (copy_mem d (vn_data (vnodes s a)) (unat (vn_size (vnodes s a))) (s\<lparr>fheap := h\<rparr>))
                   else Some (s\<lparr>fheap := h\<rparr>));
             let s' = clear_mem (d + unat (vn_size (vnodes s a))) (unat (fd_offset e + sz - vn_size (vnodes s a))) s';
             Some (Inr (set_node a ((vnodes s a)\<lparr>vn_data := d, vn_size := fd_offset e + sz\<rparr>) s'))
           }
         else Some (Inr s));
      case grown of
        Inl s \<Rightarrow> Some (- 1, s)
      | Inr s \<Rightarrow> Some (sz, advance_fd (unat fd) sz (copy_mem (vn_data (vnodes s a) + unat (fd_offset e)) data (unat sz) s))
    }"
proof -
  have c: "\<not> \<not> check_permission a 2 s" "vn_type (vnodes s a) \<noteq> NODE_DEVICE" "\<not> vn_type (vnodes s a) \<noteq> NODE_FILE"
    using a(2,3) by (auto simp: NODE_FILE_def NODE_DEVICE_def)
  show ?thesis
    unfolding krust_vfs_write_fd_def e [symmetric] a(1) [symmetric] Let_def
    by (simp only: if_not_P [OF assms(1)] if_not_P [OF c(1)] if_not_P [OF c(2)] if_not_P [OF c(3)] m bind.bind_lunit
        prod.case)
qed

lemma write_fd_rep:
  assumes "vfs_ok s" and "\<not> bad_fd fd s" and "outside data (unat sz)"
    and "e = fd_ref s ! unat fd" and "a = fd_node e" and "a \<in> ran (files s)" and "vn_type (vnodes s a) = NODE_FILE"
    and "check_permission a 2 s" and "unat (fd_offset e) + unat sz < 2 ^ 32"
  shows "\<exists>r s'. usable s' a = usable s a \<and> current_fd_table s' \<noteq> None \<and>
    krust_vfs_write_fd krust_malloc krust_free dev fd data sz s = Some (r, s') \<and> vfs_ok s' \<and>
    files s' = files s \<and> (\<forall>b \<in> ran (files s). b \<noteq> a \<longrightarrow> contents s' b = contents s b) \<and>
    (r = sz \<and> contents s' a = overwrite (contents s a) (unat (fd_offset e)) (bytes_at (vmem s) data (unat sz)) \<and>
       fd_ref s' = (fd_ref s)[unat fd := e\<lparr>fd_offset := fd_offset e + sz\<rparr>] \<or>
     r = - 1 \<and> contents s' a = contents s a \<and> fd_ref s' = fd_ref s \<and>
       map_option fst (krust_malloc (fd_offset e + sz) (fheap s)) = Some 0)"
proof -
  obtain N K where v: "vfs_inv heap_live s N K" and i: "heap_inv (fheap s)" using assms(1) by (auto simp: vfs_good_def)
  let ?z = "fd_offset e + sz"
  have z: "unat ?z = unat (fd_offset e) + unat sz" using assms(9) by (simp add: unat_word_ariths)
  have a: "a \<in> N" using assms(6) nodes_ran [OF v] by simp
  have len: "length (contents s a) = unat (vn_size (vnodes s a))" by (simp add: contents_bytes)
  obtain d h where m: "krust_malloc ?z (fheap s) = Some (d, h)" using kernel_heap.malloc_returns [OF i] by blast
  note R = write_fd_cases [OF assms(2,4,5,7,8), of krust_malloc sz d h krust_free dev data, OF m]
  note D = write_fd_done [OF v assms(2,3,4) a]
  consider (fits) "\<not> ?z > vn_size (vnodes s a)" | (null) "?z > vn_size (vnodes s a)" "d = 0"
    | (grown) "d \<noteq> 0" "?z > vn_size (vnodes s a)" by blast
  then show ?thesis
  proof cases
    case fits
    then have "krust_vfs_write_fd krust_malloc krust_free dev fd data sz s = Some (sz, advance_fd (unat fd) sz
        (copy_mem (vn_data (vnodes s a) + unat (fd_offset e)) data (unat sz) s))" unfolding R by simp
    with D [of s] i v z len fits show ?thesis by (simp add: word_le_nat_alt not_less)
  next
    case null
    then have "heap_inv h" "heap_live h = heap_live (fheap s)"
      using kernel_heap.malloc_inv [OF i m] kernel_heap.malloc_null [OF i] m by auto
    then have "vfs_ok (s\<lparr>fheap := h\<rparr>)" using v by (auto simp: vfs_good_def vfs_inv_def)
    then show ?thesis using R null m fd_ref_cong [of "s\<lparr>fheap := h\<rparr>" s] good_fd [OF assms(2)]
      by (auto simp: contents_def current_fd_table_def)
  next
    case grown
    from i v a assms(7) m grown show ?thesis
    proof (cases rule: write_fd_grown)
      case (1 g)
      have "krust_vfs_write_fd krust_malloc krust_free dev fd data sz s = Some (sz, advance_fd (unat fd) sz
          (copy_mem (vn_data (vnodes g a) + unat (fd_offset e)) data (unat sz) g))"
        unfolding R if_P [OF grown(2)] if_not_P [OF grown(1)] 1(1) by simp
      with D [of g] 1(2-) z len assms(3) show ?thesis by simp
    qed
  qed
qed

text \<open>
  C17. Writing through a descriptor to a file that the task may write and that still has a path, up to an
  end below 2^32: the call returns; on success the bytes of the buffer lie over the contents at the
  descriptor's offset, a gap past the old end is zeros, and the offset moves on by their number; the only
  failure is that the larger block cannot be had, and then contents and offset stay. No path and no
  other file's contents change, and the invariant holds again.
\<close>

theorem vfs_write_fd_correct:
  assumes "vfs_ok s" and "\<not> bad_fd fd s" and "outside data (unat sz)"
    and "e = fd_ref s ! unat fd" and "a = fd_node e" and "a \<in> ran (files s)" and "vn_type (vnodes s a) = NODE_FILE"
    and "check_permission a 2 s" and "unat (fd_offset e) + unat sz < 2 ^ 32"
  shows "\<exists>r s'. krust_vfs_write_fd krust_malloc krust_free dev fd data sz s = Some (r, s') \<and> vfs_ok s' \<and>
    files s' = files s \<and> (\<forall>b \<in> ran (files s). b \<noteq> a \<longrightarrow> contents s' b = contents s b) \<and>
    (r = sz \<and> contents s' a = overwrite (contents s a) (unat (fd_offset e)) (bytes_at (vmem s) data (unat sz)) \<and>
       fd_ref s' = (fd_ref s)[unat fd := e\<lparr>fd_offset := fd_offset e + sz\<rparr>] \<or>
     r = - 1 \<and> contents s' a = contents s a \<and> fd_ref s' = fd_ref s \<and>
       map_option fst (krust_malloc (fd_offset e + sz) (fheap s)) = Some 0)"
  using write_fd_rep [OF assms, of dev] by (elim ex_forward) (drule conjunct2, drule conjunct2, assumption)

lemma open_vfs:
  obtains s :: "kheap vfs" and a where "vfs_ok s" "files s = [[] \<mapsto> vroot s, [[97]] \<mapsto> a]"
    "vn_type (vnodes s a) = NODE_FILE" "contents s a = []" "\<forall>w. check_permission a w s" "\<not> bad_fd 0 s"
    "fd_ref s ! 0 = \<lparr>fd_node = a, fd_offset = 0, fd_flags = 0, fd_used = True, fd_refcount = 1\<rparr>"
    "length (fd_ref s) = MAX_FDS" "map_option fst (krust_malloc 2 (fheap s)) \<noteq> Some 0"
    "\<forall>i < MAX_FDS. fd_used (fd_ref s ! i) \<longleftrightarrow> i = 0"
proof -
  obtain s :: "kheap vfs" and a where s: "vfs_ok s" "files s = [[] \<mapsto> vroot s, [[97]] \<mapsto> a]"
    "vn_type (vnodes s a) = NODE_FILE" "contents s a = []" "a \<noteq> 0"
    "map_option fst (krust_malloc 2 (fheap s)) \<noteq> Some 0" by (rule file_vfs)
  let ?f = "\<lparr>fd_node = a, fd_offset = 0, fd_flags = 0, fd_used = True, fd_refcount = 1\<rparr>"
  let ?t = "\<lparr>t_uid = 0, t_gid = 0, t_cwd = [47], t_fds = Some ((replicate MAX_FDS free_fd)[0 := ?f])\<rparr>"
  let ?s = "s\<lparr>cur_task := Some ?t\<rparr>"
  have "vfs_ok ?s" using s(1) by (auto simp: vfs_good_def vfs_inv_def)
  moreover have "fd_ref ?s ! 0 = ?f" "length (fd_ref ?s) = MAX_FDS" by (simp_all add: fd_ref_def current_fd_table_def MAX_FDS_def)
  moreover have "\<forall>i < MAX_FDS. fd_used (fd_ref ?s ! i) \<longleftrightarrow> i = 0"
    by (simp add: fd_ref_def current_fd_table_def nth_list_update free_fd_def)
  ultimately show thesis using s
    by (intro that [of ?s a]) (auto simp: files_def contents_def check_permission_def bad_fd_def MAX_FDS_def)
qed

lemma bytes_two: "bytes_at m 1 (unat (2 :: u32)) = [m 1, m 2]"
  by (simp add: bytes_at_def upt_rec [of 0 "2 :: nat"] upt_rec [of "Suc 0"] flip: numeral_2_eq_2)

lemma outside_two: "outside 1 (unat (2 :: u32))"
  by (simp add: outside_def HEAP_START_def)

theorem vfs_write_fd_correct_witness:
  "\<exists>s s' a r. vfs_ok s \<and> krust_vfs_write_fd krust_malloc krust_free (\<lambda>_ _ _ _ _ _. None) 0 1 2 s = Some (r, s') \<and> vfs_ok s' \<and>
     (r = 2 \<and> contents s' a = [vmem s 1, vmem s 2] \<and> fd_offset (fd_ref s' ! 0) = 2 \<or> r = - 1 \<and> contents s' a = [])"
proof -
  obtain s :: "kheap vfs" and a where s: "vfs_ok s" "files s = [[] \<mapsto> vroot s, [[97]] \<mapsto> a]"
    "vn_type (vnodes s a) = NODE_FILE" "contents s a = []" "\<forall>w. check_permission a w s" "\<not> bad_fd 0 s"
    "fd_ref s ! 0 = \<lparr>fd_node = a, fd_offset = 0, fd_flags = 0, fd_used = True, fd_refcount = 1\<rparr>"
    "length (fd_ref s) = MAX_FDS" by (rule open_vfs)
  have "a \<in> ran (files s)" using s(2) by (auto simp: ran_def)
  then obtain r s' where r: "krust_vfs_write_fd krust_malloc krust_free (\<lambda>_ _ _ _ _ _. None) 0 1 2 s = Some (r, s')" "vfs_ok s'"
    "r = 2 \<and> contents s' a = overwrite [] 0 [vmem s 1, vmem s 2] \<and>
       fd_ref s' = (fd_ref s)[0 := (fd_ref s ! 0)\<lparr>fd_offset := 2\<rparr>] \<or> r = - 1 \<and> contents s' a = []"
    using vfs_write_fd_correct [OF s(1,6) outside_two refl refl, of "\<lambda>_ _ _ _ _ _. None"] s(3,4,5,7)
    by (auto simp: bytes_two [simplified])
  then show ?thesis using s(1,8)
    by (intro exI [of _ s] exI [of _ s'] exI [of _ a] exI [of _ r]) (auto simp: overwrite_def MAX_FDS_def)
qed

lemma read_file:
  assumes g: "vfs_ok s" and b: "\<not> bad_fd fd s" and o: "outside buf (unat sz)"
    and e: "e = fd_ref s ! unat fd" "a = fd_node e" and a: "a \<in> ran (files s)" "vn_type (vnodes s a) = NODE_FILE"
    and p: "check_permission a 4 s" and k: "k = min (unat sz) (length (contents s a) - unat (fd_offset e))"
  obtains s' where "krust_vfs_read dev fd buf sz s = Some (of_nat k, s')" "vfs_ok s'" "files s' = files s"
    "\<forall>c \<in> ran (files s). contents s' c = contents s c"
    "bytes_at (vmem s') buf k = take k (drop (unat (fd_offset e)) (contents s a))"
    "\<forall>x. x < buf \<or> buf + k \<le> x \<longrightarrow> vmem s' x = vmem s x"
    "fd_ref s' = (fd_ref s)[unat fd := e\<lparr>fd_offset := fd_offset e + of_nat k\<rparr>]"
proof -
  obtain N K where v: "vfs_inv heap_live s N K" and i: "heap_inv (fheap s)" using g by (auto simp: vfs_good_def)
  note D = data_okD [OF vfs_invD(3) [OF v]] and N = nodes_ran [OF v]
  let ?n = "vn_size (vnodes s a)" and ?d = "vn_data (vnodes s a)" and ?f = "fd_offset e"
  have c: "\<not> \<not> check_permission a 4 s" "vn_type (vnodes s a) \<noteq> NODE_DEVICE"
    using a(2) p by (auto simp: NODE_FILE_def NODE_DEVICE_def)
  have len: "length (contents s a) = unat ?n" by (simp add: contents_bytes)
  have res: "krust_vfs_read dev fd buf sz s =
      (if ?f \<ge> ?n then Some (0, s)
       else let n = (if sz < ?n - ?f then sz else ?n - ?f)
            in Some (n, advance_fd (unat fd) n (copy_mem buf (?d + unat ?f) (unat n) s)))"
    unfolding krust_vfs_read_def e [symmetric] Let_def
    by (simp only: if_not_P [OF b] if_not_P [OF c(1)] if_not_P [OF c(2)])
  have apart: "buf + k \<le> vn_data (vnodes s c) \<or> vn_data (vnodes s c) + unat (vn_size (vnodes s c)) \<le> buf"
    if "c \<in> N" "vn_data (vnodes s c) \<noteq> 0" for c
    using buffer_apart [OF i v o that] k by linarith
  show thesis
  proof (cases "?f \<ge> ?n")
    case True
    then have "k = 0" using k len by (simp add: word_le_nat_alt)
    with True g e show thesis by (intro that [of s]) (simp_all add: res bytes_at_def)
  next
    case False
    define n where "n = (if sz < ?n - ?f then sz else ?n - ?f)"
    have kn: "unat n = k" using False k len by (auto simp: n_def unat_sub word_le_nat_alt word_less_nat_alt min_def)
    then have n: "n = of_nat k" by auto
    have d0: "?d \<noteq> 0" using D(1) [of a] a(1) N False by force
    let ?w = "copy_mem buf (?d + unat ?f) k s"
    have "buf \<le> ?d + unat ?f \<or> ?d + unat ?f + k \<le> buf" using apart [OF _ d0] a(1) N k len by auto
    then have mem: "vmem ?w = blit buf (?d + unat ?f) k (vmem s)" by (rule copy_mem_blit)
    have "contents ?w c = contents s c" if "c \<in> N" for c
    proof (cases "vn_data (vnodes s c) = 0")
      case True
      then show ?thesis using D(1) [OF that] by (simp add: contents_def)
    next
      case False
      from apart [OF that False] show ?thesis unfolding contents_bytes mem by (simp add: bytes_blit(2))
    qed
    moreover have "bytes_at (vmem ?w) buf k = take k (drop (unat ?f) (contents s a))"
      unfolding mem bytes_blit(1) contents_bytes using k len False by (intro bytes_sub) (simp add: word_le_nat_alt)
    moreover have "vfs_ok ?w" using i v by (auto simp: vfs_good_def)
    moreover have "cur_task ?w = cur_task s" by simp
    moreover have "vmem ?w x = vmem s x" if "x < buf \<or> buf + k \<le> x" for x using that unfolding mem by (auto simp: blit_def)
    moreover note advance_fd_ref [OF b \<open>cur_task ?w = cur_task s\<close>, of n, folded e(1)]
    moreover have "krust_vfs_read dev fd buf sz s = Some (n, advance_fd (unat fd) n ?w)"
      unfolding res if_not_P [OF False] n_def [symmetric] Let_def kn ..
    ultimately show thesis using N unfolding n by (intro that) simp_all
  qed
qed

text \<open>
  Reading through a descriptor of a file that may be read: the call returns the number of bytes left
  between the offset and the end of the contents, at most the size asked for; exactly those bytes are
  in the buffer, no other byte of memory and no contents change, and the offset moves on by their
  number.
\<close>

lemma vfs_read_correct:
  assumes "vfs_ok s" and "\<not> bad_fd fd s" and "outside buf (unat sz)"
    and "e = fd_ref s ! unat fd" and "a = fd_node e" and "a \<in> ran (files s)" and "vn_type (vnodes s a) = NODE_FILE"
    and "check_permission a 4 s" and "k = min (unat sz) (length (contents s a) - unat (fd_offset e))"
  shows "\<exists>s'. krust_vfs_read dev fd buf sz s = Some (of_nat k, s') \<and> vfs_ok s' \<and> files s' = files s \<and>
    (\<forall>c \<in> ran (files s). contents s' c = contents s c) \<and>
    bytes_at (vmem s') buf k = take k (drop (unat (fd_offset e)) (contents s a)) \<and>
    (\<forall>x. x < buf \<or> buf + k \<le> x \<longrightarrow> vmem s' x = vmem s x) \<and>
    fd_ref s' = (fd_ref s)[unat fd := e\<lparr>fd_offset := fd_offset e + of_nat k\<rparr>]"
  using assms by (rule read_file) blast

text \<open>
  What was written is read back: writing through a descriptor, seeking to the offset it had and
  reading the same number of bytes gives the bytes that were written.
\<close>

lemma vfs_write_seek_read:
  assumes "vfs_ok s" and "\<not> bad_fd fd s" and "outside data (unat sz)" and "outside buf (unat sz)"
    and "e = fd_ref s ! unat fd" and "a = fd_node e" and "a \<in> ran (files s)" and "vn_type (vnodes s a) = NODE_FILE"
    and "check_permission a 2 s" and "check_permission a 4 s" and "unat (fd_offset e) + unat sz < 2 ^ 32"
    and "length (fd_ref s) = MAX_FDS"
    and "map_option fst (krust_malloc (fd_offset e + sz) (fheap s)) \<noteq> Some 0"
  shows "\<exists>s1 s2 s3. krust_vfs_write_fd krust_malloc krust_free dev fd data sz s = Some (sz, s1) \<and>
    krust_vfs_lseek fd (ucast (fd_offset e)) 0 s1 = (ucast (fd_offset e), s2) \<and>
    krust_vfs_read dev fd buf sz s2 = Some (sz, s3) \<and>
    bytes_at (vmem s3) buf (unat sz) = bytes_at (vmem s) data (unat sz) \<and> vfs_ok s3"
proof -
  obtain s1 where w: "krust_vfs_write_fd krust_malloc krust_free dev fd data sz s = Some (sz, s1)" "vfs_ok s1"
    "files s1 = files s"
    "contents s1 a = overwrite (contents s a) (unat (fd_offset e)) (bytes_at (vmem s) data (unat sz))"
    "fd_ref s1 = (fd_ref s)[unat fd := e\<lparr>fd_offset := fd_offset e + sz\<rparr>]" "usable s1 a = usable s a"
    "current_fd_table s1 \<noteq> None"
    using write_fd_rep [OF assms(1,2,3,5-9,11), of dev] assms(13) by blast
  have i: "unat fd < length (fd_ref s)" using good_fd [OF assms(2)] assms(12) by simp
  define s2 where "s2 = set_fd (unat fd) e s1"
  have fd: "fd_ref s2 ! unat fd = e" using fd_ref_set_fd [OF w(7)] w(5) i by (simp add: s2_def)
  have b: "\<not> bad_fd fd s1" "\<not> bad_fd fd s2"
    using assms(2,5) w(5) fd i by (auto simp: bad_fd_def)
  have sk: "krust_vfs_lseek fd (ucast (fd_offset e)) 0 s1 = (ucast (fd_offset e), s2)"
    using b(1) w(5) i by (simp add: krust_vfs_lseek_def s2_def Let_def sint_up ucast_up_ucast_id is_up)
  have c: "contents s2 a = contents s1 a" "vfs_ok s2" "files s2 = files s" "usable s2 a = usable s a"
    using w(2,3,6) by (simp_all add: s2_def)
  let ?w = "bytes_at (vmem s) data (unat sz)"
  have cut: "take (unat sz) (drop (unat (fd_offset e)) (contents s2 a)) = ?w"
    "unat sz \<le> length (contents s2 a) - unat (fd_offset e)"
    unfolding c(1) w(4) by (auto simp: overwrite_def Let_def)
  have "a \<in> ran (files s2)" "vn_type (vnodes s2 a) = NODE_FILE" "check_permission a 4 s2"
    using assms(7,8,10) c(3) usableD [OF c(4)] by simp_all
  from c(2) b(2) assms(4) fd [symmetric] assms(6) this refl
  obtain s3 where "krust_vfs_read dev fd buf sz s2 = Some (of_nat (min (unat sz) (length (contents s2 a) - unat (fd_offset e))), s3)"
    "vfs_ok s3" "bytes_at (vmem s3) buf (min (unat sz) (length (contents s2 a) - unat (fd_offset e))) =
       take (min (unat sz) (length (contents s2 a) - unat (fd_offset e))) (drop (unat (fd_offset e)) (contents s2 a))"
    by (rule read_file) blast
  then show ?thesis using w(1) sk cut by (auto simp: min_absorb1)
qed

text \<open>
  Opening a file that may be read takes the lowest free entry of the task's table and changes no
  other entry; the entry starts at offset 0. It fails exactly when no entry is free. Closing what was
  opened frees that entry again.
\<close>

lemma vfs_open_close:
  assumes "vfs_ok s" and "path_ok s p" and "extract_name p \<noteq> []" and "files s (comps p) = Some a"
    and "vn_type (vnodes s a) = NODE_FILE" and "check_permission a 4 s"
    and "current_fd_table s = Some fds" and "length fds = MAX_FDS"
  shows "if \<forall>i < MAX_FDS. fd_used (fds ! i) then krust_vfs_open (Some p) s = Some (- 1, s)
    else \<exists>i s'. i < MAX_FDS \<and> \<not> fd_used (fds ! i) \<and> (\<forall>j < i. fd_used (fds ! j)) \<and>
      krust_vfs_open (Some p) s = Some (of_nat i, s') \<and> \<not> bad_fd (of_nat i) s' \<and>
      fd_ref s' = fds[i := \<lparr>fd_node = a, fd_offset = 0, fd_flags = 0, fd_used = True, fd_refcount = 1\<rparr>] \<and>
      fst (krust_vfs_close (of_nat i) s') = 0 \<and> fd_ref (snd (krust_vfs_close (of_nat i) s')) = fds[i := free_fd]"
proof -
  obtain N K where v: "vfs_inv heap_live s N K" using assms(1) by (auto simp: vfs_good_def)
  have "krust_vfs_resolve (Some p) s = Some a" "a \<noteq> 0"
    using resolve_path_ok [OF v assms(2,3)] assms(4,5) or_null_files [OF v, of "comps p"]
    by (auto simp: NODE_FILE_def NODE_SYMLINK_def)
  then have o: "krust_vfs_open (Some p) s = Some (open_node a s)"
    using assms(3,5,6) by (auto simp: krust_vfs_open_def extract_name_def)
  have fds: "fd_ref s = fds" using assms(7) by (simp add: fd_ref_def)
  show ?thesis
  proof (cases "List.find (\<lambda>i. \<not> fd_used (fds ! i)) [0..<MAX_FDS]")
    case None
    then have "\<forall>i < MAX_FDS. fd_used (fds ! i)" by (auto simp: find_None_iff)
    then show ?thesis using None assms(7) by (simp add: o open_node_def alloc_fd_def)
  next
    case (Some i)
    then have i: "i < MAX_FDS" "\<not> fd_used (fds ! i)" "\<forall>j < i. fd_used (fds ! j)" by (auto simp: find_Some_iff)
    define f where "f = \<lparr>fd_node = a, fd_offset = 0, fd_flags = 0, fd_used = True, fd_refcount = 1\<rparr>"
    have fd: "alloc_fd s = of_nat i" using Some assms(7) by (simp add: alloc_fd_def)
    have u: "unat (of_nat i :: i32) = i" "sint (of_nat i :: i32) = int i" using small_fd [OF i(1)] by auto
    let ?s = "set_fd i f s"
    have n: "open_node a s = (of_nat i, ?s)" by (simp add: open_node_def fd u Let_def f_def)
    have r: "fd_ref ?s = fds[i := f]" using fd_ref_set_fd [of s i f] assms(7) fds by simp
    then have b: "\<not> bad_fd (of_nat i) ?s" using i(1) assms(8) by (simp add: bad_fd_def u f_def)
    have "krust_vfs_close (of_nat i) ?s = (0, set_fd i free_fd ?s)"
      using b r i(1) assms(8) by (simp add: krust_vfs_close_def u Let_def f_def free_fd_def)
    moreover have "fd_ref (set_fd i free_fd ?s) = fds[i := free_fd]"
      using fd_ref_set_fd [of ?s i free_fd] r assms(7) by simp
    ultimately show ?thesis using i o n r b by (auto simp: f_def)
  qed
qed



end
