(* ===== verification/Task.thy ===== *)
theory Task
  imports Kernel_Prelude "HOL-Library.Monad_Syntax"
begin

unbundle bit_operations_syntax

text \<open>
  The task table and the scheduler (\<open>kernel/src/process/scheduler.rs\<close>): the ready queue and the sleep
  queue, which are linked through the same field of the tasks, task numbers, the lists of children,
  signals, the choice of the next task on a timer tick, a yield or an exit, and the choice of a victim
  when memory runs out. A pointer to a task is the index of the task, None when it is null.

  Each operation runs on one processor, whose number is \<open>cpu_id\<close>; the two queues are changed under
  their spin locks. A user address is the address of the 8-byte word at it in \<open>user_mem\<close>. What the
  processor does on \<open>fxsave\<close> and \<open>fxrstor\<close> is to copy its floating point registers, \<open>fpu_regs\<close>, to and
  from the area of the task. The interrupt acknowledgement and the interrupt sent to the other
  processors have no effect on this state.
\<close>

section \<open>State\<close>

datatype task_state = READY | RUNNING | BLOCKED | WAITING | EXITED

type_synonym tptr = "usize option"

record task =
  tk_id :: u32
  tk_ppid :: u32
  tk_pgid :: u32
  tk_sid :: u32
  tk_state :: task_state
  ctx_rsp :: u64
  ctx_cr3 :: u64
  tk_kstack :: usize
  tk_ustack :: usize
  tk_pages :: u32
  tk_stdin_fd :: i32
  tk_stdout_fd :: i32
  tk_stderr_fd :: i32
  tk_fd_table :: usize
  tk_exit_code :: u32
  tk_fpu_state :: usize
  tk_cwd :: "u8 list"
  tk_next :: tptr
  tk_parent :: tptr
  tk_child_head :: tptr
  tk_child_tail :: tptr
  tk_sibling_next :: tptr
  tk_sig_handlers :: "usize \<Rightarrow> u64"
  tk_sig_pending :: u32
  tk_sig_blocked :: u32
  tk_has_child_exit :: bool
  tk_vma_list :: usize
  tk_program_brk :: u64
  tk_priority :: u32
  tk_sleep_until :: u32
  tk_uid :: u16
  tk_gid :: u16
  tk_oom_score_adj :: "16 word"

record registers =
  r15 :: u64
  r14 :: u64
  r13 :: u64
  r12 :: u64
  r11 :: u64
  r10 :: u64
  r9 :: u64
  r8 :: u64
  rdi :: u64
  rsi :: u64
  rbp :: u64
  rsp :: u64
  rbx :: u64
  rdx :: u64
  rcx :: u64
  rax :: u64
  int_no :: u64
  err_code :: u64
  rip :: u64
  cs :: u64
  rflags :: u64
  user_rsp :: u64
  ss :: u64

record sched =
  TASKS :: "usize \<Rightarrow> task"
  PER_CPU_CURRENT :: "usize \<Rightarrow> tptr"
  ready_head :: tptr
  ready_tail :: tptr
  sleep_head :: tptr
  sleep_count :: usize
  NEXT_ID :: u32
  FREE_IDS :: "usize \<Rightarrow> u32"
  FREE_ID_COUNT :: usize
  SCHED_HAS_FPU :: bool
  cpu_id :: u32
  tick_count :: u32
  tick_ms :: u32
  kernel_stack_top :: "usize \<Rightarrow> u64"
  cr3_reg :: u64
  fpu_regs :: "u8 list"
  fpu_area :: "usize \<Rightarrow> u8 list"
  user_mem :: "u64 \<Rightarrow> u64"

definition MAX_TASKS :: u32 where "MAX_TASKS = 128"
definition MAX_CPUS :: usize where "MAX_CPUS = 256"
definition NSIG :: usize where "NSIG = 32"
definition SIGKILL :: usize where "SIGKILL = 9"
definition BRK_INITIAL :: u64 where "BRK_INITIAL = 0x10000000"

definition upd :: "usize \<Rightarrow> (task \<Rightarrow> task) \<Rightarrow> sched \<Rightarrow> sched" where
  "upd t f s = s\<lparr>TASKS := (TASKS s)(t := f (TASKS s t))\<rparr>"

section \<open>Task numbers\<close>

definition recycle_task_id :: "u32 \<Rightarrow> sched \<Rightarrow> sched" where
  "recycle_task_id i s =
     (if i = 0 \<or> i \<ge> MAX_TASKS then s
      else if FREE_ID_COUNT s < 128 then
        s\<lparr>FREE_IDS := (FREE_IDS s)(FREE_ID_COUNT s := i), FREE_ID_COUNT := FREE_ID_COUNT s + 1\<rparr>
      else s)"

text \<open>The counter is raised and, when it was at the limit, lowered again.\<close>

definition next_task_id :: "sched \<Rightarrow> u32 option \<times> sched" where
  "next_task_id s =
     (let i = NEXT_ID s; s = s\<lparr>NEXT_ID := i + 1\<rparr>
      in if i \<ge> MAX_TASKS then (None, s\<lparr>NEXT_ID := NEXT_ID s - 1\<rparr>) else (Some i, s))"

definition alloc_task_id :: "sched \<Rightarrow> u32 option \<times> sched" where
  "alloc_task_id s =
     (if FREE_ID_COUNT s > 0 then
        let s = s\<lparr>FREE_ID_COUNT := FREE_ID_COUNT s - 1\<rparr>;
            i = FREE_IDS s (FREE_ID_COUNT s)
        in if i < MAX_TASKS \<and> tk_state (TASKS s (unat i)) = EXITED then (Some i, s) else next_task_id s
      else next_task_id s)"

section \<open>The current task\<close>

definition current_cpu_id :: "sched \<Rightarrow> usize" where
  "current_cpu_id s = (if unat (cpu_id s) < MAX_CPUS then unat (cpu_id s) else 0)"

definition get_current :: "sched \<Rightarrow> tptr" where
  "get_current s = PER_CPU_CURRENT s (current_cpu_id s)"

definition set_current :: "tptr \<Rightarrow> sched \<Rightarrow> sched" where
  "set_current t s = s\<lparr>PER_CPU_CURRENT := (PER_CPU_CURRENT s)(current_cpu_id s := t)\<rparr>"

section \<open>The queues\<close>

definition enqueue :: "usize \<Rightarrow> sched \<Rightarrow> sched" where
  "enqueue t s =
     (let s = upd t (tk_next_update (\<lambda>_. None)) s
      in if ready_head s = None then s\<lparr>ready_head := Some t, ready_tail := Some t\<rparr>
         else (upd (the (ready_tail s)) (tk_next_update (\<lambda>_. Some t)) s)\<lparr>ready_tail := Some t\<rparr>)"

definition dequeue :: "sched \<Rightarrow> tptr \<times> sched" where
  "dequeue s =
     (case ready_head s of
        None \<Rightarrow> (None, s)
      | Some t \<Rightarrow>
          let s = s\<lparr>ready_head := tk_next (TASKS s t)\<rparr>;
              s = (if ready_head s = None then s\<lparr>ready_tail := None\<rparr> else s)
          in (Some t, upd t (tk_next_update (\<lambda>_. None)) s))"

definition sleep_enqueue :: "usize \<Rightarrow> u32 \<Rightarrow> sched \<Rightarrow> sched" where
  "sleep_enqueue t ticks s =
     (let s = upd t (\<lambda>k. k\<lparr>tk_sleep_until := ticks, tk_state := BLOCKED, tk_next := sleep_head s\<rparr>) s
      in s\<lparr>sleep_head := Some t, sleep_count := wadd (sleep_count s) 1\<rparr>)"

text \<open>A task whose time has come is put on the ready queue, as \<open>enqueue\<close> does it.\<close>

definition wake :: "usize \<Rightarrow> sched \<Rightarrow> sched" where
  "wake t s = enqueue t (upd t (\<lambda>k. k\<lparr>tk_state := READY, tk_sleep_until := 0\<rparr>) s)"

partial_function (option) wake_loop :: "u32 \<Rightarrow> tptr \<Rightarrow> tptr \<Rightarrow> sched \<Rightarrow> sched option" where
  "wake_loop ticks prev cur s =
     (case cur of
        None \<Rightarrow> Some s
      | Some c \<Rightarrow>
          let nx = tk_next (TASKS s c)
          in if tk_sleep_until (TASKS s c) \<le> ticks then
               let s = wake c s;
                   s = (case prev of
                          Some p \<Rightarrow> upd p (tk_next_update (\<lambda>_. nx)) s
                        | None \<Rightarrow> s\<lparr>sleep_head := nx\<rparr>)
               in wake_loop ticks prev nx (s\<lparr>sleep_count := wsub (sleep_count s) 1\<rparr>)
             else wake_loop ticks cur nx s)"

definition sleep_wake_all :: "u32 \<Rightarrow> sched \<Rightarrow> sched option" where
  "sleep_wake_all ticks s = wake_loop ticks None (sleep_head s) s"

section \<open>Children\<close>

definition add_child :: "usize \<Rightarrow> usize \<Rightarrow> sched \<Rightarrow> sched" where
  "add_child parent child s =
     (let s = upd child (\<lambda>k. k\<lparr>tk_parent := Some parent, tk_sibling_next := None\<rparr>) s
      in if tk_child_head (TASKS s parent) = None then
           upd parent (\<lambda>k. k\<lparr>tk_child_head := Some child, tk_child_tail := Some child\<rparr>) s
         else
           let s = upd (the (tk_child_tail (TASKS s parent))) (tk_sibling_next_update (\<lambda>_. Some child)) s
           in upd parent (tk_child_tail_update (\<lambda>_. Some child)) s)"

partial_function (option) remove_child_loop :: "usize \<Rightarrow> usize \<Rightarrow> tptr \<Rightarrow> tptr \<Rightarrow> sched \<Rightarrow> sched option" where
  "remove_child_loop parent child prev cur s =
     (case cur of
        None \<Rightarrow> Some s
      | Some c \<Rightarrow>
          if c = child then
            let nx = tk_sibling_next (TASKS s child);
                s = (case prev of
                       Some p \<Rightarrow> upd p (tk_sibling_next_update (\<lambda>_. nx)) s
                     | None \<Rightarrow> upd parent (tk_child_head_update (\<lambda>_. nx)) s);
                s = (if tk_sibling_next (TASKS s child) = None
                     then upd parent (tk_child_tail_update (\<lambda>_. prev)) s else s)
            in Some (upd child (\<lambda>k. k\<lparr>tk_parent := None, tk_sibling_next := None\<rparr>) s)
          else remove_child_loop parent child cur (tk_sibling_next (TASKS s c)) s)"

definition remove_child :: "usize \<Rightarrow> usize \<Rightarrow> sched \<Rightarrow> sched option" where
  "remove_child parent child s = remove_child_loop parent child None (tk_child_head (TASKS s parent)) s"

section \<open>Floating point state\<close>

definition fpu_save_current :: "sched \<Rightarrow> sched" where
  "fpu_save_current s =
     (case get_current s of
        None \<Rightarrow> s
      | Some c \<Rightarrow>
          if SCHED_HAS_FPU s \<and> tk_fpu_state (TASKS s c) \<noteq> 0
          then s\<lparr>fpu_area := (fpu_area s)(tk_fpu_state (TASKS s c) := fpu_regs s)\<rparr> else s)"

definition fpu_restore_current :: "sched \<Rightarrow> sched" where
  "fpu_restore_current s =
     (case get_current s of
        None \<Rightarrow> s
      | Some c \<Rightarrow>
          if SCHED_HAS_FPU s \<and> tk_fpu_state (TASKS s c) \<noteq> 0
          then s\<lparr>fpu_regs := fpu_area s (tk_fpu_state (TASKS s c))\<rparr> else s)"

section \<open>Start-up and simple access\<close>

definition krust_sched_init :: "bool \<Rightarrow> sched \<Rightarrow> sched" where
  "krust_sched_init has_fxsr s =
     (let s = upd 0 (\<lambda>k. k\<lparr>tk_id := 0, tk_state := RUNNING, tk_kstack := 0, ctx_rsp := 0\<rparr>) s;
          s = set_current (Some 0) s
      in s\<lparr>NEXT_ID := 1, SCHED_HAS_FPU := has_fxsr\<rparr>)"

definition krust_sched_create_idle_for_cpu :: "u32 \<Rightarrow> sched \<Rightarrow> sched" where
  "krust_sched_create_idle_for_cpu cpu s =
     (case alloc_task_id s of
        (None, s) \<Rightarrow> s
      | (Some i, s) \<Rightarrow>
          let t = unat i;
              s = upd t (\<lambda>k. k\<lparr>tk_id := i, tk_ppid := 0, tk_state := RUNNING, tk_kstack := 0, ctx_rsp := 0, ctx_cr3 := 0,
                    tk_stdin_fd := - 1, tk_stdout_fd := - 1, tk_stderr_fd := - 1, tk_exit_code := 0,
                    tk_cwd := (tk_cwd k)[0 := 47, 1 := 0], tk_parent := None, tk_child_head := None, tk_child_tail := None,
                    tk_sibling_next := None, tk_has_child_exit := False, tk_sig_pending := 0, tk_sig_blocked := 0,
                    tk_vma_list := 0, tk_program_brk := BRK_INITIAL, tk_priority := 0, tk_sleep_until := 0,
                    tk_uid := 0, tk_gid := 0, tk_oom_score_adj := 0, tk_fpu_state := 0,
                    tk_sig_handlers := (\<lambda>n. if n < NSIG then 0 else tk_sig_handlers k n)\<rparr>) s
          in if unat cpu < MAX_CPUS then s\<lparr>PER_CPU_CURRENT := (PER_CPU_CURRENT s)(unat cpu := Some t)\<rparr> else s)"

definition current_field :: "'a \<Rightarrow> (task \<Rightarrow> 'a) \<Rightarrow> sched \<Rightarrow> 'a" where
  "current_field d f s = (case get_current s of None \<Rightarrow> d | Some c \<Rightarrow> f (TASKS s c))"

definition krust_sched_current_tid :: "sched \<Rightarrow> i32" where
  "krust_sched_current_tid = current_field (- 1) tk_id"

definition krust_sched_get_pid :: "sched \<Rightarrow> i32" where
  "krust_sched_get_pid = current_field (- 1) tk_id"

definition krust_sched_get_ppid :: "sched \<Rightarrow> i32" where
  "krust_sched_get_ppid = current_field (- 1) tk_ppid"

definition krust_sched_current_vma_list :: "sched \<Rightarrow> usize" where
  "krust_sched_current_vma_list = current_field 0 tk_vma_list"

definition krust_sched_current_set_vma_list :: "usize \<Rightarrow> sched \<Rightarrow> sched" where
  "krust_sched_current_set_vma_list v s =
     (case get_current s of None \<Rightarrow> s | Some c \<Rightarrow> upd c (tk_vma_list_update (\<lambda>_. v)) s)"

definition krust_sched_current_program_brk :: "sched \<Rightarrow> u64" where
  "krust_sched_current_program_brk = current_field 0 tk_program_brk"

definition krust_sched_current_set_program_brk :: "u64 \<Rightarrow> sched \<Rightarrow> sched" where
  "krust_sched_current_set_program_brk b s =
     (case get_current s of None \<Rightarrow> s | Some c \<Rightarrow> upd c (tk_program_brk_update (\<lambda>_. b)) s)"

definition krust_sched_current_stdout_fd :: "sched \<Rightarrow> i32" where
  "krust_sched_current_stdout_fd = current_field (- 1) tk_stdout_fd"

definition krust_sched_current_stdin_fd :: "sched \<Rightarrow> i32" where
  "krust_sched_current_stdin_fd = current_field (- 1) tk_stdin_fd"

definition krust_sched_current_fd_table :: "sched \<Rightarrow> usize" where
  "krust_sched_current_fd_table = current_field 0 tk_fd_table"

definition krust_sched_get_task :: "u32 \<Rightarrow> tptr" where
  "krust_sched_get_task i = (if i < MAX_TASKS then Some (unat i) else None)"

definition krust_sched_enqueue :: "usize \<Rightarrow> sched \<Rightarrow> sched" where
  "krust_sched_enqueue t s = enqueue t s"

definition krust_sched_dequeue :: "sched \<Rightarrow> tptr \<times> sched" where
  "krust_sched_dequeue s = dequeue s"

definition krust_sched_current :: "sched \<Rightarrow> tptr" where
  "krust_sched_current s = get_current s"

definition krust_sched_get_next_id :: "sched \<Rightarrow> u32" where
  "krust_sched_get_next_id s = NEXT_ID s"

definition krust_sched_max_tasks :: u32 where
  "krust_sched_max_tasks = MAX_TASKS"

definition krust_sched_get_task_field_stdout_fd :: "u32 \<Rightarrow> sched \<Rightarrow> i32" where
  "krust_sched_get_task_field_stdout_fd i s = (if i < MAX_TASKS then tk_stdout_fd (TASKS s (unat i)) else - 1)"

definition krust_sched_get_task_field_stdin_fd :: "u32 \<Rightarrow> sched \<Rightarrow> i32" where
  "krust_sched_get_task_field_stdin_fd i s = (if i < MAX_TASKS then tk_stdin_fd (TASKS s (unat i)) else - 1)"

section \<open>Signals\<close>

text \<open>The pointer for the old handler is given as whether it is not null; its new contents are returned.\<close>

definition notify_parent :: "usize \<Rightarrow> sched \<Rightarrow> sched" where
  "notify_parent t s =
     (case tk_parent (TASKS s t) of None \<Rightarrow> s | Some p \<Rightarrow> upd p (tk_has_child_exit_update (\<lambda>_. True)) s)"

definition krust_sched_kill :: "i32 \<Rightarrow> i32 \<Rightarrow> sched \<Rightarrow> i32 \<times> sched" where
  "krust_sched_kill pid sig s =
     (if sint sig < 0 \<or> sint sig \<ge> int NSIG then (- 1, s)
      else if sint pid < 0 \<or> pid \<ge> NEXT_ID s then (- 1, s)
      else
        let t = unat pid
        in if tk_state (TASKS s t) = EXITED then (- 1, s)
           else if (case get_current s of
                      None \<Rightarrow> False
                    | Some c \<Rightarrow> tk_uid (TASKS s c) \<noteq> 0 \<and> tk_uid (TASKS s c) \<noteq> tk_uid (TASKS s t)) then (- 1, s)
           else if unat sig = SIGKILL then
             (0, notify_parent t
                   (upd t (\<lambda>k. k\<lparr>tk_exit_code := 0x100 + of_nat SIGKILL, tk_state := EXITED, tk_has_child_exit := True\<rparr>) s))
           else (0, upd t (\<lambda>k. k\<lparr>tk_sig_pending := tk_sig_pending k OR push_bit (unat sig) 1\<rparr>) s))"

definition krust_sched_sigaction :: "i32 \<Rightarrow> u64 \<Rightarrow> bool \<Rightarrow> sched \<Rightarrow> i32 \<times> u64 option \<times> sched" where
  "krust_sched_sigaction sig handler old s =
     (case get_current s of
        None \<Rightarrow> (- 1, None, s)
      | Some c \<Rightarrow>
          if sint sig < 0 \<or> sint sig \<ge> int NSIG then (- 1, None, s)
          else if unat sig = SIGKILL then (- 1, None, s)
          else if handler \<noteq> 0 \<and> handler \<noteq> 1 \<and> (handler > 0x00007FFFFFFFFFFF \<or> handler < 0x1000) then (- 1, None, s)
          else (0, if old then Some (tk_sig_handlers (TASKS s c) (unat sig)) else None,
                upd c (\<lambda>k. k\<lparr>tk_sig_handlers := (tk_sig_handlers k)(unat sig := handler)\<rparr>) s))"

definition clear_pending :: "usize \<Rightarrow> usize \<Rightarrow> sched \<Rightarrow> sched" where
  "clear_pending c sig s = upd c (\<lambda>k. k\<lparr>tk_sig_pending := tk_sig_pending k AND NOT (push_bit sig 1)\<rparr>) s"

definition krust_sched_sigreturn :: "registers \<Rightarrow> sched \<Rightarrow> i32 \<times> registers \<times> sched" where
  "krust_sched_sigreturn r s =
     (case get_current s of
        None \<Rightarrow> (- 1, r, s)
      | Some c \<Rightarrow>
          let sigframe = map (\<lambda>i. user_mem s (user_rsp r + 8 * of_nat i)) [0..<7];
              new_rip = sigframe ! 1; new_cs = sigframe ! 2; new_rsp = sigframe ! 4; new_ss = sigframe ! 5
          in if new_rip < 0x1000 \<or> new_rip > 0x00007FFFFFFFFFFF then (- 1, r, s)
             else if new_cs \<noteq> 0x23 \<and> new_cs \<noteq> 0x1B then (- 1, r, s)
             else if new_ss \<noteq> 0x2B \<and> new_ss \<noteq> 0x23 then (- 1, r, s)
             else if new_rsp < 0x1000 \<or> new_rsp > 0x00007FFFFFFFFFFF then (- 1, r, s)
             else
               let r = r\<lparr>rip := new_rip, cs := new_cs, rflags := sigframe ! 3 AND 0xFFFFFFFFFFFFFCFF,
                         user_rsp := new_rsp, ss := new_ss, rax := sigframe ! 0\<rparr>
               in (0, r, if sigframe ! 0 > 0 \<and> unat (sigframe ! 0) < NSIG
                         then clear_pending c (unat (sigframe ! 0)) s else s))"

definition end_task :: "usize \<Rightarrow> usize \<Rightarrow> sched \<Rightarrow> sched" where
  "end_task c sig s =
     notify_parent c (upd c (\<lambda>k. k\<lparr>tk_exit_code := 0x100 + of_nat sig, tk_state := EXITED\<rparr>) s)"

definition push_frame :: "u64 \<Rightarrow> u64 list \<Rightarrow> sched \<Rightarrow> sched" where
  "push_frame a ws s = s\<lparr>user_mem := fold (\<lambda>i m. m(a + 8 * of_nat i := ws ! i)) [0..<length ws] (user_mem s)\<rparr>"

fun deliver_loop :: "usize \<Rightarrow> usize list \<Rightarrow> registers \<Rightarrow> sched \<Rightarrow> registers \<times> sched" where
  "deliver_loop c [] r s = (r, s)"
| "deliver_loop c (sig # sigs) r s =
     (let k = TASKS s c
      in if tk_sig_pending k AND push_bit sig 1 = 0 then deliver_loop c sigs r s
         else if tk_sig_blocked k AND push_bit sig 1 \<noteq> 0 then deliver_loop c sigs r s
         else
           let handler = tk_sig_handlers k sig
           in if handler = 1 then deliver_loop c sigs r (clear_pending c sig s)
              else if handler = 0 then
                if sig = SIGKILL \<or> sig = 11 \<or> sig = 15 then (r, end_task c sig s)
                else deliver_loop c sigs r (clear_pending c sig s)
              else
                let old_usp = user_rsp r;
                    new_usp = old_usp - 8 * 7
                in if new_usp < 0x1000 then (r, end_task c sig s)
                   else
                     let s = push_frame new_usp [of_nat sig, rip r, cs r, rflags r, old_usp, ss r, 0] s
                     in (r\<lparr>user_rsp := new_usp, rip := handler, rdi := of_nat sig\<rparr>, clear_pending c sig s))"

definition krust_sched_deliver_signals :: "registers \<Rightarrow> sched \<Rightarrow> registers \<times> sched" where
  "krust_sched_deliver_signals r s =
     (case get_current s of
        None \<Rightarrow> (r, s)
      | Some c \<Rightarrow> if tk_sig_pending (TASKS s c) = 0 then (r, s) else deliver_loop c [1..<NSIG] r s)"

section \<open>Choosing the next task\<close>

text \<open>
  How a handler ends: it returns to the code it interrupted, or resumes another task and never
  returns, or stops the processor.
\<close>

datatype outcome = Returns | Resumes usize | Halts

definition set_kernel_stack :: "u64 \<Rightarrow> sched \<Rightarrow> sched" where
  "set_kernel_stack v s = s\<lparr>kernel_stack_top := (kernel_stack_top s)(current_cpu_id s := v)\<rparr>"

text \<open>The registers are popped from the frame the task was interrupted in; the page table is loaded if there is one.\<close>

definition task_resume :: "usize \<Rightarrow> sched \<Rightarrow> sched" where
  "task_resume t s = (if ctx_cr3 (TASKS s t) = 0 then s else s\<lparr>cr3_reg := ctx_cr3 (TASKS s t)\<rparr>)"

definition switch_to :: "usize \<Rightarrow> sched \<Rightarrow> sched" where
  "switch_to next s =
     (let s = set_current (Some next) s;
          s = upd next (tk_state_update (\<lambda>_. RUNNING)) s;
          s = (if tk_kstack (TASKS s next) \<noteq> 0
               then set_kernel_stack (of_nat (tk_kstack (TASKS s next)) + 4096) s else s)
      in task_resume next (fpu_restore_current s))"

definition pick_next :: "bool \<Rightarrow> usize \<Rightarrow> u64 \<Rightarrow> sched \<Rightarrow> outcome \<times> sched" where
  "pick_next is_idle prev ra s =
     (if is_idle then
        let s = upd prev (ctx_rsp_update (\<lambda>_. ra)) s
        in case dequeue s of
             (Some n, s) \<Rightarrow> (Resumes n, switch_to n s)
           | (None, s) \<Rightarrow> (Returns, fpu_restore_current s)
      else
        let s = upd prev (\<lambda>k. k\<lparr>ctx_rsp := ra, tk_state := READY\<rparr>) s
        in case dequeue (enqueue prev s) of
             (Some n, s) \<Rightarrow> (Resumes n, switch_to n s)
           | (None, s) \<Rightarrow>
               (Returns, fpu_restore_current (upd prev (tk_state_update (\<lambda>_. RUNNING)) (set_current (Some prev) s))))"

text \<open>\<open>ra\<close> is the address of the saved registers \<open>r\<close>.\<close>

definition krust_sched_preempt :: "u64 \<Rightarrow> registers \<Rightarrow> sched \<Rightarrow> (outcome \<times> registers \<times> sched) option" where
  "krust_sched_preempt ra r s =
     (case get_current s of
        None \<Rightarrow> Some (Returns, r, s)
      | Some prev \<Rightarrow> do {
          s \<leftarrow> sleep_wake_all (tick_count s) s;
          let (r, s) = krust_sched_deliver_signals r s;
          let s = fpu_save_current s;
          let (out, s) = pick_next (tk_kstack (TASKS s prev) = 0) prev ra s;
          Some (out, r, s)
        })"

definition krust_sched_yield_handler :: "u64 \<Rightarrow> registers \<Rightarrow> sched \<Rightarrow> (outcome \<times> registers \<times> sched) option" where
  "krust_sched_yield_handler ra r s =
     (case get_current s of
        None \<Rightarrow> Some (Returns, r, s)
      | Some prev \<Rightarrow> do {
          s \<leftarrow> sleep_wake_all (tick_count s) s;
          let (r, s) = krust_sched_deliver_signals r s;
          let s = fpu_save_current s;
          let (out, s) = pick_next (tk_id (TASKS s prev) = 0) prev ra s;
          Some (out, r, s)
        })"

definition krust_sched_on_tick :: "sched \<Rightarrow> sched option" where
  "krust_sched_on_tick s = sleep_wake_all (tick_count s) s"

text \<open>
  The call up to the moment the processor is given away: the outcome of the yield is what runs next.
\<close>

definition krust_sched_sleep_ticks :: "u64 \<Rightarrow> registers \<Rightarrow> u32 \<Rightarrow> sched \<Rightarrow> (outcome \<times> registers \<times> sched) option" where
  "krust_sched_sleep_ticks ra r ms s =
     (case get_current s of
        None \<Rightarrow> Some (Returns, r, s)
      | Some c \<Rightarrow>
          if tk_id (TASKS s c) = 0 then Some (Returns, r, s)
          else
            let ticks = (if tick_ms s > 0 then ms div tick_ms s else ms);
                target = tick_count s + ticks
            in krust_sched_yield_handler ra r (sleep_enqueue c target s))"

partial_function (option) reparent_loop :: "tptr \<Rightarrow> sched \<Rightarrow> sched option" where
  "reparent_loop child s =
     (case child of
        None \<Rightarrow> Some s
      | Some c \<Rightarrow>
          let s = upd c (tk_parent_update (\<lambda>_. Some 0)) s
          in reparent_loop (tk_sibling_next (TASKS s c)) s)"

definition krust_sched_exit :: "u32 \<Rightarrow> sched \<Rightarrow> (outcome \<times> sched) option" where
  "krust_sched_exit code s =
     (case get_current s of
        None \<Rightarrow> Some (Returns, s)
      | Some c \<Rightarrow>
          if tk_id (TASKS s c) = 0 then Some (Returns, s)
          else do {
            let s = fpu_save_current s;
            let s = upd c (\<lambda>k. k\<lparr>tk_exit_code := code, tk_state := EXITED\<rparr>) s;
            let s = notify_parent c s;
            s \<leftarrow> reparent_loop (tk_child_head (TASKS s c)) s;
            let s = upd c (\<lambda>k. k\<lparr>tk_child_head := None, tk_child_tail := None\<rparr>) s;
            case dequeue s of
              (Some n, s) \<Rightarrow> Some (Resumes n, switch_to n s)
            | (None, s) \<Rightarrow>
                if ctx_rsp (TASKS s 0) = 0 then Some (Halts, s) else Some (Resumes 0, switch_to 0 s)
          })"

section \<open>Threads\<close>

text \<open>What the other tasks do while the caller has given the processor away is the parameter \<open>yield\<close>.\<close>

partial_function (option) join_loop :: "(sched \<Rightarrow> sched) \<Rightarrow> usize \<Rightarrow> sched \<Rightarrow> sched option" where
  "join_loop yield target s =
     (if tk_state (TASKS s target) = EXITED then Some s
      else
        let c = the (get_current s);
            s = yield (upd c (tk_state_update (\<lambda>_. WAITING)) s);
            c = the (get_current s)
        in join_loop yield target (upd c (tk_state_update (\<lambda>_. RUNNING)) s))"

definition krust_sched_thread_join :: "(sched \<Rightarrow> sched) \<Rightarrow> u32 \<Rightarrow> sched \<Rightarrow> (i32 \<times> sched) option" where
  "krust_sched_thread_join yield tid s =
     (if get_current s = None then Some (- 1, s)
      else if tid \<ge> NEXT_ID s then Some (- 1, s)
      else map_option (Pair 0) (join_loop yield (unat tid) s))"

definition krust_sched_thread_detach :: "u32 \<Rightarrow> sched \<Rightarrow> i32 \<times> sched" where
  "krust_sched_thread_detach tid s =
     (if tid \<ge> NEXT_ID s then (- 1, s) else (0, upd (unat tid) (tk_ppid_update (\<lambda>_. 0)) s))"

section \<open>Choosing a victim\<close>

definition oom_score :: "task \<Rightarrow> int" where
  "oom_score k =
     (if tk_state k = EXITED then - 1
      else if tk_id k = 0 then - 1
      else let score = int (unat (tk_pages k)) * 100 + (sint (tk_oom_score_adj k) + 1000)
           in if tk_uid k = 0 then score - 500 else score)"

definition oom_step :: "sched \<Rightarrow> usize \<Rightarrow> int \<times> int \<Rightarrow> int \<times> int" where
  "oom_step s i b =
     (if Some i = get_current s then b
      else let sc = oom_score (TASKS s i) in if sc > snd b then (int i, sc) else b)"

definition oom_victim :: "sched \<Rightarrow> int" where
  "oom_victim s = fst (fold (oom_step s) [1..<unat (NEXT_ID s)] (- 1, - 1))"

end
