(* ===== verification/Sched.thy ===== *)
theory Sched
  imports Task
begin

unbundle bit_operations_syntax

text \<open>
  Properties of the scheduler. The queues and the lists of children are linked lists; each operation is
  related to the operation on the list of their tasks.
\<close>

section \<open>Linked lists of tasks\<close>

fun tlist :: "(usize \<Rightarrow> tptr) \<Rightarrow> tptr \<Rightarrow> usize list \<Rightarrow> bool" where
  "tlist nx p [] \<longleftrightarrow> p = None"
| "tlist nx p (t # ts) \<longleftrightarrow> p = Some t \<and> tlist nx (nx t) ts"

lemma tlist_cong: "(\<And>t. t \<in> set xs \<Longrightarrow> nx t = nx' t) \<Longrightarrow> tlist nx p xs \<longleftrightarrow> tlist nx' p xs"
  by (induction xs arbitrary: p) auto

lemma tlist_upd [simp]: "t \<notin> set xs \<Longrightarrow> tlist (nx(t := v)) p xs \<longleftrightarrow> tlist nx p xs"
  by (rule tlist_cong) auto

lemma tlist_None [simp]: "tlist nx None xs \<longleftrightarrow> xs = []"
  by (cases xs) auto

lemma tlist_append:
  "distinct xs \<Longrightarrow> t \<notin> set xs \<Longrightarrow> xs \<noteq> [] \<Longrightarrow> tlist nx p xs \<Longrightarrow> tlist (nx(t := None, last xs := Some t)) p (xs @ [t])"
proof (induction xs arbitrary: p)
  case (Cons x xs)
  then show ?case
    by (cases "xs = []") (auto simp: fun_upd_twist)
qed simp

lemma tlist_unique: "tlist nx p xs \<Longrightarrow> tlist nx p ys \<Longrightarrow> xs = ys"
proof (induction xs arbitrary: p ys)
  case Nil
  then show ?case by (cases ys) auto
next
  case (Cons x xs)
  then show ?case by (cases ys) auto
qed

lemma TASKS_upd [simp]: "TASKS (upd t f s) = (TASKS s)(t := f (TASKS s t))"
  by (simp add: upd_def)

lemma upd_fields [simp]:
  "PER_CPU_CURRENT (upd t f s) = PER_CPU_CURRENT s" "ready_head (upd t f s) = ready_head s"
  "ready_tail (upd t f s) = ready_tail s" "sleep_head (upd t f s) = sleep_head s"
  "sleep_count (upd t f s) = sleep_count s" "NEXT_ID (upd t f s) = NEXT_ID s" "FREE_IDS (upd t f s) = FREE_IDS s"
  "FREE_ID_COUNT (upd t f s) = FREE_ID_COUNT s" "SCHED_HAS_FPU (upd t f s) = SCHED_HAS_FPU s"
  "cpu_id (upd t f s) = cpu_id s" "tick_count (upd t f s) = tick_count s" "tick_ms (upd t f s) = tick_ms s"
  "kernel_stack_top (upd t f s) = kernel_stack_top s" "cr3_reg (upd t f s) = cr3_reg s"
  "fpu_regs (upd t f s) = fpu_regs s" "fpu_area (upd t f s) = fpu_area s" "user_mem (upd t f s) = user_mem s"
  by (simp_all add: upd_def)

definition next_of :: "sched \<Rightarrow> usize \<Rightarrow> tptr" where
  "next_of s t = tk_next (TASKS s t)"

definition sib_of :: "sched \<Rightarrow> usize \<Rightarrow> tptr" where
  "sib_of s t = tk_sibling_next (TASKS s t)"

lemma next_of_upd: "next_of (upd t f s) = (next_of s)(t := tk_next (f (TASKS s t)))"
  by (auto simp: next_of_def)

lemma next_of_queues [simp]:
  "next_of (s\<lparr>ready_head := h\<rparr>) = next_of s" "next_of (s\<lparr>ready_tail := h\<rparr>) = next_of s"
  "next_of (s\<lparr>sleep_head := h\<rparr>) = next_of s" "next_of (s\<lparr>sleep_count := n\<rparr>) = next_of s"
  by (simp_all add: next_of_def [abs_def])

lemma sib_of_upd: "sib_of (upd t f s) = (sib_of s)(t := tk_sibling_next (f (TASKS s t)))"
  by (auto simp: sib_of_def)

text \<open>What holds the queues together, and what a change of them leaves alone.\<close>

definition ready :: "sched \<Rightarrow> usize list \<Rightarrow> bool" where
  "ready s xs \<longleftrightarrow> tlist (next_of s) (ready_head s) xs \<and> distinct xs \<and>
     ready_tail s = (if xs = [] then None else Some (last xs))"

text \<open>Everything of a task but its place in the queues, and everything of the scheduler but the queues.\<close>

definition core :: "task \<Rightarrow> task" where
  "core k = k\<lparr>tk_next := None, tk_state := READY, tk_sleep_until := 0\<rparr>"

definition rest :: "sched \<Rightarrow> sched" where
  "rest s = s\<lparr>TASKS := (\<lambda>i. core (TASKS s i)), ready_head := None, ready_tail := None, sleep_head := None, sleep_count := 0\<rparr>"

lemma core_simps [simp]:
  "core (k\<lparr>tk_next := n\<rparr>) = core k" "core (k\<lparr>tk_state := st\<rparr>) = core k" "core (k\<lparr>tk_sleep_until := u\<rparr>) = core k"
  by (simp_all add: core_def)

lemma core_fields [simp]:
  "tk_kstack (core k) = tk_kstack k" "tk_id (core k) = tk_id k" "tk_fpu_state (core k) = tk_fpu_state k"
  "ctx_cr3 (core k) = ctx_cr3 k" "tk_parent (core k) = tk_parent k" "ctx_rsp (core k) = ctx_rsp k"
  "tk_sig_pending (core k) = tk_sig_pending k"
  by (simp_all add: core_def)

lemma rest_upd: "core (f (TASKS s t)) = core (TASKS s t) \<Longrightarrow> rest (upd t f s) = rest s"
  by (simp add: rest_def upd_def fun_eq_iff)

lemma rest_queues [simp]:
  "rest (s\<lparr>ready_head := h\<rparr>) = rest s" "rest (s\<lparr>ready_tail := h\<rparr>) = rest s" "rest (s\<lparr>sleep_head := h\<rparr>) = rest s"
  "rest (s\<lparr>sleep_count := n\<rparr>) = rest s"
  by (simp_all add: rest_def)

lemma rest_fields:
  assumes "rest s = rest s'"
  shows "core (TASKS s i) = core (TASKS s' i)" "PER_CPU_CURRENT s = PER_CPU_CURRENT s'" "cpu_id s = cpu_id s'"
    "current_cpu_id s = current_cpu_id s'" "get_current s = get_current s'"
proof -
  have "TASKS (rest s) i = TASKS (rest s') i" and c: "PER_CPU_CURRENT (rest s) = PER_CPU_CURRENT (rest s')" "cpu_id (rest s) = cpu_id (rest s')"
    using assms by simp_all
  then show "core (TASKS s i) = core (TASKS s' i)" by (simp add: rest_def)
  show d: "PER_CPU_CURRENT s = PER_CPU_CURRENT s'" "cpu_id s = cpu_id s'" using c by (simp_all add: rest_def)
  then show "current_cpu_id s = current_cpu_id s'" "get_current s = get_current s'"
    by (simp_all add: current_cpu_id_def get_current_def)
qed

lemma enqueue_rest [simp]: "rest (enqueue t s) = rest s"
  by (simp add: enqueue_def Let_def rest_upd)

lemma dequeue_rest: "dequeue s = (t, s') \<Longrightarrow> rest s' = rest s"
  by (auto simp: dequeue_def Let_def rest_upd split: option.splits if_splits)

lemma wake_rest [simp]: "rest (wake t s) = rest s"
  by (simp add: wake_def rest_upd)

section \<open>The ready queue is a queue\<close>

locale fifo_queue =
  fixes put :: "'a \<Rightarrow> 's \<Rightarrow> 's" and first :: "'s \<Rightarrow> 'a option \<times> 's" and holds :: "'s \<Rightarrow> 'a list \<Rightarrow> bool"
  assumes put_last: "holds s xs \<Longrightarrow> t \<notin> set xs \<Longrightarrow> holds (put t s) (xs @ [t])"
    and first_none: "holds s [] \<Longrightarrow> first s = (None, s)"
    and first_some: "holds s (x # xs) \<Longrightarrow> \<exists>s'. first s = (Some x, s') \<and> holds s' xs"
begin

lemma first_put:
  assumes "holds s xs" and "t \<notin> set xs"
  shows "\<exists>s'. first (put t s) = (Some (hd (xs @ [t])), s') \<and> holds s' (tl (xs @ [t]))"
  using first_some [of "put t s"] put_last [OF assms] by (cases xs) auto

end

lemma ready_Nil: "ready s [] \<longleftrightarrow> ready_head s = None \<and> ready_tail s = None"
  by (auto simp: ready_def)

lemma ready_enqueue:
  assumes "ready s xs" and "t \<notin> set xs"
  shows "ready (enqueue t s) (xs @ [t])"
proof (cases "xs = []")
  case True
  then show ?thesis using assms by (simp add: ready_def enqueue_def Let_def next_of_def)
next
  case False
  then obtain h where h: "ready_head s = Some h" using assms(1) by (cases xs) (auto simp: ready_def)
  have nx: "next_of (enqueue t s) = (next_of s)(t := None, last xs := Some t)"
    using assms False h by (auto simp: enqueue_def Let_def next_of_def ready_def fun_eq_iff)
  show ?thesis
    using tlist_append [of xs t "next_of s" "ready_head s"] assms False h
    by (simp add: ready_def nx) (simp add: enqueue_def Let_def)
qed

lemma ready_dequeue:
  assumes "ready s (x # xs)"
  shows "\<exists>s'. dequeue s = (Some x, s') \<and> ready s' xs"
  using assms by (cases xs) (auto simp: ready_def dequeue_def Let_def next_of_upd next_of_def [symmetric])

lemma dequeue_empty: "ready s [] \<Longrightarrow> dequeue s = (None, s)"
  by (simp add: ready_Nil dequeue_def)

interpretation ready_queue: fifo_queue enqueue dequeue ready
  by unfold_locales (fact ready_enqueue dequeue_empty ready_dequeue)+

lemma enqueue_next: "ready s xs \<Longrightarrow> i \<notin> set xs \<Longrightarrow> i \<noteq> t \<Longrightarrow> next_of (enqueue t s) i = next_of s i"
  by (cases xs) (auto simp: ready_def enqueue_def Let_def next_of_def)

lemma tlist_last: "tlist nx p (xs @ [t]) \<Longrightarrow> nx t = None"
  by (induction xs arbitrary: p) auto

lemma enqueue_next_self: "ready s xs \<Longrightarrow> t \<notin> set xs \<Longrightarrow> next_of (enqueue t s) t = None"
  using ready_enqueue [of s xs t] tlist_last by (auto simp: ready_def)

lemma enqueue_tasks [simp]:
  "tk_state (TASKS (enqueue t s) i) = tk_state (TASKS s i)"
  "tk_sleep_until (TASKS (enqueue t s) i) = tk_sleep_until (TASKS s i)"
  "sleep_head (enqueue t s) = sleep_head s" "sleep_count (enqueue t s) = sleep_count s"
  by (simp_all add: enqueue_def Let_def)

section \<open>The sleep queue\<close>

definition sleeping :: "sched \<Rightarrow> usize list \<Rightarrow> bool" where
  "sleeping s ys \<longleftrightarrow> tlist (next_of s) (sleep_head s) ys \<and> distinct ys \<and> sleep_count s = length ys \<and> length ys < usize_mod"

definition queues :: "sched \<Rightarrow> usize list \<Rightarrow> usize list \<Rightarrow> bool" where
  "queues s xs ys \<longleftrightarrow> ready s xs \<and> sleeping s ys \<and> set xs \<inter> set ys = {}"

definition due :: "u32 \<Rightarrow> sched \<Rightarrow> usize \<Rightarrow> bool" where
  "due ticks s t \<longleftrightarrow> tk_sleep_until (TASKS s t) \<le> ticks"

lemma tlist_remove:
  "distinct (as @ c # bs) \<Longrightarrow> as \<noteq> [] \<Longrightarrow> tlist nx p (as @ c # bs) \<Longrightarrow> tlist (nx(last as := nx c)) p (as @ bs)"
proof (induction as arbitrary: p)
  case (Cons a as)
  show ?case
  proof (cases "as = []")
    case True
    then show ?thesis using Cons.prems by (auto simp del: fun_upd_apply simp: fun_upd_same)
  next
    case False
    then have "last as \<noteq> a" using Cons.prems(1) last_in_set by fastforce
    then show ?thesis using Cons False by (auto simp del: fun_upd_apply simp: fun_upd_other)
  qed
qed simp

lemma tlist_drop: "tlist nx p (c # bs) \<Longrightarrow> tlist nx (nx c) bs"
  by simp

lemma tlist_suffix: "tlist nx p (as @ bs) \<Longrightarrow> tlist nx (if as = [] then p else nx (last as)) bs"
  by (induction as arbitrary: p) (auto split: if_splits)

lemma ready_frame:
  assumes "ready s xs" and "\<And>i. i \<in> set xs \<Longrightarrow> next_of s' i = next_of s i" and "ready_head s' = ready_head s" "ready_tail s' = ready_tail s"
  shows "ready s' xs"
  using assms tlist_cong [of xs "next_of s'" "next_of s"] by (simp add: ready_def)

lemma sleeping_frame:
  assumes "sleeping s ys" and "\<And>i. i \<in> set ys \<Longrightarrow> next_of s' i = next_of s i" and "sleep_head s' = sleep_head s" "sleep_count s' = sleep_count s"
  shows "sleeping s' ys"
  using assms tlist_cong [of ys "next_of s'" "next_of s"] by (simp add: sleeping_def)

text \<open>One task leaves the sleep queue for the ready queue.\<close>

definition unlink_sleeper :: "tptr \<Rightarrow> tptr \<Rightarrow> usize \<Rightarrow> sched \<Rightarrow> sched" where
  "unlink_sleeper prev nx c s =
     (case prev of
        Some p \<Rightarrow> upd p (tk_next_update (\<lambda>_. nx)) (wake c s)
      | None \<Rightarrow> (wake c s)\<lparr>sleep_head := nx\<rparr>)\<lparr>sleep_count := wsub (sleep_count s) 1\<rparr>"

lemma wake_one:
  assumes q: "queues s xs (as @ c # bs)" and prev: "prev = (if as = [] then None else Some (last as))"
  shows "queues (unlink_sleeper prev (next_of s c) c s) (xs @ [c]) (as @ bs)"
proof -
  let ?s = "unlink_sleeper prev (next_of s c) c s"
  define w where "w = wake c s"
  have r: "ready s xs" and sl: "sleeping s (as @ c # bs)" and dis: "set xs \<inter> set (as @ c # bs) = {}"
    using q by (simp_all add: queues_def)
  have d: "distinct (as @ c # bs)" using sl by (simp add: sleeping_def)
  have fr: "ready (upd c (\<lambda>k. k\<lparr>tk_state := READY, tk_sleep_until := 0\<rparr>) s) xs"
    using r by (rule ready_frame) (simp_all add: next_of_def)
  have rw: "ready w (xs @ [c])" unfolding w_def wake_def using fr by (rule ready_enqueue) (use dis in auto)
  have nw: "next_of w i = next_of s i" if "i \<in> set as \<union> set bs" for i
    unfolding w_def wake_def using enqueue_next [OF fr, of i c] that dis d by (auto simp: next_of_def)
  have sw: "sleep_head w = sleep_head s" "sleep_count w = sleep_count s" by (simp_all add: w_def wake_def)
  have tl: "tlist (next_of s) (sleep_head s) (as @ c # bs)" using sl by (simp add: sleeping_def)
  have cnt: "wsub (sleep_count s) 1 = length (as @ bs)" "length (as @ bs) < usize_mod"
    using sl by (simp_all add: sleeping_def wsub_small)
  show ?thesis
  proof (cases "as = []")
    case True
    then have "tlist (next_of w) (next_of s c) bs" using tl tlist_cong [of bs "next_of w" "next_of s"] nw by simp
    then show ?thesis using True prev rw cnt d dis
      by (auto simp: queues_def sleeping_def unlink_sleeper_def w_def [symmetric] intro: ready_frame [OF rw])
  next
    case False
    have "tlist ((next_of s)(last as := next_of s c)) (sleep_head s) (as @ bs)" using tlist_remove [OF d False tl] .
    then have t: "tlist ((next_of w)(last as := next_of s c)) (sleep_head s) (as @ bs)"
      using tlist_cong [of "as @ bs" "(next_of w)(last as := next_of s c)" "(next_of s)(last as := next_of s c)"] nw by simp
    have "ready ?s (xs @ [c])"
      using rw by (rule ready_frame) (use False prev dis d in \<open>auto simp: unlink_sleeper_def w_def [symmetric] next_of_upd\<close>)
    then show ?thesis using False prev cnt d dis t sw
      by (auto simp: queues_def sleeping_def unlink_sleeper_def w_def [symmetric] next_of_upd)
  qed
qed

lemma unlink_sleeper_rest [simp]: "rest (unlink_sleeper prev nx c s) = rest s"
  by (simp add: unlink_sleeper_def rest_upd split: option.split)

lemma unlink_sleeper_tasks:
  "tk_state (TASKS (unlink_sleeper prev nx c s) i) = (if i = c then READY else tk_state (TASKS s i))"
  "tk_sleep_until (TASKS (unlink_sleeper prev nx c s) i) = (if i = c then 0 else tk_sleep_until (TASKS s i))"
  by (auto simp: unlink_sleeper_def wake_def split: option.split)

lemma wake_loop_step:
  "wake_loop ticks prev (Some c) s =
     (if due ticks s c then wake_loop ticks prev (next_of s c) (unlink_sleeper prev (next_of s c) c s)
      else wake_loop ticks (Some c) (next_of s c) s)"
  by (subst wake_loop.simps)
    (auto simp: due_def next_of_def unlink_sleeper_def wake_def Let_def split: option.split)

lemma wake_loop_queues:
  assumes "queues s xs (as @ bs)" and "prev = (if as = [] then None else Some (last as))" and "tlist (next_of s) cur bs"
  shows "\<exists>s'. wake_loop ticks prev cur s = Some s' \<and>
     queues s' (xs @ filter (due ticks s) bs) (as @ filter (\<lambda>t. \<not> due ticks s t) bs) \<and> rest s' = rest s \<and>
     (\<forall>i. tk_state (TASKS s' i) = (if i \<in> set bs \<and> due ticks s i then READY else tk_state (TASKS s i)) \<and>
          tk_sleep_until (TASKS s' i) = (if i \<in> set bs \<and> due ticks s i then 0 else tk_sleep_until (TASKS s i)))"
  using assms
proof (induction bs arbitrary: as xs prev cur s)
  case Nil
  then show ?case by (simp add: wake_loop.simps)
next
  case (Cons c bs)
  have cur: "cur = Some c" and tl: "tlist (next_of s) (next_of s c) bs" using Cons.prems(3) by simp_all
  have d: "distinct (as @ c # bs)" using Cons.prems(1) by (simp add: queues_def sleeping_def)
  show ?case
  proof (cases "due ticks s c")
    case True
    define u where "u = unlink_sleeper prev (next_of s c) c s"
    have q: "queues u (xs @ [c]) (as @ bs)" unfolding u_def using Cons.prems(1,2) by (rule wake_one)
    have du: "due ticks u t = due ticks s t" if "t \<in> set bs" for t
      using that d by (auto simp: u_def due_def unlink_sleeper_tasks)
    have "tlist (next_of u) (next_of s c) bs"
    proof (cases "as = []")
      case True
      then show ?thesis using q Cons.prems(2) by (simp add: queues_def sleeping_def u_def unlink_sleeper_def)
    next
      case False
      then have "sleep_head u = sleep_head s" "tlist (next_of u) (sleep_head u) (as @ bs)"
        using q Cons.prems(2) by (simp_all add: queues_def sleeping_def u_def unlink_sleeper_def wake_def)
      then have "tlist (next_of u) (next_of u (last as)) bs" using tlist_suffix [of "next_of u" _ as bs] False by simp
      moreover have "next_of u (last as) = next_of s c" using False Cons.prems(2) by (simp add: u_def unlink_sleeper_def next_of_upd)
      ultimately show ?thesis by simp
    qed
    from Cons.IH [OF q Cons.prems(2) this] obtain s' where s': "wake_loop ticks prev (next_of s c) u = Some s'"
      "queues s' ((xs @ [c]) @ filter (due ticks u) bs) (as @ filter (\<lambda>t. \<not> due ticks u t) bs)" "rest s' = rest u"
      "\<forall>i. tk_state (TASKS s' i) = (if i \<in> set bs \<and> due ticks u i then READY else tk_state (TASKS u i)) \<and>
          tk_sleep_until (TASKS s' i) = (if i \<in> set bs \<and> due ticks u i then 0 else tk_sleep_until (TASKS u i))"
      by blast
    have f: "filter (due ticks u) bs = filter (due ticks s) bs" "filter (\<lambda>t. \<not> due ticks u t) bs = filter (\<lambda>t. \<not> due ticks s t) bs"
      using du by (auto intro!: filter_cong)
    have "wake_loop ticks prev cur s = Some s'" using s'(1) True by (simp add: cur wake_loop_step u_def)
    moreover have "rest s' = rest s" using s'(3) by (simp add: u_def)
    moreover have "tk_state (TASKS u i) = (if i = c then READY else tk_state (TASKS s i))"
      "tk_sleep_until (TASKS u i) = (if i = c then 0 else tk_sleep_until (TASKS s i))" for i
      by (simp_all add: u_def unlink_sleeper_tasks)
    ultimately show ?thesis using s'(2,4) True du by (auto simp: f)
  next
    case False
    have "queues s xs ((as @ [c]) @ bs)" using Cons.prems(1) by simp
    from Cons.IH [OF this _ tl, of "Some c"] obtain s' where
      "wake_loop ticks (Some c) (next_of s c) s = Some s'" "queues s' (xs @ filter (due ticks s) bs) ((as @ [c]) @ filter (\<lambda>t. \<not> due ticks s t) bs)"
      "rest s' = rest s" "\<forall>i. tk_state (TASKS s' i) = (if i \<in> set bs \<and> due ticks s i then READY else tk_state (TASKS s i)) \<and>
          tk_sleep_until (TASKS s' i) = (if i \<in> set bs \<and> due ticks s i then 0 else tk_sleep_until (TASKS s i))"
      by auto
    then show ?thesis using False d by (intro exI [of _ s']) (auto simp: cur wake_loop_step)
  qed
qed

lemma sleep_wake_all_queues:
  assumes "queues s xs ys"
  obtains s' where "sleep_wake_all ticks s = Some s'"
    "queues s' (xs @ filter (due ticks s) ys) (filter (\<lambda>t. \<not> due ticks s t) ys)" "rest s' = rest s"
    "\<And>i. tk_state (TASKS s' i) = (if i \<in> set ys \<and> due ticks s i then READY else tk_state (TASKS s i))"
    "\<And>i. tk_sleep_until (TASKS s' i) = (if i \<in> set ys \<and> due ticks s i then 0 else tk_sleep_until (TASKS s i))"
  using wake_loop_queues [of s xs "[]" ys None "sleep_head s" ticks] assms
  by (auto simp: sleep_wake_all_def queues_def sleeping_def)

section \<open>Signals leave the queues alone\<close>

definition calm :: "sched \<Rightarrow> sched" where
  "calm s = s\<lparr>TASKS := (\<lambda>i. (TASKS s i)\<lparr>tk_state := READY, tk_exit_code := 0, tk_sig_pending := 0, tk_has_child_exit := False\<rparr>),
     user_mem := (\<lambda>_. 0)\<rparr>"

lemma calm_upd:
  "(f (TASKS s t))\<lparr>tk_state := READY, tk_exit_code := 0, tk_sig_pending := 0, tk_has_child_exit := False\<rparr> =
     (TASKS s t)\<lparr>tk_state := READY, tk_exit_code := 0, tk_sig_pending := 0, tk_has_child_exit := False\<rparr> \<Longrightarrow>
   calm (upd t f s) = calm s"
  by (simp add: calm_def upd_def fun_eq_iff)

lemma calm_signal [simp]:
  "calm (clear_pending c sig s) = calm s" "calm (end_task c sig s) = calm s" "calm (push_frame a ws s) = calm s"
  by (simp_all add: clear_pending_def end_task_def notify_parent_def calm_upd push_frame_def split: option.split)
    (simp add: calm_def)

lemma deliver_loop_calm: "calm (snd (deliver_loop c sigs r s)) = calm s"
  by (induction c sigs r s rule: deliver_loop.induct) (simp_all add: Let_def)

lemma deliver_calm: "krust_sched_deliver_signals r s = (r', s') \<Longrightarrow> calm s' = calm s"
  using deliver_loop_calm [of _ "[1..<NSIG]" r s]
  by (auto simp: krust_sched_deliver_signals_def split: option.splits if_splits) (metis snd_conv)

lemma calm_fields:
  assumes "calm s = calm s'"
  shows "next_of s = next_of s'" "ready_head s = ready_head s'" "ready_tail s = ready_tail s'" "sleep_head s = sleep_head s'"
    "sleep_count s = sleep_count s'" "get_current s = get_current s'" "tk_kstack (TASKS s i) = tk_kstack (TASKS s' i)"
    "tk_id (TASKS s i) = tk_id (TASKS s' i)" "tick_count s = tick_count s'" "current_cpu_id s = current_cpu_id s'"
proof -
  have t: "TASKS (calm s) i = TASKS (calm s') i" for i using assms by simp
  have f: "tk_next (TASKS (calm s) i) = tk_next (TASKS (calm s') i)" "tk_kstack (TASKS (calm s) i) = tk_kstack (TASKS (calm s') i)"
    "tk_id (TASKS (calm s) i) = tk_id (TASKS (calm s') i)" for i using t by simp_all
  then show "next_of s = next_of s'" "tk_kstack (TASKS s i) = tk_kstack (TASKS s' i)" "tk_id (TASKS s i) = tk_id (TASKS s' i)"
    by (simp_all add: calm_def next_of_def fun_eq_iff)
  have g: "ready_head (calm s) = ready_head (calm s')" "ready_tail (calm s) = ready_tail (calm s')"
    "sleep_head (calm s) = sleep_head (calm s')" "sleep_count (calm s) = sleep_count (calm s')"
    "PER_CPU_CURRENT (calm s) = PER_CPU_CURRENT (calm s')" "cpu_id (calm s) = cpu_id (calm s')" "tick_count (calm s) = tick_count (calm s')"
    using assms by simp_all
  then show "ready_head s = ready_head s'" "ready_tail s = ready_tail s'" "sleep_head s = sleep_head s'"
    "sleep_count s = sleep_count s'" "get_current s = get_current s'" "tick_count s = tick_count s'" "current_cpu_id s = current_cpu_id s'"
    by (simp_all add: calm_def get_current_def current_cpu_id_def)
qed

lemma queues_frame:
  assumes "queues s xs ys" and "next_of s' = next_of s" "ready_head s' = ready_head s" "ready_tail s' = ready_tail s"
    "sleep_head s' = sleep_head s" "sleep_count s' = sleep_count s"
  shows "queues s' xs ys"
  using assms by (simp add: queues_def ready_def sleeping_def)

section \<open>Switching\<close>

text \<open>The task that runs is in neither queue.\<close>

definition sched_ok :: "sched \<Rightarrow> usize \<Rightarrow> usize list \<Rightarrow> usize list \<Rightarrow> bool" where
  "sched_ok s c xs ys \<longleftrightarrow> get_current s = Some c \<and> queues s xs ys \<and> c \<notin> set xs \<and> c \<notin> set ys"

lemma fpu_fields [simp]:
  "TASKS (fpu_save_current s) = TASKS s" "TASKS (fpu_restore_current s) = TASKS s"
  "ready_head (fpu_save_current s) = ready_head s" "ready_head (fpu_restore_current s) = ready_head s"
  "ready_tail (fpu_save_current s) = ready_tail s" "ready_tail (fpu_restore_current s) = ready_tail s"
  "sleep_head (fpu_save_current s) = sleep_head s" "sleep_head (fpu_restore_current s) = sleep_head s"
  "sleep_count (fpu_save_current s) = sleep_count s" "sleep_count (fpu_restore_current s) = sleep_count s"
  "get_current (fpu_save_current s) = get_current s" "get_current (fpu_restore_current s) = get_current s"
  "current_cpu_id (fpu_save_current s) = current_cpu_id s" "current_cpu_id (fpu_restore_current s) = current_cpu_id s"
  "next_of (fpu_save_current s) = next_of s" "next_of (fpu_restore_current s) = next_of s"
  by (simp_all add: fpu_save_current_def fpu_restore_current_def get_current_def current_cpu_id_def next_of_def [abs_def] split: option.split)

lemma set_current_fields [simp]:
  "TASKS (set_current t s) = TASKS s" "get_current (set_current t s) = t" "ready_head (set_current t s) = ready_head s"
  "ready_tail (set_current t s) = ready_tail s" "sleep_head (set_current t s) = sleep_head s"
  "sleep_count (set_current t s) = sleep_count s" "next_of (set_current t s) = next_of s"
  by (simp_all add: set_current_def get_current_def current_cpu_id_def next_of_def [abs_def])

lemma get_current_upd [simp]: "get_current (upd t f s) = get_current s" "current_cpu_id (upd t f s) = current_cpu_id s"
  by (simp_all add: get_current_def current_cpu_id_def)

lemma switch_to_fields [simp]:
  "TASKS (switch_to n s) = (TASKS s)(n := (TASKS s n)\<lparr>tk_state := RUNNING\<rparr>)" "get_current (switch_to n s) = Some n"
  "ready_head (switch_to n s) = ready_head s" "ready_tail (switch_to n s) = ready_tail s"
  "sleep_head (switch_to n s) = sleep_head s" "sleep_count (switch_to n s) = sleep_count s" "next_of (switch_to n s) = next_of s"
proof -
  show t: "TASKS (switch_to n s) = (TASKS s)(n := (TASKS s n)\<lparr>tk_state := RUNNING\<rparr>)"
    by (simp add: switch_to_def Let_def task_resume_def set_kernel_stack_def)
  then show "next_of (switch_to n s) = next_of s" by (simp add: next_of_def [abs_def] fun_eq_iff)
  have "get_current (set_kernel_stack v u) = get_current u" "current_cpu_id (set_kernel_stack v u) = current_cpu_id u" for v u
    by (simp_all add: set_kernel_stack_def get_current_def current_cpu_id_def)
  moreover have "get_current (task_resume t u) = get_current u" for t u
    by (simp add: task_resume_def get_current_def current_cpu_id_def)
  ultimately show "get_current (switch_to n s) = Some n" by (simp add: switch_to_def Let_def)
qed (simp_all add: switch_to_def Let_def task_resume_def set_kernel_stack_def)

lemma enqueue_fields [simp]:
  "get_current (enqueue t s) = get_current s" "tk_kstack (TASKS (enqueue t s) i) = tk_kstack (TASKS s i)"
  "tk_id (TASKS (enqueue t s) i) = tk_id (TASKS s i)"
  by (simp_all add: enqueue_def Let_def get_current_def current_cpu_id_def)

lemma dequeue_fields:
  assumes "dequeue s = (t, s')"
  shows "get_current s' = get_current s" "tk_kstack (TASKS s' i) = tk_kstack (TASKS s i)" "tk_state (TASKS s' i) = tk_state (TASKS s i)"
    "tk_id (TASKS s' i) = tk_id (TASKS s i)" "sleep_head s' = sleep_head s" "sleep_count s' = sleep_count s"
    "t \<noteq> Some i \<Longrightarrow> next_of s' i = next_of s i"
    "core (TASKS s' i) = core (TASKS s i)"
  using assms
  by (auto simp: dequeue_def Let_def get_current_def current_cpu_id_def next_of_def split: option.splits if_splits)

lemma dequeue_next: "dequeue s = (Some t, s') \<Longrightarrow> next_of s' t = None"
  by (auto simp: dequeue_def Let_def next_of_def split: option.splits if_splits)

lemma queues_enqueue:
  assumes "queues s xs ys" and "t \<notin> set xs" "t \<notin> set ys"
  shows "queues (enqueue t s) (xs @ [t]) ys"
proof -
  have r: "ready s xs" using assms(1) by (simp add: queues_def)
  have "next_of (enqueue t s) i = next_of s i" if "i \<in> set ys" for i
    using that assms by (intro enqueue_next [OF r]) (auto simp: queues_def)
  then have "sleeping (enqueue t s) ys" using assms(1) sleeping_frame [of s ys "enqueue t s"] by (simp add: queues_def)
  then show ?thesis using assms ready_enqueue [OF r] by (auto simp: queues_def)
qed

lemma queues_dequeue:
  assumes "queues s (x # xs) ys"
  obtains s' where "dequeue s = (Some x, s')" "queues s' xs ys"
proof -
  obtain s' where s': "dequeue s = (Some x, s')" "ready s' xs" using assms ready_dequeue [of s x xs] by (auto simp: queues_def)
  have "next_of s' i = next_of s i" if "i \<in> set ys" for i
    using that assms by (intro dequeue_fields(7) [OF s'(1)]) (auto simp: queues_def)
  then have "sleeping s' ys"
    using assms dequeue_fields(5,6) [OF s'(1)] sleeping_frame [of s ys s'] by (simp add: queues_def)
  then show thesis using s' assms by (intro that [of s']) (auto simp: queues_def)
qed

text \<open>What the two handlers do after waking sleepers and delivering signals.\<close>

lemma pick_next_ok:
  fixes xs c idle
  defines "zs \<equiv> xs @ (if idle then [] else [c])"
  assumes ok: "sched_ok s c xs ys" and p: "pick_next idle c ra s = (out, s')"
  shows "if zs = [] then out = Returns \<and> sched_ok s' c [] ys
    else out = Resumes (hd zs) \<and> sched_ok s' (hd zs) (tl zs) ys \<and>
      (\<forall>i. tk_state (TASKS s' i) = (if i = hd zs then RUNNING else if i = c \<and> \<not> idle then READY else tk_state (TASKS s i)))"
    and "tk_kstack (TASKS s' i) = tk_kstack (TASKS s i)" "tk_id (TASKS s' i) = tk_id (TASKS s i)"
proof -
  have q: "queues s xs ys" "c \<notin> set xs" "c \<notin> set ys" and cur: "get_current s = Some c" using ok by (simp_all add: sched_ok_def)
  define u where "u = (if idle then upd c (ctx_rsp_update (\<lambda>_. ra)) s
    else enqueue c (upd c (\<lambda>k. k\<lparr>ctx_rsp := ra, tk_state := READY\<rparr>) s))"
  have st: "tk_state (TASKS u i) = (if i = c \<and> \<not> idle then READY else tk_state (TASKS s i))"
    "tk_kstack (TASKS u i) = tk_kstack (TASKS s i)" "tk_id (TASKS u i) = tk_id (TASKS s i)" "get_current u = Some c" for i
    by (simp_all add: u_def cur)
  have qu: "queues u zs ys"
  proof (cases idle)
    case True
    then show ?thesis unfolding u_def zs_def using q(1) by (auto intro!: queues_frame [OF q(1)] simp: next_of_upd next_of_def)
  next
    case False
    have "queues (upd c (\<lambda>k. k\<lparr>ctx_rsp := ra, tk_state := READY\<rparr>) s) xs ys"
      by (rule queues_frame [OF q(1)]) (auto simp: next_of_upd next_of_def)
    then show ?thesis unfolding u_def zs_def using False q(2,3) by (simp add: queues_enqueue)
  qed
  have "(if zs = [] then out = Returns \<and> sched_ok s' c [] ys
    else out = Resumes (hd zs) \<and> sched_ok s' (hd zs) (tl zs) ys \<and>
      (\<forall>i. tk_state (TASKS s' i) = (if i = hd zs then RUNNING else if i = c \<and> \<not> idle then READY else tk_state (TASKS s i)))) \<and>
    tk_kstack (TASKS s' i) = tk_kstack (TASKS s i) \<and> tk_id (TASKS s' i) = tk_id (TASKS s i)"
  proof (cases zs)
    case Nil
    then have d: "dequeue u = (None, u)" and idle using qu dequeue_empty by (auto simp: queues_def zs_def split: if_splits)
    then have "(out, s') = (Returns, fpu_restore_current u)" using p by (simp add: pick_next_def u_def)
    then show ?thesis using Nil st cur qu q(3)
      by (auto simp: sched_ok_def intro: queues_frame [OF qu [unfolded Nil]])
  next
    case (Cons n ns)
    obtain v where v: "dequeue u = (Some n, v)" "queues v ns ys" using qu unfolding Cons by (rule queues_dequeue)
    have s': "out = Resumes n" "s' = switch_to n v" using p v(1) by (auto simp: pick_next_def u_def Let_def split: if_splits)
    have n: "n \<notin> set ns" "n \<notin> set ys" using qu by (auto simp: Cons queues_def ready_def)
    have "queues s' ns ys" using v(2) by (rule queues_frame) (simp_all add: s'(2))
    then show ?thesis using n st dequeue_fields [OF v(1)] by (auto simp: Cons s' sched_ok_def)
  qed
  then show "if zs = [] then out = Returns \<and> sched_ok s' c [] ys
    else out = Resumes (hd zs) \<and> sched_ok s' (hd zs) (tl zs) ys \<and>
      (\<forall>i. tk_state (TASKS s' i) = (if i = hd zs then RUNNING else if i = c \<and> \<not> idle then READY else tk_state (TASKS s i)))"
    and "tk_kstack (TASKS s' i) = tk_kstack (TASKS s i)" "tk_id (TASKS s' i) = tk_id (TASKS s i)" by blast+
qed

text \<open>The two handlers differ in how they recognise an idle task.\<close>

definition handler :: "(task \<Rightarrow> bool) \<Rightarrow> u64 \<Rightarrow> registers \<Rightarrow> sched \<Rightarrow> (outcome \<times> registers \<times> sched) option" where
  "handler idle ra r s =
     (case get_current s of
        None \<Rightarrow> Some (Returns, r, s)
      | Some prev \<Rightarrow> do {
          s \<leftarrow> sleep_wake_all (tick_count s) s;
          let (r, s) = krust_sched_deliver_signals r s;
          let s = fpu_save_current s;
          let (out, s) = pick_next (idle (TASKS s prev)) prev ra s;
          Some (out, r, s)
        })"

lemma handlers:
  "krust_sched_preempt = handler (\<lambda>k. tk_kstack k = 0)" "krust_sched_yield_handler = handler (\<lambda>k. tk_id k = 0)"
  by (simp_all add: fun_eq_iff krust_sched_preempt_def krust_sched_yield_handler_def handler_def)

lemma handler_ok:
  assumes ok: "sched_ok s c xs ys" and idle: "\<And>k k'. tk_kstack k = tk_kstack k' \<Longrightarrow> tk_id k = tk_id k' \<Longrightarrow> idle k = idle k'"
    and zs: "zs = xs @ filter (due (tick_count s) s) ys @ (if idle (TASKS s c) then [] else [c])"
    and ws: "ws = filter (\<lambda>t. \<not> due (tick_count s) s t) ys"
  obtains out r' s' where "handler idle ra r s = Some (out, r', s')"
    "zs = [] \<Longrightarrow> out = Returns \<and> sched_ok s' c [] ws"
    "zs \<noteq> [] \<Longrightarrow> out = Resumes (hd zs) \<and> sched_ok s' (hd zs) (tl zs) ws \<and> tk_state (TASKS s' (hd zs)) = RUNNING"
    "\<not> idle (TASKS s c) \<Longrightarrow> hd zs \<noteq> c \<Longrightarrow> tk_state (TASKS s' c) = READY"
    "\<And>i. tk_kstack (TASKS s' i) = tk_kstack (TASKS s i)" "\<And>i. tk_id (TASKS s' i) = tk_id (TASKS s i)"
proof -
  have q: "queues s xs ys" and cur: "get_current s = Some c" and c: "c \<notin> set xs" "c \<notin> set ys" using ok by (simp_all add: sched_ok_def)
  obtain s1 where s1: "sleep_wake_all (tick_count s) s = Some s1" "queues s1 (xs @ filter (due (tick_count s) s) ys) ws" "rest s1 = rest s"
    using sleep_wake_all_queues [OF q, of "tick_count s" thesis] unfolding ws by blast
  note R = rest_fields [OF s1(3)]
  obtain r' s2 where s2: "krust_sched_deliver_signals r s1 = (r', s2)" by fastforce
  note C = calm_fields [OF deliver_calm [OF s2]]
  define s3 where "s3 = fpu_save_current s2"
  have ks: "tk_kstack (TASKS s3 i) = tk_kstack (TASKS s i)" "tk_id (TASKS s3 i) = tk_id (TASKS s i)" for i
    using C(7,8) [of i] arg_cong [OF R(1) [of i], of tk_kstack] arg_cong [OF R(1) [of i], of tk_id] by (simp_all add: s3_def)
  have "queues s3 (xs @ filter (due (tick_count s) s) ys) ws" using s1(2) by (rule queues_frame) (simp_all add: s3_def C)
  then have ok3: "sched_ok s3 c (xs @ filter (due (tick_count s) s) ys) ws"
    using cur c R(5) C(6) by (simp add: sched_ok_def s3_def ws)
  obtain out s' where p: "pick_next (idle (TASKS s3 c)) c ra s3 = (out, s')" by fastforce
  have id: "idle (TASKS s3 c) = idle (TASKS s c)" using ks by (rule idle)
  note P = pick_next_ok [OF ok3 p, unfolded id append_assoc, folded zs]
  show thesis
  proof (rule that)
    show "handler idle ra r s = Some (out, r', s')" using cur s1(1) s2 p by (simp add: handler_def s3_def)
  qed (use P ks zs in \<open>auto split: if_splits\<close>)
qed

text \<open>
  C23. A timer tick: the tasks whose time has come join the ready queue in the order of the sleep queue,
  behind them the interrupted task unless it is an idle task, and the first of the queue runs; the
  interrupted code goes on only when there is nothing to run. The other sleepers stay asleep, whatever
  signals are delivered on the way.
\<close>

theorem preempt_correct:
  assumes "sched_ok s c xs ys" and "zs = xs @ filter (due (tick_count s) s) ys @ (if tk_kstack (TASKS s c) = 0 then [] else [c])"
    and "ws = filter (\<lambda>t. \<not> due (tick_count s) s t) ys"
  shows "\<exists>r' s'. if zs = []
    then krust_sched_preempt ra r s = Some (Returns, r', s') \<and> sched_ok s' c [] ws
    else krust_sched_preempt ra r s = Some (Resumes (hd zs), r', s') \<and> sched_ok s' (hd zs) (tl zs) ws \<and>
      tk_state (TASKS s' (hd zs)) = RUNNING"
  unfolding handlers by (rule handler_ok [where idle = "\<lambda>k. tk_kstack k = 0" and ra = ra and r = r, OF assms(1) _ assms(2,3)]) auto

text \<open>
  A run of the scheduler: a timer tick at some time, a yield of the running task, a wake-up of the tasks
  whose time has come, and a signal sent by the running task, each with its arguments. The first two
  switch to another task.
\<close>

datatype sched_event =
    Tick u32 u64 registers
  | Yield u64 registers
  | Wake u32
  | Kill i32 i32

fun is_switch :: "sched_event \<Rightarrow> bool" where
  "is_switch (Tick now ra r) = True"
| "is_switch (Yield ra r) = True"
| "is_switch (Wake now) = False"
| "is_switch (Kill pid sig) = False"

fun run_event :: "sched_event \<Rightarrow> sched \<Rightarrow> sched option" where
  "run_event (Tick now ra r) s = map_option (\<lambda>(_, _, s). s) (krust_sched_preempt ra r (s\<lparr>tick_count := now\<rparr>))"
| "run_event (Yield ra r) s = map_option (\<lambda>(_, _, s). s) (krust_sched_yield_handler ra r s)"
| "run_event (Wake now) s = krust_sched_on_tick (s\<lparr>tick_count := now\<rparr>)"
| "run_event (Kill pid sig) s = Some (snd (krust_sched_kill pid sig s))"

fun sched_run :: "sched_event list \<Rightarrow> sched \<Rightarrow> sched option" where
  "sched_run [] s = Some s"
| "sched_run (e # es) s = Option.bind (run_event e s) (sched_run es)"

lemma sched_run_append: "sched_run (es @ es') s = Option.bind (sched_run es s) (sched_run es')"
  by (induction es arbitrary: s) (auto split: Option.bind_split)

lemma sched_ok_time: "sched_ok s c xs ys \<Longrightarrow> sched_ok (s\<lparr>tick_count := now\<rparr>) c xs ys"
proof -
  let ?u = "s\<lparr>tick_count := now\<rparr>"
  assume "sched_ok s c xs ys"
  moreover have "get_current ?u = get_current s" by (simp add: get_current_def current_cpu_id_def)
  moreover have "queues s xs ys \<Longrightarrow> queues ?u xs ys"
    using queues_frame [of s xs ys ?u] by (simp add: next_of_def fun_eq_iff)
  ultimately show ?thesis by (simp add: sched_ok_def)
qed

text \<open>A switch takes the first of the ready queue and keeps the order of the others.\<close>

lemma switch_first:
  assumes "sched_ok s c (x # xs) ys" and "is_switch e"
  shows "\<exists>s' zs ws. run_event e s = Some s' \<and> sched_ok s' x (xs @ zs) ws \<and> tk_state (TASKS s' x) = RUNNING"
proof -
  have H: "\<exists>out r' s' zs ws. handler idle ra r u = Some (out, r', s') \<and> sched_ok s' x (xs @ zs) ws \<and> tk_state (TASKS s' x) = RUNNING"
    if "sched_ok u c (x # xs) ys" and "\<And>k k'. tk_kstack k = tk_kstack k' \<Longrightarrow> tk_id k = tk_id k' \<Longrightarrow> idle k = idle k'" for u idle ra r
    by (rule handler_ok [where idle = idle and ra = ra and r = r, OF that(1) that(2) refl refl]) auto
  show ?thesis
  proof (cases e)
    case (Tick now ra r)
    from H [OF sched_ok_time [OF assms(1), of now], of "\<lambda>k. tk_kstack k = 0" ra r] show ?thesis by (auto simp: Tick handlers)
  next
    case (Yield ra r)
    from H [OF assms(1), of "\<lambda>k. tk_id k = 0" ra r] show ?thesis by (auto simp: Yield handlers)
  qed (use assms(2) in auto)
qed

lemma kill_calm: "calm (snd (krust_sched_kill pid sig s)) = calm s"
  by (simp add: krust_sched_kill_def Let_def notify_parent_def calm_upd split: option.split)

text \<open>The other events leave the running task and add to the end of the ready queue at most.\<close>

lemma other_event:
  assumes "sched_ok s c xs ys" and "\<not> is_switch e"
  shows "\<exists>s' zs ws. run_event e s = Some s' \<and> sched_ok s' c (xs @ zs) ws"
proof (cases e)
  case (Wake now)
  let ?u = "s\<lparr>tick_count := now\<rparr>"
  have u: "sched_ok ?u c xs ys" using assms(1) by (rule sched_ok_time)
  then obtain s' where s': "sleep_wake_all now ?u = Some s'"
    "queues s' (xs @ filter (due now ?u) ys) (filter (\<lambda>t. \<not> due now ?u t) ys)" "rest s' = rest ?u"
    using sleep_wake_all_queues [of ?u xs ys now thesis] by (auto simp: sched_ok_def)
  have "sched_ok s' c (xs @ filter (due now ?u) ys) (filter (\<lambda>t. \<not> due now ?u t) ys)"
    using s'(2) u rest_fields(5) [OF s'(3)] by (auto simp: sched_ok_def)
  then show ?thesis using s'(1) by (auto simp: Wake krust_sched_on_tick_def)
next
  case (Kill pid sig)
  note C = calm_fields [OF kill_calm [of pid sig s]]
  have "sched_ok (snd (krust_sched_kill pid sig s)) c (xs @ []) ys"
    using assms(1) queues_frame [of s xs ys "snd (krust_sched_kill pid sig s)"] C(1-6) by (simp add: sched_ok_def)
  then show ?thesis unfolding Kill run_event.simps by blast
qed (use assms(2) in auto)

lemma run_drop:
  assumes "sched_ok s c xs ys" and "length (filter is_switch es) \<le> length xs"
  shows "\<exists>s' c' zs ws. sched_run es s = Some s' \<and> sched_ok s' c' (drop (length (filter is_switch es)) xs @ zs) ws"
  using assms
proof (induction es arbitrary: s c xs ys)
  case Nil
  then show ?case by (intro exI [of _ s] exI [of _ c] exI [of _ "[]"] exI [of _ ys]) simp
next
  case (Cons e es)
  show ?case
  proof (cases "is_switch e")
    case True
    then obtain x xs1 where xs: "xs = x # xs1" using Cons.prems(2) by (cases xs) auto
    obtain s1 zs ws where s1: "run_event e s = Some s1" "sched_ok s1 x (xs1 @ zs) ws"
      using switch_first [OF Cons.prems(1) [unfolded xs] True] by blast
    have n: "length (filter is_switch es) \<le> length xs1" using Cons.prems(2) True by (simp add: xs)
    obtain s' c' zs' ws' where "sched_run es s1 = Some s'" "sched_ok s' c' (drop (length (filter is_switch es)) (xs1 @ zs) @ zs') ws'"
      using Cons.IH [OF s1(2)] n by auto
    then show ?thesis using s1(1) True n by (intro exI [of _ s'] exI [of _ c'] exI [of _ "zs @ zs'"] exI [of _ ws']) (simp add: xs)
  next
    case False
    obtain s1 zs ws where s1: "run_event e s = Some s1" "sched_ok s1 c (xs @ zs) ws" using other_event [OF Cons.prems(1) False] by blast
    have n: "length (filter is_switch es) \<le> length xs" using Cons.prems(2) False by simp
    obtain s' c' zs' ws' where "sched_run es s1 = Some s'" "sched_ok s' c' (drop (length (filter is_switch es)) (xs @ zs) @ zs') ws'"
      using Cons.IH [OF s1(2)] n by auto
    then show ?thesis using s1(1) False n by (intro exI [of _ s'] exI [of _ c'] exI [of _ "zs @ zs'"] exI [of _ ws']) simp
  qed
qed


section \<open>Going to sleep\<close>

lemma sleep_enqueue_ok:
  assumes "sched_ok s c xs ys" and "length ys + 1 < usize_mod"
  shows "queues (sleep_enqueue c target s) xs (c # ys)" "get_current (sleep_enqueue c target s) = Some c"
    "tick_count (sleep_enqueue c target s) = tick_count s"
    "tk_id (TASKS (sleep_enqueue c target s) i) = tk_id (TASKS s i)"
    "tk_sleep_until (TASKS (sleep_enqueue c target s) i) = (if i = c then target else tk_sleep_until (TASKS s i))"
proof -
  let ?u = "sleep_enqueue c target s"
  have c: "c \<notin> set xs" "c \<notin> set ys" and q: "ready s xs" "sleeping s ys" "set xs \<inter> set ys = {}"
    using assms(1) by (simp_all add: sched_ok_def queues_def)
  have nx: "next_of ?u = (next_of s)(c := sleep_head s)" by (simp add: sleep_enqueue_def Let_def next_of_upd)
  have "ready ?u xs" using q(1) by (rule ready_frame) (use c in \<open>auto simp: nx next_of_upd sleep_enqueue_def Let_def\<close>)
  moreover have "sleeping ?u (c # ys)"
    using q(2) c assms(2) by (simp add: sleeping_def nx) (simp add: sleep_enqueue_def Let_def wadd_small)
  ultimately show "queues ?u xs (c # ys)" using c q(3) by (simp add: queues_def)
  have "get_current ?u = get_current s" by (simp add: sleep_enqueue_def Let_def get_current_def current_cpu_id_def)
  then show "get_current ?u = Some c" using assms(1) by (simp add: sched_ok_def)
qed (simp_all add: sleep_enqueue_def Let_def)

text \<open>
  C25. Going to sleep gives the processor away through the handler for a yield, which puts the caller back
  on the ready queue: the caller is ready or even runs on, it does not sleep, and since both queues use
  one link field, the sleep queue ends at the caller from then on and every other sleeper is lost.
\<close>

theorem sleep_loses_sleepers:
  assumes ok: "sched_ok s c xs ys" and "length ys + 1 < usize_mod" and id: "tk_id (TASKS s c) \<noteq> 0"
    and target: "target = tick_count s + (if tick_ms s > 0 then ms div tick_ms s else ms)" "target > tick_count s"
    and zs: "zs = xs @ filter (due (tick_count s) s) ys @ [c]"
  shows "\<exists>r' s'. krust_sched_sleep_ticks ra r ms s = Some (Resumes (hd zs), r', s') \<and>
    get_current s' = Some (hd zs) \<and> ready s' (tl zs) \<and> tk_state (TASKS s' c) \<in> {READY, RUNNING} \<and>
    sleep_head s' = Some c \<and> next_of s' c = None"
proof -
  define s0 where "s0 = sleep_enqueue c target s"
  note S0 = sleep_enqueue_ok [OF ok assms(2), of target, folded s0_def]
  have cx: "c \<notin> set xs" "c \<notin> set ys" using ok by (simp_all add: sched_ok_def)
  have f: "filter (due (tick_count s0) s0) (c # ys) = filter (due (tick_count s) s) ys"
    "filter (\<lambda>t. \<not> due (tick_count s0) s0 t) (c # ys) = c # filter (\<lambda>t. \<not> due (tick_count s) s t) ys"
    using target(2) cx(2) by (auto simp: due_def S0(3,5) intro!: filter_cong split: if_splits)
  let ?y = "xs @ filter (due (tick_count s) s) ys" and ?w = "filter (\<lambda>t. \<not> due (tick_count s) s t) ys"
  obtain s1 where s1: "sleep_wake_all (tick_count s0) s0 = Some s1" "queues s1 ?y (c # ?w)" "rest s1 = rest s0"
    using sleep_wake_all_queues [OF S0(1), of "tick_count s0" thesis] unfolding f by blast
  obtain r' s2 where s2: "krust_sched_deliver_signals r s1 = (r', s2)" by fastforce
  note C = calm_fields [OF deliver_calm [OF s2]] and R = rest_fields [OF s1(3)]
  define s3 where "s3 = fpu_save_current s2"
  have q3: "queues s3 ?y (c # ?w)" using s1(2) by (rule queues_frame) (simp_all add: s3_def C)
  have id3: "tk_id (TASKS s3 c) \<noteq> 0"
    using id C(8) [of c] arg_cong [OF R(1) [of c], of tk_id] S0(4) by (simp add: s3_def)
  define u where "u = upd c (\<lambda>k. k\<lparr>ctx_rsp := ra, tk_state := READY\<rparr>) s3"
  have "next_of u = next_of s3" by (simp add: u_def next_of_upd fun_eq_iff) (simp add: next_of_def)
  then have ru: "ready u ?y" using q3 ready_frame [of s3 ?y u] by (simp add: queues_def u_def)
  have "c \<notin> set ?y" using cx by auto
  then have re: "ready (enqueue c u) zs" unfolding zs using ready_enqueue [OF ru] by simp
  obtain n ns where z: "zs = n # ns" by (cases zs) (auto simp: zs)
  obtain v where v: "dequeue (enqueue c u) = (Some n, v)" "ready v ns" using ready_dequeue [OF re [unfolded z]] by blast
  have nc: "next_of (enqueue c u) c = None" using ru \<open>c \<notin> set ?y\<close> by (rule enqueue_next_self)
  have "krust_sched_yield_handler ra r s0 = Some (Resumes n, r', switch_to n v)"
    using S0(2) s1(1) s2 id3 v(1) by (simp add: krust_sched_yield_handler_def pick_next_def s3_def u_def)
  moreover have "next_of v c = None" using nc dequeue_fields(7) [OF v(1), of c] dequeue_next [OF v(1)] by (cases "n = c") auto
  moreover have "sleep_head v = Some c" using q3 dequeue_fields(5) [OF v(1)] by (simp add: u_def queues_def sleeping_def)
  moreover have "tk_state (TASKS v c) = READY" using dequeue_fields(3) [OF v(1), of c] by (simp add: u_def)
  moreover have "ready (switch_to n v) ns" using v(2) by (rule ready_frame) simp_all
  moreover have "krust_sched_sleep_ticks ra r ms s = krust_sched_yield_handler ra r s0"
    using ok id target(1) by (simp add: krust_sched_sleep_ticks_def sched_ok_def s0_def)
  ultimately show ?thesis by (simp add: z)
qed

section \<open>An example\<close>

definition blank_task :: task where
  "blank_task = \<lparr>tk_id = 0, tk_ppid = 0, tk_pgid = 0, tk_sid = 0, tk_state = EXITED, ctx_rsp = 0, ctx_cr3 = 0, tk_kstack = 0,
     tk_ustack = 0, tk_pages = 0, tk_stdin_fd = 0, tk_stdout_fd = 0, tk_stderr_fd = 0, tk_fd_table = 0, tk_exit_code = 0,
     tk_fpu_state = 0, tk_cwd = [], tk_next = None, tk_parent = None, tk_child_head = None, tk_child_tail = None,
     tk_sibling_next = None, tk_sig_handlers = (\<lambda>_. 0), tk_sig_pending = 0, tk_sig_blocked = 0, tk_has_child_exit = False,
     tk_vma_list = 0, tk_program_brk = 0, tk_priority = 0, tk_sleep_until = 0, tk_uid = 0, tk_gid = 0, tk_oom_score_adj = 0\<rparr>"

text \<open>Task 1 runs, its children 2 and 3 are ready, and task 4 sleeps.\<close>

definition four_tasks :: sched where
  "four_tasks = \<lparr>
     TASKS = (\<lambda>_. blank_task)
       (1 := blank_task\<lparr>tk_id := 1, tk_state := RUNNING, tk_kstack := 0x1000, tk_child_head := Some 2, tk_child_tail := Some 3\<rparr>,
        2 := blank_task\<lparr>tk_id := 2, tk_state := READY, tk_kstack := 0x2000, tk_next := Some 3, tk_sibling_next := Some 3, tk_parent := Some 1\<rparr>,
        3 := blank_task\<lparr>tk_id := 3, tk_state := READY, tk_kstack := 0x3000, tk_parent := Some 1\<rparr>,
        4 := blank_task\<lparr>tk_id := 4, tk_state := BLOCKED, tk_kstack := 0x4000, tk_sleep_until := 100\<rparr>),
     PER_CPU_CURRENT = (\<lambda>_. Some 1), ready_head = Some 2, ready_tail = Some 3, sleep_head = Some 4, sleep_count = 1,
     NEXT_ID = 5, FREE_IDS = (\<lambda>_. 0), FREE_ID_COUNT = 0, SCHED_HAS_FPU = False, cpu_id = 0, tick_count = 5, tick_ms = 1,
     kernel_stack_top = (\<lambda>_. 0), cr3_reg = 0, fpu_regs = [], fpu_area = (\<lambda>_. []), user_mem = (\<lambda>_. 0)\<rparr>"

lemma four_tasks_ok: "sched_ok four_tasks 1 [2, 3] [4]"
  by (simp add: sched_ok_def four_tasks_def get_current_def current_cpu_id_def queues_def ready_def sleeping_def next_of_def blank_task_def usize_mod_def)

lemma four_tasks_simps:
  "tk_kstack (TASKS four_tasks 1) = 0x1000" "tk_id (TASKS four_tasks 1) = 1" "\<not> due 5 four_tasks 4" "tick_count four_tasks = 5" "tick_ms four_tasks = 1"
  by (simp_all add: four_tasks_def due_def blank_task_def)

lemmas four_tasks_eqs = four_tasks_simps four_tasks_simps [unfolded One_nat_def]

definition four_registers :: registers where
  "four_registers = \<lparr>r15 = 0, r14 = 0, r13 = 0, r12 = 0, r11 = 0, r10 = 0, r9 = 0, r8 = 0, rdi = 1, rsi = 0, rbp = 0, rsp = 0,
     rbx = 0, rdx = 0, rcx = 0, rax = 7, int_no = 32, err_code = 0, rip = 0x400000, cs = 0x23, rflags = 0x202, user_rsp = 0x8000, ss = 0x2B\<rparr>"

theorem preempt_correct_witness:
  "\<exists>r' s'. krust_sched_preempt 0x1F00 four_registers four_tasks = Some (Resumes 2, r', s') \<and> sched_ok s' 2 [3, 1] [4]"
  using preempt_correct [OF four_tasks_ok refl refl, where ra = "0x1F00" and r = four_registers] by (auto simp: four_tasks_eqs)


theorem sleep_loses_sleepers_witness:
  "\<exists>r' s'. krust_sched_sleep_ticks 0x1F00 four_registers 50 four_tasks = Some (Resumes 2, r', s') \<and> sleep_head s' = Some 1 \<and> next_of s' 1 = None"
  using sleep_loses_sleepers [OF four_tasks_ok, where target = 55 and ms = 50 and zs = "[2, 3, 1]" and ra = "0x1F00" and r = four_registers]
  by (auto simp: four_tasks_eqs usize_mod_def)

end
