(* ===== verification/Signals.thy ===== *)
theory Signals
  imports Sched
begin

unbundle bit_operations_syntax

text \<open>
  Properties of signals: which signal is delivered, the way to a handler and back, and what happens to a
  task that a signal ends.
\<close>

section \<open>Delivering signals\<close>

text \<open>A signal that is pending, not blocked and neither ignored nor without a default action.\<close>

definition acts :: "task \<Rightarrow> usize \<Rightarrow> bool" where
  "acts k sig \<longleftrightarrow> bit (tk_sig_pending k) sig \<and> \<not> bit (tk_sig_blocked k) sig \<and> tk_sig_handlers k sig \<noteq> 1 \<and>
     (tk_sig_handlers k sig = 0 \<longrightarrow> sig \<in> {SIGKILL, 11, 15})"

lemma upd_upd: "upd c f (upd c g s) = upd c (\<lambda>k. f (g k)) s"
  by (simp add: upd_def)

definition pending_masked :: "usize \<Rightarrow> u32 \<Rightarrow> sched \<Rightarrow> sched" where
  "pending_masked c m s = upd c (\<lambda>k. k\<lparr>tk_sig_pending := tk_sig_pending k AND m\<rparr>) s"

lemma pending_masked_twice: "pending_masked c m (clear_pending c sig s) = pending_masked c (NOT (push_bit sig 1) AND m) s"
  by (simp add: pending_masked_def clear_pending_def upd_upd and.assoc)

lemma pending_masked_all [simp]: "pending_masked c (- 1) s = s"
  by (simp add: pending_masked_def upd_def)

lemma no_bit: "(w :: u32) AND push_bit k 1 = 0 \<longleftrightarrow> \<not> bit w k"
  using and_one_bit_neq_0 [of w k] by auto

lemma deliver_loop_pass: "\<not> (bit (tk_sig_pending (TASKS s c)) a \<and> \<not> bit (tk_sig_blocked (TASKS s c)) a) \<Longrightarrow>
    deliver_loop c (a # as) r s = deliver_loop c as r s"
  by (simp only: deliver_loop.simps Let_def no_bit de_Morgan_conj not_not if_True if_False) auto

lemma deliver_loop_act: "bit (tk_sig_pending (TASKS s c)) a \<Longrightarrow> \<not> bit (tk_sig_blocked (TASKS s c)) a \<Longrightarrow>
    deliver_loop c (a # as) r s =
      (let handler = tk_sig_handlers (TASKS s c) a; usp = user_rsp r - 8 * 7
       in if handler = 1 \<or> handler = 0 \<and> a \<notin> {SIGKILL, 11, 15} then deliver_loop c as r (clear_pending c a s)
          else if handler = 0 \<or> usp < 0x1000 then (r, end_task c a s)
          else (r\<lparr>user_rsp := usp, rip := handler, rdi := of_nat a\<rparr>,
                clear_pending c a (push_frame usp [of_nat a, rip r, cs r, rflags r, user_rsp r, ss r, 0] s)))"
  by (simp only: deliver_loop.simps Let_def no_bit not_not if_True if_False simp_thms) auto

text \<open>The signals before the first that acts are passed over or dropped.\<close>

lemma deliver_loop_skip:
  assumes "\<And>a. a \<in> set as \<Longrightarrow> \<not> acts (TASKS s c) a"
  shows "\<exists>m. deliver_loop c (as @ sigs) r s = deliver_loop c sigs r (pending_masked c m s) \<and> (\<forall>j. j \<notin> set as \<and> j < 32 \<longrightarrow> bit m j)"
  using assms
proof (induction as arbitrary: s)
  case Nil
  show ?case by (intro exI [of _ "- 1"]) simp
next
  case (Cons a as)
  let ?k = "TASKS s c"
  have na: "\<not> acts ?k a" "\<And>x. x \<in> set as \<Longrightarrow> \<not> acts ?k x" using Cons.prems by auto
  show ?case
  proof (cases "bit (tk_sig_pending ?k) a \<and> \<not> bit (tk_sig_blocked ?k) a")
    case False
    then have "deliver_loop c ((a # as) @ sigs) r s = deliver_loop c (as @ sigs) r s" unfolding append_Cons by (rule deliver_loop_pass)
    then show ?thesis using Cons.IH [of s] na(2) by auto
  next
    case True
    let ?s = "clear_pending c a s"
    have h: "tk_sig_handlers ?k a = 1 \<or> tk_sig_handlers ?k a = 0 \<and> \<not> (a = SIGKILL \<or> a = 11 \<or> a = 15)"
      using na(1) True by (auto simp: acts_def)
    then have d: "deliver_loop c ((a # as) @ sigs) r s = deliver_loop c (as @ sigs) r ?s"
      using deliver_loop_act [of s c a "as @ sigs" r] True by (auto simp: Let_def simp del: deliver_loop.simps)
    have "\<not> acts (TASKS ?s c) x" if "x \<in> set as" for x
      using na(2) [OF that] by (auto simp: acts_def clear_pending_def bit_and_iff)
    from Cons.IH [OF this] obtain m where "deliver_loop c (as @ sigs) r ?s = deliver_loop c sigs r (pending_masked c m ?s)"
      "\<forall>j. j \<notin> set as \<and> j < 32 \<longrightarrow> bit m j" by blast
    then show ?thesis unfolding d
      by (intro exI [of _ "NOT (push_bit a 1) AND m"]) (auto simp: pending_masked_twice bit_simps simp del: push_bit_of_1)
  qed
qed

definition next_signal :: "task \<Rightarrow> usize option" where
  "next_signal k = List.find (acts k) [1..<NSIG]"

lemma pending_masked_task:
  "TASKS (pending_masked c m s) c = (TASKS s c)\<lparr>tk_sig_pending := tk_sig_pending (TASKS s c) AND m\<rparr>"
  by (simp add: pending_masked_def)

lemma deliver_first:
  assumes cur: "get_current s = Some c" and n: "next_signal (TASKS s c) = Some sig"
  obtains m where "krust_sched_deliver_signals r s = deliver_loop c (sig # [sig + 1..<NSIG]) r (pending_masked c m s)"
    "bit m sig" "acts (TASKS s c) sig" "1 \<le> sig" "sig < NSIG"
proof -
  have f: "1 \<le> sig" "sig < NSIG" "acts (TASKS s c) sig" "\<forall>j. 1 \<le> j \<and> j < sig \<longrightarrow> \<not> acts (TASKS s c) j"
    using n by (auto simp: next_signal_def find_upt_Some)
  have "[1..<NSIG] = [1..<sig] @ sig # [sig + 1..<NSIG]"
    using f(1,2) by (metis Suc_eq_plus1 le_add_diff_inverse less_imp_le_nat upt_add_eq_append upt_conv_Cons)
  moreover obtain m where "deliver_loop c ([1..<sig] @ sig # [sig + 1..<NSIG]) r s = deliver_loop c (sig # [sig + 1..<NSIG]) r (pending_masked c m s)"
    "\<forall>j. j \<notin> set [1..<sig] \<and> j < 32 \<longrightarrow> bit m j" using deliver_loop_skip [of "[1..<sig]" s c "sig # [sig + 1..<NSIG]" r] f(4) by auto
  moreover have "tk_sig_pending (TASKS s c) \<noteq> 0" using f(3) by (auto simp: acts_def)
  ultimately show thesis using f cur by (intro that [of m]) (simp_all add: krust_sched_deliver_signals_def NSIG_def)
qed

lemma word_slots: "i < 100 \<Longrightarrow> j < 100 \<Longrightarrow> (8 :: u64) * of_nat i = 8 * of_nat j \<longleftrightarrow> i = j"
proof -
  assume b: "i < 100" "j < 100"
  have w: "unat (8 * of_nat k :: u64) = 8 * k" if "k < 100" for k
    using unat_of_nat_small [of "8 * k", where 'a = 64] that by simp
  show "(8 :: u64) * of_nat i = 8 * of_nat j \<longleftrightarrow> i = j"
  proof
    assume "(8 :: u64) * of_nat i = 8 * of_nat j"
    then have "unat (8 * of_nat i :: u64) = unat (8 * of_nat j :: u64)" by (simp only:)
    then have "8 * i = 8 * j" by (simp only: w [OF b(1)] w [OF b(2)])
    then show "i = j" by simp
  qed simp
qed

lemma push_frame_read:
  assumes "length ws \<le> 100" and "i < length ws"
  shows "user_mem (push_frame a ws s) (a + 8 * of_nat i) = ws ! i"
proof -
  have "n \<le> 100 \<Longrightarrow> i < n \<Longrightarrow> fold (\<lambda>i m. m(a + 8 * of_nat i := ws ! i)) [0..<n] m (a + 8 * of_nat i) = ws ! i" for n m
    by (induction n) (auto simp: less_Suc_eq word_slots)
  then show ?thesis using assms by (simp add: push_frame_def)
qed

lemma get_current_signal [simp]:
  "get_current (clear_pending c a s) = get_current s" "get_current (push_frame p ws s) = get_current s"
  "get_current (pending_masked c m s) = get_current s" "user_mem (clear_pending c a s) = user_mem s"
  "TASKS (push_frame p ws s) = TASKS s" "get_current (end_task c a s) = get_current s"
  by (simp_all add: clear_pending_def push_frame_def pending_masked_def end_task_def notify_parent_def get_current_def
      current_cpu_id_def split: option.split)

definition user_context :: "registers \<Rightarrow> bool" where
  "user_context r \<longleftrightarrow> 0x1000 \<le> rip r \<and> rip r \<le> 0x00007FFFFFFFFFFF \<and> cs r \<in> {0x23, 0x1B} \<and> ss r \<in> {0x2B, 0x23} \<and>
     0x1000 \<le> user_rsp r \<and> user_rsp r \<le> 0x00007FFFFFFFFFFF"

text \<open>
  C26. A signal with a handler: the interrupted task goes on at the handler, with the number of the signal
  as its argument and the interrupted context on its stack; when the handler returns with the stack as
  it found it, the task goes on where it was interrupted, on the old stack, and the signal is no longer
  pending. Two registers are not restored but hold the number of the signal, and two flags, one of them
  the interrupt flag, are cleared.
\<close>

theorem signal_round_trip:
  assumes cur: "get_current s = Some c" and n: "next_signal (TASKS s c) = Some sig"
    and h: "f = tk_sig_handlers (TASKS s c) sig" "f \<noteq> 0" and u: "user_context r" "0x1000 \<le> user_rsp r - 56"
    and d: "krust_sched_deliver_signals r s = (r1, s1)" and b: "krust_sched_sigreturn r1 s1 = (v, r2, s2)"
  shows "rip r1 = f \<and> rdi r1 = of_nat sig \<and> user_rsp r1 = user_rsp r - 56 \<and> v = 0 \<and>
    r2 = r\<lparr>rdi := of_nat sig, rax := of_nat sig, rflags := rflags r AND 0xFFFFFFFFFFFFFCFF\<rparr> \<and>
    \<not> bit (tk_sig_pending (TASKS s2 c)) sig"
proof -
  obtain m where m: "krust_sched_deliver_signals r s = deliver_loop c (sig # [sig + 1..<NSIG]) r (pending_masked c m s)"
    "bit m sig" "acts (TASKS s c) sig" "1 \<le> sig" "sig < NSIG" using cur n by (rule deliver_first)
  let ?p = "user_rsp r - 56" and ?ws = "[of_nat sig, rip r, cs r, rflags r, user_rsp r, ss r, 0]"
  let ?s = "clear_pending c sig (push_frame ?p ?ws (pending_masked c m s))"
  have nl: "\<not> user_rsp r - 56 < 0x1000" using u(2) by (simp add: not_less)
  have r1: "r1 = r\<lparr>user_rsp := ?p, rip := f, rdi := of_nat sig\<rparr>" and s1: "s1 = ?s"
    using d m(1,2,3) h nl deliver_loop_act [of "pending_masked c m s" c sig "[sig + 1..<NSIG]" r]
    by (auto simp: acts_def pending_masked_task bit_and_iff Let_def simp del: deliver_loop.simps)
  have rd: "map (\<lambda>i. user_mem s1 (user_rsp r1 + 8 * of_nat i)) [0..<7] = ?ws"
  proof (rule nth_equalityI)
    fix i assume "i < length (map (\<lambda>i. user_mem s1 (user_rsp r1 + 8 * of_nat i)) [0..<7])"
    then show "map (\<lambda>i. user_mem s1 (user_rsp r1 + 8 * of_nat i)) [0..<7] ! i = ?ws ! i"
      using push_frame_read [of ?ws i ?p "pending_masked c m s"] by (simp add: s1 r1)
  qed simp
  have sg: "unat (of_nat sig :: u64) = sig" "(0 :: u64) < of_nat sig"
    using m(4,5) unat_of_nat_small [of sig, where 'a = 64] by (auto simp: NSIG_def word_less_nat_alt)
  have "(v, r2, s2) = (0, r\<lparr>rdi := of_nat sig, rax := of_nat sig, rflags := rflags r AND 0xFFFFFFFFFFFFFCFF\<rparr>, clear_pending c sig s1)"
    using b cur u(1) m(5) sg unfolding krust_sched_sigreturn_def rd
    by (auto simp: user_context_def Let_def s1 r1 not_le not_less split: if_splits)
  then show ?thesis by (simp add: r1 clear_pending_def bit_and_iff bit_not_iff bit_push_bit_iff bit_1_iff del: push_bit_of_1)
qed

section \<open>Signals that end a task\<close>

lemma end_task_state:
  "tk_state (TASKS (end_task c sig s) c) = EXITED" "tk_exit_code (TASKS (end_task c sig s) c) = 0x100 + of_nat sig"
  by (simp_all add: end_task_def notify_parent_def split: option.split)

lemma deliver_fatal:
  assumes "get_current s = Some c" and "next_signal (TASKS s c) = Some sig" and "tk_sig_handlers (TASKS s c) sig = 0"
  shows "\<exists>m. krust_sched_deliver_signals r s = (r, end_task c sig (pending_masked c m s))"
proof -
  obtain m where m: "krust_sched_deliver_signals r s = deliver_loop c (sig # [sig + 1..<NSIG]) r (pending_masked c m s)"
    "bit m sig" "acts (TASKS s c) sig" using assms(1,2) by (rule deliver_first)
  then show ?thesis
    using assms(3) deliver_loop_act [of "pending_masked c m s" c sig "[sig + 1..<NSIG]" r]
    by (auto simp: acts_def pending_masked_task bit_and_iff Let_def simp del: deliver_loop.simps)
qed

text \<open>
  C27. A signal whose default action ends the task is not the end of it: delivery marks the task as exited
  and records the code, but the timer tick that delivers it then puts the task back on the ready queue,
  so that it is scheduled like any other.
\<close>

theorem ended_task_runs_on:
  assumes ok: "sched_ok s c xs ys" and k: "tk_kstack (TASKS s c) \<noteq> 0"
    and n: "next_signal (TASKS s c) = Some sig" "tk_sig_handlers (TASKS s c) sig = 0"
  shows "tk_state (TASKS (snd (krust_sched_deliver_signals r s)) c) = EXITED \<and>
    tk_exit_code (TASKS (snd (krust_sched_deliver_signals r s)) c) = 0x100 + of_nat sig \<and>
    (\<exists>n r' s' zs ws. krust_sched_preempt ra r s = Some (Resumes n, r', s') \<and> sched_ok s' n zs ws \<and> c \<in> set (n # zs) \<and>
       tk_state (TASKS s' c) \<in> {READY, RUNNING})"
proof -
  have cur: "get_current s = Some c" using ok by (simp add: sched_ok_def)
  let ?zs = "xs @ filter (due (tick_count s) s) ys @ [c]"
  obtain out r' s' where h: "handler (\<lambda>k. tk_kstack k = 0) ra r s = Some (out, r', s')"
    "?zs \<noteq> [] \<Longrightarrow> out = Resumes (hd ?zs) \<and> sched_ok s' (hd ?zs) (tl ?zs) (filter (\<lambda>t. \<not> due (tick_count s) s t) ys) \<and>
      tk_state (TASKS s' (hd ?zs)) = RUNNING"
    "tk_kstack (TASKS s c) \<noteq> 0 \<Longrightarrow> hd ?zs \<noteq> c \<Longrightarrow> tk_state (TASKS s' c) = READY"
  proof (rule handler_ok [where idle = "\<lambda>k. tk_kstack k = 0" and ra = ra and r = r and zs = ?zs, OF ok _ _ refl])
    fix out r' s'
    assume "handler (\<lambda>k. tk_kstack k = 0) ra r s = Some (out, r', s')"
      "?zs \<noteq> [] \<Longrightarrow> out = Resumes (hd ?zs) \<and> sched_ok s' (hd ?zs) (tl ?zs) (filter (\<lambda>t. \<not> due (tick_count s) s t) ys) \<and>
        tk_state (TASKS s' (hd ?zs)) = RUNNING"
      "tk_kstack (TASKS s c) \<noteq> 0 \<Longrightarrow> hd ?zs \<noteq> c \<Longrightarrow> tk_state (TASKS s' c) = READY"
    then show thesis by (rule that)
  qed (use k in auto)
  have "set (hd ?zs # tl ?zs) = set ?zs" by (subst list.collapse) simp_all
  then have "c \<in> set (hd ?zs # tl ?zs)" by simp
  moreover have "tk_state (TASKS s' c) \<in> {READY, RUNNING}" using h(2,3) k by (cases "hd ?zs = c") auto
  ultimately have "\<exists>n r' s' zs ws. krust_sched_preempt ra r s = Some (Resumes n, r', s') \<and> sched_ok s' n zs ws \<and> c \<in> set (n # zs) \<and>
       tk_state (TASKS s' c) \<in> {READY, RUNNING}"
    unfolding handlers using h(1,2)
    by (intro exI [of _ "hd ?zs"] exI [of _ r'] exI [of _ s'] exI [of _ "tl ?zs"] exI conjI) auto
  then show ?thesis using deliver_fatal [OF cur n, of r] end_task_state by auto
qed

lemma next_signal_15:
  assumes "tk_sig_pending t = 0x8000" "tk_sig_blocked t = 0" "tk_sig_handlers t 15 \<noteq> 1"
  shows "next_signal t = Some 15"
proof -
  have b: "bit (0x8000 :: u32) n \<longleftrightarrow> n = 15" for n
    using bit_exp_iff [of 15 n, where 'a = "32 word"] by auto
  have a: "acts t n \<longleftrightarrow> n = 15" for n unfolding acts_def assms(1,2) b using assms(3) by auto
  show ?thesis unfolding next_signal_def find_Some_iff NSIG_def
    by (intro exI [of _ 14]) (simp add: a del: upt_rec_numeral)
qed

text \<open>Signal 15 is pending for task 1.\<close>

definition signalled :: "u64 \<Rightarrow> sched" where
  "signalled f = upd 1 (\<lambda>t. t\<lparr>tk_sig_pending := 0x8000, tk_sig_handlers := (\<lambda>_. f)\<rparr>) four_tasks"

lemma signalled_ok: "sched_ok (signalled f) 1 [2, 3] [4]"
  by (simp add: signalled_def sched_ok_def four_tasks_def get_current_def current_cpu_id_def queues_def ready_def sleeping_def
      next_of_def blank_task_def usize_mod_def upd_def)

lemma signalled_next: "f \<noteq> 1 \<Longrightarrow> next_signal (TASKS (signalled f) 1) = Some 15"
  by (rule next_signal_15) (simp_all add: signalled_def four_tasks_def blank_task_def)

theorem signal_round_trip_witness:
  "\<exists>r1 s1 r2 s2. krust_sched_deliver_signals four_registers (signalled 0x500000) = (r1, s1) \<and> rip r1 = 0x500000 \<and>
     krust_sched_sigreturn r1 s1 = (0, r2, s2) \<and> rip r2 = 0x400000"
proof -
  obtain r1 s1 where d: "krust_sched_deliver_signals four_registers (signalled 0x500000) = (r1, s1)" by fastforce
  obtain v r2 s2 where b: "krust_sched_sigreturn r1 s1 = (v, r2, s2)" by (cases "krust_sched_sigreturn r1 s1")
  have "get_current (signalled 0x500000) = Some 1" using signalled_ok [of "0x500000"] by (simp add: sched_ok_def)
  from signal_round_trip [OF this signalled_next refl _ _ _ d b]
  have "rip r1 = 0x500000 \<and> v = 0 \<and> rip r2 = 0x400000"
    by (simp add: signalled_def four_registers_def user_context_def)
  with d b show ?thesis by auto
qed

theorem ended_task_runs_on_witness:
  "tk_state (TASKS (snd (krust_sched_deliver_signals four_registers (signalled 0))) 1) = EXITED \<and>
   (\<exists>n r' s'. krust_sched_preempt 0x1F00 four_registers (signalled 0) = Some (Resumes n, r', s') \<and> tk_state (TASKS s' 1) \<in> {READY, RUNNING})"
proof -
  have "tk_kstack (TASKS (signalled 0) 1) \<noteq> 0" "tk_sig_handlers (TASKS (signalled 0) 1) 15 = 0"
    by (simp_all add: signalled_def four_tasks_def blank_task_def)
  from ended_task_runs_on [OF signalled_ok this(1) signalled_next this(2), of four_registers "0x1F00"] show ?thesis by auto
qed

end
