(* ===== verification/Cow.thy ===== *)
theory Cow
  imports Pmm
begin

text \<open>
  Reference counts of shared frames (\<open>kernel/src/mm/cow.rs\<close>): a table of 16-bit counters, one per
  frame, in frames taken from the physical memory manager. A counter holds the number of extra
  sharers of a frame, so 0 means that one address space owns it alone. \<open>rc_mem\<close> is the memory
  the table lives in, by the address of the counter.
\<close>

section \<open>State and operations\<close>

record cow =
  REFCOUNT :: usize
  COW_FRAMES :: usize
  rc_mem :: "usize \<Rightarrow> u16"

definition rc_entry :: "cow \<Rightarrow> usize \<Rightarrow> usize" where
  "rc_entry s frame = REFCOUNT s + 2 * frame"

text \<open>The frames after the first, taken one by one and not looked at; False when one is missing.\<close>

primrec cow_take_frames :: "nat \<Rightarrow> pmm \<Rightarrow> bool \<times> pmm" where
  "cow_take_frames 0 p = (True, p)"
| "cow_take_frames (Suc k) p =
     (let (n, p) = krust_pmm_alloc_frame p
      in if n = usize_max then (False, p) else cow_take_frames k p)"

definition krust_cow_init :: "usize \<Rightarrow> cow \<times> pmm \<Rightarrow> int \<times> cow \<times> pmm" where
  "krust_cow_init total_frames st =
     (let (s, p) = st;
          size = total_frames * 2 mod usize_mod;
          frames_needed = (size + 4095) mod usize_mod div 4096;
          (first, p) = krust_pmm_alloc_frame p
      in if first = usize_max then (- 1, s, p)
         else let base = first * 4096 mod usize_mod;
                  s = s\<lparr>REFCOUNT := base, COW_FRAMES := total_frames\<rparr>;
                  (ok, p) = cow_take_frames (frames_needed - 1) p
              in if \<not> ok then (- 1, s, p)
                 else (0, s\<lparr>rc_mem := fold (\<lambda>i m. m(base + 2 * i := 0)) [0..<total_frames] (rc_mem s)\<rparr>, p))"

definition krust_cow_refinc :: "usize \<Rightarrow> cow \<Rightarrow> cow" where
  "krust_cow_refinc frame s =
     (if frame \<ge> COW_FRAMES s then s
      else if REFCOUNT s = 0 then s
      else let e = rc_entry s frame;
               prev = rc_mem s e;
               s = s\<lparr>rc_mem := (rc_mem s)(e := prev + 1)\<rparr>
           in if prev \<ge> 0xFFFE then s\<lparr>rc_mem := (rc_mem s)(e := 0xFFFF)\<rparr> else s)"

definition krust_cow_refdec :: "usize \<Rightarrow> cow \<Rightarrow> u32 \<times> cow" where
  "krust_cow_refdec frame s =
     (if frame \<ge> COW_FRAMES s then (0, s)
      else if REFCOUNT s = 0 then (0, s)
      else let e = rc_entry s frame;
               prev = rc_mem s e
           in (ucast prev, if prev > 0 then s\<lparr>rc_mem := (rc_mem s)(e := prev - 1)\<rparr> else s))"

definition krust_cow_refcount :: "usize \<Rightarrow> cow \<Rightarrow> u32" where
  "krust_cow_refcount frame s =
     (if frame \<ge> COW_FRAMES s then 0
      else if REFCOUNT s = 0 then 0
      else ucast (rc_mem s (rc_entry s frame)))"

section \<open>The counters as natural numbers\<close>

text \<open>The number of extra sharers the table records for a frame.\<close>

definition sharers :: "cow \<Rightarrow> usize \<Rightarrow> nat" where
  "sharers s frame = unat (krust_cow_refcount frame s)"

definition tracked :: "cow \<Rightarrow> usize \<Rightarrow> bool" where
  "tracked s frame \<longleftrightarrow> frame < COW_FRAMES s \<and> REFCOUNT s \<noteq> 0"

lemma sharers_unat:
  "sharers s f = (if tracked s f then unat (rc_mem s (rc_entry s f)) else 0)"
  by (simp add: sharers_def krust_cow_refcount_def tracked_def unat_ucast_up)

lemma rc_entry_inj [simp]: "rc_entry s f = rc_entry s g \<longleftrightarrow> f = g"
  by (simp add: rc_entry_def)

lemma rc_entry_mem [simp]: "rc_entry (s\<lparr>rc_mem := m\<rparr>) f = rc_entry s f"
  by (simp add: rc_entry_def)

lemma tracked_mem [simp]: "tracked (s\<lparr>rc_mem := m\<rparr>) f = tracked s f"
  by (simp add: tracked_def)

lemma refinc_tracked [simp]: "tracked (krust_cow_refinc f s) g = tracked s g"
  by (auto simp: krust_cow_refinc_def Let_def tracked_def)

lemma refdec_tracked [simp]: "tracked (snd (krust_cow_refdec f s)) g = tracked s g"
  by (auto simp: krust_cow_refdec_def Let_def tracked_def)

lemma saturating_incr:
  "unat (if p \<ge> 0xFFFE then 0xFFFF else (p :: u16) + 1) = min (unat p + 1) 0xFFFF"
proof (cases "p \<ge> 0xFFFE")
  case True
  then have "0xFFFE \<le> unat p" by (simp add: word_le_nat_alt)
  with True show ?thesis by simp
next
  case False
  then have "unat p < 0xFFFE" by (simp add: word_less_nat_alt not_le)
  then have "unat (p + 1) = unat p + 1" by (intro unat_plus_one) simp
  with False \<open>unat p < 0xFFFE\<close> show ?thesis by (simp del: unat_1)
qed

lemma refinc_mem:
  "tracked s f \<Longrightarrow> krust_cow_refinc f s = s\<lparr>rc_mem := (rc_mem s)(rc_entry s f :=
     (if rc_mem s (rc_entry s f) \<ge> 0xFFFE then 0xFFFF else rc_mem s (rc_entry s f) + 1))\<rparr>"
  by (simp add: krust_cow_refinc_def tracked_def Let_def)

lemma refinc_untracked: "\<not> tracked s f \<Longrightarrow> krust_cow_refinc f s = s"
  by (auto simp: krust_cow_refinc_def tracked_def)

lemma sharers_refinc:
  "sharers (krust_cow_refinc f s) g =
     (if g = f \<and> tracked s f then min (sharers s f + 1) 0xFFFF else sharers s g)"
proof (cases "tracked s f")
  case True
  then show ?thesis by (simp add: refinc_mem sharers_unat saturating_incr del: if_split)
qed (simp add: refinc_untracked)

lemma sharers_refdec:
  "sharers (snd (krust_cow_refdec f s)) g = (if g = f then sharers s f - 1 else sharers s g)"
proof (cases "tracked s f")
  case True
  then have "krust_cow_refdec f s = (ucast (rc_mem s (rc_entry s f)),
      if rc_mem s (rc_entry s f) = 0 then s
      else s\<lparr>rc_mem := (rc_mem s)(rc_entry s f := rc_mem s (rc_entry s f) - 1)\<rparr>)"
    by (simp add: krust_cow_refdec_def tracked_def Let_def word_gt_0)
  with True show ?thesis by (simp add: sharers_unat unat_minus_one)
next
  case False
  then show ?thesis
    by (auto simp: krust_cow_refdec_def tracked_def sharers_unat)
qed

lemma refdec_result: "unat (fst (krust_cow_refdec f s)) = sharers s f"
  by (auto simp: krust_cow_refdec_def Let_def sharers_def krust_cow_refcount_def)


section \<open>Setting the table up\<close>

lemma alloc_from_interval:
  assumes "pmm_inv p" and "free_frames p = {a..<b}" and "a < b"
  obtains p' where "krust_pmm_alloc_frame p = (a, p')" "pmm_inv p'" "free_frames p' = {Suc a..<b}"
    "a < usize_max"
  using assms(1)
proof (cases rule: alloc_frame_cases)
  case Full
  with assms show ?thesis by simp
next
  case (Taken f)
  then have "f \<le> a" "a \<le> f" "a < b" using assms(2,3) by auto
  then have f: "f = a" by simp
  have "a < TOTAL_FRAMES p" using Taken(1) f by (auto simp: free_frames_def)
  then have "a < usize_max" using pmm_inv_total [OF assms(1)] by simp
  moreover have "{a..<b} - {a} = {Suc a..<b}" by auto
  ultimately show ?thesis
    using that [of "snd (krust_pmm_alloc_frame p)"] Taken(3) f pmm_inv_alloc [OF assms(1)]
      free_frames_alloc [OF assms(1)] assms(2) by simp
qed

lemma cow_take_interval:
  "pmm_inv p \<Longrightarrow> free_frames p = {a..<b} \<Longrightarrow> a + k \<le> b \<Longrightarrow>
     \<exists>p'. cow_take_frames k p = (True, p') \<and> pmm_inv p' \<and> free_frames p' = {a + k..<b}"
proof (induction k arbitrary: p a)
  case (Suc k)
  then have "a < b" by simp
  from Suc.prems(1,2) this obtain p1 where p1: "krust_pmm_alloc_frame p = (a, p1)" "pmm_inv p1"
    "free_frames p1 = {Suc a..<b}" "a < usize_max" by (rule alloc_from_interval)
  from Suc.IH [OF p1(2,3)] Suc.prems(3) obtain p' where
    "cow_take_frames k p1 = (True, p')" "pmm_inv p'" "free_frames p' = {Suc a + k..<b}" by auto
  with p1 show ?case by auto
qed simp

lemma fold_zero_table:
  "fold (\<lambda>i m. m(base + 2 * i := (0 :: u16))) [0..<n] m a =
     (if \<exists>i<n. a = base + 2 * i then 0 else m a)"
  by (induction n) (auto simp: less_Suc_eq)

definition cow_table_frames :: "usize \<Rightarrow> nat" where
  "cow_table_frames total_fr = max 1 ((2 * total_fr + 4095) div 4096)"

lemma cow_table_fits: "i < total_fr \<Longrightarrow> 2 * i + 2 \<le> cow_table_frames total_fr * 4096"
  using round_up_pages [of "2 * total_fr" "cow_table_frames total_fr"] by (simp add: cow_table_frames_def)

section \<open>Runs\<close>

datatype cow_op = RefInc usize | RefDec usize

fun op_frame :: "cow_op \<Rightarrow> usize" where
  "op_frame (RefInc f) = f"
| "op_frame (RefDec f) = f"

fun cow_run :: "cow_op list \<Rightarrow> cow \<Rightarrow> cow" where
  "cow_run [] s = s"
| "cow_run (RefInc f # ops) s = cow_run ops (krust_cow_refinc f s)"
| "cow_run (RefDec f # ops) s = cow_run ops (snd (krust_cow_refdec f s))"

text \<open>The same run on ideal counters.\<close>

fun ideal_run :: "cow_op list \<Rightarrow> (usize \<Rightarrow> nat) \<Rightarrow> usize \<Rightarrow> nat" where
  "ideal_run [] c = c"
| "ideal_run (RefInc f # ops) c = ideal_run ops (c(f := c f + 1))"
| "ideal_run (RefDec f # ops) c = ideal_run ops (c(f := c f - 1))"

section \<open>Properties\<close>

text \<open>
  C7. The reference counts are exact: any sequence of increments and decrements acts on the table
  as on unbounded counters that stop at 0, as long as no counter is taken past 65535; frames the
  table does not track stay untouched.
\<close>

theorem cow_refines_counters:
  assumes "\<forall>f. tracked s f \<longrightarrow> sharers s f + count_list ops (RefInc f) \<le> 0xFFFF"
    and "\<forall>op \<in> set ops. tracked s (op_frame op)"
  shows "sharers (cow_run ops s) = ideal_run ops (sharers s)"
  using assms
proof (induction ops s rule: cow_run.induct)
  case (2 f ops s)
  then have "sharers s f + 1 \<le> 0xFFFF" by auto
  then have c: "sharers (krust_cow_refinc f s) = (sharers s)(f := sharers s f + 1)"
    using 2(3) by (simp add: fun_eq_iff sharers_refinc)
  have "\<forall>g. tracked s g \<longrightarrow> sharers (krust_cow_refinc f s) g + count_list ops (RefInc g) \<le> 0xFFFF"
    using 2(2) by (auto simp: c split: if_splits)
  then show ?case using 2(1,3) by (simp add: c fun_upd_def)
next
  case (3 f ops s)
  have c: "sharers (snd (krust_cow_refdec f s)) = (sharers s)(f := sharers s f - 1)"
    by (simp add: fun_eq_iff sharers_refdec)
  have "\<forall>g. tracked s g \<longrightarrow>
      sharers (snd (krust_cow_refdec f s)) g + count_list ops (RefInc g) \<le> 0xFFFF"
    using 3(2) by (auto simp: c)
  then show ?case using 3(1,3) by (simp add: c fun_upd_def)
qed simp

definition small_table :: cow where
  "small_table = \<lparr>REFCOUNT = 0x1000, COW_FRAMES = 8, rc_mem = (\<lambda>_. 0)\<rparr>"

theorem cow_refines_counters_witness:
  "sharers (cow_run [RefInc 3, RefInc 3, RefDec 3, RefInc 5] small_table) 3 = 1 \<and>
   sharers (cow_run [RefInc 3, RefInc 3, RefDec 3, RefInc 5] small_table) 5 = 1"
  by (subst (1 2) cow_refines_counters)
    (simp_all add: tracked_def sharers_unat small_table_def)

text \<open>
  Initialisation from a contiguous run of free frames, which is what boot leaves, succeeds; the
  whole table lies in the frames it took, every counter is zero and the frames are gone from the
  allocator.
\<close>

lemma cow_init_ok:
  assumes "pmm_inv p" and "free_frames p = {a..<b}" and "0 < a"
    and "a + cow_table_frames total_fr \<le> b"
    and "2 * total_fr + 4095 < usize_mod" and "b * 4096 < usize_mod"
  shows "\<exists>s' p'. krust_cow_init total_fr (s, p) = (0, s', p') \<and> pmm_inv p' \<and>
    free_frames p' = {a + cow_table_frames total_fr..<b} \<and>
    (\<forall>f < total_fr. tracked s' f \<and> sharers s' f = 0 \<and> a * 4096 \<le> rc_entry s' f \<and>
       rc_entry s' f + 2 \<le> (a + cow_table_frames total_fr) * 4096)"
proof -
  let ?k = "cow_table_frames total_fr"
  have "1 \<le> ?k" by (simp add: cow_table_frames_def)
  then have "a < b" using assms(4) by simp
  from assms(1,2) this obtain p1 where p1: "krust_pmm_alloc_frame p = (a, p1)" "pmm_inv p1"
    "free_frames p1 = {Suc a..<b}" "a < usize_max" by (rule alloc_from_interval)
  have "Suc a + (?k - 1) \<le> b" using assms(4) \<open>1 \<le> ?k\<close> by simp
  from cow_take_interval [OF p1(2,3) this] \<open>1 \<le> ?k\<close> obtain p' where
    p': "cow_take_frames (?k - 1) p1 = (True, p')" "pmm_inv p'" "free_frames p' = {a + ?k..<b}" by auto
  have base: "a * 4096 mod usize_mod = a * 4096" using \<open>a < b\<close> assms(6) by simp
  have needed: "(total_fr * 2 mod usize_mod + 4095) mod usize_mod div 4096 - 1 = ?k - 1"
    using assms(5) by (simp add: cow_table_frames_def mult.commute)
  let ?s = "s\<lparr>REFCOUNT := a * 4096, COW_FRAMES := total_fr,
    rc_mem := fold (\<lambda>i m. m(a * 4096 + 2 * i := 0)) [0..<total_fr] (rc_mem s)\<rparr>"
  have "krust_cow_init total_fr (s, p) = (0, ?s, p')"
    using p1(1,4) p'(1) by (simp add: krust_cow_init_def Let_def base needed [unfolded One_nat_def])
  moreover have "tracked ?s f \<and> sharers ?s f = 0 \<and> a * 4096 \<le> rc_entry ?s f \<and>
      rc_entry ?s f + 2 \<le> (a + ?k) * 4096" if "f < total_fr" for f
    using that assms(3) cow_table_fits [OF that]
    by (auto simp: tracked_def sharers_unat rc_entry_def fold_zero_table)
  ultimately show ?thesis using p'(2,3) by blast
qed

end
