(* ===== verification/Paging.thy ===== *)
theory Paging
  imports Cow Vma
begin

unbundle bit_operations_syntax

text \<open>
  Page tables (\<open>kernel/src/mm/paging.rs\<close>). Physical memory is identity mapped and is modelled as a
  function from the address of an 8-byte word to the word: the code reads and writes table entries,
  which are such words, and otherwise clears or copies whole pages. The invalidation of the
  processor's translation cache, the progress messages and the registration of the fault handler are
  left out. The frame allocator and the frame reference counts are those of the theories \<open>Pmm\<close> and
  \<open>Cow\<close>; the memory regions of the running task are those of \<open>Vma\<close>.
\<close>

section \<open>State\<close>

record pg_task =
  vma_list :: usize
  task_pages :: u32

record paging =
  pmem :: "usize \<Rightarrow> u64"
  frames :: pmm
  counts :: cow
  cr3 :: u64
  PML4 :: usize
  HEAP_PHYS :: u64
  MMIO_NEXT :: u64
  regions :: "usize \<Rightarrow> vma"
  running :: "pg_task option"

definition COW_BIT :: u64 where "COW_BIT = 0x200"
definition PTE_MASK :: u64 where "PTE_MASK = 0x000FFFFFFFFFF000"
definition FLAGS_MASK :: u64 where "FLAGS_MASK = 0x8000000000000FFF"
definition PS_2MB :: u64 where "PS_2MB = 0x80"
definition PAGE_PRESENT :: u64 where "PAGE_PRESENT = 1"
definition PAGE_WRITE :: u64 where "PAGE_WRITE = 2"
definition PAGE_USER :: u64 where "PAGE_USER = 4"
definition PAGE_NX :: u64 where "PAGE_NX = 0x8000000000000000"
definition HEAP_VADDR :: u64 where "HEAP_VADDR = 0x40000000"
definition HEAP_INITIAL :: u64 where "HEAP_INITIAL = 0x400000"
definition PROT_WRITE :: u64 where "PROT_WRITE = 2"
definition PROT_READ :: u64 where "PROT_READ = 1"
definition PROT_EXEC :: u64 where "PROT_EXEC = 4"

definition pml4_i :: "u64 \<Rightarrow> u64" where "pml4_i v = drop_bit 39 v AND 0x1FF"
definition pdp_i :: "u64 \<Rightarrow> u64" where "pdp_i v = drop_bit 30 v AND 0x1FF"
definition pd_i :: "u64 \<Rightarrow> u64" where "pd_i v = drop_bit 21 v AND 0x1FF"
definition pt_i :: "u64 \<Rightarrow> u64" where "pt_i v = drop_bit 12 v AND 0x1FF"

text \<open>The address of an entry, and the table an entry points to.\<close>

definition entry_at :: "usize \<Rightarrow> u64 \<Rightarrow> usize" where
  "entry_at t i = t + 8 * unat i"

definition table_of :: "u64 \<Rightarrow> usize" where
  "table_of e = unat (e AND PTE_MASK)"

definition set_entry :: "usize \<Rightarrow> u64 \<Rightarrow> paging \<Rightarrow> paging" where
  "set_entry a e s = s\<lparr>pmem := (pmem s)(a := e)\<rparr>"

text \<open>The \<open>memset\<close> and \<open>memcpy\<close> of the file, on the pages they are called with.\<close>

definition cleared :: "usize \<Rightarrow> (usize \<Rightarrow> u64) \<Rightarrow> usize \<Rightarrow> u64" where
  "cleared p m = (\<lambda>a. if p \<le> a \<and> a < p + 4096 then 0 else m a)"

definition clear_page :: "usize \<Rightarrow> paging \<Rightarrow> paging" where
  "clear_page p s = s\<lparr>pmem := cleared p (pmem s)\<rparr>"

definition copied :: "usize \<Rightarrow> usize \<Rightarrow> (usize \<Rightarrow> u64) \<Rightarrow> usize \<Rightarrow> u64" where
  "copied dst src m = (\<lambda>a. if dst \<le> a \<and> a < dst + 4096 then m (src + (a - dst)) else m a)"

definition copy_page :: "usize \<Rightarrow> usize \<Rightarrow> paging \<Rightarrow> paging" where
  "copy_page dst src s = s\<lparr>pmem := copied dst src (pmem s)\<rparr>"

section \<open>Operations\<close>

text \<open>The null pointer 0 stands for failure.\<close>

definition table_alloc :: "paging \<Rightarrow> usize \<times> paging" where
  "table_alloc s =
     (let (frame, p) = krust_pmm_alloc_frame (frames s);
          s = s\<lparr>frames := p\<rparr>
      in if frame = usize_max then (0, s)
         else let phys = frame * 4096 mod usize_mod in (phys, clear_page phys s))"

text \<open>The walk to the entry of a page: a level is missing, a 2 MB page, or the entry of a 4 KB page.\<close>

datatype pt_slot = Absent | Huge usize | Leaf usize

definition pt_walk :: "(usize \<Rightarrow> u64) \<Rightarrow> usize \<Rightarrow> u64 \<Rightarrow> pt_slot" where
  "pt_walk m p4 v =
     (let a4 = entry_at p4 (pml4_i v)
      in if m a4 AND 1 = 0 then Absent
         else let a3 = entry_at (table_of (m a4)) (pdp_i v)
              in if m a3 AND 1 = 0 then Absent
                 else let a2 = entry_at (table_of (m a3)) (pd_i v)
                      in if m a2 AND 1 = 0 then Absent
                         else if m a2 AND PS_2MB \<noteq> 0 then Huge a2
                         else Leaf (entry_at (table_of (m a2)) (pt_i v)))"

definition frame_of :: "u64 \<Rightarrow> usize" where
  "frame_of phys = unat (ucast (phys div 4096) :: u32)"

definition cow_resolve_page :: "u64 \<Rightarrow> u64 \<Rightarrow> paging \<Rightarrow> bool \<times> paging" where
  "cow_resolve_page target_cr3 addr s =
     (case pt_walk (pmem s) (unat target_cr3) addr of
        Absent \<Rightarrow> (False, s)
      | Huge _ \<Rightarrow> (False, s)
      | Leaf a1 \<Rightarrow>
          let ent = pmem s a1
          in if ent AND 1 = 0 then (False, s)
             else if ent AND COW_BIT = 0 then (False, s)
             else let phys = ent AND PTE_MASK;
                      (refs, c) = krust_cow_refdec (frame_of phys) (counts s);
                      s = s\<lparr>counts := c\<rparr>
                  in if refs = 0 then
                       let new_flags = ent AND FLAGS_MASK AND NOT COW_BIT;
                           new_flags = new_flags OR 2
                       in (True, set_entry a1 (phys AND PTE_MASK OR new_flags AND FLAGS_MASK OR 1) s)
                     else let (new_frame, p) = krust_pmm_alloc_frame (frames s);
                              s = s\<lparr>frames := p\<rparr>
                          in if new_frame = usize_max then (False, s)
                             else let new_page = new_frame * 4096 mod usize_mod;
                                      s = copy_page new_page (unat phys) s
                                  in (True, set_entry a1 (of_nat new_page AND PTE_MASK OR 7) s))"

definition cow_resolve :: "u64 \<Rightarrow> u64 \<Rightarrow> paging \<Rightarrow> bool \<times> paging" where
  "cow_resolve addr err s = cow_resolve_page (cr3 s) addr s"

text \<open>A table for an entry that has none; False when there is no memory.\<close>

definition ensure_table :: "u64 \<Rightarrow> usize \<Rightarrow> paging \<Rightarrow> bool \<times> paging" where
  "ensure_table flags a s =
     (if pmem s a AND 1 = 0 then
        let (nt, s) = table_alloc s
        in if nt = 0 then (False, s) else (True, set_entry a (of_nat nt OR flags) s)
      else (True, s))"

text \<open>A 2 MB page becomes a table of 4 KB pages.\<close>

definition split_huge :: "usize \<Rightarrow> paging \<Rightarrow> bool \<times> paging" where
  "split_huge a s =
     (if pmem s a AND PS_2MB \<noteq> 0 then
        let base = pmem s a AND PTE_MASK;
            old_flags = pmem s a AND NOT PS_2MB AND NOT PTE_MASK AND NOT 1;
            (nt, s) = table_alloc s
        in if nt = 0 then (False, s)
           else let s = fold (\<lambda>j. set_entry (nt + 8 * j) ((base + of_nat j * 4096) OR old_flags OR 1)) [0..<512] s
                in (True, set_entry a (of_nat nt OR 3) s)
      else (True, s))"

definition krust_paging_map_page_in :: "u64 \<Rightarrow> u64 \<Rightarrow> u64 \<Rightarrow> u64 \<Rightarrow> paging \<Rightarrow> bool \<times> paging" where
  "krust_paging_map_page_in pml4_paddr virt phys flags s =
     (let a4 = entry_at (unat pml4_paddr) (pml4_i virt);
          (ok, s) = ensure_table 3 a4 s
      in if \<not> ok then (False, s)
         else let a3 = entry_at (table_of (pmem s a4)) (pdp_i virt);
                  (ok, s) = ensure_table 3 a3 s
              in if \<not> ok then (False, s)
                 else let a2 = entry_at (table_of (pmem s a3)) (pd_i virt);
                          (ok, s) = ensure_table 3 a2 s
                      in if \<not> ok then (False, s)
                         else let (ok, s) = split_huge a2 s
                              in if \<not> ok then (False, s)
                                 else let a1 = entry_at (table_of (pmem s a2)) (pt_i virt)
                                      in (True, set_entry a1 (phys AND PTE_MASK OR flags AND FLAGS_MASK OR 1) s))"

definition krust_paging_map_page :: "u64 \<Rightarrow> u64 \<Rightarrow> u64 \<Rightarrow> paging \<Rightarrow> bool \<times> paging" where
  "krust_paging_map_page virt phys flags s = krust_paging_map_page_in (cr3 s) virt phys flags s"

text \<open>The result None is a search of the region list that does not return.\<close>

definition vma_lazy_alloc :: "u64 \<Rightarrow> u64 \<Rightarrow> paging \<Rightarrow> (bool \<times> paging) option" where
  "vma_lazy_alloc addr err s =
     (case running s of
        None \<Rightarrow> Some (False, s)
      | Some t \<Rightarrow>
          if vma_list t = 0 then Some (False, s)
          else case krust_vmm_find (regions s) (vma_list t) addr of
                 None \<Rightarrow> None
               | Some v \<Rightarrow>
                   if v = 0 then Some (False, s)
                   else let fl = vm_flags (regions s v)
                        in if err AND 2 \<noteq> 0 \<and> fl AND PROT_WRITE = 0 then Some (False, s)
                           else if err AND 2 = 0 \<and> fl AND PROT_READ = 0 then Some (False, s)
                           else let aligned = addr AND NOT 0xFFF;
                                    (frame, p) = krust_pmm_alloc_frame (frames s);
                                    s = s\<lparr>frames := p\<rparr>
                                in if frame = usize_max then Some (False, s)
                                   else let phys = frame * 4096 mod usize_mod;
                                            s = clear_page phys s;
                                            pte_flags = PAGE_PRESENT OR PAGE_USER;
                                            pte_flags = (if fl AND PROT_WRITE \<noteq> 0 then pte_flags OR PAGE_WRITE
                                                         else pte_flags);
                                            pte_flags = (if fl AND PROT_EXEC = 0 then pte_flags OR PAGE_NX
                                                         else pte_flags);
                                            (_, s) = krust_paging_map_page aligned (of_nat phys) pte_flags s
                                        in Some (True, s\<lparr>running := map_option
                                             (\<lambda>t. t\<lparr>task_pages := task_pages t + 1\<rparr>) (running s)\<rparr>))"

text \<open>A loop that may be left early: the body returns whether to go on.\<close>

primrec run_loop :: "('a \<Rightarrow> 's \<Rightarrow> bool \<times> 's) \<Rightarrow> 'a list \<Rightarrow> 's \<Rightarrow> bool \<times> 's" where
  "run_loop f [] s = (True, s)"
| "run_loop f (x # xs) s = (let (go, s) = f x s in if go then run_loop f xs s else (False, s))"

definition alloc_heap_pages :: "paging \<Rightarrow> paging" where
  "alloc_heap_pages s =
     snd (run_loop
       (\<lambda>k s. let (frame, p) = krust_pmm_alloc_frame (frames s);
                  s = s\<lparr>frames := p\<rparr>
              in if frame = usize_max then (False, s)
                 else let phys = of_nat (frame * 4096);
                          (_, s) = krust_paging_map_page (HEAP_VADDR + of_nat k * 4096) phys 3 s
                      in (True, if HEAP_PHYS s = 0 then s\<lparr>HEAP_PHYS := phys\<rparr> else s))
       [0..<unat (HEAP_INITIAL div 4096)] s)"

definition krust_paging_init :: "paging \<Rightarrow> paging" where
  "krust_paging_init s =
     (let s = s\<lparr>PML4 := unat (cr3 s)\<rparr>;
          total_frames = unat (of_nat (krust_pmm_get_total_frames (frames s)) :: u32);
          (_, c, p) = krust_cow_init total_frames (counts s, frames s)
      in alloc_heap_pages (s\<lparr>counts := c, frames := p, HEAP_PHYS := 0\<rparr>))"

definition krust_paging_unmap_page :: "u64 \<Rightarrow> paging \<Rightarrow> paging" where
  "krust_paging_unmap_page virt s =
     (case pt_walk (pmem s) (unat (cr3 s)) virt of
        Absent \<Rightarrow> s
      | Huge a2 \<Rightarrow> set_entry a2 0 s
      | Leaf a1 \<Rightarrow> set_entry a1 0 s)"

definition krust_paging_get_phys :: "u64 \<Rightarrow> paging \<Rightarrow> u64" where
  "krust_paging_get_phys virt s =
     (case pt_walk (pmem s) (unat (cr3 s)) virt of
        Absent \<Rightarrow> NOT 0
      | Huge a2 \<Rightarrow> pmem s a2 AND PTE_MASK OR virt AND 0x1FFFFF
      | Leaf a1 \<Rightarrow> if pmem s a1 AND 1 = 0 then NOT 0 else pmem s a1 AND PTE_MASK OR virt AND 0xFFF)"

definition krust_paging_page_directory :: "paging \<Rightarrow> usize" where
  "krust_paging_page_directory s = PML4 s"

text \<open>The copy of the lower half: one entry of a page directory, and one of the level above.\<close>

definition clone_pd_entry :: "usize \<Rightarrow> usize \<Rightarrow> nat \<Rightarrow> paging \<Rightarrow> paging" where
  "clone_pd_entry src_pd new_pd i2 s =
     (let e = pmem s (src_pd + 8 * i2)
      in if e AND 1 = 0 then s
         else if e AND PS_2MB \<noteq> 0 then
           let base = e AND PTE_MASK;
               flags = e AND FLAGS_MASK AND NOT PS_2MB;
               (new_pt, s) = table_alloc s
           in if new_pt = 0 then s
              else let s = fold (\<lambda>i1. set_entry (new_pt + 8 * i1) ((base + of_nat i1 * 0x1000) OR flags OR 1)) [0..<512] s
                   in set_entry (new_pd + 8 * i2) (of_nat new_pt OR flags OR 1) s
         else
           let src_pt = table_of e;
               (new_pt, s) = table_alloc s
           in if new_pt = 0 then s
              else let s = set_entry (new_pd + 8 * i2) (of_nat new_pt OR pmem s (src_pd + 8 * i2) AND FLAGS_MASK OR 1) s
                   in fold (\<lambda>i1 s. set_entry (new_pt + 8 * i1) (pmem s (src_pt + 8 * i1)) s) [0..<512] s)"

definition clone_pdp_entry :: "usize \<Rightarrow> usize \<Rightarrow> nat \<Rightarrow> paging \<Rightarrow> paging" where
  "clone_pdp_entry src_pdp new_pdp i3 s =
     (let e = pmem s (src_pdp + 8 * i3)
      in if e AND 1 = 0 then s
         else if e AND PS_2MB \<noteq> 0 then s
         else let src_pd = table_of e;
                  (new_pd, s) = table_alloc s
              in if new_pd = 0 then s
                 else let s = set_entry (new_pdp + 8 * i3)
                                (of_nat new_pd OR pmem s (src_pdp + 8 * i3) AND FLAGS_MASK OR 1) s
                      in fold (clone_pd_entry src_pd new_pd) [0..<512] s)"

definition krust_paging_clone_kernel_dir :: "paging \<Rightarrow> usize \<times> paging" where
  "krust_paging_clone_kernel_dir s =
     (let (np, s) = table_alloc s
      in if np = 0 then (0, s)
         else let s = fold (\<lambda>i s. set_entry (np + 8 * i) (pmem s (PML4 s + 8 * i)) s) [256..<512] s
              in if pmem s (PML4 s) AND 1 \<noteq> 0 then
                   let src_pdp = table_of (pmem s (PML4 s));
                       (new_pdp, s) = table_alloc s
                   in if new_pdp \<noteq> 0 then
                        let s = set_entry np (of_nat new_pdp OR pmem s (PML4 s) AND FLAGS_MASK OR 1) s
                        in (np, fold (clone_pdp_entry src_pdp new_pdp) [0..<512] s)
                      else (np, s)
                 else (np, s))"

text \<open>
  Sharing the user half of an address space: the entry of a 4 KB page, of a 2 MB page, and one entry
  of each of the three upper levels. The result False is the early return when memory runs out.
\<close>

definition share_page :: "usize \<Rightarrow> usize \<Rightarrow> nat \<Rightarrow> paging \<Rightarrow> paging" where
  "share_page s1 d1 i1 s =
     (let e = pmem s (s1 + 8 * i1)
      in if e AND 1 = 0 then s
         else let paddr = e AND PTE_MASK;
                  frame = frame_of paddr;
                  flags = e AND FLAGS_MASK
              in if flags AND PAGE_WRITE \<noteq> 0 \<and> flags AND PAGE_USER \<noteq> 0 then
                   let s = s\<lparr>counts := krust_cow_refinc frame (counts s)\<rparr>;
                       cow_ent = paddr AND PTE_MASK OR flags AND NOT PAGE_WRITE OR COW_BIT OR 1
                   in set_entry (d1 + 8 * i1) cow_ent (set_entry (s1 + 8 * i1) cow_ent s)
                 else set_entry (d1 + 8 * i1) e s)"

definition share_huge :: "usize \<Rightarrow> usize \<Rightarrow> paging \<Rightarrow> bool \<times> paging" where
  "share_huge a d s =
     (let base = pmem s a AND PTE_MASK;
          fl = pmem s a AND FLAGS_MASK AND NOT PS_2MB;
          (s_pt, s) = table_alloc s;
          (d_pt, s) = table_alloc s
      in if s_pt = 0 \<or> d_pt = 0 then (False, s)
         else let s = fold (\<lambda>i1 s.
                        let paddr = base + of_nat i1 * 4096;
                            s = s\<lparr>counts := krust_cow_refinc (frame_of paddr) (counts s)\<rparr>;
                            cow = paddr OR fl AND NOT 2 OR COW_BIT OR 1
                        in set_entry (d_pt + 8 * i1) cow (set_entry (s_pt + 8 * i1) cow s)) [0..<512] s;
                  s = set_entry a (of_nat s_pt OR fl AND NOT PS_2MB OR 1) s
              in (True, set_entry d (of_nat d_pt OR fl AND NOT PS_2MB OR 1) s))"

definition share_pd_entry :: "usize \<Rightarrow> usize \<Rightarrow> nat \<Rightarrow> paging \<Rightarrow> bool \<times> paging" where
  "share_pd_entry s2 d2 i2 s =
     (let a = s2 + 8 * i2; d = d2 + 8 * i2
      in if pmem s a AND 1 = 0 then (True, s)
         else if pmem s a AND PS_2MB \<noteq> 0 then share_huge a d s
         else let s1 = table_of (pmem s a);
                  (ok, s) = ensure_table 7 d s
              in if \<not> ok then (False, s)
                 else let d1 = table_of (pmem s d) in (True, fold (share_page s1 d1) [0..<512] s))"

definition share_pdp_entry :: "usize \<Rightarrow> usize \<Rightarrow> nat \<Rightarrow> paging \<Rightarrow> bool \<times> paging" where
  "share_pdp_entry s3 d3 i3 s =
     (let a = s3 + 8 * i3; d = d3 + 8 * i3
      in if pmem s a AND 1 = 0 then (True, s)
         else let s2 = table_of (pmem s a);
                  (ok, s) = ensure_table 7 d s
              in if \<not> ok then (False, s)
                 else let d2 = table_of (pmem s d) in run_loop (share_pd_entry s2 d2) [0..<512] s)"

definition share_pml4_entry :: "usize \<Rightarrow> usize \<Rightarrow> nat \<Rightarrow> paging \<Rightarrow> bool \<times> paging" where
  "share_pml4_entry src dst i4 s =
     (let a = src + 8 * i4; d = dst + 8 * i4
      in if pmem s a AND 1 = 0 then (True, s)
         else let s3 = table_of (pmem s a);
                  (ok, s) = ensure_table 7 d s
              in if \<not> ok then (False, s)
                 else let d3 = table_of (pmem s d) in run_loop (share_pdp_entry s3 d3) [0..<512] s)"

definition krust_paging_copy_user_pages :: "usize \<Rightarrow> usize \<Rightarrow> paging \<Rightarrow> paging" where
  "krust_paging_copy_user_pages src dst s = snd (run_loop (share_pml4_entry src dst) [0..<256] s)"

text \<open>Giving back an address space, level by level; the tables are read but not changed.\<close>

definition free_frame :: "usize \<Rightarrow> paging \<Rightarrow> paging" where
  "free_frame f s = s\<lparr>frames := krust_pmm_free_frame (frames s) f\<rparr>"

definition free_page :: "u64 \<Rightarrow> paging \<Rightarrow> paging" where
  "free_page e s =
     (if e AND 1 = 0 then s
      else let frame = table_of e div 4096
           in if e AND COW_BIT \<noteq> 0 then
                let (refs, c) = krust_cow_refdec (unat (of_nat frame :: u32)) (counts s);
                    s = s\<lparr>counts := c\<rparr>
                in if refs = 0 then free_frame frame s else s
              else free_frame frame s)"

definition free_pd_entry :: "u64 \<Rightarrow> paging \<Rightarrow> paging" where
  "free_pd_entry e s =
     (if e AND 1 = 0 then s
      else if e AND PS_2MB \<noteq> 0 then s
      else free_frame (table_of e div 4096)
             (fold (\<lambda>i1 s. free_page (pmem s (table_of e + 8 * i1)) s) [0..<512] s))"

definition free_pdp_entry :: "u64 \<Rightarrow> paging \<Rightarrow> paging" where
  "free_pdp_entry e s =
     (if e AND 1 = 0 then s
      else free_frame (table_of e div 4096)
             (fold (\<lambda>i2 s. free_pd_entry (pmem s (table_of e + 8 * i2)) s) [0..<512] s))"

definition free_pml4_entry :: "u64 \<Rightarrow> paging \<Rightarrow> paging" where
  "free_pml4_entry e s =
     (if e AND 1 = 0 then s
      else free_frame (table_of e div 4096)
             (fold (\<lambda>i3 s. free_pdp_entry (pmem s (table_of e + 8 * i3)) s) [0..<512] s))"

definition krust_paging_free_user_pages :: "u64 \<Rightarrow> paging \<Rightarrow> paging" where
  "krust_paging_free_user_pages pml4_paddr s =
     free_frame (unat pml4_paddr div 4096)
       (fold (\<lambda>i4 s. free_pml4_entry (pmem s (unat pml4_paddr + 8 * i4)) s) [0..<256] s)"

definition krust_paging_free_page_tables :: "u64 \<Rightarrow> paging \<Rightarrow> paging" where
  "krust_paging_free_page_tables pml4_paddr s =
     free_frame (unat pml4_paddr div 4096)
       (fold (\<lambda>i4 s. let e4 = pmem s (unat pml4_paddr + 8 * i4)
                     in if e4 AND 1 = 0 then s
                        else free_frame (table_of e4 div 4096)
          (fold (\<lambda>i3 s. let e3 = pmem s (table_of e4 + 8 * i3)
                        in if e3 AND 1 = 0 then s
                           else free_frame (table_of e3 div 4096)
             (fold (\<lambda>i2 s. let e2 = pmem s (table_of e3 + 8 * i2)
                           in if e2 AND 1 = 0 then s
                              else if e2 AND PS_2MB \<noteq> 0 then s
                              else free_frame (table_of e2 div 4096) s) [0..<512] s)) [0..<512] s)) [0..<256] s)"

definition krust_paging_pd_to_phys :: "usize \<Rightarrow> u64" where
  "krust_paging_pd_to_phys pd = of_nat pd"

definition krust_paging_identity_map :: "u64 \<Rightarrow> u64 \<Rightarrow> paging \<Rightarrow> paging" where
  "krust_paging_identity_map a b s = s"

partial_function (option) mmio_loop :: "u64 \<Rightarrow> u64 \<Rightarrow> u64 \<Rightarrow> paging \<Rightarrow> (bool \<times> paging) option" where
  "mmio_loop phys sz off s =
     (if off < sz then
        let (ok, s) = krust_paging_map_page (MMIO_NEXT s + off) (phys + off) 3 s
        in if \<not> ok then Some (False, s) else mmio_loop phys sz (off + 4096) s
      else Some (True, s))"

definition krust_map_mmio :: "u64 \<Rightarrow> u64 \<Rightarrow> paging \<Rightarrow> (u64 \<times> paging) option" where
  "krust_map_mmio phys sz s =
     (let start = MMIO_NEXT s
      in case mmio_loop phys sz 0 s of
           None \<Rightarrow> None
         | Some (ok, s) \<Rightarrow>
             if \<not> ok then Some (0, s)
             else Some (start, s\<lparr>MMIO_NEXT := MMIO_NEXT s + (sz + 4095 AND NOT 4095)\<rparr>))"

definition krust_page_size :: u64 where
  "krust_page_size = 4096"

section \<open>Tables by path\<close>

text \<open>
  The table reached from table \<open>t\<close> along entry numbers, \<open>k\<close> levels of tables below it. The
  entry of a 2 MB page leads to no table.
\<close>

fun tab :: "(usize \<Rightarrow> u64) \<Rightarrow> nat \<Rightarrow> usize \<Rightarrow> nat list \<Rightarrow> usize option" where
  "tab m k t [] = Some t"
| "tab m 0 t (i # is) = None"
| "tab m (Suc k) t (i # is) =
     (let e = m (t + 8 * i)
      in if e AND 1 = 0 \<or> k = 0 \<and> e AND PS_2MB \<noteq> 0 then None else tab m k (table_of e) is)"

definition is_path :: "nat list \<Rightarrow> bool" where
  "is_path p \<longleftrightarrow> (\<forall>i \<in> set p. i < 512)"

lemma is_path_simps [simp]:
  "is_path []" "is_path (i # p) \<longleftrightarrow> i < 512 \<and> is_path p" "is_path (p @ q) \<longleftrightarrow> is_path p \<and> is_path q"
  by (auto simp: is_path_def)

text \<open>The next table below a table at depth \<open>n\<close>, of four levels.\<close>

definition next_tab :: "(usize \<Rightarrow> u64) \<Rightarrow> nat \<Rightarrow> usize \<Rightarrow> nat \<Rightarrow> usize option" where
  "next_tab m n t i =
     (let e = m (t + 8 * i)
      in if n > 2 \<or> e AND 1 = 0 \<or> n = 2 \<and> e AND PS_2MB \<noteq> 0 then None else Some (table_of e))"

lemma tab_snoc_gen:
  "tab m k t (p @ [i]) = (case tab m k t p of None \<Rightarrow> None | Some u \<Rightarrow>
     if length p \<ge> k then None
     else let e = m (u + 8 * i)
          in if e AND 1 = 0 \<or> length p = k - 1 \<and> e AND PS_2MB \<noteq> 0 then None else Some (table_of e))"
proof (induction m k t p rule: tab.induct)
  case (1 m k t)
  then show ?case by (cases k) (auto simp: Let_def)
qed (auto simp: Let_def split: option.splits)

lemma tab_snoc:
  "tab m 3 r (p @ [i]) = Option.bind (tab m 3 r p) (\<lambda>t. next_tab m (length p) t i)"
  unfolding tab_snoc_gen by (auto simp: next_tab_def Let_def split: option.splits)

lemma tab_prefix_None: "tab m 3 r p = None \<Longrightarrow> tab m 3 r (p @ q) = None"
proof (induction q rule: rev_induct)
  case (snoc i q)
  then show ?case using tab_snoc [of m r "p @ q" i] by simp
qed simp

lemma tab_length: "tab m k t p = Some u \<Longrightarrow> length p \<le> k"
  by (induction m k t p arbitrary: u rule: tab.induct) (auto simp: Let_def split: if_splits)

text \<open>Well-formed tables: page aligned, no table is used twice, and 2 MB pages are aligned.\<close>

definition pt_ok :: "(usize \<Rightarrow> u64) \<Rightarrow> usize \<Rightarrow> bool" where
  "pt_ok m r \<longleftrightarrow> r mod 4096 = 0 \<and>
     (\<forall>p q t. is_path p \<and> is_path q \<and> tab m 3 r p = Some t \<and> tab m 3 r q = Some t \<longrightarrow> p = q) \<and>
     (\<forall>p t i. is_path p \<and> length p = 2 \<and> tab m 3 r p = Some t \<and> i < 512 \<and> m (t + 8 * i) AND PS_2MB \<noteq> 0 \<longrightarrow>
        m (t + 8 * i) AND 0x1FF000 = 0)"

definition tables :: "(usize \<Rightarrow> u64) \<Rightarrow> usize \<Rightarrow> usize set" where
  "tables m r = {t. \<exists>p. is_path p \<and> tab m 3 r p = Some t}"

section \<open>Bits of entries\<close>

lemma mask_bits:
  "bit PTE_MASK n \<longleftrightarrow> 12 \<le> n \<and> n < 52" "bit FLAGS_MASK n \<longleftrightarrow> n < 12 \<or> n = 63"
  "bit PS_2MB n \<longleftrightarrow> n = 7" "bit COW_BIT n \<longleftrightarrow> n = 9" "bit (0x1FF000 :: u64) n \<longleftrightarrow> 12 \<le> n \<and> n < 21"
  "bit (0x1FFFFF :: u64) n \<longleftrightarrow> n < 21" "bit (0xFFF :: u64) n \<longleftrightarrow> n < 12" "bit (0x1FF :: u64) n \<longleftrightarrow> n < 9"
  "bit (3 :: u64) n \<longleftrightarrow> n < 2" "bit (7 :: u64) n \<longleftrightarrow> n < 3"
proof -
  have e: "PTE_MASK = push_bit 12 (mask 40)" "FLAGS_MASK = mask 12 OR push_bit 63 1" "PS_2MB = push_bit 7 1"
    "COW_BIT = push_bit 9 1" "(0x1FF000 :: u64) = push_bit 12 (mask 9)" "(0x1FFFFF :: u64) = mask 21"
    "(0xFFF :: u64) = mask 12" "(0x1FF :: u64) = mask 9" "(3 :: u64) = mask 2" "(7 :: u64) = mask 3"
    by (simp_all add: PTE_MASK_def FLAGS_MASK_def PS_2MB_def COW_BIT_def mask_eq_exp_minus_1)
  note [simp] = bit_simps and [simp del] = push_bit_of_1
  show "bit PTE_MASK n \<longleftrightarrow> 12 \<le> n \<and> n < 52" unfolding e(1) by auto
  show "bit FLAGS_MASK n \<longleftrightarrow> n < 12 \<or> n = 63" unfolding e(2) by auto
  show "bit PS_2MB n \<longleftrightarrow> n = 7" unfolding e(3) by auto
  show "bit COW_BIT n \<longleftrightarrow> n = 9" unfolding e(4) by auto
  show "bit (0x1FF000 :: u64) n \<longleftrightarrow> 12 \<le> n \<and> n < 21" unfolding e(5) by auto
  show "bit (0x1FFFFF :: u64) n \<longleftrightarrow> n < 21" unfolding e(6) by auto
  show "bit (0xFFF :: u64) n \<longleftrightarrow> n < 12" unfolding e(7) by auto
  show "bit (0x1FF :: u64) n \<longleftrightarrow> n < 9" unfolding e(8) by auto
  show "bit (3 :: u64) n \<longleftrightarrow> n < 2" unfolding e(9) by auto
  show "bit (7 :: u64) n \<longleftrightarrow> n < 3" unfolding e(10) by auto
qed

declare bit_numeral_word_iff [simp del]

lemma table_of_aligned: "table_of e mod 4096 = 0"
proof -
  have "(e AND PTE_MASK) AND mask 12 = 0"
    by (rule bit_word_eqI) (auto simp: mask_bits bit_simps)
  then have "unat ((e AND PTE_MASK) AND mask 12) = 0" by simp
  then show ?thesis by (simp add: table_of_def unat_and_mask)
qed

section \<open>Changing one entry\<close>

lemma in_page: "t mod 4096 = 0 \<Longrightarrow> i < 512 \<Longrightarrow> (t + 8 * i) div 4096 = (t :: nat) div 4096"
  by (auto simp: div_add1_eq [of t])

lemma slot_inj:
  assumes "t mod 4096 = 0" and "u mod 4096 = 0" and "i < 512" and "j < 512" and "t + 8 * i = u + 8 * j"
  shows "t = u \<and> i = (j :: nat)"
proof -
  have "t div 4096 = u div 4096" using in_page [OF assms(1,3)] in_page [OF assms(2,4)] assms(5) by simp
  then have "t = u" using assms(1,2) by (metis mult_div_mod_eq add.right_neutral)
  then show ?thesis using assms(5) by simp
qed

lemma tab_aligned: "r mod 4096 = 0 \<Longrightarrow> tab m 3 r p = Some t \<Longrightarrow> t mod 4096 = 0"
proof (cases p rule: rev_cases)
  case (snoc q i)
  then show "tab m 3 r p = Some t \<Longrightarrow> ?thesis"
    by (auto simp: tab_snoc next_tab_def Let_def table_of_aligned split: bind_splits if_splits)
qed auto

lemma pt_okD:
  assumes "pt_ok m r"
  shows "tab m 3 r p = Some t \<Longrightarrow> t mod 4096 = 0"
    "is_path p \<Longrightarrow> is_path q \<Longrightarrow> tab m 3 r p = Some t \<Longrightarrow> tab m 3 r q = Some t \<Longrightarrow> p = q"
    "is_path p \<Longrightarrow> length p = 2 \<Longrightarrow> tab m 3 r p = Some t \<Longrightarrow> i < 512 \<Longrightarrow> m (t + 8 * i) AND PS_2MB \<noteq> 0 \<Longrightarrow>
       m (t + 8 * i) AND 0x1FF000 = 0"
    "r mod 4096 = 0"
proof -
  have r: "r mod 4096 = 0" and inj: "\<And>p q t. is_path p \<and> is_path q \<and> tab m 3 r p = Some t \<and> tab m 3 r q = Some t \<longrightarrow> p = q"
    and al: "\<And>p t i. is_path p \<and> length p = 2 \<and> tab m 3 r p = Some t \<and> i < 512 \<and> m (t + 8 * i) AND PS_2MB \<noteq> 0 \<longrightarrow>
        m (t + 8 * i) AND 0x1FF000 = 0"
    using assms unfolding pt_ok_def by auto
  show "r mod 4096 = 0" by (rule r)
  show "tab m 3 r p = Some t \<Longrightarrow> t mod 4096 = 0" using tab_aligned [OF r] .
  show "is_path p \<Longrightarrow> is_path q \<Longrightarrow> tab m 3 r p = Some t \<Longrightarrow> tab m 3 r q = Some t \<Longrightarrow> p = q" using inj by blast
  show "is_path p \<Longrightarrow> length p = 2 \<Longrightarrow> tab m 3 r p = Some t \<Longrightarrow> i < 512 \<Longrightarrow> m (t + 8 * i) AND PS_2MB \<noteq> 0 \<Longrightarrow>
       m (t + 8 * i) AND 0x1FF000 = 0" using al by blast
qed

text \<open>A memory that agrees on the entries of all tables but one.\<close>

definition agrees :: "(usize \<Rightarrow> u64) \<Rightarrow> usize \<Rightarrow> nat list \<Rightarrow> nat \<Rightarrow> (usize \<Rightarrow> u64) \<Rightarrow> bool" where
  "agrees m r p i m' \<longleftrightarrow>
     (\<forall>q t j. is_path q \<and> tab m 3 r q = Some t \<and> j < 512 \<and> (q, j) \<noteq> (p, i) \<longrightarrow> m' (t + 8 * j) = m (t + 8 * j))"

lemma agreesD:
  "agrees m r p i m' \<Longrightarrow> is_path q \<Longrightarrow> tab m 3 r q = Some t \<Longrightarrow> j < 512 \<Longrightarrow> (q, j) \<noteq> (p, i) \<Longrightarrow> m' (t + 8 * j) = m (t + 8 * j)"
  unfolding agrees_def by blast

lemma entry_apart:
  assumes "pt_ok m r" and "is_path p" and "tab m 3 r p = Some t" and "i < 512"
    and "is_path q" and "tab m 3 r q = Some u" and "j < 512" and "(q, j) \<noteq> (p, i)"
  shows "u + 8 * j \<noteq> t + 8 * i"
proof
  assume "u + 8 * j = t + 8 * i"
  then have e: "u = t" "j = i"
    using slot_inj [OF pt_okD(1) [OF assms(1,6)] pt_okD(1) [OF assms(1,3)] assms(7,4)] by auto
  then have "q = p" using pt_okD(2) [OF assms(1,5,2) _ assms(3)] assms(6) by auto
  then show False using assms(8) e by simp
qed

lemma agrees_upd:
  assumes "pt_ok m r" and "is_path p" and "tab m 3 r p = Some t" and "i < 512"
  shows "agrees m r p i (m(t + 8 * i := e))"
  unfolding agrees_def using entry_apart [OF assms] by auto

lemma tab_frame:
  assumes a: "agrees m r p i m'" and q: "is_path q" "\<nexists>q'. q = p @ i # q'"
  shows "tab m' 3 r q = tab m 3 r q"
  using q
proof (induction q rule: rev_induct)
  case (snoc j q)
  have "\<nexists>q'. q = p @ i # q'" using snoc.prems(2) by auto
  then have IH: "tab m' 3 r q = tab m 3 r q" using snoc.IH snoc.prems(1) by simp
  show ?case
  proof (cases "tab m 3 r q")
    case (Some t)
    have "(q, j) \<noteq> (p, i)" using snoc.prems(2) by auto
    then have "m' (t + 8 * j) = m (t + 8 * j)" using a Some snoc.prems(1) by (auto simp: agrees_def)
    then show ?thesis using Some IH by (simp add: tab_snoc next_tab_def)
  qed (simp add: tab_snoc IH)
qed simp

section \<open>The entry of a page\<close>

definition vpath :: "u64 \<Rightarrow> nat list" where
  "vpath v = [unat (pml4_i v), unat (pdp_i v), unat (pd_i v), unat (pt_i v)]"

text \<open>The entry a 4 KB page gets when the 2 MB page it is part of is split.\<close>

definition small_page :: "u64 \<Rightarrow> u64 \<Rightarrow> u64" where
  "small_page e i = (e AND PTE_MASK) + i * 4096 OR e AND NOT PS_2MB AND NOT PTE_MASK AND NOT 1 OR 1"

text \<open>
  What the tables say about the 4 KB page of an address: its entry, 0 where a level is missing, and
  for a part of a 2 MB page the entry it would have on its own.
\<close>

definition pte :: "(usize \<Rightarrow> u64) \<Rightarrow> usize \<Rightarrow> u64 \<Rightarrow> u64" where
  "pte m r v =
     (case pt_walk m r v of
        Absent \<Rightarrow> 0
      | Huge a \<Rightarrow> small_page (m a) (pt_i v)
      | Leaf a \<Rightarrow> m a)"

lemma index_less [simp]: "unat (pml4_i v) < 512" "unat (pdp_i v) < 512" "unat (pd_i v) < 512" "unat (pt_i v) < 512"
proof -
  have "unat (x AND 0x1FF) < 512" for x :: u64
    using unat_and_mask [of x 9] by (simp add: mask_eq_exp_minus_1)
  then show "unat (pml4_i v) < 512" "unat (pdp_i v) < 512" "unat (pd_i v) < 512" "unat (pt_i v) < 512"
    by (simp_all add: pml4_i_def pdp_i_def pd_i_def pt_i_def)
qed

lemma tab_simps3:
  "tab m 3 r [a] = next_tab m 0 r a"
  "tab m 3 r [a, b] = Option.bind (tab m 3 r [a]) (\<lambda>t. next_tab m 1 t b)"
  "tab m 3 r [a, b, c] = Option.bind (tab m 3 r [a, b]) (\<lambda>t. next_tab m 2 t c)"
  using tab_snoc [of m r "[]" a] tab_snoc [of m r "[a]" b] tab_snoc [of m r "[a, b]" c] by (simp_all add: numeral_2_eq_2)

text \<open>The walk stops at the level of 2 MB pages, or goes on to a table of 4 KB pages.\<close>

lemma pt_walk_tab:
  "pt_walk m r v = (case tab m 3 r [unat (pml4_i v), unat (pdp_i v)] of None \<Rightarrow> Absent | Some t \<Rightarrow>
     let a = t + 8 * unat (pd_i v)
     in if m a AND 1 = 0 then Absent
        else if m a AND PS_2MB \<noteq> 0 then Huge a else Leaf (table_of (m a) + 8 * unat (pt_i v)))"
  by (simp add: pt_walk_def tab_simps3 next_tab_def entry_at_def Let_def)

lemma pte_frame:
  assumes a: "agrees m r p i m'" and q: "\<nexists>q'. vpath v = p @ i # q'"
  shows "pt_walk m' r v = pt_walk m r v" "pte m' r v = pte m r v"
proof -
  let ?a = "unat (pml4_i v)" and ?b = "unat (pdp_i v)" and ?c = "unat (pd_i v)" and ?d = "unat (pt_i v)"
  have "\<nexists>q'. [?a, ?b] = p @ i # q'" "\<nexists>q'. [?a, ?b, ?c] = p @ i # q'"
    using q unfolding vpath_def by (metis append_Cons append_Nil append_assoc)+
  then have t: "tab m' 3 r [?a, ?b] = tab m 3 r [?a, ?b]" "tab m' 3 r [?a, ?b, ?c] = tab m 3 r [?a, ?b, ?c]"
    by (simp_all add: tab_frame [OF a])
  have ne: "([?a, ?b], ?c) \<noteq> (p, i)" "([?a, ?b, ?c], ?d) \<noteq> (p, i)" using q by (auto simp: vpath_def)
  have e2: "m' (t + 8 * ?c) = m (t + 8 * ?c)" if "tab m 3 r [?a, ?b] = Some t" for t
    using that ne(1) by (intro agreesD [OF a]) simp_all
  have e1: "m' (t + 8 * ?d) = m (t + 8 * ?d)" if "tab m 3 r [?a, ?b, ?c] = Some t" for t
    using that ne(2) by (intro agreesD [OF a]) simp_all
  show w: "pt_walk m' r v = pt_walk m r v"
    using e2 by (cases "tab m 3 r [?a, ?b]") (simp_all add: pt_walk_tab t Let_def)
  have "tab m 3 r [?a, ?b, ?c] = Some u" if "tab m 3 r [?a, ?b] = Some t" "m (t + 8 * ?c) AND 1 \<noteq> 0"
      "m (t + 8 * ?c) AND PS_2MB = 0" "u = table_of (m (t + 8 * ?c))" for t u
    using that by (simp add: tab_simps3(3) next_tab_def)
  then show "pte m' r v = pte m r v"
    using e2 e1 unfolding pte_def w by (cases "tab m 3 r [?a, ?b]") (auto simp: pt_walk_tab Let_def split: if_splits)
qed

lemma pt_okI:
  assumes "r mod 4096 = 0"
    and "\<And>p q t. is_path p \<Longrightarrow> is_path q \<Longrightarrow> tab m 3 r p = Some t \<Longrightarrow> tab m 3 r q = Some t \<Longrightarrow> p = q"
    and "\<And>p t i. is_path p \<Longrightarrow> length p = 2 \<Longrightarrow> tab m 3 r p = Some t \<Longrightarrow> i < 512 \<Longrightarrow> m (t + 8 * i) AND PS_2MB \<noteq> 0 \<Longrightarrow>
       m (t + 8 * i) AND 0x1FF000 = 0"
  shows "pt_ok m r"
  unfolding pt_ok_def using assms by auto

lemma pte_leaf:
  assumes "tab m 3 r [unat (pml4_i v), unat (pdp_i v), unat (pd_i v)] = Some t"
  shows "pte m r v = m (t + 8 * unat (pt_i v))" "pt_walk m r v = Leaf (t + 8 * unat (pt_i v))"
  using assms by (auto simp: tab_simps3(3) next_tab_def pte_def pt_walk_tab Let_def split: bind_splits if_splits)

lemma walk_leaf:
  assumes "pt_walk m r v = Leaf a"
  obtains t where "tab m 3 r [unat (pml4_i v), unat (pdp_i v), unat (pd_i v)] = Some t" "a = t + 8 * unat (pt_i v)"
  using assms by (auto simp: tab_simps3(3) next_tab_def pt_walk_tab Let_def split: option.splits if_splits)

lemma walk_vpath: "vpath w = vpath v \<Longrightarrow> pt_walk m r w = pt_walk m r v"
  by (simp add: pt_walk_tab vpath_def Let_def cong: option.case_cong if_cong)

text \<open>Writing the entry of a 4 KB page changes what the tables say about that page only.\<close>

lemma write_leaf:
  fixes e :: u64
  assumes ok: "pt_ok m r" and t: "tab m 3 r [unat (pml4_i v), unat (pdp_i v), unat (pd_i v)] = Some t"
  defines "m' \<equiv> m(t + 8 * unat (pt_i v) := e)"
  shows "pt_ok m' r" "tables m' r = tables m r" "pte m' r w = (if vpath w = vpath v then e else pte m r w)"
proof -
  let ?p = "[unat (pml4_i v), unat (pdp_i v), unat (pd_i v)]"
  have a: "agrees m r ?p (unat (pt_i v)) m'" unfolding m'_def using ok t by (intro agrees_upd) simp_all
  have tab: "tab m' 3 r q = tab m 3 r q" if "is_path q" for q
  proof (cases "\<exists>q'. q = ?p @ unat (pt_i v) # q'")
    case True
    then have "length q > 3" by auto
    then have "tab m' 3 r q = None" "tab m 3 r q = None" using tab_length by (metis not_le option.exhaust)+
    then show ?thesis by simp
  qed (use tab_frame [OF a that] in blast)
  show "tables m' r = tables m r" using tab by (auto simp: tables_def)
  show "pt_ok m' r"
  proof (rule pt_okI)
    fix p t i assume "is_path p" "length p = 2" "tab m' 3 r p = Some t" "i < 512" "m' (t + 8 * i) AND PS_2MB \<noteq> 0"
    moreover from this have "m' (t + 8 * i) = m (t + 8 * i)" using tab by (intro agreesD [OF a, of p]) auto
    ultimately show "m' (t + 8 * i) AND 0x1FF000 = 0" using pt_okD(3) [OF ok, of p t i] tab by simp
  qed (use tab pt_okD(2,4) [OF ok] in auto)
  show "pte m' r w = (if vpath w = vpath v then e else pte m r w)"
  proof (cases "vpath w = vpath v")
    case True
    then have w: "pml4_i w = pml4_i v" "pdp_i w = pdp_i v" "pd_i w = pd_i v" "pt_i w = pt_i v"
      by (auto simp: vpath_def word_unat_eq_iff)
    have "tab m' 3 r ?p = Some t" using tab [of ?p] t by simp
    then have "pte m' r w = m' (t + 8 * unat (pt_i v))" using pte_leaf(1) [of m' r w t] by (simp add: w)
    then show ?thesis using True by (simp add: m'_def)
  next
    case False
    then have "\<nexists>q'. vpath w = ?p @ unat (pt_i v) # q'" by (auto simp: vpath_def)
    then show ?thesis using pte_frame(2) [OF a] False by simp
  qed
qed

text \<open>Linking a new table into an entry that had none.\<close>

definition links :: "(usize \<Rightarrow> u64) \<Rightarrow> usize \<Rightarrow> nat list \<Rightarrow> nat \<Rightarrow> usize \<Rightarrow> usize \<Rightarrow> (usize \<Rightarrow> u64) \<Rightarrow> bool" where
  "links m r p i t f m' \<longleftrightarrow> is_path p \<and> length p \<le> 2 \<and> tab m 3 r p = Some t \<and> i < 512 \<and> tab m 3 r (p @ [i]) = None \<and>
     f \<notin> tables m r \<and> agrees m r p i m' \<and> table_of (m' (t + 8 * i)) = f \<and> m' (t + 8 * i) AND 1 \<noteq> 0 \<and>
     m' (t + 8 * i) AND PS_2MB = 0 \<and> (length p < 2 \<longrightarrow> (\<forall>j < 512. m' (f + 8 * j) = 0))"

lemma linksD:
  assumes "links m r p i t f m'"
  shows "is_path p" "length p \<le> 2" "tab m 3 r p = Some t" "i < 512" "tab m 3 r (p @ [i]) = None" "f \<notin> tables m r"
    "agrees m r p i m'" "table_of (m' (t + 8 * i)) = f" "m' (t + 8 * i) AND 1 \<noteq> 0" "m' (t + 8 * i) AND PS_2MB = 0"
    "length p < 2 \<Longrightarrow> j < 512 \<Longrightarrow> m' (f + 8 * j) = 0"
  using assms by (auto simp: links_def)

lemma links_tab:
  assumes l: "links m r p i t f m'"
  shows "tab m' 3 r p = Some t" "tab m' 3 r (p @ [i]) = Some f"
    "q \<noteq> [] \<Longrightarrow> is_path q \<Longrightarrow> tab m' 3 r (p @ i # q) = None" "tab m 3 r (p @ i # q) = None"
    "is_path q \<Longrightarrow> \<nexists>q'. q = p @ i # q' \<Longrightarrow> tab m' 3 r q = tab m 3 r q"
proof -
  note L = linksD [OF l]
  show fr: "is_path q \<Longrightarrow> \<nexists>q'. q = p @ i # q' \<Longrightarrow> tab m' 3 r q = tab m 3 r q" for q using tab_frame [OF L(7)] .
  show p: "tab m' 3 r p = Some t" using fr [of p] L(1,3) by auto
  then show f: "tab m' 3 r (p @ [i]) = Some f"
    using L(2,8,9,10) by (simp add: tab_snoc next_tab_def)
  show "tab m 3 r (p @ i # q) = None" using tab_prefix_None [OF L(5), of q] by simp
  show "q \<noteq> [] \<Longrightarrow> is_path q \<Longrightarrow> tab m' 3 r (p @ i # q) = None"
  proof (induction q rule: rev_induct)
    case (snoc j q)
    show ?case
    proof (cases "q = []")
      case True
      then show ?thesis
        using tab_snoc [of m' r "p @ [i]" j] f L(2) L(11) [of j] snoc.prems
        by (cases "length p < 2") (auto simp: next_tab_def Let_def)
    next
      case False
      then show ?thesis using tab_snoc [of m' r "p @ i # q" j] snoc by simp
    qed
  qed simp
qed

lemma links_ok:
  assumes ok: "pt_ok m r" and l: "links m r p i t f m'"
  shows "pt_ok m' r" "tables m' r = insert f (tables m r)"
proof -
  note L = linksD [OF l] and T = links_tab [OF l]
  have new: "tab m' 3 r q = Some u \<longleftrightarrow> q = p @ [i] \<and> u = f \<or> tab m 3 r q = Some u" if q: "is_path q" for q u
  proof (cases "\<exists>q'. q = p @ i # q'")
    case True
    then obtain q' where q': "q = p @ i # q'" by blast
    show ?thesis using T(2) T(3) [of q'] T(4) [of q'] q q' by (cases q') auto
  next
    case False
    then show ?thesis using T(5) [OF q] by auto
  qed
  have path: "is_path (p @ [i])" using L(1,4) by simp
  show "tables m' r = insert f (tables m r)"
    using new path T(2) by (auto simp: tables_def intro: exI [of _ "p @ [i]"])
  have old: "u \<noteq> f" if "is_path q" "tab m 3 r q = Some u" for q u using L(6) that by (auto simp: tables_def)
  show "pt_ok m' r"
  proof (rule pt_okI)
    fix q q' u assume a: "is_path q" "is_path q'" "tab m' 3 r q = Some u" "tab m' 3 r q' = Some u"
    then show "q = q'" using new [OF a(1)] new [OF a(2)] old pt_okD(2) [OF ok a(1,2)] by blast
  next
    fix q u j assume q: "is_path q" "length q = 2" "tab m' 3 r q = Some u" "j < 512" "m' (u + 8 * j) AND PS_2MB \<noteq> 0"
    then consider "q = p @ [i]" "u = f" | "tab m 3 r q = Some u" using new by blast
    then show "m' (u + 8 * j) AND 0x1FF000 = 0"
    proof cases
      case 1
      then show ?thesis using L(11) [of j] q(2,4) by simp
    next
      case 2
      have "(q, j) \<noteq> (p, i)" using q(5) 2 L(3,10) by auto
      then have "m' (u + 8 * j) = m (u + 8 * j)" using agreesD [OF L(7) q(1) 2 q(4)] by simp
      then show ?thesis using pt_okD(3) [OF ok q(1,2) 2 q(4)] q(5) by simp
    qed
  qed (use pt_okD(4) [OF ok] in auto)
qed

lemma pte_none:
  "tab m 3 r [unat (pml4_i v), unat (pdp_i v)] = None \<Longrightarrow> pte m r v = 0"
  "tab m 3 r [unat (pml4_i v), unat (pdp_i v)] = Some t \<Longrightarrow> m (t + 8 * unat (pd_i v)) AND 1 = 0 \<Longrightarrow> pte m r v = 0"
  by (simp_all add: pte_def pt_walk_tab Let_def)

lemma links_pte_empty:
  assumes l: "links m r p i t f m'" and e: "m (t + 8 * i) AND 1 = 0" and z: "\<forall>j < 512. m' (f + 8 * j) = 0"
  shows "pte m' r w = pte m r w"
proof (cases "\<exists>q. vpath w = p @ i # q")
  case False
  then show ?thesis using pte_frame(2) [OF linksD(7) [OF l]] by blast
next
  case True
  note L = linksD [OF l] and T = links_tab [OF l]
  let ?a = "unat (pml4_i w)" and ?b = "unat (pdp_i w)" and ?c = "unat (pd_i w)" and ?d = "unat (pt_i w)"
  from True L(2) consider "p = []" "i = ?a" | "p = [?a]" "i = ?b" | "p = [?a, ?b]" "i = ?c"
    by (auto simp: vpath_def Cons_eq_append_conv)
  then have "pte m r w = 0 \<and> pte m' r w = 0"
  proof cases
    case 1
    then show ?thesis using T(3) [of "[?b]"] T(4) [of "[?b]"] by (simp add: pte_none(1))
  next
    case 2
    then show ?thesis using L(5) T(2) z by (simp add: pte_none(1) pte_none(2) [of m' r w f])
  next
    case 3
    then show ?thesis using L(3) e T(2) z pte_leaf(1) [of m' r w f] by (simp add: pte_none(2) [of m r w t])
  qed
  then show ?thesis by simp
qed

lemma links_pte_split:
  assumes l: "links m r p i t f m'" and p: "length p = 2" and e: "m (t + 8 * i) AND 1 \<noteq> 0" "m (t + 8 * i) AND PS_2MB \<noteq> 0"
    and s: "\<forall>j < 512. m' (f + 8 * j) = small_page (m (t + 8 * i)) (of_nat j)"
  shows "pte m' r w = pte m r w"
proof (cases "\<exists>q. vpath w = p @ i # q")
  case False
  then show ?thesis using pte_frame(2) [OF linksD(7) [OF l]] by blast
next
  case True
  note L = linksD [OF l] and T = links_tab [OF l]
  let ?a = "unat (pml4_i w)" and ?b = "unat (pdp_i w)" and ?c = "unat (pd_i w)" and ?d = "unat (pt_i w)"
  from True p have p: "p = [?a, ?b]" "i = ?c" by (auto simp: vpath_def Cons_eq_append_conv)
  have "pte m r w = small_page (m (t + 8 * i)) (pt_i w)"
    using L(3) p e by (simp add: pte_def pt_walk_tab Let_def)
  moreover have "pte m' r w = small_page (m (t + 8 * i)) (of_nat ?d)"
    using T(2) p pte_leaf(1) [of m' r w f] s by simp
  ultimately show ?thesis by simp
qed

section \<open>The invariant\<close>

text \<open>
  The tables under \<open>r\<close> are well formed and none of them is in a free frame, so that a frame the
  allocator hands out is never one of them; physical memory fits the address field of an entry.
\<close>

definition pg_ok :: "usize \<Rightarrow> paging \<Rightarrow> bool" where
  "pg_ok r s \<longleftrightarrow> pmm_inv (frames s) \<and> TOTAL_FRAMES (frames s) \<le> 2 ^ 40 \<and> 0 \<notin> free_frames (frames s) \<and>
     pt_ok (pmem s) r \<and> (\<forall>t \<in> tables (pmem s) r. t div 4096 \<notin> free_frames (frames s))"

lemma pg_okD:
  assumes "pg_ok r s"
  shows "pmm_inv (frames s)" "TOTAL_FRAMES (frames s) \<le> 2 ^ 40" "0 \<notin> free_frames (frames s)" "pt_ok (pmem s) r"
    "t \<in> tables (pmem s) r \<Longrightarrow> t div 4096 \<notin> free_frames (frames s)"
  using assms by (auto simp: pg_ok_def)

text \<open>New tables were added, in frames that were free, and nothing else happened.\<close>

definition grown :: "usize \<Rightarrow> paging \<Rightarrow> paging \<Rightarrow> bool" where
  "grown r s s' \<longleftrightarrow> pg_ok r s' \<and> (\<forall>w. pte (pmem s') r w = pte (pmem s) r w) \<and>
     free_frames (frames s') \<subseteq> free_frames (frames s) \<and>
     (\<forall>t \<in> tables (pmem s') r. t \<in> tables (pmem s) r \<or> t div 4096 \<in> free_frames (frames s)) \<and>
     (\<forall>a. a div 4096 \<notin> free_frames (frames s) \<and> a div 4096 * 4096 \<notin> tables (pmem s) r \<longrightarrow> pmem s' a = pmem s a) \<and>
     s' = s\<lparr>pmem := pmem s', frames := frames s'\<rparr>"

lemma grownD:
  assumes "grown r s s'"
  shows "pg_ok r s'" "pte (pmem s') r w = pte (pmem s) r w" "free_frames (frames s') \<subseteq> free_frames (frames s)"
    "t \<in> tables (pmem s') r \<Longrightarrow> t \<in> tables (pmem s) r \<or> t div 4096 \<in> free_frames (frames s)"
    "a div 4096 \<notin> free_frames (frames s) \<Longrightarrow> a div 4096 * 4096 \<notin> tables (pmem s) r \<Longrightarrow> pmem s' a = pmem s a"
    "s' = s\<lparr>pmem := pmem s', frames := frames s'\<rparr>"
  using assms unfolding grown_def by blast+

lemma grown_refl: "pg_ok r s \<Longrightarrow> grown r s s"
  by (simp add: grown_def)

lemma tables_aligned: "pt_ok m r \<Longrightarrow> t \<in> tables m r \<Longrightarrow> t mod 4096 = 0"
  using pt_okD(1) by (auto simp: tables_def)

lemma grown_trans:
  assumes a: "grown r s s'" and b: "grown r s' s''"
  shows "grown r s s''"
  unfolding grown_def
proof (intro conjI allI impI ballI)
  note A = grownD [OF a] and B = grownD [OF b]
  show "pg_ok r s''" by (rule B(1))
  show "pte (pmem s'') r w = pte (pmem s) r w" for w using A(2) B(2) by simp
  show "free_frames (frames s'') \<subseteq> free_frames (frames s)" using A(3) B(3) by blast
  show "t \<in> tables (pmem s) r \<or> t div 4096 \<in> free_frames (frames s)" if "t \<in> tables (pmem s'') r" for t
    using A(3,4) B(4) [OF that] by blast
  show "s'' = s\<lparr>pmem := pmem s'', frames := frames s''\<rparr>" using A(6) B(6) by (metis (no_types, lifting) paging.update_convs(1,2) paging.fold_congs(1,2) paging.surjective)
  fix x assume x: "x div 4096 \<notin> free_frames (frames s) \<and> x div 4096 * 4096 \<notin> tables (pmem s) r"
  then have "x div 4096 \<notin> free_frames (frames s')" "x div 4096 * 4096 \<notin> tables (pmem s') r"
    using A(3) A(4) [of "x div 4096 * 4096"] by auto
  with x show "pmem s'' x = pmem s x" using A(5) B(5) by simp
qed

text \<open>A frame from a frame allocator whose frames fit the address field of an entry.\<close>

definition frames_ok :: "pmm \<Rightarrow> bool" where
  "frames_ok p \<longleftrightarrow> pmm_inv p \<and> TOTAL_FRAMES p \<le> 2 ^ 40 \<and> 0 \<notin> free_frames p"

lemma take_frame_cases:
  assumes "frames_ok q"
  obtains (null) "krust_pmm_alloc_frame q = (usize_max, q)" "free_frames q = {}"
  | (new) f p where "krust_pmm_alloc_frame q = (f, p)" "f \<in> free_frames q" "f < 2 ^ 40" "f \<noteq> 0"
      "f \<noteq> usize_max" "f * 4096 mod usize_mod = f * 4096"
      "pmm_inv p" "free_frames p = free_frames q - {f}" "TOTAL_FRAMES p = TOTAL_FRAMES q"
proof (cases "free_frames q = {}")
  case True
  then show thesis using pmm_frames.alloc_empty [of q] assms by (intro null) (simp_all add: frames_ok_def)
next
  case False
  have P: "pmm_inv q" "TOTAL_FRAMES q \<le> 2 ^ 40" "0 \<notin> free_frames q" using assms by (simp_all add: frames_ok_def)
  obtain f p where fp: "krust_pmm_alloc_frame q = (f, p)" by (cases "krust_pmm_alloc_frame q")
  have f: "f \<in> free_frames q" using pmm_frames.alloc_frame [OF P(1) False] fp by simp
  then have b: "f < 2 ^ 40" "f \<noteq> 0" using P(2,3) by (auto simp: free_frames_def intro: gr0I)
  have "all_frames p = all_frames q" using pmm_frames.alloc_managed [OF P(1)] fp by simp
  then have "TOTAL_FRAMES p = TOTAL_FRAMES q" by (simp add: all_frames_def)
  moreover have "f * 4096 mod usize_mod = f * 4096" "f \<noteq> usize_max" using b(1) by (simp_all add: usize_mod_def usize_max_def)
  ultimately show thesis
    using fp pmm_frames.alloc_inv [OF P(1)] pmm_frames.alloc_avail [OF P(1)] by (intro new [OF fp f b]) simp_all
qed

lemma frame_alloc_cases:
  assumes "pg_ok r s"
  obtains (null) "krust_pmm_alloc_frame (frames s) = (usize_max, frames s)" "free_frames (frames s) = {}"
  | (new) f p where "krust_pmm_alloc_frame (frames s) = (f, p)" "f \<in> free_frames (frames s)" "f < 2 ^ 40" "f \<noteq> 0"
      "f \<noteq> usize_max" "f * 4096 mod usize_mod = f * 4096"
      "pmm_inv p" "free_frames p = free_frames (frames s) - {f}" "TOTAL_FRAMES p = TOTAL_FRAMES (frames s)"
proof -
  have "frames_ok (frames s)" using assms by (simp add: pg_ok_def frames_ok_def)
  then show thesis by (cases rule: take_frame_cases) (blast intro: null new)+
qed

lemma table_alloc_cases:
  assumes "pg_ok r s"
  obtains (null) "table_alloc s = (0, s)" "free_frames (frames s) = {}"
  | (new) f p where "f \<in> free_frames (frames s)" "f < 2 ^ 40" "f \<noteq> 0"
      "table_alloc s = (f * 4096, clear_page (f * 4096) (s\<lparr>frames := p\<rparr>))"
      "pmm_inv p" "free_frames p = free_frames (frames s) - {f}" "TOTAL_FRAMES p = TOTAL_FRAMES (frames s)"
  using assms
proof (cases rule: frame_alloc_cases)
  case null
  then show thesis by (intro that(1)) (simp_all add: table_alloc_def)
next
  case (new f p)
  then show thesis by (intro that(2) [of f p]) (simp_all add: table_alloc_def Let_def)
qed

lemma new_entry:
  assumes f: "f < 2 ^ 40" and fl: "fl = 3 \<or> fl = (7 :: u64)"
  defines "e \<equiv> of_nat (f * 4096) OR fl"
  shows "table_of e = f * 4096" "e AND 1 \<noteq> 0" "e AND PS_2MB = 0"
proof -
  let ?w = "push_bit 12 (of_nat f :: u64)"
  have w: "(of_nat (f * 4096) :: u64) = ?w" by (simp add: push_bit_eq_mult)
  have flb: "bit fl n \<longleftrightarrow> n < 2 \<or> n = 2 \<and> fl = 7" for n using fl by (auto simp: mask_bits)
  have fb: "n < 52" if "bit (of_nat f :: u64) (n - 12)" for n
  proof -
    have "take_bit 40 f = f" using f by (simp add: take_bit_nat_eq_self)
    then have "n - 12 < 40" using that by (metis bit_take_bit_iff bit_of_nat_iff)
    then show ?thesis by simp
  qed
  have "e AND PTE_MASK = ?w"
    unfolding e_def w by (rule bit_word_eqI) (use fb in \<open>auto simp: bit_simps mask_bits flb\<close>)
  moreover have "unat ?w = f * 4096" unfolding w [symmetric] using f by (intro unat_of_nat_small) simp
  ultimately show "table_of e = f * 4096" by (simp add: table_of_def)
  show "e AND PS_2MB = 0" unfolding e_def w by (rule bit_word_eqI) (auto simp: bit_simps mask_bits flb)
  have "bit e 0" unfolding e_def w by (simp add: bit_simps flb)
  then show "e AND 1 \<noteq> 0" by (simp add: and_one_eq bit_0 odd_iff_mod_2_eq_one)
qed

lemma page_start: "t mod 4096 = 0 \<Longrightarrow> t div 4096 * 4096 = (t :: nat)"
  by (metis add.right_neutral div_mult_mod_eq)

text \<open>A table in a frame that was free, linked into an entry that led to no table.\<close>

lemma grown_links:
  assumes ok: "pg_ok r s" and f: "f \<in> free_frames (frames s)" "pmm_inv p" "free_frames p = free_frames (frames s) - {f}"
    "TOTAL_FRAMES p = TOTAL_FRAMES (frames s)"
    and q: "is_path q" "length q \<le> 2" "tab (pmem s) 3 r q = Some t" "i < 512" "tab (pmem s) 3 r (q @ [i]) = None"
    and m: "\<And>a. a div 4096 \<noteq> f \<Longrightarrow> a \<noteq> t + 8 * i \<Longrightarrow> m' a = pmem s a"
    and e: "table_of (m' (t + 8 * i)) = f * 4096" "m' (t + 8 * i) AND 1 \<noteq> 0" "m' (t + 8 * i) AND PS_2MB = 0"
    and z: "length q < 2 \<Longrightarrow> \<forall>j < 512. m' (f * 4096 + 8 * j) = 0"
    and pt: "links (pmem s) r q i t (f * 4096) m' \<Longrightarrow> \<forall>w. pte m' r w = pte (pmem s) r w"
    and s': "s' = s\<lparr>pmem := m', frames := p\<rparr>"
  shows "grown r s s'" "tab (pmem s') 3 r q = Some t"
proof -
  note P = pg_okD [OF ok]
  have new: "f * 4096 \<notin> tables (pmem s) r" using P(5) [of "f * 4096"] f(1) by auto
  have t: "t \<in> tables (pmem s) r" using q(1,3) by (auto simp: tables_def)
  have "agrees (pmem s) r q i m'"
    unfolding agrees_def
  proof (intro allI impI)
    fix p u j assume a: "is_path p \<and> tab (pmem s) 3 r p = Some u \<and> j < 512 \<and> (p, j) \<noteq> (q, i)"
    then have "u \<in> tables (pmem s) r" by (auto simp: tables_def)
    then have "(u + 8 * j) div 4096 \<noteq> f" using in_page [OF tables_aligned [OF P(4)]] P(5) f(1) a by auto
    moreover have "u + 8 * j \<noteq> t + 8 * i"
      using entry_apart [OF P(4) q(1,3,4)] a by blast
    ultimately show "m' (u + 8 * j) = pmem s (u + 8 * j)" by (rule m)
  qed
  then have l: "links (pmem s) r q i t (f * 4096) m'" unfolding links_def using q new e z by blast
  note K = links_ok [OF P(4) l]
  show "tab (pmem s') 3 r q = Some t" using links_tab(1) [OF l] by (simp add: s')
  have ft: "f \<notin> free_frames p" using f(3) by simp
  show "grown r s s'"
    unfolding grown_def s' pg_ok_def using P f K pt [OF l] ft
  proof (simp, intro conjI allI impI)
    fix a assume a: "a div 4096 \<notin> free_frames (frames s) \<and> a div 4096 * 4096 \<notin> tables (pmem s) r"
    have "a \<noteq> t + 8 * i" using in_page [OF tables_aligned [OF P(4) t] q(4)] page_start [OF tables_aligned [OF P(4) t]] t a by auto
    then show "m' a = pmem s a" using a f(1) by (intro m) auto
  qed
qed

lemma cleared_other: "a div 4096 \<noteq> f \<Longrightarrow> cleared (f * 4096) m a = m a"
  by (auto simp: cleared_def)

lemma ensure_table_ok:
  assumes ok: "pg_ok r s" and fl: "fl = 3 \<or> fl = 7"
    and q: "is_path q" "length q \<le> 2" "tab (pmem s) 3 r q = Some t" "i < 512"
    and e: "ensure_table fl (t + 8 * i) s = (b, s')"
  shows "grown r s s'" "tab (pmem s') 3 r q = Some t"
    "b \<Longrightarrow> pmem s' (t + 8 * i) AND 1 \<noteq> 0" "\<not> b \<Longrightarrow> s' = s \<and> free_frames (frames s) = {}"
proof -
  let ?a = "t + 8 * i"
  have "grown r s s' \<and> tab (pmem s') 3 r q = Some t \<and> (b \<longrightarrow> pmem s' ?a AND 1 \<noteq> 0) \<and>
      (\<not> b \<longrightarrow> s' = s \<and> free_frames (frames s) = {})"
  proof (cases "pmem s ?a AND 1 = 0")
    case False
    then show ?thesis using e q(3) grown_refl [OF ok] by (auto simp: ensure_table_def)
  next
    case True
    from ok show ?thesis
    proof (cases rule: table_alloc_cases)
      case null
      then show ?thesis using e True q(3) grown_refl [OF ok] by (auto simp: ensure_table_def)
    next
      case (new f p)
      let ?m = "(cleared (f * 4096) (pmem s))(?a := of_nat (f * 4096) OR fl)"
      have s': "b" "s' = s\<lparr>pmem := ?m, frames := p\<rparr>"
        using e True new(3,4) by (auto simp: ensure_table_def set_entry_def clear_page_def)
      note E = new_entry [OF new(2) fl]
      have z: "?m (f * 4096 + 8 * j) = 0" if "j < 512" for j
      proof -
        have "t \<in> tables (pmem s) r" using q(1,3) by (auto simp: tables_def)
        then have "?a div 4096 \<noteq> f" using pg_okD(5) [OF ok] in_page [OF pt_okD(1) [OF pg_okD(4) [OF ok] q(3)] q(4)] new(1) by auto
        moreover have "(f * 4096 + 8 * j) div 4096 = f" using that by simp
        ultimately show ?thesis using that by (auto simp: cleared_def)
      qed
      have m: "?m x = pmem s x" if "x div 4096 \<noteq> f" "x \<noteq> ?a" for x using that by (auto simp: cleared_other)
      have "tab (pmem s) 3 r (q @ [i]) = None" using True q(3) by (simp add: tab_snoc next_tab_def)
      from ok new(1,5,6,7) q this have "grown r s s' \<and> tab (pmem s') 3 r q = Some t"
        using grown_links [of r s f p q t i ?m s'] m E z links_pte_empty [of "pmem s" r q i t "f * 4096" ?m] True s' by simp
      then show ?thesis using s' E by simp
    qed
  qed
  then show "grown r s s'" "tab (pmem s') 3 r q = Some t"
    "b \<Longrightarrow> pmem s' (t + 8 * i) AND 1 \<noteq> 0" "\<not> b \<Longrightarrow> s' = s \<and> free_frames (frames s) = {}" by auto
qed

text \<open>Filling a table.\<close>

definition filled :: "usize \<Rightarrow> (nat \<Rightarrow> u64) \<Rightarrow> nat \<Rightarrow> (usize \<Rightarrow> u64) \<Rightarrow> usize \<Rightarrow> u64" where
  "filled nt g n m = (\<lambda>x. if (\<exists>j < n. x = nt + 8 * j) then g ((x - nt) div 8) else m x)"

lemma filled_Suc: "(filled nt g n m)(nt + 8 * n := g n) = filled nt g (Suc n) m"
  by (auto simp: filled_def fun_eq_iff less_Suc_eq)

lemma fill_table: "fold (\<lambda>j. set_entry (nt + 8 * j) (g j)) [0..<n] s = s\<lparr>pmem := filled nt g n (pmem s)\<rparr>"
proof (induction n)
  case 0
  then show ?case by (simp add: filled_def)
next
  case (Suc n)
  then show ?case by (simp add: set_entry_def filled_Suc)
qed

lemma filled_in: "j < n \<Longrightarrow> filled nt g n m (nt + 8 * j) = g j"
  by (auto simp: filled_def)

lemma filled_out: "n \<le> 512 \<Longrightarrow> x div 4096 \<noteq> f \<Longrightarrow> filled (f * 4096) g n m x = m x"
  by (auto simp: filled_def)

lemma split_huge_filled:
  assumes "pmem s a AND PS_2MB \<noteq> 0"
  shows "split_huge a s = (case table_alloc s of (nt, s') \<Rightarrow>
     if nt = 0 then (False, s')
     else (True, set_entry a (of_nat nt OR 3) (s'\<lparr>pmem := filled nt (\<lambda>j. small_page (pmem s a) (of_nat j)) 512 (pmem s')\<rparr>)))"
  unfolding split_huge_def if_P [OF assms] Let_def small_page_def fill_table [symmetric] ..

lemma split_huge_ok:
  assumes ok: "pg_ok r s" and q: "is_path q" "length q = 2" "tab (pmem s) 3 r q = Some t" "i < 512"
    and pr: "pmem s (t + 8 * i) AND 1 \<noteq> 0" and e: "split_huge (t + 8 * i) s = (b, s')"
  shows "grown r s s'" "b \<Longrightarrow> tab (pmem s') 3 r (q @ [i]) = Some (table_of (pmem s' (t + 8 * i)))"
    "tab (pmem s') 3 r q = Some t" "\<not> b \<Longrightarrow> s' = s \<and> free_frames (frames s) = {}"
proof -
  let ?a = "t + 8 * i"
  have "grown r s s' \<and> tab (pmem s') 3 r q = Some t \<and> (b \<longrightarrow> pmem s' ?a AND 1 \<noteq> 0 \<and> pmem s' ?a AND PS_2MB = 0) \<and>
      (\<not> b \<longrightarrow> s' = s \<and> free_frames (frames s) = {})"
  proof (cases "pmem s ?a AND PS_2MB = 0")
    case True
    then show ?thesis using e q(3) pr grown_refl [OF ok] by (auto simp: split_huge_def)
  next
    case huge: False
    from ok show ?thesis
    proof (cases rule: table_alloc_cases)
      case null
      then show ?thesis using e huge q(3) grown_refl [OF ok] by (auto simp: split_huge_def)
    next
      case (new f p)
      define g where "g j = small_page (pmem s ?a) (of_nat j)" for j
      define m where "m = (filled (f * 4096) g 512 (cleared (f * 4096) (pmem s)))(?a := of_nat (f * 4096) OR 3)"
      have s': "b" "s' = s\<lparr>pmem := m, frames := p\<rparr>"
        using e huge new(3,4) by (auto simp: split_huge_filled g_def [symmetric] m_def set_entry_def clear_page_def)
      note E = new_entry [OF new(2), of 3]
      have "t \<in> tables (pmem s) r" using q(1,3) by (auto simp: tables_def)
      then have "?a div 4096 \<noteq> f" using pg_okD(5) [OF ok] in_page [OF pt_okD(1) [OF pg_okD(4) [OF ok] q(3)] q(4)] new(1) by auto
      then have z: "m (f * 4096 + 8 * j) = g j" if "j < 512" for j
        using that filled_in [OF that, of "f * 4096" g] unfolding m_def by (subst fun_upd_other) auto
      have mo: "m x = pmem s x" if "x div 4096 \<noteq> f" "x \<noteq> ?a" for x
        using that by (simp add: m_def filled_out cleared_other)
      have "tab (pmem s) 3 r (q @ [i]) = None" using huge q(2,3) by (simp add: tab_snoc next_tab_def)
      from ok new(1,5,6,7) q this have "grown r s s' \<and> tab (pmem s') 3 r q = Some t"
        using grown_links [of r s f p q t i m s'] mo E z links_pte_split [of "pmem s" r q i t "f * 4096" m] huge pr s' g_def m_def by simp
      then show ?thesis using s' E m_def by simp
    qed
  qed
  then show "grown r s s'" "tab (pmem s') 3 r q = Some t" "\<not> b \<Longrightarrow> s' = s \<and> free_frames (frames s) = {}"
    "b \<Longrightarrow> tab (pmem s') 3 r (q @ [i]) = Some (table_of (pmem s' (t + 8 * i)))"
    using q(2) by (auto simp: tab_snoc next_tab_def)
qed

section \<open>Translation\<close>

lemma small_page_bits:
  assumes "e AND 0x1FF000 = 0"
  shows "small_page e (pt_i w) AND PTE_MASK OR w AND 0xFFF = e AND PTE_MASK OR w AND 0x1FFFFF"
    "small_page e i AND 1 \<noteq> 0"
proof -
  have eb: "\<not> bit e n" if "12 \<le> n" "n < 21" for n
  proof -
    have "\<not> bit (e AND 0x1FF000) n" using assms by simp
    then show ?thesis using that by (simp add: bit_simps mask_bits)
  qed
  have ib: "bit (pt_i w) n \<longleftrightarrow> n < 9 \<and> bit w (n + 12)" for n
    by (auto simp: pt_i_def bit_simps mask_bits add.commute)
  have p: "pt_i w * 4096 = push_bit 12 (pt_i w)" by (simp add: push_bit_eq_mult)
  have "(e AND PTE_MASK) + pt_i w * 4096 = (e AND PTE_MASK) OR push_bit 12 (pt_i w)"
    unfolding p
  proof (rule disjunctive_add)
    fix n show "\<not> bit (e AND PTE_MASK) n \<or> \<not> bit (push_bit 12 (pt_i w)) n"
      using eb [of n] by (auto simp: bit_simps mask_bits ib)
  qed
  then show "small_page e (pt_i w) AND PTE_MASK OR w AND 0xFFF = e AND PTE_MASK OR w AND 0x1FFFFF"
    unfolding small_page_def
    by (intro bit_word_eqI) (use eb in \<open>auto simp: bit_simps mask_bits ib\<close>)
  have "bit (small_page e i) 0" by (simp add: small_page_def bit_simps)
  then show "small_page e i AND 1 \<noteq> 0" by (simp add: and_one_eq bit_0 odd_iff_mod_2_eq_one)
qed

section \<open>Mapping a page\<close>

text \<open>A present entry above the level of 2 MB pages leads to a table.\<close>

lemma tab_step:
  assumes "tab m 3 r q = Some t" and "length q < 2" and "m (t + 8 * i) AND 1 \<noteq> 0"
  shows "tab m 3 r (q @ [i]) = Some (table_of (m (t + 8 * i)))"
  using assms by (simp add: tab_snoc next_tab_def)

lemma map_page_steps:
  assumes ok: "pg_ok r s" and r: "r = unat pml4" and m: "krust_paging_map_page_in pml4 virt phys flags s = (b, s')"
  obtains (failed) "\<not> b" "grown r s s'" "free_frames (frames s') = {}"
  | (mapped) s4 t1 where "b" "grown r s s4"
      "tab (pmem s4) 3 r [unat (pml4_i virt), unat (pdp_i virt), unat (pd_i virt)] = Some t1"
      "s' = set_entry (t1 + 8 * unat (pt_i virt)) (phys AND PTE_MASK OR flags AND FLAGS_MASK OR 1) s4"
proof -
  let ?i4 = "unat (pml4_i virt)" and ?i3 = "unat (pdp_i virt)" and ?i2 = "unat (pd_i virt)"
  obtain b1 s1 where 1: "ensure_table 3 (r + 8 * ?i4) s = (b1, s1)" by fastforce
  note E1 = ensure_table_ok [OF ok _ _ _ _ _ 1, of "[]", simplified]
  show thesis
  proof (cases b1)
    case False
    then show thesis using m 1 E1 r by (intro failed) (auto simp: krust_paging_map_page_in_def entry_at_def)
  next
    case b1: True
    let ?t3 = "table_of (pmem s1 (r + 8 * ?i4))"
    have t3: "tab (pmem s1) 3 r [?i4] = Some ?t3" using tab_step [of "pmem s1" r "[]" r ?i4] E1 b1 by simp
    obtain b2 s2 where 2: "ensure_table 3 (?t3 + 8 * ?i3) s1 = (b2, s2)" by fastforce
    note E2 = ensure_table_ok [OF grownD(1) [OF E1(1)] _ _ _ t3 _ 2, simplified]
    show thesis
    proof (cases b2)
      case False
      then show thesis using m 1 2 b1 E1(1) E2 r grown_trans [OF E1(1) E2(1)]
        by (intro failed) (auto simp: krust_paging_map_page_in_def entry_at_def Let_def)
    next
      case b2: True
      let ?t2 = "table_of (pmem s2 (?t3 + 8 * ?i3))"
      have t2: "tab (pmem s2) 3 r [?i4, ?i3] = Some ?t2" using tab_step [OF E2(2), of ?i3] E2(3) b2 by simp
      obtain b3 s3 where 3: "ensure_table 3 (?t2 + 8 * ?i2) s2 = (b3, s3)" by fastforce
      note E3 = ensure_table_ok [OF grownD(1) [OF E2(1)] _ _ _ t2 _ 3, simplified]
      note G3 = grown_trans [OF grown_trans [OF E1(1) E2(1)] E3(1)]
      show thesis
      proof (cases b3)
        case False
        then show thesis using m 1 2 3 b1 b2 E3 r G3
          by (intro failed) (auto simp: krust_paging_map_page_in_def entry_at_def Let_def)
      next
        case b3: True
        obtain b4 s4 where 4: "split_huge (?t2 + 8 * ?i2) s3 = (b4, s4)" by fastforce
        note E4 = split_huge_ok [OF grownD(1) [OF E3(1)] _ _ E3(2) _ _ 4, simplified, OF E3(3) [OF b3]]
        note G4 = grown_trans [OF G3 E4(1)]
        show thesis
        proof (cases b4)
          case False
          then show thesis using m 1 2 3 4 b1 b2 b3 E4 r G4
            by (intro failed) (auto simp: krust_paging_map_page_in_def entry_at_def Let_def)
        next
          case b4: True
          then show thesis using m 1 2 3 4 b1 b2 b3 E4(2) r G4
            by (intro mapped [of s4 "table_of (pmem s4 (?t2 + 8 * ?i2))"])
              (auto simp: krust_paging_map_page_in_def entry_at_def Let_def)
        qed
      qed
    qed
  qed
qed

lemma vpath_self: "tab m 3 r [unat (pml4_i v), unat (pdp_i v), unat (pd_i v)] = Some t \<Longrightarrow> t \<in> tables m r"
  by (auto simp: tables_def intro!: exI [of _ "[unat (pml4_i v), unat (pdp_i v), unat (pd_i v)]"])

lemma map_page_effect:
  assumes "pg_ok (unat pml4) s" and "krust_paging_map_page_in pml4 virt phys flags s = (b, s')"
  shows "pg_ok (unat pml4) s' \<and> (\<not> b \<longrightarrow> free_frames (frames s') = {}) \<and> s' = s\<lparr>pmem := pmem s', frames := frames s'\<rparr> \<and>
    (\<forall>w. pte (pmem s') (unat pml4) w =
       (if b \<and> vpath w = vpath virt then phys AND PTE_MASK OR flags AND FLAGS_MASK OR 1 else pte (pmem s) (unat pml4) w)) \<and>
    (\<forall>a. a div 4096 \<notin> free_frames (frames s) \<and> a div 4096 * 4096 \<notin> tables (pmem s) (unat pml4) \<longrightarrow> pmem s' a = pmem s a)"
  using assms(1) refl assms(2)
proof (cases rule: map_page_steps)
  case failed
  then show ?thesis using grownD [OF failed(2)] by auto
next
  case (mapped s4 t1)
  note G = grownD [OF mapped(2)] and P = pg_okD [OF G(1)]
  note W = write_leaf [OF P(4) mapped(3), of "phys AND PTE_MASK OR flags AND FLAGS_MASK OR 1"]
  have t1: "t1 \<in> tables (pmem s4) (unat pml4)" using mapped(3) by (rule vpath_self)
  have "pg_ok (unat pml4) s'" using W(1,2) P unfolding pg_ok_def mapped(4) by (simp add: set_entry_def)
  moreover have "pmem s' a = pmem s a"
    if "a div 4096 \<notin> free_frames (frames s)" "a div 4096 * 4096 \<notin> tables (pmem s) (unat pml4)" for a
  proof -
    have "a \<noteq> t1 + 8 * unat (pt_i virt)"
      using in_page [OF tables_aligned [OF P(4) t1], of "unat (pt_i virt)"] page_start [OF tables_aligned [OF P(4) t1]]
        G(4) [OF t1] that by auto
    then show ?thesis using G(5) [OF that] by (simp add: mapped(4) set_entry_def)
  qed
  moreover have "s' = s\<lparr>pmem := pmem s', frames := frames s'\<rparr>" using G(6) by (metis mapped(4) set_entry_def paging.surjective paging.update_convs(1,2) paging.select_convs)
  ultimately show ?thesis using mapped(1) W(3) G(2) by (simp add: mapped(4) set_entry_def)
qed

text \<open>
  C9. Mapping a page in an address space whose tables no other entry shares: the call either reports that no
  free frame was left, and then no translation of the address space has changed, or it has given exactly
  the page of the address the new entry; every other page, also those of a 2 MB page that had to be split,
  is translated as before. The tables stay well formed, and no memory changes but the tables and frames
  that were free.
\<close>

theorem paging_map_correct:
  assumes "pg_ok (unat pml4) s" and "krust_paging_map_page_in pml4 virt phys flags s = (b, s')"
  shows "pg_ok (unat pml4) s' \<and> (\<not> b \<longrightarrow> free_frames (frames s') = {}) \<and>
    (\<forall>w. pte (pmem s') (unat pml4) w =
       (if b \<and> vpath w = vpath virt then phys AND PTE_MASK OR flags AND FLAGS_MASK OR 1 else pte (pmem s) (unat pml4) w)) \<and>
    (\<forall>a. a div 4096 \<notin> free_frames (frames s) \<and> a div 4096 * 4096 \<notin> tables (pmem s) (unat pml4) \<longrightarrow> pmem s' a = pmem s a)"
  using map_page_effect [OF assms] by blast

lemma get_phys_pte:
  assumes "pt_ok (pmem s) (unat (cr3 s))"
  shows "krust_paging_get_phys w s =
    (let e = pte (pmem s) (unat (cr3 s)) w in if e AND 1 = 0 then NOT 0 else e AND PTE_MASK OR w AND 0xFFF)"
proof (cases "tab (pmem s) 3 (unat (cr3 s)) [unat (pml4_i w), unat (pdp_i w)]")
  case None
  then show ?thesis by (simp add: krust_paging_get_phys_def pte_def pt_walk_tab)
next
  case (Some t)
  let ?e = "pmem s (t + 8 * unat (pd_i w))"
  have "?e AND PS_2MB \<noteq> 0 \<Longrightarrow> ?e AND 0x1FF000 = 0" using pt_okD(3) [OF assms _ _ Some] by simp
  then show ?thesis
    using Some small_page_bits [of ?e]
    by (cases "?e AND 1 = 0"; cases "?e AND PS_2MB = 0") (simp_all add: krust_paging_get_phys_def pte_def pt_walk_tab Let_def)
qed

text \<open>Clearing the entry of a 2 MB page.\<close>

lemma clear_huge:
  assumes ok: "pt_ok m r" and h: "pt_walk m r v = Huge a" and m': "m' = m(a := 0)"
  shows "pt_ok m' r" "tables m' r = tables m r"
    "pte m' r w = (if take 3 (vpath w) = take 3 (vpath v) then 0 else pte m r w)"
proof -
  let ?p = "[unat (pml4_i v), unat (pdp_i v)]" and ?i = "unat (pd_i v)"
  obtain t where t: "tab m 3 r ?p = Some t" "a = t + 8 * ?i" "m a AND 1 \<noteq> 0" "m a AND PS_2MB \<noteq> 0"
    using h by (auto simp: pt_walk_tab Let_def split: option.splits if_splits)
  have a: "agrees m r ?p ?i m'" unfolding m' t(2) using ok t(1) by (intro agrees_upd) simp_all
  have p: "tab m' 3 r ?p = Some t" using tab_frame [OF a, of ?p] t(1) by simp
  have "tab m 3 r (?p @ [?i]) = None" "tab m' 3 r (?p @ [?i]) = None"
    unfolding tab_snoc p t(1) using t(2-4) by (simp_all add: next_tab_def m')
  then have "tab m' 3 r (?p @ ?i # q) = tab m 3 r (?p @ ?i # q)" for q
    using tab_prefix_None [of m r "?p @ [?i]" q] tab_prefix_None [of m' r "?p @ [?i]" q] by simp
  then have tab: "tab m' 3 r q = tab m 3 r q" if "is_path q" for q using tab_frame [OF a that] by blast
  show "tables m' r = tables m r" using tab by (auto simp: tables_def)
  show "pt_ok m' r"
  proof (rule pt_okI)
    fix q u j assume q: "is_path q" "length q = 2" "tab m' 3 r q = Some u" "j < 512" "m' (u + 8 * j) AND PS_2MB \<noteq> 0"
    have u: "tab m 3 r q = Some u" using tab [OF q(1)] q(3) by simp
    have "(q, j) \<noteq> (?p, ?i)" using q(5) t(1,2) u by (auto simp: m')
    then have "m' (u + 8 * j) = m (u + 8 * j)" using agreesD [OF a q(1) u q(4)] by simp
    then show "m' (u + 8 * j) AND 0x1FF000 = 0" using pt_okD(3) [OF ok q(1,2) u q(4)] q(5) by simp
  qed (use tab pt_okD(2,4) [OF ok] in auto)
  show "pte m' r w = (if take 3 (vpath w) = take 3 (vpath v) then 0 else pte m r w)"
  proof (cases "take 3 (vpath w) = take 3 (vpath v)")
    case True
    then have "pml4_i w = pml4_i v" "pdp_i w = pdp_i v" "pd_i w = pd_i v" by (auto simp: vpath_def word_unat_eq_iff)
    then show ?thesis using True p t(2) pte_none(2) [of m' r w t] by (simp add: m')
  next
    case False
    then have "\<nexists>q'. vpath w = ?p @ ?i # q'" by (auto simp: vpath_def)
    then show ?thesis using pte_frame(2) [OF a] False by simp
  qed
qed

text \<open>
  C10. Reading and removing translations: the physical address of a virtual one is the one its entry
  gives, whether the page is a 4 KB page or part of a 2 MB page, and the largest number where there is
  none. Unmapping an address removes the translation of its page and, where the page is part of a
  2 MB page, of all of that, and of no other.
\<close>

theorem paging_lookup_unmap:
  assumes "pg_ok (unat (cr3 s)) s"
  shows "krust_paging_get_phys w s =
      (let e = pte (pmem s) (unat (cr3 s)) w in if e AND 1 = 0 then NOT 0 else e AND PTE_MASK OR w AND 0xFFF) \<and>
    pg_ok (unat (cr3 s)) (krust_paging_unmap_page v s) \<and>
    pte (pmem (krust_paging_unmap_page v s)) (unat (cr3 s)) w =
      (if vpath w = vpath v \<or> (\<exists>a. pt_walk (pmem s) (unat (cr3 s)) v = Huge a) \<and> take 3 (vpath w) = take 3 (vpath v)
       then 0 else pte (pmem s) (unat (cr3 s)) w)"
proof -
  note P = pg_okD [OF assms]
  have "pg_ok (unat (cr3 s)) (krust_paging_unmap_page v s) \<and> pte (pmem (krust_paging_unmap_page v s)) (unat (cr3 s)) w =
      (if vpath w = vpath v \<or> (\<exists>a. pt_walk (pmem s) (unat (cr3 s)) v = Huge a) \<and> take 3 (vpath w) = take 3 (vpath v)
       then 0 else pte (pmem s) (unat (cr3 s)) w)"
  proof (cases "pt_walk (pmem s) (unat (cr3 s)) v")
    case Absent
    then have "pte (pmem s) (unat (cr3 s)) w = 0" if "vpath w = vpath v"
      using walk_vpath [OF that] by (simp add: pte_def)
    then show ?thesis using Absent assms by (simp add: krust_paging_unmap_page_def)
  next
    case (Huge a)
    have "vpath w = vpath v \<Longrightarrow> take 3 (vpath w) = take 3 (vpath v)" by simp
    then show ?thesis using Huge P clear_huge [OF P(4) Huge refl]
      by (auto simp: krust_paging_unmap_page_def set_entry_def pg_ok_def)
  next
    case (Leaf a)
    then obtain t where t: "tab (pmem s) 3 (unat (cr3 s)) [unat (pml4_i v), unat (pdp_i v), unat (pd_i v)] = Some t"
      "a = t + 8 * unat (pt_i v)" by (rule walk_leaf)
    show ?thesis using Leaf P write_leaf [OF P(4) t(1), of 0] t(2)
      by (auto simp: krust_paging_unmap_page_def set_entry_def pg_ok_def)
  qed
  then show ?thesis using get_phys_pte [OF P(4)] by simp
qed

section \<open>Breaking a share\<close>

text \<open>Memory outside the tables does not matter to translation.\<close>

lemma tables_same:
  assumes ok: "pt_ok m r" and same: "\<And>t j. t \<in> tables m r \<Longrightarrow> j < 512 \<Longrightarrow> m' (t + 8 * j) = m (t + 8 * j)"
  shows "is_path q \<Longrightarrow> tab m' 3 r q = tab m 3 r q" "tables m' r = tables m r" "pt_ok m' r"
    "pt_walk m' r w = pt_walk m r w" "pte m' r w = pte m r w"
proof -
  have a: "agrees m r [] 512 m'" using same by (auto simp: agrees_def tables_def)
  have no: "\<nexists>q'. q = [] @ 512 # q'" if "is_path q" for q using that by auto
  show tab: "tab m' 3 r q = tab m 3 r q" if "is_path q" for q using tab_frame [OF a that no [OF that]] .
  show "tables m' r = tables m r" using tab by (auto simp: tables_def)
  have "is_path (vpath w)" by (simp add: vpath_def)
  then show "pt_walk m' r w = pt_walk m r w" "pte m' r w = pte m r w" using pte_frame [OF a no] by simp_all
  show "pt_ok m' r"
  proof (rule pt_okI)
    fix p t i assume p: "is_path p" "length p = 2" "tab m' 3 r p = Some t" "i < 512" "m' (t + 8 * i) AND PS_2MB \<noteq> 0"
    then have "tab m 3 r p = Some t" "m' (t + 8 * i) = m (t + 8 * i)" using tab same by (auto simp: tables_def)
    then show "m' (t + 8 * i) AND 0x1FF000 = 0" using pt_okD(3) [OF ok p(1,2) _ p(4)] p(5) by simp
  qed (use tab pt_okD(2,4) [OF ok] in auto)
qed

lemma copied_out: "x div 4096 \<noteq> f \<Longrightarrow> copied (f * 4096) src m x = m x"
  by (auto simp: copied_def)

lemma copied_in: "k < 512 \<Longrightarrow> copied d src m (d + 8 * k) = m (src + 8 * k)"
  by (simp add: copied_def)


lemma odd_entry: "bit (e :: u64) 0 \<Longrightarrow> e AND 1 \<noteq> 0"
  by (simp add: and_one_eq bit_0 odd_iff_mod_2_eq_one)

lemma bit_neq_0: "bit (e :: u64) n \<Longrightarrow> bit k n \<Longrightarrow> e AND k \<noteq> 0"
  by (metis bit_0_eq bit_and_iff bot_apply bot_bool_def)

lemma bit_2: "bit (2 :: u64) n \<longleftrightarrow> n = 1"
proof -
  have "(2 :: u64) = push_bit 1 1" by simp
  then show ?thesis by (auto simp: bit_simps simp del: push_bit_of_1)
qed

lemma sole_entry:
  fixes e :: u64
  defines "e' \<equiv> (e AND PTE_MASK) AND PTE_MASK OR ((e AND FLAGS_MASK AND NOT COW_BIT) OR 2) AND FLAGS_MASK OR 1"
  shows "table_of e' = table_of e" "e' AND 1 \<noteq> 0" "e' AND PAGE_WRITE \<noteq> 0" "e' AND COW_BIT = 0"
proof -
  have "e' AND PTE_MASK = e AND PTE_MASK"
    unfolding e'_def by (rule bit_word_eqI) (auto simp: bit_simps mask_bits bit_2 bit_1_iff)
  then show "table_of e' = table_of e" by (simp add: table_of_def)
  have "bit e' 0" "bit e' 1" unfolding e'_def by (simp_all add: bit_simps mask_bits bit_2)
  then show "e' AND 1 \<noteq> 0" "e' AND PAGE_WRITE \<noteq> 0"
    using odd_entry bit_neq_0 [of e' 1 2] by (simp_all add: PAGE_WRITE_def bit_2)
  show "e' AND COW_BIT = 0"
    unfolding e'_def by (rule bit_word_eqI) (auto simp: bit_simps mask_bits bit_2 bit_1_iff)
qed

lemma copy_entry:
  assumes "f < 2 ^ 40"
  defines "e' \<equiv> of_nat (f * 4096) AND PTE_MASK OR (7 :: u64)"
  shows "table_of e' = f * 4096" "e' AND 1 \<noteq> 0" "e' AND PAGE_WRITE \<noteq> 0" "e' AND COW_BIT = 0"
proof -
  have "table_of (of_nat (f * 4096) OR (7 :: u64)) = f * 4096" using assms(1) by (intro new_entry) simp_all
  moreover have "e' AND PTE_MASK = (of_nat (f * 4096) OR 7) AND PTE_MASK"
    unfolding e'_def by (rule bit_word_eqI) (auto simp: bit_simps mask_bits)
  ultimately show "table_of e' = f * 4096" by (simp add: table_of_def)
  have "bit e' 0" "bit e' 1" unfolding e'_def by (simp_all add: bit_simps mask_bits)
  then show "e' AND 1 \<noteq> 0" "e' AND PAGE_WRITE \<noteq> 0"
    using odd_entry bit_neq_0 [of e' 1 2] by (simp_all add: PAGE_WRITE_def bit_2)
  show "e' AND COW_BIT = 0"
    unfolding e'_def by (rule bit_word_eqI) (auto simp: bit_simps mask_bits)
qed

lemma copied_page:
  assumes ok: "pg_ok r s" and f: "f \<in> free_frames (frames s)"
    and t: "tab (pmem s) 3 r [unat (pml4_i v), unat (pdp_i v), unat (pd_i v)] = Some t" "a = t + 8 * unat (pt_i v)"
    and src: "src mod 4096 = 0" "src \<notin> tables (pmem s) r" "src div 4096 \<notin> free_frames (frames s)"
    and m': "m' = (copied (f * 4096) src (pmem s))(a := n)"
  shows "pt_ok m' r" "tables m' r = tables (pmem s) r" "pte m' r w = (if vpath w = vpath v then n else pte (pmem s) r w)"
    "k < 512 \<Longrightarrow> m' (f * 4096 + 8 * k) = pmem s (src + 8 * k)" "k < 512 \<Longrightarrow> m' (src + 8 * k) = pmem s (src + 8 * k)"
proof -
  note P = pg_okD [OF ok]
  let ?m = "copied (f * 4096) src (pmem s)"
  have fr: "u div 4096 \<noteq> f" if "u \<in> tables (pmem s) r" for u using P(5) [OF that] f by auto
  have "?m (u + 8 * j) = pmem s (u + 8 * j)" if "u \<in> tables (pmem s) r" "j < 512" for u j
    using in_page [OF tables_aligned [OF P(4) that(1)] that(2)] fr [OF that(1)] by (intro copied_out) simp
  note S = tables_same [OF P(4) this]
  have tm: "tab ?m 3 r [unat (pml4_i v), unat (pdp_i v), unat (pd_i v)] = Some t" using S(1) t(1) by simp
  note W = write_leaf [OF S(3) tm, of n, folded t(2), folded m']
  show "pt_ok m' r" "tables m' r = tables (pmem s) r" "pte m' r w = (if vpath w = vpath v then n else pte (pmem s) r w)"
    using W S(2,5) by auto
  have tt: "t \<in> tables (pmem s) r" using t(1) by (rule vpath_self)
  then have al: "t mod 4096 = 0" by (rule tables_aligned [OF P(4)])
  assume k: "k < 512"
  have "f * 4096 + 8 * k \<noteq> a" "src + 8 * k \<noteq> a"
    using slot_inj [OF _ al k, of "f * 4096" "unat (pt_i v)"] slot_inj [OF src(1) al k, of "unat (pt_i v)"] fr [OF tt] src(2) tt t(2)
    by auto
  moreover have "(src + 8 * k) div 4096 \<noteq> f" using in_page [OF src(1) k] src(3) f by auto
  ultimately show "m' (f * 4096 + 8 * k) = pmem s (src + 8 * k)" "m' (src + 8 * k) = pmem s (src + 8 * k)"
    unfolding m' using copied_in [OF k, of "f * 4096" src "pmem s"] copied_out [of "src + 8 * k" f src "pmem s"]
    by (subst fun_upd_other; simp)+
qed

text \<open>
  C11. Resolving the sharing of a page (the call \<open>cow_resolve_page\<close>): when the frame's count falls to
  zero, the page becomes writable where it is; otherwise it moves to a new frame with the same contents,
  and the old frame keeps its own. The new entry is present, writable and no longer marked as shared; no
  other page's translation changes. The call fails only when no frame is left, and then the entry stays.
  The fault handler makes this call only for error codes that end in 6, in which bit 0 is clear, while a
  write to a present page sets it: such a write does not get here.
\<close>

theorem cow_resolve_correct:
  assumes "pg_ok r s" and "r = unat target" and "pt_walk (pmem s) r v = Leaf a" and "e = pmem s a"
    and "e AND 1 \<noteq> 0" and "e AND COW_BIT \<noteq> 0"
    and "table_of e \<notin> tables (pmem s) r" and "table_of e div 4096 \<notin> free_frames (frames s)"
    and "cow_resolve_page target v s = (b, s')" and "e' = pte (pmem s') r v"
    and "krust_cow_refdec (frame_of (e AND PTE_MASK)) (counts s) = (refs, c)"
  shows "pg_ok r s' \<and> counts s' = c \<and> (\<forall>w. vpath w \<noteq> vpath v \<longrightarrow> pte (pmem s') r w = pte (pmem s) r w) \<and>
    (if b then e' AND 1 \<noteq> 0 \<and> e' AND PAGE_WRITE \<noteq> 0 \<and> e' AND COW_BIT = 0 \<and>
       (if refs = 0 then table_of e' = table_of e else table_of e' div 4096 \<in> free_frames (frames s)) \<and>
       (\<forall>k < 512. pmem s' (table_of e' + 8 * k) = pmem s (table_of e + 8 * k) \<and>
          pmem s' (table_of e + 8 * k) = pmem s (table_of e + 8 * k))
     else refs \<noteq> 0 \<and> free_frames (frames s) = {} \<and> e' = e)"
proof -
  note P = pg_okD [OF assms(1)]
  obtain t where t: "tab (pmem s) 3 r [unat (pml4_i v), unat (pdp_i v), unat (pd_i v)] = Some t"
    "a = t + 8 * unat (pt_i v)" using assms(3) by (rule walk_leaf)
  have tt: "t \<in> tables (pmem s) r" using t(1) by (rule vpath_self)
  have apart: "u + 8 * k \<noteq> a" if "u mod 4096 = 0" "k < 512" "u \<notin> tables (pmem s) r" for u k
    using slot_inj [of u t k "unat (pt_i v)"] that tt tables_aligned [OF P(4) tt] t(2) by auto
  have self: "pte m r v = m a" if "pt_walk m r v = Leaf a" for m using that by (simp add: pte_def)
  note T = table_of_aligned [of e]
  show ?thesis
  proof (cases "refs = 0")
    case True
    define n where "n = (e AND PTE_MASK) AND PTE_MASK OR ((e AND FLAGS_MASK AND NOT COW_BIT) OR 2) AND FLAGS_MASK OR 1"
    have s': "b" "s' = s\<lparr>counts := c, pmem := (pmem s)(a := n)\<rparr>"
      using assms(2-6,9,11) True by (auto simp: cow_resolve_page_def n_def Let_def set_entry_def)
    note W = write_leaf [OF P(4) t(1), of n, folded t(2)]
    have "e' = n" using W(3) [of v] assms(10) s'(2) by simp
    then show ?thesis
      using s' True W P sole_entry [of e, folded n_def] apart [OF T _ assms(7)] by (simp add: pg_ok_def)
  next
    case False
    from assms(1) show ?thesis
    proof (cases rule: frame_alloc_cases)
      case null
      then have s': "\<not> b" "s' = s\<lparr>counts := c\<rparr>"
        using assms(2-6,9,11) False by (auto simp: cow_resolve_page_def Let_def)
      then show ?thesis using null False assms(1,3,4,10) self by (simp add: pg_ok_def)
    next
      case (new f p)
      define n where "n = of_nat (f * 4096) AND PTE_MASK OR (7 :: u64)"
      let ?m = "(copied (f * 4096) (table_of e) (pmem s))(a := n)"
      have s': "b" "s' = s\<lparr>counts := c, frames := p, pmem := ?m\<rparr>"
        using assms(2-6,9,11) False new(1,5,6)
        by (auto simp: cow_resolve_page_def Let_def n_def set_entry_def copy_page_def table_of_def)
      note C = copied_page [OF assms(1) new(2) t T assms(7,8) refl [of ?m]]
      have "e' = n" using C(3) [of v] assms(10) s'(2) by simp
      then show ?thesis
        using s' False C P new(2,7-9) copy_entry [OF new(3), folded n_def] by (simp add: pg_ok_def)
    qed
  qed
qed

section \<open>Sharing a table\<close>

definition user_writable :: "u64 \<Rightarrow> bool" where
  "user_writable e \<longleftrightarrow> e AND 1 \<noteq> 0 \<and> (e AND FLAGS_MASK) AND PAGE_WRITE \<noteq> 0 \<and> (e AND FLAGS_MASK) AND PAGE_USER \<noteq> 0"

text \<open>The entry of a page once it is shared.\<close>

definition shared_entry :: "u64 \<Rightarrow> u64" where
  "shared_entry e =
     (if user_writable e
      then (e AND PTE_MASK) AND PTE_MASK OR (e AND FLAGS_MASK) AND NOT PAGE_WRITE OR COW_BIT OR 1 else e)"

lemma share_page_entries:
  "share_page s1 d1 i s =
     (let e = pmem s (s1 + 8 * i)
      in if e AND 1 = 0 then s
         else s\<lparr>counts := (if user_writable e then krust_cow_refinc (frame_of (e AND PTE_MASK)) (counts s) else counts s),
                pmem := (pmem s)(s1 + 8 * i := shared_entry e, d1 + 8 * i := shared_entry e)\<rparr>)"
  by (cases s) (simp add: share_page_def shared_entry_def user_writable_def Let_def set_entry_def)

lemma shared_entry_bits:
  "table_of (shared_entry e) = table_of e" "shared_entry e AND 1 = e AND 1" "\<not> user_writable (shared_entry e)"
  "user_writable e \<Longrightarrow> shared_entry e AND COW_BIT \<noteq> 0"
proof -
  have w: "bit PAGE_WRITE n \<longleftrightarrow> n = 1" for n by (simp add: PAGE_WRITE_def bit_2)
  have 1: "user_writable e \<Longrightarrow> bit e 0"
    by (auto simp: user_writable_def and_one_eq bit_0 odd_iff_mod_2_eq_one)
  have "shared_entry e AND PTE_MASK = e AND PTE_MASK"
    unfolding shared_entry_def by (rule bit_word_eqI) (auto simp: bit_simps mask_bits w bit_1_iff)
  then show "table_of (shared_entry e) = table_of e" by (simp add: table_of_def)
  show "shared_entry e AND 1 = e AND 1"
    unfolding shared_entry_def by (rule bit_word_eqI) (use 1 in \<open>auto simp: bit_simps mask_bits w bit_1_iff\<close>)
  have "(shared_entry e AND FLAGS_MASK) AND PAGE_WRITE = 0" if "user_writable e"
    using that unfolding shared_entry_def by (intro bit_word_eqI) (auto simp: bit_simps mask_bits w)
  then show "\<not> user_writable (shared_entry e)" unfolding user_writable_def by (metis shared_entry_def user_writable_def)
  show "shared_entry e AND COW_BIT \<noteq> 0" if "user_writable e"
    using that by (intro bit_neq_0 [of _ 9]) (simp_all add: shared_entry_def bit_simps mask_bits)
qed

definition now_shared :: "usize \<Rightarrow> usize \<Rightarrow> nat \<Rightarrow> paging \<Rightarrow> paging \<Rightarrow> bool" where
  "now_shared s1 d1 n s s' \<longleftrightarrow>
     (\<forall>i < n. pmem s' (s1 + 8 * i) = shared_entry (pmem s (s1 + 8 * i)) \<and>
        pmem s' (d1 + 8 * i) = (if pmem s (s1 + 8 * i) AND 1 = 0 then pmem s (d1 + 8 * i) else shared_entry (pmem s (s1 + 8 * i)))) \<and>
     (\<forall>x. (\<forall>i < n. x \<noteq> s1 + 8 * i \<and> x \<noteq> d1 + 8 * i) \<longrightarrow> pmem s' x = pmem s x) \<and>
     counts s' = fold (\<lambda>i. krust_cow_refinc (frame_of (pmem s (s1 + 8 * i) AND PTE_MASK)))
       (filter (\<lambda>i. user_writable (pmem s (s1 + 8 * i))) [0..<n]) (counts s) \<and>
     frames s' = frames s"

lemma share_table:
  assumes d: "s1 mod 4096 = 0" "d1 mod 4096 = 0" "s1 \<noteq> d1"
  shows "n \<le> 512 \<Longrightarrow> now_shared s1 d1 n s (fold (share_page s1 d1) [0..<n] s)"
proof (induction n)
  case 0
  then show ?case by (simp add: now_shared_def)
next
  case (Suc n)
  let ?e = "pmem s (s1 + 8 * n)"
  define u where "u = fold (share_page s1 d1) [0..<n] s"
  have IH: "now_shared s1 d1 n s u" and n: "n < 512" using Suc by (simp_all add: u_def)
  have ap: "s1 + 8 * n \<noteq> d1 + 8 * i" "d1 + 8 * n \<noteq> s1 + 8 * i" if "i < 512" for i
    using slot_inj [OF d(1,2) n that] slot_inj [OF d(2,1) n that] d(3) by auto
  have ap': "d1 + 8 * i \<noteq> s1 + 8 * n" "s1 + 8 * i \<noteq> d1 + 8 * n" if "i < n" for i using ap [of i] that n by auto
  have e: "pmem u (s1 + 8 * n) = ?e" "pmem u (d1 + 8 * n) = pmem s (d1 + 8 * n)"
    using IH ap n unfolding now_shared_def by auto
  have step: "fold (share_page s1 d1) [0..<Suc n] s = share_page s1 d1 n u" by (simp add: u_def)
  have st: "share_page s1 d1 n u = (if ?e AND 1 = 0 then u
      else u\<lparr>counts := (if user_writable ?e then krust_cow_refinc (frame_of (?e AND PTE_MASK)) (counts u) else counts u),
             pmem := (pmem u)(s1 + 8 * n := shared_entry ?e, d1 + 8 * n := shared_entry ?e)\<rparr>)"
    using share_page_entries [of s1 d1 n u] by (simp only: e(1) Let_def)
  show ?case
  proof (cases "?e AND 1 = 0")
    case True
    then have "shared_entry ?e = ?e" "\<not> user_writable ?e" by (simp_all add: shared_entry_def user_writable_def)
    then show ?thesis unfolding step st using True IH e by (auto simp: now_shared_def less_Suc_eq)
  next
    case False
    then show ?thesis unfolding step st using IH e ap [OF n] ap'
      by (auto simp: now_shared_def less_Suc_eq)
  qed
qed

text \<open>What the loop over a table leaves, for a child's table whose entries were \<open>old\<close>.\<close>

lemma share_effect:
  assumes al: "s1 mod 4096 = 0" "d1 mod 4096 = 0" "s1 \<noteq> d1"
    and u: "\<And>i. i < 512 \<Longrightarrow> pmem u (s1 + 8 * i) = pmem s (s1 + 8 * i)" "\<And>i. i < 512 \<Longrightarrow> pmem u (d1 + 8 * i) = old i"
      "counts u = counts s"
    and s': "s' = fold (share_page s1 d1) [0..<512] u"
  shows "\<forall>i < 512. let e = pmem s (s1 + 8 * i); e' = pmem s' (s1 + 8 * i)
         in table_of e' = table_of e \<and> e' AND 1 = e AND 1 \<and> \<not> user_writable e' \<and>
            (if user_writable e then e' AND COW_BIT \<noteq> 0 else e' = e) \<and>
            pmem s' (d1 + 8 * i) = (if e AND 1 = 0 then old i else e')"
    "counts s' = fold (\<lambda>i. krust_cow_refinc (frame_of (pmem s (s1 + 8 * i) AND PTE_MASK)))
        (filter (\<lambda>i. user_writable (pmem s (s1 + 8 * i))) [0..<512]) (counts s)"
    "x div 4096 \<noteq> s1 div 4096 \<Longrightarrow> x div 4096 \<noteq> d1 div 4096 \<Longrightarrow> pmem s' x = pmem u x"
proof -
  have N: "now_shared s1 d1 512 u s'" unfolding s' by (rule share_table [OF al]) simp
  have "pmem s' (s1 + 8 * i) = shared_entry (pmem s (s1 + 8 * i))"
    "pmem s' (d1 + 8 * i) = (if pmem s (s1 + 8 * i) AND 1 = 0 then old i else shared_entry (pmem s (s1 + 8 * i)))"
    if "i < 512" for i using N u(1,2) that by (simp_all add: now_shared_def)
  then show "\<forall>i < 512. let e = pmem s (s1 + 8 * i); e' = pmem s' (s1 + 8 * i)
         in table_of e' = table_of e \<and> e' AND 1 = e AND 1 \<and> \<not> user_writable e' \<and>
            (if user_writable e then e' AND COW_BIT \<noteq> 0 else e' = e) \<and>
            pmem s' (d1 + 8 * i) = (if e AND 1 = 0 then old i else e')"
    using shared_entry_bits by (simp add: Let_def) (simp add: shared_entry_def)
  show "counts s' = fold (\<lambda>i. krust_cow_refinc (frame_of (pmem s (s1 + 8 * i) AND PTE_MASK)))
        (filter (\<lambda>i. user_writable (pmem s (s1 + 8 * i))) [0..<512]) (counts s)"
    using N u(1,3) by (auto simp: now_shared_def intro!: fold_cong filter_cong)
  assume "x div 4096 \<noteq> s1 div 4096" "x div 4096 \<noteq> d1 div 4096"
  then have "\<forall>i < 512. x \<noteq> s1 + 8 * i \<and> x \<noteq> d1 + 8 * i" using in_page [OF al(1)] in_page [OF al(2)] by auto
  then show "pmem s' x = pmem u x" using N by (simp add: now_shared_def)
qed

text \<open>
  C12. Sharing a table of pages when a process forks. A child without a table there gets an empty one in a
  frame that was free, or, when no frame is free, the call fails and changes nothing; a child that has a
  table, as the copy of the kernel's lower half gives it, keeps it. Every present page is then mapped by
  parent and child with the same entry for the same frame; the pages that were writable to the user are
  writable to neither, marked as copied on write, and their frames counted once more. Where the parent has
  no page the child's entry stays as it was, and no other memory changes. The child's table must not be
  the parent's.
\<close>

theorem fork_shares_table:
  assumes "pg_ok r s" and "pmem s (s2 + 8 * i2) AND 1 \<noteq> 0" and "pmem s (s2 + 8 * i2) AND PS_2MB = 0"
    and "d = d2 + 8 * i2" and "s1 = table_of (pmem s (s2 + 8 * i2))"
    and "pmem s d AND 1 = 0 \<or> table_of (pmem s d) \<noteq> s1 \<and> table_of (pmem s d) div 4096 \<noteq> d div 4096"
    and "s1 div 4096 \<notin> free_frames (frames s)" and "d div 4096 \<notin> free_frames (frames s)" and "d div 4096 \<noteq> s1 div 4096"
    and "share_pd_entry s2 d2 i2 s = (b, s')" and "d1 = table_of (pmem s' d)"
  shows "if b
    then (if pmem s d AND 1 = 0 then d1 div 4096 \<in> free_frames (frames s) else pmem s' d = pmem s d) \<and>
      (\<forall>i < 512. let e = pmem s (s1 + 8 * i); e' = pmem s' (s1 + 8 * i)
         in table_of e' = table_of e \<and> e' AND 1 = e AND 1 \<and> \<not> user_writable e' \<and>
            (if user_writable e then e' AND COW_BIT \<noteq> 0 else e' = e) \<and>
            pmem s' (d1 + 8 * i) =
              (if e AND 1 = 0 then if pmem s d AND 1 = 0 then 0 else pmem s (d1 + 8 * i) else e')) \<and>
      counts s' = fold (\<lambda>i. krust_cow_refinc (frame_of (pmem s (s1 + 8 * i) AND PTE_MASK)))
        (filter (\<lambda>i. user_writable (pmem s (s1 + 8 * i))) [0..<512]) (counts s) \<and>
      (\<forall>x. x \<noteq> d \<and> x div 4096 \<noteq> s1 div 4096 \<and> x div 4096 \<noteq> d1 div 4096 \<longrightarrow> pmem s' x = pmem s x)
    else pmem s d AND 1 = 0 \<and> free_frames (frames s) = {} \<and> s' = s"
proof (cases "pmem s d AND 1 = 0")
  case False
  let ?t = "table_of (pmem s d)"
  have al: "s1 mod 4096 = 0" "?t mod 4096 = 0" "s1 \<noteq> ?t" using False assms(6) by (auto simp: assms(5) table_of_aligned)
  have s': "b" "s' = fold (share_page s1 ?t) [0..<512] s"
    using assms(2-5,10) False by (auto simp: share_pd_entry_def ensure_table_def Let_def)
  note E = share_effect [OF al refl refl refl s'(2)]
  have pd: "pmem s' d = pmem s d" using False assms(6,9) by (intro E(3)) auto
  then have d1: "d1 = ?t" by (simp add: assms(11))
  show ?thesis unfolding if_P [OF s'(1)] if_not_P [OF False] d1 using pd E by blast
next
  case absent: True
  from assms(1) show ?thesis
  proof (cases rule: table_alloc_cases)
    case null
    then show ?thesis using assms(2-5,10) absent by (auto simp: share_pd_entry_def ensure_table_def Let_def)
  next
    case (new f p)
    define m where "m = (cleared (f * 4096) (pmem s))(d := of_nat (f * 4096) OR 7)"
    define u where "u = s\<lparr>frames := p, pmem := m\<rparr>"
    note T = new_entry [OF new(2), of 7]
    have al: "s1 mod 4096 = 0" "f * 4096 mod 4096 = 0" "s1 \<noteq> f * 4096"
      using assms(7) new(1) by (auto simp: assms(5) table_of_aligned)
    have s': "b" "s' = fold (share_page s1 (f * 4096)) [0..<512] u"
      using assms(2-5,10) absent new(3,4) T(1)
      by (auto simp: share_pd_entry_def ensure_table_def Let_def clear_page_def set_entry_def u_def m_def)
    have mx: "m x = pmem s x" if "x \<noteq> d" "x div 4096 \<noteq> f" for x using that by (simp add: m_def cleared_other)
    have ms: "pmem u (s1 + 8 * i) = pmem s (s1 + 8 * i)" "pmem u (f * 4096 + 8 * i) = 0" if "i < 512" for i
    proof -
      show "pmem u (s1 + 8 * i) = pmem s (s1 + 8 * i)"
        using in_page [OF al(1) that] assms(7,9) new(1) mx [of "s1 + 8 * i"] by (auto simp: u_def)
      show "pmem u (f * 4096 + 8 * i) = 0"
        using in_page [OF al(2) that] that assms(8) new(1) by (auto simp: u_def m_def cleared_def)
    qed
    have c: "counts u = counts s" by (simp add: u_def)
    note E = share_effect [OF al ms c s'(2)]
    have "pmem s' d = m d" using assms(8,9) new(1) E(3) [of d] by (auto simp: u_def)
    then have d1: "d1 = f * 4096" using T(1) assms(11) by (simp add: m_def)
    have "pmem s' x = pmem s x" if "x \<noteq> d" "x div 4096 \<noteq> s1 div 4096" "x div 4096 \<noteq> f * 4096 div 4096" for x
      using that E(3) [of x] mx [of x] by (auto simp: u_def)
    moreover have "f * 4096 div 4096 \<in> free_frames (frames s)" using new(1) by simp
    ultimately show ?thesis unfolding if_P [OF s'(1)] if_P [OF absent] d1 using E(1,2) by blast
  qed
qed

section \<open>An example\<close>

text \<open>
  Four tables, in frames 1 to 4, map the pages 0 and \<open>0x1000\<close>: the first to frame 5, shared, the second
  to frame 6, writable. Of 16 frames the ones numbered 7 and 15 are free.
\<close>

definition ex_mem :: "usize \<Rightarrow> u64" where
  "ex_mem = (\<lambda>a. if a = 0x1000 then 0x2007 else if a = 0x2000 then 0x3007 else if a = 0x3000 then 0x4007
                 else if a = 0x4000 then 0x5205 else if a = 0x4008 then 0x6007 else 0)"

definition ex_paging :: paging where
  "ex_paging = \<lparr>pmem = ex_mem,
     frames = \<lparr>BITMAP = 1, BITMAP_SIZE = 2, TOTAL_FRAMES = 16, FIRST_FREE = 7, bm_bytes = (\<lambda>_. 0x7F)\<rparr>,
     counts = \<lparr>REFCOUNT = 0xA000, COW_FRAMES = 16, rc_mem = (\<lambda>a. if a = 0xA00A then 1 else 0)\<rparr>,
     cr3 = 0x1000, PML4 = 0x1000, HEAP_PHYS = 0, MMIO_NEXT = 0, regions = (\<lambda>_. undefined), running = None\<rparr>"

lemma ex_free: "free_frames (frames ex_paging) = {7, 15}"
proof -
  have "{i. i < 16 \<and> \<not> bitmap_test (frames ex_paging) i} = set (filter (\<lambda>i. \<not> bitmap_test (frames ex_paging) i) [0..<16])" by auto
  also have "\<dots> = {7, 15}" by (simp add: upt_rec ex_paging_def bitmap_test_def) (simp add: eval_nat_numeral)
  finally show ?thesis by (simp add: free_frames_def ex_paging_def)
qed

lemma ex_tab: "is_path p \<Longrightarrow> tab ex_mem 3 0x1000 p = Some t \<longleftrightarrow> (p, t) \<in> {([], 0x1000), ([0], 0x2000), ([0, 0], 0x3000), ([0, 0, 0], 0x4000)}"
proof -
  assume p: "is_path p"
  have z: "ex_mem (0x1000 + 8 * i) = (if i = 0 then 0x2007 else 0)" "ex_mem (0x2000 + 8 * i) = (if i = 0 then 0x3007 else 0)"
    "ex_mem (0x3000 + 8 * i) = (if i = 0 then 0x4007 else 0)" if "i < 512" for i using that by (auto simp: ex_mem_def)
  consider "p = []" | i where "p = [i]" | i j where "p = [i, j]" | i j k where "p = [i, j, k]" | i j k l q where "p = i # j # k # l # q"
    by (metis list.exhaust)
  then show ?thesis
    using p by cases (auto simp: is_path_def z numeral_3_eq_3 Let_def table_of_def PTE_MASK_def PS_2MB_def split: if_splits)
qed

lemma ex_tables: "tables ex_mem 0x1000 = {0x1000, 0x2000, 0x3000, 0x4000}"
proof -
  have "tables ex_mem 0x1000 = {t. \<exists>p. is_path p \<and> (p, t) \<in> {([], 0x1000), ([0], 0x2000), ([0, 0], 0x3000), ([0, 0, 0], 0x4000)}}"
    unfolding tables_def using ex_tab by blast
  also have "\<dots> = {0x1000, 0x2000, 0x3000, 0x4000}" by (auto simp: is_path_def)
  finally show ?thesis .
qed

lemma ex_ok: "pg_ok 0x1000 ex_paging"
proof -
  have "p = q" if "is_path p" "is_path q" "tab ex_mem 3 0x1000 p = Some t" "tab ex_mem 3 0x1000 q = Some t" for p q t
    using that by (auto simp: ex_tab)
  moreover have "ex_mem (t + 8 * i) AND 0x1FF000 = 0"
    if "is_path p" "length p = 2" "tab ex_mem 3 0x1000 p = Some t" "ex_mem (t + 8 * i) AND PS_2MB \<noteq> 0" "i < 512" for p t i
    using that by (auto simp: ex_tab ex_mem_def PS_2MB_def)
  ultimately have "pt_ok ex_mem 0x1000" unfolding pt_ok_def by auto
  moreover have "pmem ex_paging = ex_mem" by (simp add: ex_paging_def)
  moreover have "pmm_inv (frames ex_paging)" unfolding pmm_inv_def ex_free by (simp add: ex_paging_def usize_max_def)
  ultimately show ?thesis by (auto simp: pg_ok_def ex_free ex_tables) (simp add: ex_paging_def)
qed

lemmas ex_eval = ex_paging_def ex_mem_def pt_walk_def entry_at_def table_of_def
  pml4_i_def pdp_i_def pd_i_def pt_i_def PTE_MASK_def FLAGS_MASK_def PS_2MB_def COW_BIT_def

lemma ex_map_done: "fst (krust_paging_map_page_in 0x1000 0x2000 0x9000 7 ex_paging)"
  by (simp add: krust_paging_map_page_in_def ensure_table_def split_huge_def ex_eval Let_def)

theorem paging_map_correct_witness:
  "pg_ok 0x1000 (snd (krust_paging_map_page_in 0x1000 0x2000 0x9000 7 ex_paging)) \<and>
   pte (pmem (snd (krust_paging_map_page_in 0x1000 0x2000 0x9000 7 ex_paging))) 0x1000 0x2000 = 0x9007 \<and>
   pte (pmem (snd (krust_paging_map_page_in 0x1000 0x2000 0x9000 7 ex_paging))) 0x1000 0x1000 = pte ex_mem 0x1000 0x1000"
proof -
  have v: "vpath 0x1000 \<noteq> vpath 0x2000" by (simp add: vpath_def pml4_i_def pdp_i_def pd_i_def pt_i_def)
  have e: "pmem ex_paging = ex_mem" by (simp add: ex_paging_def)
  show ?thesis
    using paging_map_correct [of "0x1000" ex_paging "0x2000" "0x9000" 7, OF _ prod.collapse [symmetric]] ex_ok ex_map_done v
    by (simp add: e PTE_MASK_def FLAGS_MASK_def)
qed

theorem paging_lookup_unmap_witness:
  "krust_paging_get_phys 0x1234 ex_paging = 0x6234 \<and> pg_ok 0x1000 (krust_paging_unmap_page 0x1000 ex_paging) \<and>
   pte (pmem (krust_paging_unmap_page 0x1000 ex_paging)) 0x1000 0x1234 = 0"
proof -
  have c: "unat (cr3 ex_paging) = 0x1000" by (simp add: ex_paging_def)
  have v: "vpath 0x1234 = vpath 0x1000" by (simp add: vpath_def pml4_i_def pdp_i_def pd_i_def pt_i_def)
  have p: "pte (pmem ex_paging) 0x1000 0x1234 = 0x6007" by (simp add: pte_def ex_eval)
  show ?thesis
    using paging_lookup_unmap [of ex_paging "0x1234" "0x1000"] ex_ok by (simp add: c p v PTE_MASK_def)
qed

theorem cow_resolve_correct_witness:
  "fst (cow_resolve_page 0x1000 0 ex_paging) \<and> pg_ok 0x1000 (snd (cow_resolve_page 0x1000 0 ex_paging)) \<and>
   table_of (pte (pmem (snd (cow_resolve_page 0x1000 0 ex_paging))) 0x1000 0) div 4096 \<in> {7, 15}"
proof -
  have w: "pt_walk (pmem ex_paging) 0x1000 0 = Leaf 0x4000" "pmem ex_paging 0x4000 = 0x5205"
    "fst (krust_cow_refdec (frame_of 0x5000) (counts ex_paging)) = 1"
    by (simp_all add: cow_resolve_page_def ex_eval frame_of_def krust_cow_refdec_def rc_entry_def)
  have e: "pmem ex_paging = ex_mem" by (simp add: ex_paging_def)
  show ?thesis
    using cow_resolve_correct [where target = "0x1000" and v = 0, OF ex_ok _ w(1) refl _ _ _ _ prod.collapse [symmetric] refl prod.collapse [symmetric]] w(2-)
    by (simp add: ex_free ex_tables e table_of_def PTE_MASK_def COW_BIT_def split: if_splits)
qed

theorem fork_shares_table_witness:
  "fst (share_pd_entry 0x3000 0x9000 0 ex_paging) \<and>
   \<not> user_writable (pmem (snd (share_pd_entry 0x3000 0x9000 0 ex_paging)) 0x4008)"
proof -
  have w: "pmem ex_paging 0x3000 = 0x4007" "pmem ex_paging 0x9000 = 0" "pmem ex_paging 0x4008 = 0x6007"
    by (simp_all add: ex_eval)
  define b u where "b = fst (share_pd_entry 0x3000 0x9000 0 ex_paging)" and "u = snd (share_pd_entry 0x3000 0x9000 0 ex_paging)"
  have bu: "share_pd_entry 0x3000 0x9000 0 ex_paging = (b, u)" by (simp add: b_def u_def)
  have t: "(0x4000 :: usize) = table_of (pmem ex_paging (0x3000 + 8 * 0))" by (simp add: w table_of_def PTE_MASK_def)
  have h: "pmem ex_paging (0x3000 + 8 * 0) AND 1 \<noteq> 0" "pmem ex_paging (0x3000 + 8 * 0) AND PS_2MB = 0"
    "pmem ex_paging (0x9000 + 8 * 0) AND 1 = 0 \<or> table_of (pmem ex_paging (0x9000 + 8 * 0)) \<noteq> 0x4000 \<and>
      table_of (pmem ex_paging (0x9000 + 8 * 0)) div 4096 \<noteq> (0x9000 + 8 * 0) div 4096" "(0x4000 :: usize) div 4096 \<notin> free_frames (frames ex_paging)"
    "((0x9000 :: usize) + 8 * 0) div 4096 \<notin> free_frames (frames ex_paging)" "((0x9000 :: usize) + 8 * 0) div 4096 \<noteq> 0x4000 div 4096"
    by (simp_all add: w ex_free PS_2MB_def)
  note F = fork_shares_table [OF ex_ok h(1,2) refl t h(3-6) bu refl]
  have b
  proof (rule ccontr)
    assume "\<not> b"
    from F [unfolded if_not_P [OF this]] show False by (simp add: ex_free)
  qed
  note F' = F [unfolded if_P [OF this], THEN conjunct2, THEN conjunct1, unfolded Let_def, rule_format, of 1]
  have "\<not> user_writable (pmem u (0x4000 + 8 * 1))" using F' by simp
  then show ?thesis using \<open>b\<close> by (simp add: b_def u_def)
qed

end
