(* ===== verification/Family.thy ===== *)
theory Family
  imports Sched
begin

text \<open>
  Properties of task numbers, of the lists of children and of exit: numbers are unique along every run,
  the linked lists of children refine lists, and exit ends the caller and runs the next task.
\<close>

section \<open>Task numbers\<close>

text \<open>
  The calls that concern task numbers, in any order, with the numbers in use: numbers are handed out,
  and taken back from tasks that had one. All other calls leave the three variables alone.
\<close>

inductive id_run :: "sched \<Rightarrow> u32 set \<Rightarrow> bool" where
  boot: "NEXT_ID s = 1 \<Longrightarrow> FREE_ID_COUNT s = 0 \<Longrightarrow> id_run s {}"
| given: "id_run s L \<Longrightarrow> alloc_task_id s = (Some i, s') \<Longrightarrow> id_run s' (insert i L)"
| refused: "id_run s L \<Longrightarrow> alloc_task_id s = (None, s') \<Longrightarrow> id_run s' L"
| returned: "id_run s L \<Longrightarrow> i \<in> L \<Longrightarrow> id_run (recycle_task_id i s) (L - {i})"
| other: "id_run s L \<Longrightarrow> NEXT_ID s' = NEXT_ID s \<Longrightarrow> FREE_IDS s' = FREE_IDS s \<Longrightarrow> FREE_ID_COUNT s' = FREE_ID_COUNT s \<Longrightarrow> id_run s' L"

definition ids_ok :: "sched \<Rightarrow> u32 set \<Rightarrow> bool" where
  "ids_ok s L \<longleftrightarrow> 0 < NEXT_ID s \<and> NEXT_ID s \<le> MAX_TASKS \<and> (\<forall>i \<in> L. 0 < i \<and> i < NEXT_ID s) \<and>
     inj_on (FREE_IDS s) {..<FREE_ID_COUNT s} \<and>
     (\<forall>j < FREE_ID_COUNT s. 0 < FREE_IDS s j \<and> FREE_IDS s j < NEXT_ID s \<and> FREE_IDS s j \<notin> L)"

lemma next_task_id_ok:
  assumes "ids_ok s L" and "next_task_id s = (r, s')"
  shows "case r of Some i \<Rightarrow> i \<notin> L \<and> 0 < i \<and> i < MAX_TASKS \<and> ids_ok s' (insert i L) | None \<Rightarrow> NEXT_ID s = MAX_TASKS \<and> ids_ok s' L"
proof (cases "NEXT_ID s \<ge> MAX_TASKS")
  case True
  then show ?thesis using assms by (auto simp: next_task_id_def Let_def ids_ok_def)
next
  case False
  let ?n = "NEXT_ID s"
  have n: "?n < MAX_TASKS" using False by simp
  then have u: "unat ?n < 128" by (simp add: MAX_TASKS_def word_less_nat_alt)
  then have u1: "unat (?n + 1) = unat ?n + 1" by (intro unat_plus_one) simp
  have lt: "i < ?n + 1 \<longleftrightarrow> i \<le> ?n" for i using u1 by (simp add: word_less_nat_alt word_le_nat_alt less_Suc_eq_le)
  have "?n + 1 \<le> MAX_TASKS" using u u1 by (simp add: MAX_TASKS_def word_le_nat_alt)
  moreover have "r = Some ?n" "s' = s\<lparr>NEXT_ID := ?n + 1\<rparr>"
    using assms(2) False by (simp_all add: next_task_id_def Let_def)
  moreover have "0 < ?n + 1" using u1 by (simp add: word_less_nat_alt)
  ultimately show ?thesis using assms(1) n lt by (auto simp: ids_ok_def less_imp_le)
qed

lemma alloc_task_id_ok:
  assumes "ids_ok s L" and "alloc_task_id s = (r, s')"
  shows "case r of Some i \<Rightarrow> i \<notin> L \<and> 0 < i \<and> i < MAX_TASKS \<and> ids_ok s' (insert i L) | None \<Rightarrow> NEXT_ID s = MAX_TASKS \<and> ids_ok s' L"
proof (cases "FREE_ID_COUNT s > 0")
  case True
  let ?j = "FREE_ID_COUNT s - 1"
  define u where "u = s\<lparr>FREE_ID_COUNT := ?j\<rparr>"
  have u: "ids_ok u L" using assms(1) True by (auto simp: ids_ok_def u_def inj_on_def)
  show ?thesis
  proof (cases "FREE_IDS s ?j < MAX_TASKS \<and> tk_state (TASKS s (unat (FREE_IDS s ?j))) = EXITED")
    case e: True
    have "FREE_IDS s j \<noteq> FREE_IDS s ?j" if "j < ?j" for j
      using assms(1) that True inj_onD [of "FREE_IDS s" "{..<FREE_ID_COUNT s}" j ?j] less_trans [of j ?j "FREE_ID_COUNT s"] by (auto simp: ids_ok_def)
    then have "ids_ok u (insert (FREE_IDS s ?j) L)" using assms(1) True u by (auto simp: ids_ok_def u_def)
    then show ?thesis using assms True e by (auto simp: alloc_task_id_def Let_def ids_ok_def u_def)
  next
    case False
    then have "next_task_id u = (r, s')" using assms(2) True by (auto simp: alloc_task_id_def Let_def u_def split: if_splits)
    from next_task_id_ok [OF u this] show ?thesis by (simp add: u_def split: option.splits)
  qed
next
  case False
  then show ?thesis using assms next_task_id_ok by (simp add: alloc_task_id_def)
qed

lemma recycle_task_id_ok:
  assumes "ids_ok s L" and "i \<in> L"
  shows "ids_ok (recycle_task_id i s) (L - {i})"
proof (cases "FREE_ID_COUNT s < 128")
  case True
  have "FREE_IDS s j \<noteq> i" if "j < FREE_ID_COUNT s" for j using assms that by (auto simp: ids_ok_def)
  then show ?thesis using assms True by (auto simp: ids_ok_def recycle_task_id_def inj_on_def less_Suc_eq)
next
  case False
  then show ?thesis using assms by (auto simp: ids_ok_def recycle_task_id_def)
qed

lemma id_run_ok: "id_run s L \<Longrightarrow> ids_ok s L"
proof (induction rule: id_run.induct)
  case (boot s)
  then show ?case by (simp add: ids_ok_def MAX_TASKS_def)
next
  case (given s L i s')
  then show ?case using alloc_task_id_ok [of s L "Some i" s'] by simp
next
  case (refused s L s')
  then show ?case using alloc_task_id_ok [of s L None s'] by simp
next
  case (returned s L i)
  then show ?case by (simp add: recycle_task_id_ok)
next
  case (other s L s')
  then show ?case by (simp add: ids_ok_def)
qed

text \<open>
  C28. Task numbers: along every run from boot, one call after the other, a number that is handed out is not
  in use, is not the idle task's and lies in the task table; a request is refused only when the counter has
  reached the end of the table.
\<close>

theorem task_ids_unique:
  assumes "id_run s L" and "alloc_task_id s = (r, s')"
  shows "case r of Some i \<Rightarrow> i \<notin> L \<and> 0 < i \<and> i < MAX_TASKS | None \<Rightarrow> NEXT_ID s = MAX_TASKS"
  using alloc_task_id_ok [OF id_run_ok [OF assms(1)] assms(2)] by (simp split: option.splits)

section \<open>Children\<close>

definition children :: "sched \<Rightarrow> usize \<Rightarrow> usize list \<Rightarrow> bool" where
  "children s p ds \<longleftrightarrow> tlist (sib_of s) (tk_child_head (TASKS s p)) ds \<and> distinct ds \<and>
     tk_child_tail (TASKS s p) = (if ds = [] then None else Some (last ds)) \<and> (\<forall>c \<in> set ds. tk_parent (TASKS s c) = Some p)"

text \<open>The children of every task, each in one list only.\<close>

definition family :: "sched \<Rightarrow> (usize \<Rightarrow> usize list) \<Rightarrow> bool" where
  "family s F \<longleftrightarrow> (\<forall>p. children s p (F p)) \<and> (\<forall>p q. p \<noteq> q \<longrightarrow> set (F p) \<inter> set (F q) = {})"

lemma familyD: "family s F \<Longrightarrow> children s p (F p)" "family s F \<Longrightarrow> p \<noteq> q \<Longrightarrow> set (F p) \<inter> set (F q) = {}"
  by (simp_all add: family_def)

lemma children_frame:
  assumes "children s p ds" and "\<And>c. c \<in> set ds \<Longrightarrow> sib_of s' c = sib_of s c \<and> tk_parent (TASKS s' c) = tk_parent (TASKS s c)"
    and "tk_child_head (TASKS s' p) = tk_child_head (TASKS s p)" "tk_child_tail (TASKS s' p) = tk_child_tail (TASKS s p)"
  shows "children s' p ds"
  using assms tlist_cong [of ds "sib_of s'" "sib_of s"] by (simp add: children_def)

lemma family_update:
  assumes F: "family s F" and p: "children s' p ds" and fresh: "\<And>q. q \<noteq> p \<Longrightarrow> set ds \<inter> set (F q) = {}"
    and same: "\<And>q c. q \<noteq> p \<Longrightarrow> c \<in> set (F q) \<Longrightarrow> sib_of s' c = sib_of s c \<and> tk_parent (TASKS s' c) = tk_parent (TASKS s c)"
    and head: "\<And>q. q \<noteq> p \<Longrightarrow> tk_child_head (TASKS s' q) = tk_child_head (TASKS s q) \<and> tk_child_tail (TASKS s' q) = tk_child_tail (TASKS s q)"
  shows "family s' (F(p := ds))"
  unfolding family_def
proof (intro conjI allI impI)
  fix q
  show "children s' q ((F(p := ds)) q)"
    using p children_frame [OF familyD(1) [OF F, of q], of s'] same head by (cases "q = p") auto
  fix q' assume "q \<noteq> q'"
  then show "set ((F(p := ds)) q) \<inter> set ((F(p := ds)) q') = {}" using fresh familyD(2) [OF F, of q q'] by auto
qed

lemma add_child_links:
  assumes c: "children s p ds" and n: "n \<notin> set ds" "n \<noteq> p"
  shows "children (add_child p n s) p (ds @ [n])"
    and "i \<noteq> n \<Longrightarrow> i \<notin> set ds \<Longrightarrow> sib_of (add_child p n s) i = sib_of s i"
    and "i \<noteq> n \<Longrightarrow> tk_parent (TASKS (add_child p n s) i) = tk_parent (TASKS s i)"
    and "q \<noteq> p \<Longrightarrow> tk_child_head (TASKS (add_child p n s) q) = tk_child_head (TASKS s q)"
    and "q \<noteq> p \<Longrightarrow> tk_child_tail (TASKS (add_child p n s) q) = tk_child_tail (TASKS s q)"
proof -
  let ?s = "add_child p n s"
  show "children ?s p (ds @ [n])"
  proof (cases "ds = []")
    case True
    then show ?thesis using c n by (simp add: children_def add_child_def Let_def sib_of_def)
  next
    case False
    have h: "tk_child_head (TASKS s p) \<noteq> None" "tk_child_tail (TASKS s p) = Some (last ds)"
      using c False by (cases ds; auto simp: children_def)+
    have l: "last ds \<noteq> n" using False n last_in_set by blast
    have sb: "sib_of ?s = (sib_of s)(n := None, last ds := Some n)"
      using h n l by (auto simp: add_child_def Let_def sib_of_def fun_eq_iff)
    have f: "tk_child_head (TASKS ?s p) = tk_child_head (TASKS s p)" "tk_child_tail (TASKS ?s p) = Some n"
      "tk_parent (TASKS ?s i) = (if i = n then Some p else tk_parent (TASKS s i))" for i
      using h n l by (auto simp: add_child_def Let_def)
    show ?thesis using tlist_append [of ds n "sib_of s" "tk_child_head (TASKS s p)"] c n False
      by (auto simp: children_def sb f)
  qed
  have "tk_child_tail (TASKS s p) = Some (last ds) \<and> last ds \<in> set ds" if "tk_child_head (TASKS s p) \<noteq> None"
  proof -
    have "ds \<noteq> []" using c that by (auto simp: children_def)
    then show ?thesis using c by (simp add: children_def)
  qed
  then show "i \<noteq> n \<Longrightarrow> i \<notin> set ds \<Longrightarrow> sib_of ?s i = sib_of s i"
    using n(2) by (auto simp: add_child_def Let_def sib_of_def)
qed (auto simp: add_child_def Let_def)

lemma remove_child_loop_links:
  assumes "children s p (as @ bs)" and "n \<in> set bs" and "prev = (if as = [] then None else Some (last as))"
    and "tlist (sib_of s) cur bs" and "p \<noteq> n"
  shows "\<exists>s'. remove_child_loop p n prev cur s = Some s' \<and> children s' p (remove1 n (as @ bs)) \<and> tk_parent (TASKS s' n) = None \<and>
     (\<forall>i. i \<notin> set (as @ bs) \<longrightarrow> sib_of s' i = sib_of s i) \<and> (\<forall>i. i \<noteq> n \<longrightarrow> tk_parent (TASKS s' i) = tk_parent (TASKS s i)) \<and>
     (\<forall>q. q \<noteq> p \<longrightarrow> tk_child_head (TASKS s' q) = tk_child_head (TASKS s q) \<and> tk_child_tail (TASKS s' q) = tk_child_tail (TASKS s q))"
  using assms
proof (induction bs arbitrary: as prev cur)
  case (Cons b bs)
  have cur: "cur = Some b" and tl: "tlist (sib_of s) (sib_of s b) bs" using Cons.prems(4) by simp_all
  show ?case
  proof (cases "b = n")
    case False
    have "children s p ((as @ [b]) @ bs)" using Cons.prems(1) by simp
    moreover have "n \<in> set bs" using Cons.prems(2) False by simp
    ultimately have "\<exists>s'. remove_child_loop p n (Some b) (sib_of s b) s = Some s' \<and> children s' p (remove1 n ((as @ [b]) @ bs)) \<and>
      tk_parent (TASKS s' n) = None \<and> (\<forall>i. i \<notin> set ((as @ [b]) @ bs) \<longrightarrow> sib_of s' i = sib_of s i) \<and>
      (\<forall>i. i \<noteq> n \<longrightarrow> tk_parent (TASKS s' i) = tk_parent (TASKS s i)) \<and>
      (\<forall>q. q \<noteq> p \<longrightarrow> tk_child_head (TASKS s' q) = tk_child_head (TASKS s q) \<and> tk_child_tail (TASKS s' q) = tk_child_tail (TASKS s q))"
      using Cons.IH [of "as @ [b]" "Some b" "sib_of s b"] tl Cons.prems(5) by simp
    then show ?thesis using False by (simp add: cur remove_child_loop.simps [of p n prev "Some b"] sib_of_def)
  next
    case True
    have d: "distinct (as @ n # bs)" and t: "tlist (sib_of s) (tk_child_head (TASKS s p)) (as @ n # bs)"
      and par: "\<forall>c \<in> set (as @ n # bs). tk_parent (TASKS s c) = Some p"
      and tail: "tk_child_tail (TASKS s p) = Some (last (as @ n # bs))"
      using Cons.prems(1) True by (simp_all add: children_def)
    have nb: "sib_of s n = None \<longleftrightarrow> bs = []" using tl True by (cases bs) auto
    define u where "u = (case prev of Some q \<Rightarrow> upd q (tk_sibling_next_update (\<lambda>_. sib_of s n)) s
      | None \<Rightarrow> upd p (tk_child_head_update (\<lambda>_. sib_of s n)) s)"
    define v where "v = (if bs = [] then upd p (tk_child_tail_update (\<lambda>_. prev)) u else u)"
    define w where "w = upd n (\<lambda>k. k\<lparr>tk_parent := None, tk_sibling_next := None\<rparr>) v"
    have la: "as \<noteq> [] \<Longrightarrow> last as \<noteq> n" using d last_in_set by fastforce
    have sib: "tk_sibling_next (TASKS u n) = sib_of s n" using la Cons.prems(3,5) by (auto simp: u_def sib_of_def)
    have "remove_child_loop p n prev cur s = Some (upd n (\<lambda>k. k\<lparr>tk_parent := None, tk_sibling_next := None\<rparr>)
        (if tk_sibling_next (TASKS u n) = None then upd p (tk_child_tail_update (\<lambda>_. prev)) u else u))"
      unfolding cur True u_def sib_of_def by (subst remove_child_loop.simps) (simp add: Let_def)
    then have w: "remove_child_loop p n prev cur s = Some w" using nb sib by (simp add: w_def v_def)
    have sw: "sib_of w = (if as = [] then (sib_of s)(n := None) else (sib_of s)(last as := sib_of s n, n := None))"
      using Cons.prems(3) la by (auto simp: w_def v_def u_def sib_of_def fun_eq_iff)
    have hw: "tk_child_head (TASKS w p) = (if as = [] then sib_of s n else tk_child_head (TASKS s p))"
      "tk_child_tail (TASKS w p) = (if bs = [] then prev else tk_child_tail (TASKS s p))"
      "tk_parent (TASKS w i) = (if i = n then None else tk_parent (TASKS s i))"
      "q \<noteq> p \<Longrightarrow> tk_child_head (TASKS w q) = tk_child_head (TASKS s q) \<and> tk_child_tail (TASKS w q) = tk_child_tail (TASKS s q)" for i q
      using Cons.prems(3,5) by (auto simp: w_def v_def u_def)
    have rm: "remove1 n (as @ b # bs) = as @ bs" using d True by (simp add: remove1_append)
    have "tlist (sib_of w) (tk_child_head (TASKS w p)) (as @ bs)"
      using tlist_remove [OF d _ t] t d by (cases "as = []") (auto simp: sw hw simp del: fun_upd_apply)
    then have "children w p (as @ bs)" using d par tail Cons.prems(3) by (auto simp: children_def hw)
    then show ?thesis using w rm hw True by (auto simp: sw)
  qed
qed simp

lemma remove_child_absent:
  "tlist (sib_of s) cur ds \<Longrightarrow> n \<notin> set ds \<Longrightarrow> remove_child_loop p n prev cur s = Some s"
proof (induction ds arbitrary: cur prev)
  case Nil
  then show ?case by (simp add: remove_child_loop.simps)
next
  case (Cons d ds)
  then show ?case using remove_child_loop.simps [of p n prev "Some d" s] by (auto simp: sib_of_def)
qed

lemma family_add:
  assumes F: "family s F" and n: "\<forall>q. n \<notin> set (F q)" "n \<noteq> p"
  shows "family (add_child p n s) (F(p := F p @ [n]))"
proof -
  note A = add_child_links [OF familyD(1) [OF F] n(1) [rule_format] n(2)]
  have "sib_of (add_child p n s) c = sib_of s c \<and> tk_parent (TASKS (add_child p n s) c) = tk_parent (TASKS s c)"
    if "q \<noteq> p" "c \<in> set (F q)" for q c
    using A(2,3) [of c] that familyD(2) [OF F that(1)] n(1) by auto
  moreover have "set (F p @ [n]) \<inter> set (F q) = {}" if "q \<noteq> p" for q using familyD(2) [OF F, of p q] that n(1) by auto
  ultimately show ?thesis using A by (intro family_update [OF F A(1)]) auto
qed

lemma family_remove:
  assumes F: "family s F" and n: "n \<noteq> p"
  shows "\<exists>s'. remove_child p n s = Some s' \<and> family s' (F(p := remove1 n (F p)))"
proof (cases "n \<in> set (F p)")
  case True
  have c: "children s p (F p)" using F by (rule familyD)
  obtain s' where s': "remove_child p n s = Some s'" "children s' p (remove1 n (F p))"
    "\<forall>i. i \<notin> set (F p) \<longrightarrow> sib_of s' i = sib_of s i" "\<forall>i. i \<noteq> n \<longrightarrow> tk_parent (TASKS s' i) = tk_parent (TASKS s i)"
    "\<forall>q. q \<noteq> p \<longrightarrow> tk_child_head (TASKS s' q) = tk_child_head (TASKS s q) \<and> tk_child_tail (TASKS s' q) = tk_child_tail (TASKS s q)"
    using remove_child_loop_links [of s p "[]" "F p" n None "tk_child_head (TASKS s p)"] c True n
    by (auto simp: remove_child_def children_def)
  have "sib_of s' x = sib_of s x \<and> tk_parent (TASKS s' x) = tk_parent (TASKS s x)" if "q \<noteq> p" "x \<in> set (F q)" for q x
    using s'(3,4) that familyD(2) [OF F that(1)] True by auto
  moreover have "set (remove1 n (F p)) \<inter> set (F q) = {}" if "q \<noteq> p" for q
    using familyD(2) [OF F, of p q] that set_remove1_subset [of n "F p"] by blast
  ultimately have "family s' (F(p := remove1 n (F p)))" using s'(5) by (intro family_update [OF F s'(2)]) auto
  then show ?thesis using s'(1) by blast
next
  case False
  then have "remove_child p n s = Some s"
    using familyD(1) [OF F, of p] by (auto simp: remove_child_def children_def intro: remove_child_absent)
  then show ?thesis using F False by (simp add: remove1_idem)
qed

text \<open>
  C29. The lists of children: adding a child to a task puts it at the end of that task's list, removing one
  takes it out wherever it stands, and no other list changes.
\<close>

theorem child_lists_refine:
  assumes "family s F" and "n \<noteq> p"
  shows "((\<forall>q. n \<notin> set (F q)) \<longrightarrow> family (add_child p n s) (F(p := F p @ [n]))) \<and>
    (\<exists>s'. remove_child p n s = Some s' \<and> family s' (F(p := remove1 n (F p))))"
  using family_add [OF assms(1) _ assms(2)] family_remove [OF assms] by blast

section \<open>Exit\<close>

definition orphaned :: "usize list \<Rightarrow> sched \<Rightarrow> sched" where
  "orphaned ds s = s\<lparr>TASKS := (\<lambda>i. if i \<in> set ds then (TASKS s i)\<lparr>tk_parent := Some 0\<rparr> else TASKS s i)\<rparr>"

lemma orphaned_fields [simp]:
  "ready_head (orphaned ds s) = ready_head s" "ready_tail (orphaned ds s) = ready_tail s" "sleep_head (orphaned ds s) = sleep_head s"
  "sleep_count (orphaned ds s) = sleep_count s" "get_current (orphaned ds s) = get_current s" "next_of (orphaned ds s) = next_of s"
  "sib_of (orphaned ds s) = sib_of s" "tk_next (TASKS (orphaned ds s) i) = tk_next (TASKS s i)" "tk_state (TASKS (orphaned ds s) i) = tk_state (TASKS s i)"
  "tk_exit_code (TASKS (orphaned ds s) i) = tk_exit_code (TASKS s i)" "ctx_rsp (TASKS (orphaned ds s) i) = ctx_rsp (TASKS s i)"
  "tk_has_child_exit (TASKS (orphaned ds s) i) = tk_has_child_exit (TASKS s i)"
  "tk_parent (TASKS (orphaned ds s) i) = (if i \<in> set ds then Some 0 else tk_parent (TASKS s i))"
  by (simp_all add: orphaned_def get_current_def current_cpu_id_def next_of_def sib_of_def fun_eq_iff)

lemma reparent_loop_list: "tlist (sib_of s) p ds \<Longrightarrow> reparent_loop p s = Some (orphaned ds s)"
proof (induction ds arbitrary: p s)
  case Nil
  then show ?case by (simp add: reparent_loop.simps orphaned_def)
next
  case (Cons d ds)
  let ?s = "upd d (tk_parent_update (\<lambda>_. Some 0)) s"
  have "sib_of ?s = sib_of s" by (simp add: sib_of_def fun_eq_iff)
  then have "reparent_loop (sib_of s d) ?s = Some (orphaned ds ?s)" using Cons by simp
  moreover have "orphaned ds ?s = orphaned (d # ds) s" by (auto simp: orphaned_def upd_def fun_eq_iff)
  ultimately show ?case using Cons.prems by (simp add: reparent_loop.simps [of "Some d"] sib_of_def Let_def)
qed

text \<open>The state in which the next task is looked for.\<close>

definition exiting :: "u32 \<Rightarrow> usize \<Rightarrow> usize list \<Rightarrow> sched \<Rightarrow> sched" where
  "exiting code c ds s =
     upd c (\<lambda>k. k\<lparr>tk_child_head := None, tk_child_tail := None\<rparr>)
       (orphaned ds (notify_parent c (upd c (\<lambda>k. k\<lparr>tk_exit_code := code, tk_state := EXITED\<rparr>) (fpu_save_current s))))"

lemma notify_parent_fields [simp]:
  "ready_head (notify_parent t s) = ready_head s" "ready_tail (notify_parent t s) = ready_tail s"
  "sleep_head (notify_parent t s) = sleep_head s" "sleep_count (notify_parent t s) = sleep_count s"
  "get_current (notify_parent t s) = get_current s" "next_of (notify_parent t s) = next_of s" "sib_of (notify_parent t s) = sib_of s"
  "tk_next (TASKS (notify_parent t s) i) = tk_next (TASKS s i)"
  "tk_state (TASKS (notify_parent t s) i) = tk_state (TASKS s i)" "tk_exit_code (TASKS (notify_parent t s) i) = tk_exit_code (TASKS s i)"
  "tk_child_head (TASKS (notify_parent t s) i) = tk_child_head (TASKS s i)" "tk_parent (TASKS (notify_parent t s) i) = tk_parent (TASKS s i)"
  "ctx_rsp (TASKS (notify_parent t s) i) = ctx_rsp (TASKS s i)" "tk_id (TASKS (notify_parent t s) i) = tk_id (TASKS s i)"
  by (auto simp: notify_parent_def next_of_def sib_of_def fun_eq_iff split: option.split)

lemma notify_parent_told: "tk_parent (TASKS s t) = Some p \<Longrightarrow> tk_has_child_exit (TASKS (notify_parent t s) p)"
  by (simp add: notify_parent_def)

lemma exiting_fields:
  "tk_state (TASKS (exiting code c ds s) c) = EXITED" "tk_exit_code (TASKS (exiting code c ds s) c) = code"
  "tk_child_head (TASKS (exiting code c ds s) c) = None" "ctx_rsp (TASKS (exiting code c ds s) i) = ctx_rsp (TASKS s i)"
  "d \<in> set ds \<Longrightarrow> tk_parent (TASKS (exiting code c ds s) d) = Some 0"
  "tk_parent (TASKS s c) = Some p \<Longrightarrow> tk_has_child_exit (TASKS (exiting code c ds s) p)"
  "get_current (exiting code c ds s) = get_current s" "next_of (exiting code c ds s) = next_of s"
  by (auto simp: exiting_def notify_parent_told next_of_def fun_eq_iff)

lemma exiting_queues: "queues s xs ys \<Longrightarrow> queues (exiting code c ds s) xs ys"
  by (erule queues_frame) (simp_all add: exiting_fields, simp_all add: exiting_def)

lemma exit_steps:
  assumes "get_current s = Some c" and "tk_id (TASKS s c) \<noteq> 0" and "children s c ds"
  shows "krust_sched_exit code s =
    (case dequeue (exiting code c ds s) of
       (Some n, s) \<Rightarrow> Some (Resumes n, switch_to n s)
     | (None, s) \<Rightarrow> if ctx_rsp (TASKS s 0) = 0 then Some (Halts, s) else Some (Resumes 0, switch_to 0 s))"
proof -
  let ?u = "notify_parent c (upd c (\<lambda>k. k\<lparr>tk_exit_code := code, tk_state := EXITED\<rparr>) (fpu_save_current s))"
  have "sib_of ?u = sib_of s" by (simp add: sib_of_def fun_eq_iff)
  then have "reparent_loop (tk_child_head (TASKS ?u c)) ?u = Some (orphaned ds ?u)"
    using assms(3) by (intro reparent_loop_list) (simp add: children_def)
  then show ?thesis using assms(1,2) by (simp add: krust_sched_exit_def exiting_def)
qed

lemma core_eqD:
  assumes "core k = core k'"
  shows "tk_parent k = tk_parent k'" "tk_exit_code k = tk_exit_code k'" "tk_has_child_exit k = tk_has_child_exit k'"
    "tk_child_head k = tk_child_head k'"
proof -
  have "tk_parent (core k) = tk_parent (core k')" "tk_exit_code (core k) = tk_exit_code (core k')"
    "tk_has_child_exit (core k) = tk_has_child_exit (core k')" "tk_child_head (core k) = tk_child_head (core k')"
    using assms by simp_all
  then show "tk_parent k = tk_parent k'" "tk_exit_code k = tk_exit_code k'" "tk_has_child_exit k = tk_has_child_exit k'"
    "tk_child_head k = tk_child_head k'" by (simp_all add: core_def)
qed

text \<open>
  C30. Exit: the caller ends with its code, its parent is told, its children pass to the idle task, and
  the first ready task runs, or the idle task when none is ready; the processor halts only when the
  idle task has never run. The ready queue loses just the task that runs and the sleepers stay.
\<close>

theorem exit_correct:
  assumes ok: "sched_ok s c xs ys" and id: "tk_id (TASKS s c) \<noteq> 0" and ch: "children s c ds" and c: "c \<noteq> 0"
  shows "\<exists>out s'. krust_sched_exit code s = Some (out, s') \<and>
    (case xs of x # _ \<Rightarrow> out = Resumes x \<and> get_current s' = Some x
     | [] \<Rightarrow> if ctx_rsp (TASKS s 0) = 0 then out = Halts else out = Resumes 0 \<and> get_current s' = Some 0) \<and>
    queues s' (tl xs) ys \<and> tk_state (TASKS s' c) = EXITED \<and> tk_exit_code (TASKS s' c) = code \<and>
    (\<forall>p. tk_parent (TASKS s c) = Some p \<longrightarrow> tk_has_child_exit (TASKS s' p)) \<and>
    (\<forall>d \<in> set ds. tk_parent (TASKS s' d) = Some 0) \<and> tk_child_head (TASKS s' c) = None"
proof -
  have cur: "get_current s = Some c" and q: "queues s xs ys" and cx: "c \<notin> set xs" using ok by (simp_all add: sched_ok_def)
  let ?u = "exiting code c ds s"
  note E = exiting_fields [where code = code and c = c and ds = ds and s = s]
  show ?thesis
  proof (cases xs)
    case Nil
    have d: "dequeue ?u = (None, ?u)" using exiting_queues [OF q, where code = code and c = c and ds = ds] Nil by (simp add: queues_def dequeue_empty)
    have "queues (switch_to 0 ?u) [] ys" using exiting_queues [OF q [unfolded Nil]] by (rule queues_frame) simp_all
    then show ?thesis using E c exiting_queues [OF q [unfolded Nil]] Nil by (simp add: exit_steps [OF cur id ch] d)
  next
    case (Cons x xs1)
    obtain v where v: "dequeue ?u = (Some x, v)" "queues v xs1 ys" using exiting_queues [OF q, where code = code and c = c and ds = ds] unfolding Cons by (rule queues_dequeue)
    have "queues (switch_to x v) xs1 ys" using v(2) by (rule queues_frame) simp_all
    moreover have "tk_parent (TASKS v i) = tk_parent (TASKS ?u i)" "tk_exit_code (TASKS v i) = tk_exit_code (TASKS ?u i)"
      "tk_has_child_exit (TASKS v i) = tk_has_child_exit (TASKS ?u i)" "tk_child_head (TASKS v i) = tk_child_head (TASKS ?u i)" for i
      using core_eqD [OF dequeue_fields(8) [OF v(1), of i]] by simp_all
    ultimately show ?thesis using E cx Cons dequeue_fields(3) [OF v(1)] by (auto simp: exit_steps [OF cur id ch] v(1))
  qed
qed

lemma four_tasks_family: "family four_tasks ((\<lambda>_. [])(1 := [2, 3]))"
  by (auto simp: family_def children_def sib_of_def four_tasks_def blank_task_def)

lemma four_tasks_children: "children four_tasks 1 [2, 3]"
  by (simp add: children_def sib_of_def four_tasks_def blank_task_def)

theorem task_ids_unique_witness:
  "\<exists>s L i s'. id_run s L \<and> L = {1} \<and> alloc_task_id s = (Some i, s') \<and> i \<notin> L"
proof -
  let ?s = "four_tasks\<lparr>NEXT_ID := 1\<rparr>"
  have o: "id_run ?s {}" by (rule id_run.boot) (simp_all add: four_tasks_def)
  have a: "alloc_task_id ?s = (Some 1, four_tasks\<lparr>NEXT_ID := 2\<rparr>)"
    "alloc_task_id (four_tasks\<lparr>NEXT_ID := 2\<rparr>) = (Some 2, four_tasks\<lparr>NEXT_ID := 3\<rparr>)"
    by (simp_all add: alloc_task_id_def next_task_id_def four_tasks_def MAX_TASKS_def Let_def word_le_nat_alt)
  from id_run.given [OF o a(1)] have r: "id_run (four_tasks\<lparr>NEXT_ID := 2\<rparr>) {1}" .
  from task_ids_unique [OF r a(2)] r a(2) show ?thesis by auto
qed

theorem child_lists_refine_witness:
  "family (add_child 1 4 four_tasks) ((\<lambda>_. [])(1 := [2, 3, 4])) \<and>
   (\<exists>s'. remove_child 1 2 four_tasks = Some s' \<and> family s' ((\<lambda>_. [])(1 := [3])))"
  using child_lists_refine [OF four_tasks_family, of 4 1] child_lists_refine [OF four_tasks_family, of 2 1] by (auto simp: fun_upd_upd)

theorem exit_correct_witness:
  "\<exists>s'. krust_sched_exit 3 four_tasks = Some (Resumes 2, s') \<and> queues s' [3] [4] \<and> tk_exit_code (TASKS s' 1) = 3"
  using exit_correct [OF four_tasks_ok _ four_tasks_children, of 3] by (auto simp: four_tasks_eqs)

end
