(* ===== verification/Process.thy ===== *)
theory Process
  imports Paging Vnode Family
begin

unbundle bit_operations_syntax

text \<open>
  Making and ending processes (the rest of \<open>kernel/src/process/scheduler.rs\<close>): kernel threads, fork and
  clone, threads, waiting for a child, and the killing of a task when memory runs out. The state joins
  the task table, the page tables with the frame allocator and the memory regions, the kernel heap, and
  the descriptor tables by their address. A kernel stack is a page of physical memory; \<open>ra\<close> is the
  address of the registers saved on it.
\<close>

section \<open>State\<close>

record 'h kernel =
  sch :: sched
  pg :: paging
  kheap_of :: 'h
  fd_tables :: "usize \<Rightarrow> fd_entry list"

definition on_sch :: "(sched \<Rightarrow> sched) \<Rightarrow> 'h kernel \<Rightarrow> 'h kernel" where
  "on_sch f k = k\<lparr>sch := f (sch k)\<rparr>"

definition on_pg :: "(paging \<Rightarrow> paging) \<Rightarrow> 'h kernel \<Rightarrow> 'h kernel" where
  "on_pg f k = k\<lparr>pg := f (pg k)\<rparr>"

definition task_at :: "'h kernel \<Rightarrow> usize \<Rightarrow> task" where
  "task_at k t = TASKS (sch k) t"

definition vmm_of :: "'h kernel \<Rightarrow> 'h vmm" where
  "vmm_of k = \<lparr>vmas = regions (pg k), vheap = kheap_of k\<rparr>"

definition set_vmm :: "'h vmm \<Rightarrow> 'h kernel \<Rightarrow> 'h kernel" where
  "set_vmm v k = k\<lparr>pg := (pg k)\<lparr>regions := vmas v\<rparr>, kheap_of := vheap v\<rparr>"

text \<open>\<open>size_of::<FDEntry>() * MAX_FDS\<close>.\<close>

definition FD_TABLE_SIZE :: u32 where
  "FD_TABLE_SIZE = 24 * 128"

definition zero_fd :: fd_entry where
  "zero_fd = \<lparr>fd_node = 0, fd_offset = 0, fd_flags = 0, fd_used = False, fd_refcount = 0\<rparr>"

section \<open>Frames and stacks\<close>

definition alloc_frame :: "'h kernel \<Rightarrow> usize \<times> 'h kernel" where
  "alloc_frame k =
     (let (f, p) = krust_pmm_alloc_frame (frames (pg k));
          k = on_pg (frames_update (\<lambda>_. p)) k
      in if f = usize_max then (0, k) else (f * 4096 mod usize_mod, k))"

definition free_frame_at :: "usize \<Rightarrow> 'h kernel \<Rightarrow> 'h kernel" where
  "free_frame_at p k = (if p = 0 then k else on_pg (free_frame (p div 4096)) k)"

text \<open>Words are pushed from the top of a stack downwards.\<close>

definition push_words :: "usize \<Rightarrow> u64 list \<Rightarrow> paging \<Rightarrow> usize \<times> paging" where
  "push_words sp_top ws s = fold (\<lambda>w (sp, s). (sp - 8, set_entry (sp - 8) w s)) ws (sp_top, s)"

definition build_user_frame :: "usize \<Rightarrow> u64 \<Rightarrow> u64 \<Rightarrow> i32 \<Rightarrow> u64 \<Rightarrow> paging \<Rightarrow> usize \<times> paging" where
  "build_user_frame sp_top entry usp argc argv s =
     push_words sp_top [0x23, usp, 0x202, 0x1B, entry, 0, 0, scast argc, 0, 0, argv, 0, 0, 0, 0, 0, 0, 0, 0, 0, 0, 0, 0] s"

section \<open>Descriptor tables\<close>

definition copy_fd_table :: "'h malloc \<Rightarrow> usize \<Rightarrow> 'h kernel \<Rightarrow> (usize \<times> 'h kernel) option" where
  "copy_fd_table malloc src k =
     (if src = 0 then Some (0, k)
      else do {
        (dst, h) \<leftarrow> malloc FD_TABLE_SIZE (kheap_of k);
        let k = k\<lparr>kheap_of := h\<rparr>;
        if dst = 0 then Some (0, k)
        else Some (dst, k\<lparr>fd_tables := (fd_tables k)(dst :=
               map (\<lambda>e. if fd_used e \<and> fd_node e \<noteq> 0 then e\<lparr>fd_refcount := fd_refcount e + 1\<rparr> else e) (fd_tables k src))\<rparr>)
      })"

definition free_fd_table :: "'h mfree \<Rightarrow> usize \<Rightarrow> 'h kernel \<Rightarrow> 'h kernel option" where
  "free_fd_table mfree table k =
     (if table = 0 then Some k
      else do {
        let k = k\<lparr>fd_tables := (fd_tables k)(table :=
                  map (\<lambda>e. if fd_used e \<and> fd_node e \<noteq> 0 \<and> fd_refcount e \<le> 1 then e\<lparr>fd_used := False, fd_node := 0\<rparr> else e)
                    (fd_tables k table))\<rparr>;
        h \<leftarrow> mfree table (kheap_of k);
        Some (k\<lparr>kheap_of := h\<rparr>)
      })"

section \<open>New tasks\<close>

definition fresh_task :: "u32 \<Rightarrow> usize \<Rightarrow> tptr \<Rightarrow> (usize \<Rightarrow> task) \<Rightarrow> usize \<Rightarrow> task \<Rightarrow> task" where
  "fresh_task i kstack parent tasks fds t =
     t\<lparr>tk_id := i,
       tk_ppid := (case parent of None \<Rightarrow> 0 | Some p \<Rightarrow> tk_id (tasks p)),
       tk_pgid := (case parent of None \<Rightarrow> i | Some p \<Rightarrow> tk_pgid (tasks p)),
       tk_sid := (case parent of None \<Rightarrow> i | Some p \<Rightarrow> tk_sid (tasks p)),
       tk_state := READY, tk_kstack := kstack, tk_pages := 1,
       tk_stdin_fd := - 1, tk_stdout_fd := - 1, tk_stderr_fd := - 1, tk_fd_table := fds, tk_exit_code := 0,
       tk_cwd := (tk_cwd t)[0 := 47, 1 := 0], tk_parent := parent, tk_child_head := None, tk_child_tail := None,
       tk_sibling_next := None, tk_has_child_exit := False, tk_sig_pending := 0, tk_sig_blocked := 0,
       tk_sig_handlers := (\<lambda>n. if n < NSIG then 0 else tk_sig_handlers t n),
       tk_vma_list := 0, tk_program_brk := BRK_INITIAL, tk_priority := 0, tk_sleep_until := 0,
       tk_uid := (case parent of None \<Rightarrow> 0 | Some p \<Rightarrow> tk_uid (tasks p)),
       tk_gid := (case parent of None \<Rightarrow> 0 | Some p \<Rightarrow> tk_gid (tasks p)), tk_oom_score_adj := 0\<rparr>"

definition setup_task_common :: "'h malloc \<Rightarrow> usize \<Rightarrow> u32 \<Rightarrow> usize \<Rightarrow> tptr \<Rightarrow> 'h kernel \<Rightarrow> 'h kernel option" where
  "setup_task_common malloc t i kstack parent k = do {
     (fds, h) \<leftarrow> malloc FD_TABLE_SIZE (kheap_of k);
     let k = k\<lparr>kheap_of := h\<rparr>;
     let k = (if fds \<noteq> 0 then k\<lparr>fd_tables := (fd_tables k)(fds := replicate 128 zero_fd)\<rparr> else k);
     let k = on_sch (upd t (fresh_task i kstack parent (TASKS (sch k)) fds)) k;
     if SCHED_HAS_FPU (sch k) then do {
       let (f, p) = krust_pmm_alloc_frame (frames (pg k));
       let k = on_pg (frames_update (\<lambda>_. p)) k;
       if f \<noteq> usize_max
       then Some (on_pg (clear_page (f * 4096)) (on_sch (upd t (tk_fpu_state_update (\<lambda>_. f * 4096))) k))
       else Some k
     }
     else Some k
   }"

definition krust_sched_create :: "'h malloc \<Rightarrow> u64 \<Rightarrow> i32 \<Rightarrow> i32 \<Rightarrow> 'h kernel \<Rightarrow> (i32 \<times> 'h kernel) option" where
  "krust_sched_create malloc entry stdin_fd stdout_fd k =
     (case alloc_task_id (sch k) of
        (None, s) \<Rightarrow> Some (- 1, k\<lparr>sch := s\<rparr>)
      | (Some i, s) \<Rightarrow> do {
          let t = unat i;
          let (kstack, k) = alloc_frame (k\<lparr>sch := s\<rparr>);
          if kstack = 0 then Some (- 1, k)
          else do {
            k \<leftarrow> setup_task_common malloc t i kstack None (on_pg (clear_page kstack) k);
            let k = on_sch (upd t (\<lambda>a. a\<lparr>tk_stdin_fd := stdin_fd, tk_stdout_fd := stdout_fd\<rparr>)) k;
            let (sp, p) = push_words (kstack + 4096)
              [0x10, 0, 0x202, 0x08, entry, 0, 0, 0, 0, 0, 0, 0, 0, 0, 0, 0, 0, 0, 0, 0, 0, 0, 0] (pg k);
            let k = k\<lparr>pg := p\<rparr>;
            let k = on_sch (upd t (\<lambda>a. a\<lparr>ctx_rsp := of_nat sp, ctx_cr3 := of_nat (krust_paging_page_directory (pg k))\<rparr>)) k;
            Some (i, on_sch (enqueue t) k)
          }
        })"

definition krust_sched_thread_create :: "'h malloc \<Rightarrow> u64 \<Rightarrow> u64 \<Rightarrow> u64 \<Rightarrow> 'h kernel \<Rightarrow> (i32 \<times> 'h kernel) option" where
  "krust_sched_thread_create malloc entry arg stack k =
     (case alloc_task_id (sch k) of
        (None, s) \<Rightarrow> Some (- 1, k\<lparr>sch := s\<rparr>)
      | (Some i, s) \<Rightarrow> do {
          let t = unat i;
          let (kstack, k) = alloc_frame (k\<lparr>sch := s\<rparr>);
          if kstack = 0 then Some (- 1, k)
          else do {
            k \<leftarrow> setup_task_common malloc t i kstack None (on_pg (clear_page kstack) k);
            let (sp, p) = push_words (kstack + 4096)
              [0x23, stack, 0x202, 0x1B, entry, 0, 0, arg, 0, 0, 0, stack, 0, 0, 0, 0, 0, 0, 0, 0, 0, 0, 0] (pg k);
            let k = k\<lparr>pg := p\<rparr>;
            let k = on_sch (upd t (\<lambda>a. a\<lparr>ctx_rsp := of_nat sp, ctx_cr3 := of_nat (krust_paging_page_directory (pg k)),
                                         tk_ustack := unat stack\<rparr>)) k;
            Some (i, on_sch (enqueue t) (on_sch (set_kernel_stack (of_nat (kstack + 4096))) k))
          }
        })"

section \<open>Fork and clone\<close>

text \<open>The C string in the first array is copied over the second.\<close>

definition copy_cwd :: "u8 list \<Rightarrow> u8 list \<Rightarrow> u8 list" where
  "copy_cwd src dst =
     (let n = length (takeWhile (\<lambda>b. b \<noteq> 0) (take 127 src)) in take n src @ [0] @ drop (n + 1) dst)"

partial_function (option) copy_vmas :: "'h malloc \<Rightarrow> usize \<Rightarrow> usize \<Rightarrow> 'h vmm \<Rightarrow> (usize \<times> 'h vmm) option" where
  "copy_vmas malloc v head m =
     (if v = 0 then Some (head, m)
      else Option.bind (krust_vmm_add malloc head (vm_start (vmas m v)) (vm_end (vmas m v)) (vm_flags (vmas m v)) m)
             (\<lambda>(_, head, m). copy_vmas malloc (vm_next (vmas m v)) head m))"

text \<open>The offsets of \<open>rax\<close> and \<open>user_rsp\<close> in \<open>Registers\<close>.\<close>

definition RAX_AT :: usize where "RAX_AT = 15 * 8"
definition USER_RSP_AT :: usize where "USER_RSP_AT = 21 * 8"

text \<open>What a child takes over from its parent, with its own copies of the descriptors and the regions.\<close>

definition inherit :: "task \<Rightarrow> usize \<Rightarrow> usize \<Rightarrow> task \<Rightarrow> task" where
  "inherit p fds head t =
     t\<lparr>tk_stdin_fd := tk_stdin_fd p, tk_stdout_fd := tk_stdout_fd p, tk_stderr_fd := tk_stderr_fd p,
       tk_fd_table := fds, tk_ustack := tk_ustack p, tk_pages := tk_pages p,
       tk_cwd := copy_cwd (tk_cwd p) (tk_cwd t), tk_ppid := tk_id p,
       tk_vma_list := head, tk_program_brk := tk_program_brk p,
       tk_sig_handlers := (\<lambda>n. if n < NSIG then tk_sig_handlers p n else tk_sig_handlers t n),
       tk_sig_blocked := tk_sig_blocked p\<rparr>"

text \<open>The child's page tables, descriptors and regions; only the state when there is no memory for the tables.\<close>

definition dup_space :: "'h malloc \<Rightarrow> u32 \<Rightarrow> usize \<Rightarrow> u64 \<Rightarrow> usize \<Rightarrow> 'h kernel \<Rightarrow> ('h kernel + u32 \<times> u64 \<times> usize \<times> 'h kernel) option" where
  "dup_space malloc i kstack child_r p k =
     (let (pml4, g) = krust_paging_clone_kernel_dir (pg k);
          k = k\<lparr>pg := g\<rparr>
      in if pml4 = 0 then Some (Inl (free_frame_at kstack k))
         else do {
           let k = on_pg (krust_paging_copy_user_pages (unat (ctx_cr3 (task_at k p))) pml4) k;
           (fds, k) \<leftarrow> copy_fd_table malloc (tk_fd_table (task_at k p)) k;
           (head, m) \<leftarrow> copy_vmas malloc (tk_vma_list (task_at k p)) 0 (vmm_of k);
           let k = set_vmm m k;
           Some (Inr (i, child_r, pml4, on_sch (upd (unat i) (inherit (task_at k p) fds head)) k))
         })"

text \<open>
  What fork and clone have in common: the child's number, the address of its registers, its page table
  and the new state, or only the state when the call fails.
\<close>

definition duplicate :: "'h malloc \<Rightarrow> u64 \<Rightarrow> usize \<Rightarrow> 'h kernel \<Rightarrow> ('h kernel + u32 \<times> u64 \<times> usize \<times> 'h kernel) option" where
  "duplicate malloc ra p k =
     (case alloc_task_id (sch k) of
        (None, s) \<Rightarrow> Some (Inl (k\<lparr>sch := s\<rparr>))
      | (Some i, s) \<Rightarrow>
          let (kstack, k) = alloc_frame (k\<lparr>sch := s\<rparr>)
          in if kstack = 0 then Some (Inl k)
             else do {
               k \<leftarrow> setup_task_common malloc (unat i) i kstack (Some p) (on_pg (clear_page kstack) k);
               let pk = tk_kstack (task_at k p);
               let child_r = of_nat kstack + (ra - of_nat pk);
               let k = on_pg (copy_page kstack pk) k;
               dup_space malloc i kstack child_r p (on_pg (set_entry (unat child_r + RAX_AT) 0) k)
             })"

text \<open>The child is linked in and made ready.\<close>

definition launch :: "usize \<Rightarrow> usize \<Rightarrow> 'h kernel \<Rightarrow> 'h kernel" where
  "launch p c k =
     on_sch (\<lambda>s. enqueue c (set_kernel_stack (of_nat (tk_kstack (TASKS s p)) + 4096) (add_child p c s))) k"

definition krust_sched_fork :: "'h malloc \<Rightarrow> u64 \<Rightarrow> 'h kernel \<Rightarrow> (i32 \<times> 'h kernel) option" where
  "krust_sched_fork malloc ra k =
     (if ra = 0 then Some (- 1, k)
      else case get_current (sch k) of
        None \<Rightarrow> Some (- 1, k)
      | Some p \<Rightarrow> do {
          d \<leftarrow> duplicate malloc ra p k;
          case d of
            Inl k \<Rightarrow> Some (- 1, k)
          | Inr (i, child_r, pml4, k) \<Rightarrow>
              Some (i, launch p (unat i)
                         (on_sch (upd (unat i) (\<lambda>t. t\<lparr>ctx_rsp := child_r, ctx_cr3 := of_nat pml4\<rparr>)) k))
        })"

text \<open>The new number is also stored through \<open>ptid\<close> and \<open>ctid\<close>, which are given as whether they are not null.\<close>

definition krust_sched_clone ::
  "'h malloc \<Rightarrow> u64 \<Rightarrow> u64 \<Rightarrow> u64 \<Rightarrow> bool \<Rightarrow> bool \<Rightarrow> 'h kernel \<Rightarrow> (i32 \<times> u32 option \<times> u32 option \<times> 'h kernel) option" where
  "krust_sched_clone malloc ra flags stack ptid ctid k =
     (if ra = 0 then Some (- 1, None, None, k)
      else case get_current (sch k) of
        None \<Rightarrow> Some (- 1, None, None, k)
      | Some p \<Rightarrow> do {
          d \<leftarrow> duplicate malloc ra p k;
          case d of
            Inl k \<Rightarrow> Some (- 1, None, None, k)
          | Inr (i, child_r, pml4, k) \<Rightarrow>
              let c = unat i;
                  cr3 = (if flags AND 0x1000 \<noteq> 0 then ctx_cr3 (task_at k p) else of_nat pml4);
                  k = (if stack \<noteq> 0
                       then on_sch (upd c (tk_ustack_update (\<lambda>_. unat stack)))
                              (on_pg (set_entry (unat child_r + USER_RSP_AT) stack) k)
                       else k);
                  k = on_sch (upd c (\<lambda>t. t\<lparr>ctx_rsp := child_r, ctx_cr3 := cr3\<rparr>)) k
              in Some (i, if ptid then Some i else None, if ctid then Some i else None, launch p c k)
        })"

section \<open>Waiting for a child\<close>

partial_function (option) find_exited :: "sched \<Rightarrow> tptr \<Rightarrow> tptr option" where
  "find_exited s t =
     (case t of
        None \<Rightarrow> Some None
      | Some c \<Rightarrow> if tk_state (TASKS s c) = EXITED then Some t else find_exited s (tk_sibling_next (TASKS s c)))"

text \<open>What the other tasks do while the caller waits is the parameter \<open>yield\<close>; False when the caller does not want to wait.\<close>

partial_function (option) wait_loop :: "('h kernel \<Rightarrow> 'h kernel) \<Rightarrow> bool \<Rightarrow> usize \<Rightarrow> 'h kernel \<Rightarrow> (bool \<times> 'h kernel) option" where
  "wait_loop yield wnohang child k =
     (if tk_state (task_at k child) = EXITED then Some (True, k)
      else if wnohang then Some (False, k)
      else
        let k = yield (on_sch (\<lambda>s. upd (the (get_current s)) (tk_state_update (\<lambda>_. WAITING)) s) k)
        in wait_loop yield wnohang child (on_sch (\<lambda>s. upd (the (get_current s)) (tk_state_update (\<lambda>_. RUNNING)) s) k))"

definition reap :: "'h mfree \<Rightarrow> usize \<Rightarrow> 'h kernel \<Rightarrow> (i32 \<times> 'h kernel) option" where
  "reap mfree c k = do {
     s \<leftarrow> remove_child (the (get_current (sch k))) c (sch k);
     let k = k\<lparr>sch := s\<rparr>;
     k \<leftarrow> (if tk_vma_list (task_at k c) \<noteq> 0 then do {
             (head, m) \<leftarrow> krust_vmm_free_all mfree (tk_vma_list (task_at k c)) (vmm_of k);
             Some (on_sch (upd c (tk_vma_list_update (\<lambda>_. head))) (set_vmm m k))
           } else Some k);
     k \<leftarrow> free_fd_table mfree (tk_fd_table (task_at k c)) k;
     let k = on_sch (upd c (tk_fd_table_update (\<lambda>_. 0))) k;
     let k = (if ctx_cr3 (task_at k c) \<noteq> 0 then on_pg (krust_paging_free_user_pages (ctx_cr3 (task_at k c))) k else k);
     let k = (if tk_kstack (task_at k c) \<noteq> 0
              then on_sch (upd c (tk_kstack_update (\<lambda>_. 0))) (free_frame_at (tk_kstack (task_at k c)) k) else k);
     let k = (if tk_fpu_state (task_at k c) \<noteq> 0
              then on_sch (upd c (tk_fpu_state_update (\<lambda>_. 0))) (free_frame_at (tk_fpu_state (task_at k c)) k) else k);
     let k = on_sch (recycle_task_id (tk_id (task_at k c))) k;
     Some (tk_exit_code (task_at k c), k)
   }"

text \<open>\<open>status\<close> is whether the pointer is not null; what is stored through it is returned.\<close>

definition krust_sched_waitpid_flags ::
  "('h kernel \<Rightarrow> 'h kernel) \<Rightarrow> 'h mfree \<Rightarrow> i32 \<Rightarrow> bool \<Rightarrow> u32 \<Rightarrow> 'h kernel \<Rightarrow> (i32 \<times> i32 option \<times> 'h kernel) option" where
  "krust_sched_waitpid_flags yield mfree pid status flags k =
     (case get_current (sch k) of
        None \<Rightarrow> Some (- 1, None, k)
      | Some me \<Rightarrow> do {
          let wnohang = (flags AND 1 \<noteq> 0);
          let head = tk_child_head (task_at k me);
          c \<leftarrow> (if sint pid > 0 then
                  Some (if pid \<ge> NEXT_ID (sch k) then Inl (- 1)
                        else if tk_parent (task_at k (unat pid)) \<noteq> Some me then Inl (- 1) else Inr (unat pid))
                else if pid = - 1 then
                  if head = None then Some (Inl (if wnohang then 0 else - 1))
                  else do {
                    f \<leftarrow> find_exited (sch k) head;
                    Some (Inr (the (if f = None then head else f)))
                  }
                else Some (Inl (- 1)));
          case c of
            Inl v \<Rightarrow> Some (v, None, k)
          | Inr c \<Rightarrow> do {
              (ended, k) \<leftarrow> wait_loop yield wnohang c k;
              if \<not> ended then Some (0, None, k)
              else do {
                let st = (if status then Some (tk_exit_code (task_at k c)) else None);
                (v, k) \<leftarrow> reap mfree c k;
                Some (v, st, k)
              }
            }
        })"

definition krust_sched_waitpid ::
  "('h kernel \<Rightarrow> 'h kernel) \<Rightarrow> 'h mfree \<Rightarrow> i32 \<Rightarrow> bool \<Rightarrow> 'h kernel \<Rightarrow> (i32 \<times> i32 option \<times> 'h kernel) option" where
  "krust_sched_waitpid yield mfree pid status = krust_sched_waitpid_flags yield mfree pid status 0"

section \<open>Out of memory\<close>

partial_function (option) adopt_loop :: "tptr \<Rightarrow> sched \<Rightarrow> sched option" where
  "adopt_loop child s =
     (case child of
        None \<Rightarrow> Some s
      | Some c \<Rightarrow>
          let nx = tk_sibling_next (TASKS s c);
              s = upd c (\<lambda>t. t\<lparr>tk_parent := Some 1, tk_sibling_next := tk_child_head (TASKS s 1)\<rparr>) s;
              s = upd 1 (tk_child_head_update (\<lambda>_. Some c)) s
          in adopt_loop nx s)"

definition eager_cleanup_task :: "'h mfree \<Rightarrow> usize \<Rightarrow> 'h kernel \<Rightarrow> 'h kernel option" where
  "eager_cleanup_task mfree t k = do {
     let fds = tk_fd_table (task_at k t);
     let k = (if fds \<noteq> 0
              then k\<lparr>fd_tables := (fd_tables k)(fds := map (\<lambda>e. if fd_used e then zero_fd else e) (fd_tables k fds))\<rparr> else k);
     k \<leftarrow> (if tk_vma_list (task_at k t) \<noteq> 0 then do {
             m \<leftarrow> free_all_loop mfree (tk_vma_list (task_at k t)) (vmm_of k);
             Some (on_sch (upd t (tk_vma_list_update (\<lambda>_. 0))) (set_vmm m k))
           } else Some k);
     let running = (\<exists>cpu \<in> set [0..<MAX_CPUS]. PER_CPU_CURRENT (sch k) cpu = Some t);
     let k = (if \<not> running \<and> tk_kstack (task_at k t) \<noteq> 0
              then on_sch (upd t (tk_kstack_update (\<lambda>_. 0))) (free_frame_at (tk_kstack (task_at k t)) k) else k);
     let k = (if tk_fpu_state (task_at k t) \<noteq> 0
              then on_sch (upd t (tk_fpu_state_update (\<lambda>_. 0))) (free_frame_at (tk_fpu_state (task_at k t)) k) else k);
     let k = (if ctx_cr3 (task_at k t) \<noteq> 0
              then on_sch (upd t (ctx_cr3_update (\<lambda>_. 0))) (on_pg (krust_paging_free_user_pages (ctx_cr3 (task_at k t))) k) else k);
     Some (on_sch (upd t (tk_pages_update (\<lambda>_. 0))) k)
   }"

definition krust_oom_kill :: "'h mfree \<Rightarrow> 'h kernel \<Rightarrow> (int \<times> 'h kernel) option" where
  "krust_oom_kill mfree k =
     (let best = oom_victim (sch k)
      in if best < 0 then Some (- 1, k)
         else do {
           let v = nat best;
           let k = on_sch (upd v (\<lambda>t. t\<lparr>tk_exit_code := 0x100 + 9, tk_state := EXITED\<rparr>)) k;
           s \<leftarrow> adopt_loop (tk_child_head (task_at k v)) (sch k);
           let k = k\<lparr>sch := s\<rparr>;
           let k = on_sch (upd v (\<lambda>t. t\<lparr>tk_child_head := None, tk_child_tail := None\<rparr>)) k;
           let k = on_sch (notify_parent v) k;
           k \<leftarrow> eager_cleanup_task mfree v k;
           Some (best, k)
         })"

end
