(* ===== verification/Fork.thy ===== *)
theory Fork
  imports Process
begin

unbundle bit_operations_syntax

text \<open>
  Properties of making processes: the copies of the memory regions and of the descriptor table, and fork
  as a whole. The lemmas about the heap are proved for every allocator that keeps the contract of
  \<open>Kernel_Prelude\<close> and used for the kernel heap.
\<close>

section \<open>Copying the memory regions\<close>

lemma regions_ok_drop: "regions_ok (R @ r # L) \<Longrightarrow> regions_ok (R @ L)"
  by (auto simp: regions_ok_def sorted_wrt_append)

lemma vinsert_last: "regions_ok (R @ r # L) \<Longrightarrow> vinsert r R = R @ [r]"
proof -
  assume ok: "regions_ok (R @ r # L)"
  have "\<forall>u \<in> set R. fst u < fst r"
  proof
    fix u assume u: "u \<in> set R"
    obtain a b f where "u = (a, b, f)" by (cases u)
    with u have "fst u < fst (snd u)" "fst (snd u) \<le> fst r"
      using ok by (fastforce simp: regions_ok_def sorted_wrt_append)+
    then show "fst u < fst r" by simp
  qed
  then show ?thesis using vinsert_split [of R r "[]"] by simp
qed

context steady_allocator
begin

text \<open>Without a block for a node nothing is copied any more.\<close>

lemma copy_vmas_full:
  assumes "malloc VMA_SIZE (vheap m) = Some (0, vheap m)" and "vseg (vmas m) v as 0"
  shows "copy_vmas malloc v head m = Some (head, m)"
  using assms(2)
proof (induction as arbitrary: v)
  case Nil
  then show ?case by (subst copy_vmas.simps) simp
next
  case (Cons a as)
  have "krust_vmm_add malloc head st en fl m = Some (0, head, m)" for st en fl
    using assms(1) by (simp add: krust_vmm_add_def)
  then show ?case using Cons by (subst copy_vmas.simps) simp
qed

lemma copy_vmas_rep:
  assumes "inv (vheap m)" and "vseg (vmas m) v as 0" and "distinct as" and "set as \<subseteq> ptrs (vheap m)"
    and "vma_rep ptrs m head ds" and "set as \<inter> set ds = {}"
    and "regions_ok (map (\<lambda>a. region_of (vmas m a)) ds @ map (\<lambda>a. region_of (vmas m a)) as)"
  shows "\<exists>head' m' ds' j. copy_vmas malloc v head m = Some (head', m') \<and> inv (vheap m') \<and> vma_rep ptrs m' head' ds' \<and>
    map (\<lambda>a. region_of (vmas m' a)) ds' = map (\<lambda>a. region_of (vmas m a)) ds @ take j (map (\<lambda>a. region_of (vmas m a)) as) \<and>
    (j < length as \<longrightarrow> malloc VMA_SIZE (vheap m') = Some (0, vheap m')) \<and> ptrs (vheap m') - set ds' = ptrs (vheap m) - set ds \<and>
    (\<forall>a \<in> ptrs (vheap m) - set ds. vmas m' a = vmas m a)"
  using assms
proof (induction as arbitrary: v head m ds)
  case Nil
  then show ?case by (subst copy_vmas.simps) auto
next
  case (Cons a as)
  let ?R = "\<lambda>m. map (\<lambda>a. region_of (vmas m a))"
  let ?r = "region_of (vmas m a)"
  have v: "v = a" "a \<noteq> 0" "vseg (vmas m) (vm_next (vmas m a)) as 0" using Cons.prems(2) by simp_all
  have r: "?r = (vm_start (vmas m a), vm_end (vmas m a), vm_flags (vmas m a))" by (simp add: region_of_def)
  have lt: "vm_start (vmas m a) < vm_end (vmas m a)" using Cons.prems(7) by (auto simp: r regions_ok_def)
  obtain w head1 m1 es where w: "krust_vmm_add malloc head (vm_start (vmas m a)) (vm_end (vmas m a)) (vm_flags (vmas m a)) m = Some (w, head1, m1)"
    "inv (vheap m1)" "vma_rep ptrs m1 head1 es" "ptrs (vheap m1) - set es = ptrs (vheap m) - set ds"
    "?R m1 es = (if w = 0 then ?R m ds else vinsert ?r (?R m ds))" "\<forall>a \<in> ptrs (vheap m) - set ds. vmas m1 a = vmas m a"
    using vmm_add_rep [OF Cons.prems(1,5) lt, of "vm_flags (vmas m a)", folded r] by (elim exE conjE) (rule that, assumption+)
  show ?case
  proof (cases "w = 0")
    case True
    then have null: "malloc VMA_SIZE (vheap m) = Some (0, vheap m)"
      using vmm_add_malloc [OF w(1) lt] null_same [OF Cons.prems(1)] by blast
    have "copy_vmas malloc v head m = Some (head, m)" by (rule copy_vmas_full [OF null Cons.prems(2)])
    then show ?thesis
      using Cons.prems(1,5) null by (intro exI [of _ head] exI [of _ m] exI [of _ ds] exI [of _ 0]) simp
  next
    case False
    have in1: "set (a # as) \<subseteq> ptrs (vheap m) - set ds" using Cons.prems(4,6) by auto
    then have in2: "set (a # as) \<subseteq> ptrs (vheap m1) - set es" unfolding w(4) .
    have same: "vmas m1 b = vmas m b" if "b \<in> set (a # as)" for b using w(6) in1 that by blast
    have R: "?R m1 as = ?R m as" using same by simp
    have ins: "vinsert ?r (?R m ds) = ?R m ds @ [?r]" using Cons.prems(7) by (intro vinsert_last) simp
    have "vseg (vmas m1) (vm_next (vmas m1 a)) as 0" using v(3) same vseg_cong [of as "vmas m1" "vmas m"] by simp
    moreover have "regions_ok (?R m1 es @ ?R m1 as)"
      unfolding w(5) R ins using Cons.prems(7) regions_ok_drop by auto
    moreover have "distinct as" "set as \<subseteq> ptrs (vheap m1)" "set as \<inter> set es = {}" using Cons.prems(3) in2 by auto
    ultimately obtain head' m' ds' j where z: "copy_vmas malloc (vm_next (vmas m1 a)) head1 m1 = Some (head', m')" "inv (vheap m')"
      "vma_rep ptrs m' head' ds'" "?R m' ds' = ?R m1 es @ take j (?R m1 as)" "j < length as \<longrightarrow> malloc VMA_SIZE (vheap m') = Some (0, vheap m')"
      "ptrs (vheap m') - set ds' = ptrs (vheap m1) - set es" "\<forall>a \<in> ptrs (vheap m1) - set es. vmas m' a = vmas m1 a"
      using Cons.IH [of m1 "vm_next (vmas m1 a)" head1 es] w(2,3) by (elim meta_impE) blast+
    have "copy_vmas malloc v head m = Some (head', m')" using z(1) w(1) v by (subst copy_vmas.simps) simp
    moreover have "?R m' ds' = ?R m ds @ take (Suc j) (?R m (a # as))" using z(4) w(5) ins False R by simp
    ultimately show ?thesis
      using z(2,3,5-7) w(4,6) by (intro exI [of _ head'] exI [of _ m'] exI [of _ ds'] exI [of _ "Suc j"]) auto
  qed
qed

end

section \<open>Page tables do not concern the regions\<close>

lemma fold_keeps: "(\<And>x s. f (g x s) = f s) \<Longrightarrow> f (fold g xs s) = f s"
  by (induction xs arbitrary: s) simp_all

lemma run_loop_keeps: "(\<And>x s. f (snd (g x s)) = f s) \<Longrightarrow> f (snd (run_loop g xs s)) = f s"
proof (induction xs arbitrary: s)
  case (Cons x xs)
  obtain go u where "g x s = (go, u)" by (cases "g x s")
  then show ?case using Cons.IH [OF Cons.prems, of u] Cons.prems [of x s] by simp
qed simp

lemma page_regions [simp]:
  "paging.regions (set_entry a e s) = paging.regions s" "paging.regions (clear_page p s) = paging.regions s"
  "paging.regions (copy_page d p s) = paging.regions s" "paging.regions (free_frame f s) = paging.regions s"
  by (simp_all add: set_entry_def clear_page_def copy_page_def free_frame_def)

lemma table_alloc_regions: "paging.regions (snd (table_alloc s)) = paging.regions s"
  by (simp add: table_alloc_def clear_page_def Let_def split: prod.split)

lemma ensure_table_regions: "paging.regions (snd (ensure_table fl a s)) = paging.regions s"
  using table_alloc_regions [of s] by (auto simp: ensure_table_def split: prod.splits)

lemma clone_regions [simp]: "paging.regions (snd (krust_paging_clone_kernel_dir s)) = paging.regions s"
proof -
  have pd: "paging.regions (clone_pd_entry a b i u) = paging.regions u" for a b i u
    using table_alloc_regions [of u] by (auto simp: clone_pd_entry_def Let_def fold_keeps split: prod.splits)
  have pdp: "paging.regions (clone_pdp_entry a b i u) = paging.regions u" for a b i u
    using table_alloc_regions [of u] by (auto simp: clone_pdp_entry_def Let_def fold_keeps pd split: prod.splits)
  obtain np u where np: "table_alloc s = (np, u)" by (cases "table_alloc s")
  define v where "v = fold (\<lambda>i s. set_entry (np + 8 * i) (pmem s (PML4 s + 8 * i)) s) [256..<512] u"
  obtain nq w where nq: "table_alloc v = (nq, w)" by (cases "table_alloc v")
  have "paging.regions v = paging.regions u" unfolding v_def by (rule fold_keeps) simp
  then have r: "paging.regions v = paging.regions s" "paging.regions w = paging.regions s"
    using table_alloc_regions [of s] table_alloc_regions [of v] np nq by simp_all
  have "paging.regions (fold (clone_pdp_entry a nq) is x) = paging.regions x" for a "is" x by (rule fold_keeps) (rule pdp)
  then show ?thesis using np nq r table_alloc_regions [of s]
    by (simp add: krust_paging_clone_kernel_dir_def Let_def v_def [symmetric] del: upt_rec_numeral)
qed

lemma copy_user_regions [simp]: "paging.regions (krust_paging_copy_user_pages a b s) = paging.regions s"
proof -
  have 1: "paging.regions (share_page a b i u) = paging.regions u" for a b i u
    by (simp add: share_page_def Let_def)
  have h: "paging.regions (snd (share_huge a d u)) = paging.regions u" for a d u
    using table_alloc_regions [of u] table_alloc_regions [of "snd (table_alloc u)"]
    by (auto simp: share_huge_def Let_def fold_keeps split: prod.splits)
  have 2: "paging.regions (snd (share_pd_entry a b i u)) = paging.regions u" for a b i u
    using ensure_table_regions [of 7 "b + 8 * i" u] by (auto simp: share_pd_entry_def Let_def fold_keeps 1 h split: prod.splits)
  have 3: "paging.regions (snd (share_pdp_entry a b i u)) = paging.regions u" for a b i u
    using ensure_table_regions [of 7 "b + 8 * i" u] by (auto simp: share_pdp_entry_def Let_def run_loop_keeps 2 split: prod.splits)
  have 4: "paging.regions (snd (share_pml4_entry a b i u)) = paging.regions u" for a b i u
    using ensure_table_regions [of 7 "b + 8 * i" u] by (auto simp: share_pml4_entry_def Let_def run_loop_keeps 3 split: prod.splits)
  show ?thesis by (simp add: krust_paging_copy_user_pages_def run_loop_keeps 4)
qed

section \<open>Duplicating a task\<close>

lemma kernel_simps [simp]:
  "sch (on_sch f k) = f (sch k)" "pg (on_sch f k) = pg k" "kheap_of (on_sch f k) = kheap_of k" "fd_tables (on_sch f k) = fd_tables k"
  "sch (on_pg g k) = sch k" "pg (on_pg g k) = g (pg k)" "kheap_of (on_pg g k) = kheap_of k" "fd_tables (on_pg g k) = fd_tables k"
  "vmm_of (on_sch f k) = vmm_of k" "sch (set_vmm m k) = sch k" "vmm_of (set_vmm m k) = m"
  by (simp_all add: on_sch_def on_pg_def vmm_of_def set_vmm_def)

lemma vmm_of_on_pg: "paging.regions (g (pg k)) = paging.regions (pg k) \<Longrightarrow> vmm_of (on_pg g k) = vmm_of k"
  by (simp add: vmm_of_def)

lemma alloc_frame_keeps:
  assumes "alloc_frame k = (f, k')"
  shows "sch k' = sch k" "vmm_of k' = vmm_of k" "kheap_of k' = kheap_of k"
  using assms by (auto simp: alloc_frame_def Let_def vmm_of_def split: prod.splits if_splits)

lemma fpu_same: "tk_fpu_state_update (\<lambda>_. tk_fpu_state a) a = (a :: task)"
  by simp

context steady_allocator
begin

lemma setup_task_common_ok:
  assumes "inv (kheap_of k)"
  shows "\<exists>k' fds fp. setup_task_common malloc t i ks par k = Some k' \<and> inv (kheap_of k') \<and> ptrs (kheap_of k) \<subseteq> ptrs (kheap_of k') \<and>
    paging.regions (pg k') = paging.regions (pg k) \<and>
    sch k' = upd t (\<lambda>a. (fresh_task i ks par (TASKS (sch k)) fds a)\<lparr>tk_fpu_state := fp\<rparr>) (sch k)"
proof -
  obtain fds h where m: "malloc FD_TABLE_SIZE (kheap_of k) = Some (fds, h)" "inv h" "ptrs (kheap_of k) \<subseteq> ptrs h"
    using assms by (cases rule: malloc_cases [where n = FD_TABLE_SIZE]) (auto intro: that)
  define k1 where "k1 = (if fds \<noteq> 0 then k\<lparr>kheap_of := h, fd_tables := (fd_tables k)(fds := replicate 128 zero_fd)\<rparr> else k\<lparr>kheap_of := h\<rparr>)"
  have k1: "sch k1 = sch k" "pg k1 = pg k" "kheap_of k1 = h" by (simp_all add: k1_def)
  define a where "a = fresh_task i ks par (TASKS (sch k)) fds"
  obtain f p where fp: "krust_pmm_alloc_frame (frames (pg k)) = (f, p)" by fastforce
  have e: "setup_task_common malloc t i ks par k =
    (let k = on_sch (upd t a) k1
     in if SCHED_HAS_FPU (sch k) then
          let k = on_pg (frames_update (\<lambda>_. p)) k
          in if f \<noteq> usize_max
             then Some (on_pg (clear_page (f * 4096)) (on_sch (upd t (tk_fpu_state_update (\<lambda>_. f * 4096))) k))
             else Some k
        else Some k)"
    using m(1) fp by (simp add: setup_task_common_def a_def k1_def Let_def)
  have u: "upd t a (sch k) = upd t (\<lambda>x. (a x)\<lparr>tk_fpu_state := tk_fpu_state (a (TASKS (sch k) t))\<rparr>) (sch k)"
    by (simp add: upd_def)
  have u2: "upd t (tk_fpu_state_update (\<lambda>_. f * 4096)) (upd t a (sch k)) = upd t (\<lambda>x. (a x)\<lparr>tk_fpu_state := f * 4096\<rparr>) (sch k)"
    by (simp add: upd_def)
  show ?thesis
  proof (cases "SCHED_HAS_FPU (sch k) \<and> f \<noteq> usize_max")
    case True
    then show ?thesis unfolding e a_def [symmetric] using m k1 u2
      by (intro exI [of _ "on_pg (clear_page (f * 4096)) (on_sch (upd t (tk_fpu_state_update (\<lambda>_. f * 4096))) (on_pg (frames_update (\<lambda>_. p)) (on_sch (upd t a) k1)))"]
          exI [of _ fds] exI [of _ "f * 4096"]) (simp add: a_def Let_def)
  next
    case False
    define k2 where "k2 = (if SCHED_HAS_FPU (sch k) then on_pg (frames_update (\<lambda>_. p)) (on_sch (upd t a) k1) else on_sch (upd t a) k1)"
    have "setup_task_common malloc t i ks par k = Some k2" unfolding e k2_def using False k1 by (auto simp: Let_def)
    moreover have "sch k2 = upd t a (sch k)" "kheap_of k2 = h" "paging.regions (pg k2) = paging.regions (pg k)" using k1 by (simp_all add: k2_def)
    ultimately show ?thesis using m(2,3) u by (intro exI [of _ k2] exI [of _ fds] exI [of _ "tk_fpu_state (a (TASKS (sch k) t))"]) (simp add: a_def)
  qed
qed

lemma copy_fd_table_ok:
  assumes "inv (kheap_of k)"
  shows "\<exists>fds k'. copy_fd_table malloc src k = Some (fds, k') \<and> inv (kheap_of k') \<and> ptrs (kheap_of k) \<subseteq> ptrs (kheap_of k') \<and>
    pg k' = pg k \<and> sch k' = sch k"
proof -
  obtain fds h where m: "malloc FD_TABLE_SIZE (kheap_of k) = Some (fds, h)" "inv h" "ptrs (kheap_of k) \<subseteq> ptrs h"
    using assms by (cases rule: malloc_cases [where n = FD_TABLE_SIZE]) (auto intro: that)
  then show ?thesis using assms by (cases "src = 0"; cases "fds = 0") (auto simp: copy_fd_table_def)
qed

text \<open>The outcome of a duplication, for a parent \<open>p\<close> whose region list has the nodes \<open>as\<close>.\<close>

definition duplicated :: "usize \<Rightarrow> usize list \<Rightarrow> u32 \<Rightarrow> sched \<Rightarrow> 'h kernel \<Rightarrow> 'h kernel + u32 \<times> u64 \<times> usize \<times> 'h kernel \<Rightarrow> bool" where
  "duplicated p as i s k d \<longleftrightarrow>
     (case d of
        Inl k' \<Rightarrow> \<exists>f. (\<forall>a. tk_next (f a) = tk_next a) \<and> sch k' = upd (unat i) f s
      | Inr (j, r, pml4, k') \<Rightarrow> j = i \<and>
          (\<exists>ks fds0 fp fds head ds.
             sch k' = upd (unat i) (\<lambda>a. inherit (TASKS s p) fds head ((fresh_task i ks (Some p) (TASKS s) fds0 a)\<lparr>tk_fpu_state := fp\<rparr>)) s \<and>
             inv (kheap_of k') \<and> vma_rep ptrs (vmm_of k') head ds \<and> vma_rep ptrs (vmm_of k') (tk_vma_list (TASKS s p)) as \<and>
             (\<forall>a \<in> set as. vmas (vmm_of k') a = vmas (vmm_of k) a) \<and>
             (\<exists>n. map (\<lambda>a. region_of (vmas (vmm_of k') a)) ds = take n (map (\<lambda>a. region_of (vmas (vmm_of k) a)) as) \<and>
                (n < length as \<longrightarrow> malloc VMA_SIZE (kheap_of k') = Some (0, kheap_of k')))))"

lemma dup_space_ok:
  assumes h: "inv (kheap_of k1)" and v: "vma_rep ptrs (vmm_of k1) (tk_vma_list (TASKS s p)) as"
    and ok: "regions_ok (map (\<lambda>a. region_of (vmas (vmm_of k1) a)) as)" and c: "unat i \<noteq> p"
    and s: "sch k1 = upd (unat i) (\<lambda>a. (fresh_task i ks (Some p) (TASKS s) fds0 a)\<lparr>tk_fpu_state := fp\<rparr>) s"
    and k: "\<And>a. a \<in> set as \<Longrightarrow> vmas (vmm_of k1) a = vmas (vmm_of k) a"
  shows "\<exists>d. dup_space malloc i kstack child_r p k1 = Some d \<and> duplicated p as i s k d"
proof -
  obtain pml4 g where g: "krust_paging_clone_kernel_dir (pg k1) = (pml4, g)" by (cases "krust_paging_clone_kernel_dir (pg k1)")
  define k6 where "k6 = k1\<lparr>pg := g\<rparr>"
  have K6: "sch k6 = sch k1" "kheap_of k6 = kheap_of k1" "paging.regions (pg k6) = paging.regions (pg k1)"
    using clone_regions [of "pg k1"] g by (simp_all add: k6_def)
  have tp: "TASKS (sch k6) p = TASKS s p" using c by (simp add: K6 s)
  show ?thesis
  proof (cases "pml4 = 0")
    case True
    then have d: "dup_space malloc i kstack child_r p k1 = Some (Inl (free_frame_at kstack k6))"
      using g by (simp add: dup_space_def k6_def Let_def)
    have "sch (free_frame_at kstack k6) = sch k1" by (simp add: free_frame_at_def K6)
    moreover have "\<forall>a. tk_next ((fresh_task i ks (Some p) (TASKS s) fds0 a)\<lparr>tk_fpu_state := fp\<rparr>) = tk_next a"
      by (simp add: fresh_task_def)
    ultimately have "duplicated p as i s k (Inl (free_frame_at kstack k6))"
      unfolding duplicated_def sum.case s by (intro exI [of _ "\<lambda>a. (fresh_task i ks (Some p) (TASKS s) fds0 a)\<lparr>tk_fpu_state := fp\<rparr>"] conjI)
    then show ?thesis using d by blast
  next
    case False
    define k7 where "k7 = on_pg (krust_paging_copy_user_pages (unat (ctx_cr3 (TASKS s p))) pml4) k6"
    have K7: "sch k7 = sch k1" "kheap_of k7 = kheap_of k1" "paging.regions (pg k7) = paging.regions (pg k1)" by (simp_all add: k7_def K6)
    obtain fds k8 where k8: "copy_fd_table malloc (tk_fd_table (TASKS s p)) k7 = Some (fds, k8)" "inv (kheap_of k8)"
      "ptrs (kheap_of k7) \<subseteq> ptrs (kheap_of k8)" "pg k8 = pg k7" "sch k8 = sch k7"
      using copy_fd_table_ok [of k7 "tk_fd_table (TASKS s p)"] h K7(2) by auto
    have V: "vmas (vmm_of k8) = vmas (vmm_of k1)" using K7(3) k8(4) by (simp add: vmm_of_def)
    have rep: "vseg (vmas (vmm_of k8)) (tk_vma_list (TASKS s p)) as 0" "distinct as" "set as \<subseteq> ptrs (vheap (vmm_of k8))"
      using v k8(3) K7(2) V by (auto simp: vma_rep_def vmm_of_def)
    have inv8: "inv (vheap (vmm_of k8))" using k8(2) by (simp add: vmm_of_def)
    obtain head m ds n where m: "copy_vmas malloc (tk_vma_list (TASKS s p)) 0 (vmm_of k8) = Some (head, m)" "inv (vheap m)"
      "vma_rep ptrs m head ds" "map (\<lambda>a. region_of (vmas m a)) ds = take n (map (\<lambda>a. region_of (vmas (vmm_of k8) a)) as)"
      "n < length as \<longrightarrow> malloc VMA_SIZE (vheap m) = Some (0, vheap m)"
      "ptrs (vheap m) - set ds = ptrs (vheap (vmm_of k8))" "\<forall>a \<in> ptrs (vheap (vmm_of k8)). vmas m a = vmas (vmm_of k8) a"
      using copy_vmas_rep [OF inv8 rep, of 0 "[]"] ok V by (auto simp: vma_rep_def)
    define k' where "k' = on_sch (upd (unat i) (inherit (TASKS s p) fds head)) (set_vmm m k8)"
    have D: "dup_space malloc i kstack child_r p k1 = Some (Inr (i, child_r, pml4, k'))"
      using g False k8(1,5) m(1) tp K6(1) K7(1)
      by (simp add: dup_space_def task_at_def k6_def [symmetric] k7_def [symmetric] k'_def Let_def)
    have S: "sch k' = upd (unat i) (\<lambda>a. inherit (TASKS s p) fds head ((fresh_task i ks (Some p) (TASKS s) fds0 a)\<lparr>tk_fpu_state := fp\<rparr>)) s"
      using k8(5) K7(1) s by (simp add: k'_def upd_def)
    have M: "vmm_of k' = m" "kheap_of k' = vheap m" by (simp_all add: k'_def set_vmm_def vmm_of_def)
    have R: "vma_rep ptrs m (tk_vma_list (TASKS s p)) as"
      unfolding vma_rep_def
    proof (intro conjI)
      show "vseg (vmas m) (tk_vma_list (TASKS s p)) as 0"
        using vseg_cong [of as "vmas m" "vmas (vmm_of k8)"] m(7) rep by (metis subsetD)
    qed (use rep m(6) in auto)
    have A: "\<forall>a \<in> set as. vmas m a = vmas (vmm_of k) a" using m(7) rep(3) k V by auto
    have "map (\<lambda>a. region_of (vmas m a)) ds = take n (map (\<lambda>a. region_of (vmas (vmm_of k) a)) as)"
      using m(4) k V by (simp cong: map_cong)
    then have "\<exists>n. map (\<lambda>a. region_of (vmas m a)) ds = take n (map (\<lambda>a. region_of (vmas (vmm_of k) a)) as) \<and>
        (n < length as \<longrightarrow> malloc VMA_SIZE (vheap m) = Some (0, vheap m))" using m(5) by blast
    with S R A m(2,3) have "duplicated p as i s k (Inr (i, child_r, pml4, k'))"
      unfolding duplicated_def sum.case prod.case M
      by (intro conjI refl) (rule exI [of _ ks], rule exI [of _ fds0], rule exI [of _ fp], rule exI [of _ fds],
          rule exI [of _ head], rule exI [of _ ds], intro conjI)
    with D show ?thesis by blast
  qed
qed

lemma duplicate_ok:
  assumes h: "inv (kheap_of k)" and v: "vma_rep ptrs (vmm_of k) (tk_vma_list (TASKS (sch k) p)) as"
    and ok: "regions_ok (map (\<lambda>a. region_of (vmas (vmm_of k) a)) as)"
    and i: "alloc_task_id (sch k) = (Some i, s)" and t: "TASKS s = TASKS (sch k)" and c: "unat i \<noteq> p"
  shows "\<exists>d. duplicate malloc ra p k = Some d \<and> duplicated p as i s k d"
proof -
  let ?c = "unat i"
  obtain ks k1 where k1: "alloc_frame (k\<lparr>sch := s\<rparr>) = (ks, k1)" by (cases "alloc_frame (k\<lparr>sch := s\<rparr>)")
  note K1 = alloc_frame_keeps [OF k1]
  show ?thesis
  proof (cases "ks = 0")
    case True
    have "duplicate malloc ra p k = Some (Inl k1)" using i k1 True by (simp add: duplicate_def)
    moreover have "sch k1 = upd ?c (\<lambda>a. a) s" using K1(1) by (simp add: upd_def)
    ultimately show ?thesis unfolding duplicated_def by (intro exI [of _ "Inl k1"] conjI) (auto intro: exI [of _ "\<lambda>a. a"])
  next
    case False
    define k2 where "k2 = on_pg (clear_page ks) k1"
    have K2: "sch k2 = s" "inv (kheap_of k2)" "vmm_of k2 = vmm_of k" "kheap_of k2 = kheap_of k"
      using K1 h by (simp_all add: k2_def vmm_of_on_pg) (simp add: vmm_of_def)
    obtain k3 fds0 fp where k3: "setup_task_common malloc ?c i ks (Some p) k2 = Some k3" "inv (kheap_of k3)"
      "ptrs (kheap_of k2) \<subseteq> ptrs (kheap_of k3)" "paging.regions (pg k3) = paging.regions (pg k2)"
      "sch k3 = upd ?c (\<lambda>a. (fresh_task i ks (Some p) (TASKS s) fds0 a)\<lparr>tk_fpu_state := fp\<rparr>) s"
      using setup_task_common_ok [OF K2(2), of ?c i ks "Some p"] unfolding K2(1) by blast
    have V: "vmas (vmm_of k3) = vmas (vmm_of k)" using k3(4) K2(3) by (simp add: vmm_of_def)
    define child_r where "child_r = of_nat ks + (ra - of_nat (tk_kstack (TASKS (sch k3) p)))"
    define k5 where "k5 = on_pg (set_entry (unat child_r + RAX_AT) 0) (on_pg (copy_page ks (tk_kstack (TASKS (sch k3) p))) k3)"
    have K5: "sch k5 = sch k3" "kheap_of k5 = kheap_of k3" "vmm_of k5 = vmm_of k3" by (simp_all add: k5_def vmm_of_on_pg)
    have "vma_rep ptrs (vmm_of k5) (tk_vma_list (TASKS s p)) as"
      using v V k3(3) K2(4) unfolding K5 t by (auto simp: vma_rep_def vmm_of_def)
    then have "\<exists>d. dup_space malloc i ks child_r p k5 = Some d \<and> duplicated p as i s k d"
      using k3(2,5) ok V c by (intro dup_space_ok) (simp_all add: K5)
    moreover have "duplicate malloc ra p k = dup_space malloc i ks child_r p k5"
      using i k1 False k3(1) by (simp add: duplicate_def Let_def task_at_def k2_def k5_def child_r_def)
    ultimately show ?thesis by simp
  qed
qed

end

section \<open>When a duplication fails\<close>

abbreviation free_count :: "pmm \<Rightarrow> nat" where
  "free_count p \<equiv> card (free_frames p)"

lemma free_finite: "finite (free_frames p)"
  by (simp add: free_frames_def)

text \<open>Taking a frame, when there is one.\<close>

lemma take_frame:
  assumes "frames_ok q" and "krust_pmm_alloc_frame q = (f, p)"
  shows "frames_ok p" "free_count p = free_count q - 1" "f = usize_max \<longleftrightarrow> free_count q = 0"
    "f \<noteq> usize_max \<Longrightarrow> f * 4096 mod usize_mod \<noteq> 0"
proof -
  have "frames_ok p \<and> free_count p = free_count q - 1 \<and> (f = usize_max \<longleftrightarrow> free_count q = 0) \<and>
      (f \<noteq> usize_max \<longrightarrow> f * 4096 mod usize_mod \<noteq> 0)"
    using assms(1)
  proof (cases rule: take_frame_cases)
    case null
    then show ?thesis using assms by simp
  next
    case (new g p')
    have "free_count q \<noteq> 0" using new(2) free_finite [of q] by auto
    with new assms show ?thesis by (auto simp: frames_ok_def)
  qed
  then show "frames_ok p" "free_count p = free_count q - 1" "f = usize_max \<longleftrightarrow> free_count q = 0"
    "f \<noteq> usize_max \<Longrightarrow> f * 4096 mod usize_mod \<noteq> 0" by simp_all
qed

lemma frames_same [simp]:
  "frames (set_entry a e s) = frames s" "frames (clear_page p s) = frames s" "frames (copy_page d p s) = frames s"
  by (simp_all add: set_entry_def clear_page_def copy_page_def)

lemma clone_null:
  assumes "frames_ok (frames s)"
  shows "fst (krust_paging_clone_kernel_dir s) = 0 \<longleftrightarrow> free_count (frames s) = 0"
proof -
  have "fst (krust_paging_clone_kernel_dir s) = fst (table_alloc s)"
    by (simp add: krust_paging_clone_kernel_dir_def Let_def split: prod.split del: upt_rec_numeral)
  moreover obtain f p where fp: "krust_pmm_alloc_frame (frames s) = (f, p)" by fastforce
  note T = take_frame [OF assms fp]
  have "fst (table_alloc s) = 0 \<longleftrightarrow> free_count (frames s) = 0"
    using T(3,4) fp by (simp add: table_alloc_def Let_def)
  ultimately show ?thesis by simp
qed

lemma setup_frames:
  assumes "setup_task_common malloc t i ks par k = Some k'" and "frames_ok (frames (pg k))"
  shows "frames_ok (frames (pg k')) \<and>
    free_count (frames (pg k')) = free_count (frames (pg k)) - (if SCHED_HAS_FPU (sch k) then 1 else 0)"
proof -
  obtain f p where fp: "krust_pmm_alloc_frame (frames (pg k)) = (f, p)" by fastforce
  note T = take_frame [OF assms(2) fp]
  show ?thesis using assms fp T(1,2)
    by (auto simp: setup_task_common_def Let_def split: Option.bind_splits if_splits)
qed

lemma alloc_frame_frames:
  assumes "alloc_frame k = (ks, k')" and "frames_ok (frames (pg k))"
  shows "frames_ok (frames (pg k'))" "free_count (frames (pg k')) = free_count (frames (pg k)) - 1"
    "ks = 0 \<longleftrightarrow> free_count (frames (pg k)) = 0"
proof -
  obtain f p where fp: "krust_pmm_alloc_frame (frames (pg k)) = (f, p)" by fastforce
  note T = take_frame [OF assms(2) fp]
  show "frames_ok (frames (pg k'))" "free_count (frames (pg k')) = free_count (frames (pg k)) - 1"
    "ks = 0 \<longleftrightarrow> free_count (frames (pg k)) = 0"
    using assms(1) fp T by (auto simp: alloc_frame_def Let_def split: if_splits)
qed

text \<open>
  It needs a frame for the kernel stack, one for the state of the floating-point unit where there is one,
  and one for the page table; the tables below it are not counted, since it goes on without them.
\<close>

definition frames_needed :: "sched \<Rightarrow> nat" where
  "frames_needed s = (if SCHED_HAS_FPU s then 3 else 2)"

lemma duplicate_isl:
  assumes d: "duplicate malloc ra p k = Some d" and i: "alloc_task_id (sch k) = (Some i, s)" and f: "frames_ok (frames (pg k))"
  shows "isl d \<longleftrightarrow> free_count (frames (pg k)) < frames_needed s"
proof -
  obtain ks k1 where k1: "alloc_frame (k\<lparr>sch := s\<rparr>) = (ks, k1)" by (cases "alloc_frame (k\<lparr>sch := s\<rparr>)")
  have f': "frames_ok (frames (pg (k\<lparr>sch := s\<rparr>)))" using f by simp
  note A = alloc_frame_frames [OF k1 f'] and K = alloc_frame_keeps [OF k1]
  show ?thesis
  proof (cases "ks = 0")
    case True
    then have "d = Inl k1" using d i k1 by (simp add: duplicate_def)
    then show ?thesis using A(3) True by (simp add: frames_needed_def)
  next
    case False
    obtain k3 where k3: "setup_task_common malloc (unat i) i ks (Some p) (on_pg (clear_page ks) k1) = Some k3"
      using d i k1 False by (auto simp: duplicate_def split: Option.bind_splits)
    define k5 where "k5 = on_pg (set_entry (unat (of_nat ks + (ra - of_nat (tk_kstack (task_at k3 p)))) + RAX_AT) 0)
      (on_pg (copy_page ks (tk_kstack (task_at k3 p))) k3)"
    have D: "dup_space malloc i ks (of_nat ks + (ra - of_nat (tk_kstack (task_at k3 p)))) p k5 = Some d"
      using d i k1 False k3 by (simp add: duplicate_def Let_def k5_def)
    have S: "frames_ok (frames (pg k5))" "free_count (frames (pg k5)) = free_count (frames (pg k)) - 1 - (if SCHED_HAS_FPU s then 1 else 0)"
      using setup_frames [OF k3] A(1,2) K(1) by (simp_all add: k5_def)
    have "isl d \<longleftrightarrow> fst (krust_paging_clone_kernel_dir (pg k5)) = 0"
      using D by (auto simp: dup_space_def Let_def split: Option.bind_splits prod.splits if_splits)
    also have "\<dots> \<longleftrightarrow> free_count (frames (pg k5)) = 0" by (rule clone_null [OF S(1)])
    finally show ?thesis using A(3) False S(2) by (auto simp: frames_needed_def)
  qed
qed

section \<open>Fork\<close>

lemma alloc_task_id_keeps:
  assumes "alloc_task_id s = (r, s')"
  shows "TASKS s' = TASKS s" "ready_head s' = ready_head s" "ready_tail s' = ready_tail s" "sleep_head s' = sleep_head s"
    "sleep_count s' = sleep_count s" "get_current s' = get_current s" "SCHED_HAS_FPU s' = SCHED_HAS_FPU s"
  using assms by (auto simp: alloc_task_id_def next_task_id_def Let_def get_current_def current_cpu_id_def split: if_splits)

lemma add_child_fields [simp]:
  "next_of (add_child p c s) = next_of s" "ready_head (add_child p c s) = ready_head s" "ready_tail (add_child p c s) = ready_tail s"
  "sleep_head (add_child p c s) = sleep_head s" "sleep_count (add_child p c s) = sleep_count s" "get_current (add_child p c s) = get_current s"
  "tk_state (TASKS (add_child p c s) i) = tk_state (TASKS s i)" "tk_ppid (TASKS (add_child p c s) i) = tk_ppid (TASKS s i)"
  "tk_vma_list (TASKS (add_child p c s) i) = tk_vma_list (TASKS s i)" "tk_sig_pending (TASKS (add_child p c s) i) = tk_sig_pending (TASKS s i)"
  "tk_sig_handlers (TASKS (add_child p c s) i) = tk_sig_handlers (TASKS s i)" "tk_program_brk (TASKS (add_child p c s) i) = tk_program_brk (TASKS s i)"
  "NEXT_ID (add_child p c s) = NEXT_ID s" "FREE_IDS (add_child p c s) = FREE_IDS s" "FREE_ID_COUNT (add_child p c s) = FREE_ID_COUNT s"
  by (auto simp: add_child_def Let_def next_of_def fun_eq_iff)

lemma enqueue_more [simp]:
  "sib_of (enqueue t s) = sib_of s" "tk_ppid (TASKS (enqueue t s) i) = tk_ppid (TASKS s i)" "tk_parent (TASKS (enqueue t s) i) = tk_parent (TASKS s i)"
  "tk_child_head (TASKS (enqueue t s) i) = tk_child_head (TASKS s i)" "tk_child_tail (TASKS (enqueue t s) i) = tk_child_tail (TASKS s i)"
  "tk_vma_list (TASKS (enqueue t s) i) = tk_vma_list (TASKS s i)" "tk_sig_pending (TASKS (enqueue t s) i) = tk_sig_pending (TASKS s i)"
  "tk_sig_handlers (TASKS (enqueue t s) i) = tk_sig_handlers (TASKS s i)" "tk_program_brk (TASKS (enqueue t s) i) = tk_program_brk (TASKS s i)"
  "NEXT_ID (enqueue t s) = NEXT_ID s" "FREE_IDS (enqueue t s) = FREE_IDS s" "FREE_ID_COUNT (enqueue t s) = FREE_ID_COUNT s"
  by (auto simp: enqueue_def Let_def sib_of_def fun_eq_iff)

lemma set_kernel_stack_fields [simp]:
  "TASKS (set_kernel_stack v s) = TASKS s" "next_of (set_kernel_stack v s) = next_of s" "sib_of (set_kernel_stack v s) = sib_of s"
  "ready_head (set_kernel_stack v s) = ready_head s" "ready_tail (set_kernel_stack v s) = ready_tail s"
  "sleep_head (set_kernel_stack v s) = sleep_head s" "sleep_count (set_kernel_stack v s) = sleep_count s"
  "get_current (set_kernel_stack v s) = get_current s"
  "NEXT_ID (set_kernel_stack v s) = NEXT_ID s" "FREE_IDS (set_kernel_stack v s) = FREE_IDS s" "FREE_ID_COUNT (set_kernel_stack v s) = FREE_ID_COUNT s"
  by (simp_all add: set_kernel_stack_def next_of_def sib_of_def get_current_def current_cpu_id_def fun_eq_iff)

lemma ids_ok_cong: "ids_ok s L \<Longrightarrow> NEXT_ID s' = NEXT_ID s \<Longrightarrow> FREE_IDS s' = FREE_IDS s \<Longrightarrow> FREE_ID_COUNT s' = FREE_ID_COUNT s \<Longrightarrow> ids_ok s' L"
  by (simp add: ids_ok_def)

text \<open>A slot that no list mentions can be filled.\<close>

lemma fill_slot:
  assumes "queues s xs ys" "family s F" and "F c = []" "\<forall>q. c \<notin> set (F q)"
    and f: "tk_next (f (TASKS s c)) = tk_next (TASKS s c)" "tk_child_head (f (TASKS s c)) = None" "tk_child_tail (f (TASKS s c)) = None"
  shows "queues (upd c f s) xs ys" "family (upd c f s) F"
proof -
  have "next_of (upd c f s) = next_of s" using f(1) by (auto simp: next_of_def)
  then show "queues (upd c f s) xs ys" using queues_frame [OF assms(1), of "upd c f s"] by simp
  have "children (upd c f s) c []" using f by (simp add: children_def)
  then have "family (upd c f s) (F(c := []))"
    using assms(4) by (intro family_update [OF assms(2)]) (auto simp: sib_of_def)
  then show "family (upd c f s) F" using assms(3) by (simp add: fun_upd_idem)
qed

lemma launch_ok:
  assumes "queues (sch k) xs ys" "family (sch k) F" and "c \<notin> set xs" "c \<notin> set ys" "\<forall>q. c \<notin> set (F q)" "c \<noteq> p"
  shows "queues (sch (launch p c k)) (xs @ [c]) ys" "family (sch (launch p c k)) (F(p := F p @ [c]))"
proof -
  let ?s = "set_kernel_stack (of_nat (tk_kstack (TASKS (sch k) p)) + 4096) (add_child p c (sch k))"
  have "queues ?s xs ys" by (rule queues_frame [OF assms(1)]) simp_all
  then show "queues (sch (launch p c k)) (xs @ [c]) ys" using queues_enqueue assms(3,4) by (simp add: launch_def)
  have F: "family (add_child p c (sch k)) (F(p := F p @ [c]))" using family_add assms(2,5,6) by blast
  then show "family (sch (launch p c k)) (F(p := F p @ [c]))" by (simp add: launch_def family_def children_def)
qed

lemma regions_ok_take: "regions_ok xs \<Longrightarrow> regions_ok (take n xs)"
  by (auto simp: regions_ok_def sorted_wrt_take dest: in_set_takeD)

text \<open>The tasks in use: the running one, the ready ones and the sleeping ones, the children of each, and their numbers.\<close>

definition tasks_ok :: "sched \<Rightarrow> usize \<Rightarrow> usize list \<Rightarrow> usize list \<Rightarrow> (usize \<Rightarrow> usize list) \<Rightarrow> u32 set \<Rightarrow> bool" where
  "tasks_ok s p xs ys F L \<longleftrightarrow> sched_ok s p xs ys \<and> family s F \<and> ids_ok s L \<and>
     insert p (set xs \<union> set ys) \<subseteq> insert 0 (unat ` L) \<and>
     (\<forall>q. set (F q) \<subseteq> insert 0 (unat ` L)) \<and> (\<forall>q. q \<notin> insert 0 (unat ` L) \<longrightarrow> F q = [])"

lemma new_slot:
  assumes "tasks_ok s p xs ys F L" "i \<notin> L" "0 < i"
  shows "unat i \<notin> set xs" "unat i \<notin> set ys" "unat i \<noteq> p" "F (unat i) = []" "\<forall>q. unat i \<notin> set (F q)"
proof -
  have "unat i \<notin> insert 0 (unat ` L)" using assms(2,3) by (auto simp: word_less_nat_alt word_unat_eq_iff [symmetric])
  then show "unat i \<notin> set xs" "unat i \<notin> set ys" "unat i \<noteq> p" "F (unat i) = []" "\<forall>q. unat i \<notin> set (F q)"
    using assms(1) unfolding tasks_ok_def by blast+
qed

text \<open>What the child has of its parent, and its place among the tasks.\<close>

definition is_fork :: "sched \<Rightarrow> usize \<Rightarrow> sched \<Rightarrow> usize \<Rightarrow> bool" where
  "is_fork s p s' c \<longleftrightarrow> tk_parent (TASKS s' c) = Some p \<and> tk_ppid (TASKS s' c) = tk_id (TASKS s p) \<and>
     tk_state (TASKS s' c) = READY \<and> tk_sig_pending (TASKS s' c) = 0 \<and>
     (\<forall>n < NSIG. tk_sig_handlers (TASKS s' c) n = tk_sig_handlers (TASKS s p) n) \<and>
     tk_program_brk (TASKS s' c) = tk_program_brk (TASKS s p)"

lemma launch_fork:
  assumes t: "tasks_ok s p xs ys F L" and a: "alloc_task_id s = (Some i, s1)"
    and k: "sch k = upd (unat i) (\<lambda>a. inherit (TASKS s1 p) fds head ((fresh_task i ks (Some p) (TASKS s1) fds0 a)\<lparr>tk_fpu_state := fp\<rparr>)) s1"
    and k': "k' = launch p (unat i) (on_sch (upd (unat i) (\<lambda>t. t\<lparr>ctx_rsp := r, ctx_cr3 := cr\<rparr>)) k)"
  shows "tasks_ok (sch k') p (xs @ [unat i]) ys (F(p := F p @ [unat i])) (insert i L) \<and> is_fork s p (sch k') (unat i) \<and>
    tk_vma_list (TASKS (sch k') (unat i)) = head \<and> tk_vma_list (TASKS (sch k') p) = tk_vma_list (TASKS s p) \<and> vmm_of k' = vmm_of k"
proof -
  let ?c = "unat i"
  define f where "f = (\<lambda>a. (inherit (TASKS s1 p) fds head ((fresh_task i ks (Some p) (TASKS s1) fds0 a)\<lparr>tk_fpu_state := fp\<rparr>))\<lparr>ctx_rsp := r, ctx_cr3 := cr\<rparr>)"
  note A = alloc_task_id_keeps [OF a]
  have i: "i \<notin> L" "0 < i" "ids_ok s1 (insert i L)" using alloc_task_id_ok [OF _ a, of L] t by (simp_all add: tasks_ok_def)
  note N = new_slot [OF t i(1,2)]
  have q: "queues s1 xs ys" using t A by (auto simp: tasks_ok_def sched_ok_def next_of_def fun_eq_iff intro: queues_frame)
  have F: "family s1 F" using t A(1) by (simp add: tasks_ok_def family_def children_def sib_of_def [abs_def])
  have f: "tk_next (f (TASKS s1 ?c)) = tk_next (TASKS s1 ?c)" "tk_child_head (f (TASKS s1 ?c)) = None" "tk_child_tail (f (TASKS s1 ?c)) = None"
    by (simp_all add: f_def inherit_def fresh_task_def)
  define m where "m = on_sch (upd ?c (\<lambda>t. t\<lparr>ctx_rsp := r, ctx_cr3 := cr\<rparr>)) k"
  have m: "sch m = upd ?c f s1" "vmm_of m = vmm_of k" by (simp_all add: m_def k upd_def f_def)
  have S: "queues (sch m) xs ys" "family (sch m) F" using fill_slot [of s1 xs ys F ?c f] q F N(4,5) f by (simp_all add: m(1))
  note L = launch_ok [OF S N(1,2,5,3)]
  have c: "get_current (sch k') = Some p" "ids_ok (sch k') (insert i L)"
    using t A(6) i(3) by (auto simp: k' m_def [symmetric] launch_def m(1) tasks_ok_def sched_ok_def elim: ids_ok_cong)
  have "tasks_ok (sch k') p (xs @ [?c]) ys (F(p := F p @ [?c])) (insert i L)"
    unfolding tasks_ok_def sched_ok_def using L c N t by (auto simp: k' m_def [symmetric] tasks_ok_def sched_ok_def)
  moreover have "is_fork s p (sch k') ?c"
    using N(3) A(1) family_add [OF S(2) N(5) N(3)] familyD(1) [of _ _ p]
    by (auto simp: is_fork_def k' m_def [symmetric] launch_def m(1) f_def inherit_def fresh_task_def children_def)
  moreover have "tk_vma_list (TASKS (sch k') ?c) = head" "tk_vma_list (TASKS (sch k') p) = tk_vma_list (TASKS s p)"
    using N(3) A(1) by (simp_all add: k' m_def [symmetric] launch_def m(1) f_def inherit_def)
  moreover have "vmm_of k' = vmm_of k" by (simp add: k' launch_def)
  ultimately show ?thesis by blast
qed

text \<open>
  A copy of the list of regions, with what it leaves alone. It has all of them, or the first ones when
  the heap has no block for the next node.
\<close>

definition regions_copied :: "kheap kernel \<Rightarrow> usize list \<Rightarrow> usize \<Rightarrow> kheap kernel \<Rightarrow> usize \<Rightarrow> bool" where
  "regions_copied k as p k' c \<longleftrightarrow>
     vma_list_ok (vmm_of k') (tk_vma_list (TASKS (sch k') p)) as \<and> (\<forall>a \<in> set as. vmas (vmm_of k') a = vmas (vmm_of k) a) \<and>
     (\<exists>ds n. vma_list_ok (vmm_of k') (tk_vma_list (TASKS (sch k') c)) ds \<and>
        map (\<lambda>a. region_of (vmas (vmm_of k') a)) ds = take n (map (\<lambda>a. region_of (vmas (vmm_of k) a)) as) \<and>
        (n < length as \<longrightarrow> krust_malloc VMA_SIZE (kheap_of k') = Some (0, kheap_of k')))"

lemma fork_cases:
  assumes r: "ra \<noteq> 0" and t: "tasks_ok (sch k) p xs ys F L"
    and v: "vma_list_ok (vmm_of k) (tk_vma_list (TASKS (sch k) p)) as" and a: "alloc_task_id (sch k) = (Some i, s1)"
    and fr: "frames_ok (frames (pg k))"
  shows "\<exists>v k'. krust_sched_fork krust_malloc ra k = Some (v, k') \<and>
    (if free_count (frames (pg k)) < frames_needed (sch k)
     then v = - 1 \<and> (\<exists>f. (\<forall>a. tk_next (f a) = tk_next a) \<and> sch k' = upd (unat i) f s1)
     else v = i \<and> tasks_ok (sch k') p (xs @ [unat i]) ys (F(p := F p @ [unat i])) (insert i L) \<and> is_fork (sch k) p (sch k') (unat i) \<and>
       regions_copied k as p k' (unat i))"
proof -
  have p: "get_current (sch k) = Some p" using t by (simp add: tasks_ok_def sched_ok_def)
  have i: "i \<notin> L" "0 < i" using alloc_task_id_ok [OF _ a, of L] t by (simp_all add: tasks_ok_def)
  note A = alloc_task_id_keeps(1) [OF a]
  have V: "heap_inv (kheap_of k)" "vma_rep (\<lambda>h. fst ` heap_live h) (vmm_of k) (tk_vma_list (TASKS (sch k) p)) as"
    "regions_ok (map (\<lambda>a. region_of (vmas (vmm_of k) a)) as)"
    using v by (simp_all add: vma_list_ok_def) (simp add: vmm_of_def)
  obtain d where d: "duplicate krust_malloc ra p k = Some d" "kernel_blocks.duplicated p as i s1 k d"
    using kernel_blocks.duplicate_ok [unfolded kernel_ptrs, OF V a A new_slot(3) [OF t i]] unfolding kernel_ptrs by blast
  have need: "isl d \<longleftrightarrow> free_count (frames (pg k)) < frames_needed (sch k)"
    using duplicate_isl [OF d(1) a fr] alloc_task_id_keeps(7) [OF a] by (simp add: frames_needed_def)
  show ?thesis
  proof (cases d)
    case (Inl k')
    then have "\<exists>f. (\<forall>a. tk_next (f a) = tk_next a) \<and> sch k' = upd (unat i) f s1" using d(2) by (simp add: kernel_blocks.duplicated_def)
    then show ?thesis using r p d(1) Inl need by (simp add: krust_sched_fork_def)
  next
    case (Inr x)
    obtain j cr pml4 k2 where x: "x = (j, cr, pml4, k2)" by (cases x)
    obtain ks fds0 fp fds head ds n where D: "j = i"
      "sch k2 = upd (unat i) (\<lambda>a. inherit (TASKS s1 p) fds head ((fresh_task i ks (Some p) (TASKS s1) fds0 a)\<lparr>tk_fpu_state := fp\<rparr>)) s1"
      "heap_inv (kheap_of k2)" "vma_rep (\<lambda>h. fst ` heap_live h) (vmm_of k2) head ds"
      "vma_rep (\<lambda>h. fst ` heap_live h) (vmm_of k2) (tk_vma_list (TASKS s1 p)) as"
      "\<forall>a \<in> set as. vmas (vmm_of k2) a = vmas (vmm_of k) a"
      "map (\<lambda>a. region_of (vmas (vmm_of k2) a)) ds = take n (map (\<lambda>a. region_of (vmas (vmm_of k) a)) as)"
      "n < length as \<longrightarrow> krust_malloc VMA_SIZE (kheap_of k2) = Some (0, kheap_of k2)"
      using d(2) unfolding Inr x kernel_blocks.duplicated_def kernel_ptrs sum.case prod.case
      by (elim exE conjE) (rule that, assumption+)
    define k' where "k' = launch p (unat i) (on_sch (upd (unat i) (\<lambda>t. t\<lparr>ctx_rsp := cr, ctx_cr3 := of_nat pml4\<rparr>)) k2)"
    have f: "krust_sched_fork krust_malloc ra k = Some (i, k')"
      using r p d(1) Inr x D(1) by (simp add: krust_sched_fork_def k'_def)
    note l = launch_fork [OF t a D(2) k'_def]
    have m: "map (\<lambda>a. region_of (vmas (vmm_of k2) a)) as = map (\<lambda>a. region_of (vmas (vmm_of k) a)) as" using D(6) by simp
    have hk: "kheap_of k' = kheap_of k2" by (simp add: k'_def launch_def)
    have "regions_copied k as p k' (unat i)"
      using l D(3-8) V(3) [folded m] A regions_ok_take [OF V(3), of n] hk
      unfolding regions_copied_def vma_list_ok_def by (auto simp: vmm_of_def)
    then show ?thesis using f l need Inr by auto
  qed
qed

text \<open>
  C31. Fork: the call returns. It fails exactly when no task number is left or fewer frames are free than
  the kernel stack, the page table and, with a floating-point unit, its state need; then every task in use
  is as it was, and so are the queues. Otherwise the number it returns was not in use; the parent runs on;
  the child is the last of the ready queue and of its parent's children; it has its parent's signal
  handlers and program break and no signal pending. It has a region for each of the parent's, in order, or
  for the first of them when the heap has no block left for the next node; the parent's regions are
  unchanged.
\<close>

theorem fork_correct:
  assumes "ra \<noteq> 0" and "tasks_ok (sch k) p xs ys F L" and "vma_list_ok (vmm_of k) (tk_vma_list (TASKS (sch k) p)) as"
    and "frames_ok (frames (pg k))"
  shows "\<exists>v k'. krust_sched_fork krust_malloc ra k = Some (v, k') \<and>
    (v = - 1 \<longleftrightarrow> fst (alloc_task_id (sch k)) = None \<or> card (free_frames (frames (pg k))) < (if SCHED_HAS_FPU (sch k) then 3 else 2)) \<and>
    (if v = - 1 then queues (sch k') xs ys \<and> (\<forall>q \<in> insert 0 (unat ` L). TASKS (sch k') q = TASKS (sch k) q)
     else v \<notin> L \<and> tasks_ok (sch k') p (xs @ [unat v]) ys (F(p := F p @ [unat v])) (insert v L) \<and>
       is_fork (sch k) p (sch k') (unat v) \<and> regions_copied k as p k' (unat v))"
proof -
  have p: "get_current (sch k) = Some p" "queues (sch k) xs ys" "ids_ok (sch k) L" using assms(2) by (simp_all add: tasks_ok_def sched_ok_def)
  obtain o1 s1 where a: "alloc_task_id (sch k) = (o1, s1)" by (cases "alloc_task_id (sch k)")
  note A = alloc_task_id_keeps [OF a]
  have q: "queues s1 xs ys" using p(2) A by (intro queues_frame [OF p(2)]) (simp_all add: next_of_def fun_eq_iff)
  show ?thesis
  proof (cases o1)
    case None
    then have "krust_sched_fork krust_malloc ra k = Some (- 1, k\<lparr>sch := s1\<rparr>)"
      using assms(1) p(1) a by (simp add: krust_sched_fork_def duplicate_def)
    then show ?thesis using q A(1) a None by simp
  next
    case (Some i)
    note a = a [unfolded Some]
    have i: "i \<notin> L" "0 < i" "i < MAX_TASKS" using alloc_task_id_ok [OF p(3) a] by simp_all
    have "\<not> (- 1 :: u32) < MAX_TASKS" by (simp only: not_less word_order.extremum)
    with i have n: "i \<noteq> - 1" "unat i \<notin> insert 0 (unat ` L)" by (auto simp: word_less_nat_alt word_unat_eq_iff [symmetric])
    let ?few = "free_count (frames (pg k)) < (if SCHED_HAS_FPU (sch k) then 3 else 2)"
    obtain v k' where f: "krust_sched_fork krust_malloc ra k = Some (v, k')" and
      c: "if ?few then v = - 1 \<and> (\<exists>f. (\<forall>a. tk_next (f a) = tk_next a) \<and> sch k' = upd (unat i) f s1)
        else v = i \<and> tasks_ok (sch k') p (xs @ [unat i]) ys (F(p := F p @ [unat i])) (insert i L) \<and> is_fork (sch k) p (sch k') (unat i) \<and>
        regions_copied k as p k' (unat i)"
      using fork_cases [OF assms(1-3) a assms(4)] unfolding frames_needed_def by blast
    have no_id: "fst (alloc_task_id (sch k)) \<noteq> None" using a by simp
    show ?thesis
    proof (cases ?few)
      case True
      from c [unfolded if_P [OF True]] obtain g where v: "v = - 1" and g: "\<forall>a. tk_next (g a) = tk_next a" "sch k' = upd (unat i) g s1" by blast
      have "queues (sch k') xs ys" using g by (intro queues_frame [OF q]) (auto simp: next_of_def)
      moreover have "TASKS (sch k') x = TASKS (sch k) x" if "x \<in> insert 0 (unat ` L)" for x
        using that n(2) A(1) g(2) by (cases "x = unat i") simp_all
      ultimately show ?thesis using f v True by (intro exI [of _ v] exI [of _ k'] conjI) simp_all
    next
      case False
      from c [unfolded if_not_P [OF False]] show ?thesis
        using f n(1) i(1) no_id False by (intro exI [of _ v] exI [of _ k'] conjI) (simp_all only: if_not_P simp_thms)
    qed
  qed
qed

lemma four_tasks_ids: "ids_ok four_tasks {1, 2, 3, 4}"
  by (simp add: ids_ok_def four_tasks_def MAX_TASKS_def word_less_nat_alt word_le_nat_alt)

lemma four_tasks_all:
  "tasks_ok (upd 1 (tk_vma_list_update (\<lambda>_. head)) four_tasks) 1 [2, 3] [4] ((\<lambda>_. [])(1 := [2, 3])) {1, 2, 3, 4}"
proof -
  let ?s = "upd 1 (tk_vma_list_update (\<lambda>_. head)) four_tasks"
  have "next_of ?s = next_of four_tasks" "sib_of ?s = sib_of four_tasks" by (auto simp: next_of_def sib_of_def)
  then have "sched_ok ?s 1 [2, 3] [4]"
    using four_tasks_ok queues_frame [of four_tasks "[2, 3]" "[4]" ?s] by (simp add: sched_ok_def)
  moreover have "family ?s ((\<lambda>_. [])(1 := [2, 3]))" by (auto simp: family_def children_def sib_of_def four_tasks_def blank_task_def upd_def)
  moreover have "ids_ok ?s {1, 2, 3, 4}" by (rule ids_ok_cong [OF four_tasks_ids]) (simp_all add: four_tasks_def upd_def)
  ultimately show ?thesis by (auto simp: tasks_ok_def)
qed

text \<open>Task 1 of \<open>four_tasks\<close> with one region and the page tables of the example, where two frames are free.\<close>

theorem fork_correct_witness:
  "\<exists>k as v k'. pg k = ex_paging\<lparr>paging.regions := vmas (vmm_of k)\<rparr> \<and> map (\<lambda>a. region_of (vmas (vmm_of k) a)) as = [(0x1000, 0x5000, 7)] \<and>
     krust_sched_fork krust_malloc 0x1F00 k = Some (v, k') \<and> v \<noteq> - 1 \<and> v \<notin> {1, 2, 3, 4} \<and>
     sched_ok (sch k') 1 [2, 3, unat v] [4] \<and> regions_copied k as 1 k' (unat v)"
proof -
  obtain m :: "kheap vmm" and head as where m: "vma_list_ok m head as" "map (\<lambda>a. region_of (vmas m a)) as = [(0x1000, 0x5000, 7)]"
    by (rule one_region)
  define k where "k = \<lparr>sch = upd 1 (tk_vma_list_update (\<lambda>_. head)) four_tasks, pg = ex_paging\<lparr>paging.regions := vmas m\<rparr>,
    kheap_of = vheap m, fd_tables = (\<lambda>_. [])\<rparr>"
  have k: "tasks_ok (sch k) 1 [2, 3] [4] ((\<lambda>_. [])(1 := [2, 3])) {1, 2, 3, 4}" "vmm_of k = m" "tk_vma_list (TASKS (sch k) 1) = head"
    "pg k = ex_paging\<lparr>paging.regions := vmas (vmm_of k)\<rparr>"
    using four_tasks_all by (simp_all add: k_def vmm_of_def)
  have fr: "frames_ok (frames (pg k))" using pg_okD(1-3) [OF ex_ok] by (simp add: k_def frames_ok_def)
  have two: "card (free_frames (frames (pg k))) = 2" using ex_free by (simp add: k_def)
  have fpu: "\<not> SCHED_HAS_FPU (sch k)" by (simp add: k_def four_tasks_def)
  have idf: "fst (alloc_task_id (sch k)) \<noteq> None"
    by (simp add: k_def four_tasks_def alloc_task_id_def next_task_id_def MAX_TASKS_def Let_def upd_def)
  have h: "(0x1F00 :: u64) \<noteq> 0" "vma_list_ok (vmm_of k) (tk_vma_list (TASKS (sch k) 1)) as" using m(1) k(2,3) by simp_all
  obtain v k' where f: "krust_sched_fork krust_malloc 0x1F00 k = Some (v, k')"
    "v = - 1 \<longleftrightarrow> fst (alloc_task_id (sch k)) = None \<or> card (free_frames (frames (pg k))) < (if SCHED_HAS_FPU (sch k) then 3 else 2)"
    "if v = - 1 then queues (sch k') [2, 3] [4] \<and> (\<forall>q \<in> insert 0 (unat ` {1, 2, 3, 4 :: u32}). TASKS (sch k') q = TASKS (sch k) q)
     else v \<notin> {1, 2, 3, 4} \<and> tasks_ok (sch k') 1 ([2, 3] @ [unat v]) [4] (((\<lambda>_. [])(1 := [2, 3]))(1 := ((\<lambda>_ :: usize. [])(1 := [2, 3])) 1 @ [unat v]))
         (insert v {1, 2, 3, 4}) \<and> is_fork (sch k) 1 (sch k') (unat v) \<and> regions_copied k as 1 k' (unat v)"
    using fork_correct [OF h(1) k(1) h(2) fr] by (elim exE conjE) (rule that, assumption+)
  have "v \<noteq> - 1" using f(2) two fpu idf by simp
  with f(3) have "v \<notin> {1, 2, 3, 4}" "sched_ok (sch k') 1 [2, 3, unat v] [4]" "regions_copied k as 1 k' (unat v)"
    by (simp_all add: tasks_ok_def del: One_nat_def)
  with f(1) \<open>v \<noteq> - 1\<close> k(4) m(2) [folded k(2)] show ?thesis
    by (intro exI [of _ k] exI [of _ as] exI [of _ v] exI [of _ k'] conjI)
qed

end
