(* ===== verification/Ata.thy ===== *)
theory Ata
  imports Kernel_Prelude "HOL-Library.Monad_Syntax"
begin

unbundle bit_operations_syntax

text \<open>
  Transfers of sectors to and from a disk through the ports of its controller (the programmed transfers
  of \<open>kernel/src/drivers/storage/ata_pio.rs\<close>). The controller is hardware: its ports are the four
  functions of \<open>'d ports\<close> on a state \<open>'d\<close> of the hardware, which the operations thread through. A
  buffer is the list of its 16-bit words; a read returns the words it has stored, also when it fails.
\<close>

section \<open>Ports\<close>

record 'd ports =
  outb :: "u16 \<Rightarrow> u8 \<Rightarrow> 'd \<Rightarrow> 'd"
  outw :: "u16 \<Rightarrow> u16 \<Rightarrow> 'd \<Rightarrow> 'd"
  inb :: "u16 \<Rightarrow> 'd \<Rightarrow> u8 \<times> 'd"
  inw :: "u16 \<Rightarrow> 'd \<Rightarrow> u16 \<times> 'd"

definition PRIMARY_BASE :: u16 where "PRIMARY_BASE = 0x1F0"
definition SECONDARY_BASE :: u16 where "SECONDARY_BASE = 0x170"
definition MAX_DRIVES :: i32 where "MAX_DRIVES = 4"

definition io_wait :: "'d ports \<Rightarrow> 'd \<Rightarrow> 'd" where
  "io_wait P d = snd (inb P 0x80 (snd (inb P 0x80 (snd (inb P 0x80 d)))))"

definition base_port :: "i32 \<Rightarrow> u16" where
  "base_port drive = (if sint drive < 2 then PRIMARY_BASE else SECONDARY_BASE)"

definition slave_bit :: "i32 \<Rightarrow> u8" where
  "slave_bit drive = (if drive = 0 \<or> drive = 2 then 0 else 1)"

definition read_reg :: "'d ports \<Rightarrow> i32 \<Rightarrow> u8 \<Rightarrow> 'd \<Rightarrow> u8 \<times> 'd" where
  "read_reg P drive reg d = inb P (base_port drive + ucast reg) d"

section \<open>Waiting\<close>

text \<open>The first argument is the number of rounds left, ten for each millisecond.\<close>

fun busy_loop :: "nat \<Rightarrow> 'd ports \<Rightarrow> i32 \<Rightarrow> 'd \<Rightarrow> bool \<times> 'd" where
  "busy_loop 0 P drive d = (False, d)"
| "busy_loop (Suc n) P drive d =
     (let (st, d) = read_reg P drive 7 (io_wait P d)
      in if st AND 0x80 = 0 then (True, d) else busy_loop n P drive d)"

definition poll_busy :: "'d ports \<Rightarrow> i32 \<Rightarrow> i32 \<Rightarrow> 'd \<Rightarrow> bool \<times> 'd" where
  "poll_busy P drive timeout_ms = busy_loop (nat (sint (timeout_ms * 10))) P drive"

fun drq_loop :: "nat \<Rightarrow> 'd ports \<Rightarrow> i32 \<Rightarrow> 'd \<Rightarrow> bool \<times> 'd" where
  "drq_loop 0 P drive d = (False, d)"
| "drq_loop (Suc n) P drive d =
     (let (st, d) = read_reg P drive 7 (io_wait P d)
      in if st AND 0x01 \<noteq> 0 then (False, d)
         else if st AND 0x08 \<noteq> 0 then (True, d)
         else if st AND 0x80 = 0 then (False, d)
         else drq_loop n P drive d)"

definition poll_drq :: "'d ports \<Rightarrow> i32 \<Rightarrow> i32 \<Rightarrow> 'd \<Rightarrow> bool \<times> 'd" where
  "poll_drq P drive timeout_ms = drq_loop (nat (sint (timeout_ms * 10))) P drive"

definition wait_ready :: "'d ports \<Rightarrow> i32 \<Rightarrow> i32 \<Rightarrow> 'd \<Rightarrow> bool \<times> 'd" where
  "wait_ready P drive timeout_ms = poll_busy P drive timeout_ms"

section \<open>Transfers\<close>

definition out_wait :: "'d ports \<Rightarrow> u16 \<Rightarrow> u8 \<Rightarrow> 'd \<Rightarrow> 'd" where
  "out_wait P port v d = io_wait P (outb P port v d)"

text \<open>The address and the number of sectors, then the command.\<close>

definition ata_command :: "'d ports \<Rightarrow> i32 \<Rightarrow> u32 \<Rightarrow> u8 \<Rightarrow> u8 \<Rightarrow> 'd \<Rightarrow> 'd" where
  "ata_command P drive lba count cmd d =
     (let base = base_port drive;
          dh = 0xE0 OR push_bit 4 (slave_bit drive) OR (ucast (drop_bit 24 lba) AND 0x0F);
          d = out_wait P (base + 6) dh d;
          d = out_wait P (base + 2) count d;
          d = out_wait P (base + 3) (ucast lba) d;
          d = out_wait P (base + 4) (ucast (drop_bit 8 lba)) d;
          d = out_wait P (base + 5) (ucast (drop_bit 16 lba)) d
      in out_wait P (base + 7) cmd d)"

definition sector_ready :: "'d ports \<Rightarrow> i32 \<Rightarrow> 'd \<Rightarrow> bool \<times> 'd" where
  "sector_ready P drive d =
     (let (ok, d) = poll_busy P drive 1000 d
      in if \<not> ok then (False, d) else poll_drq P drive 1000 d)"

fun in_words :: "nat \<Rightarrow> 'd ports \<Rightarrow> u16 \<Rightarrow> 'd \<Rightarrow> u16 list \<times> 'd" where
  "in_words 0 P base d = ([], d)"
| "in_words (Suc n) P base d =
     (let (w, d) = inw P base d;
          (ws, d) = in_words n P base (io_wait P d)
      in (w # ws, d))"

fun out_words :: "'d ports \<Rightarrow> u16 \<Rightarrow> u16 list \<Rightarrow> 'd \<Rightarrow> 'd" where
  "out_words P base [] d = d"
| "out_words P base (w # ws) d = out_words P base ws (io_wait P (outw P base w d))"

fun read_sectors :: "nat \<Rightarrow> 'd ports \<Rightarrow> i32 \<Rightarrow> 'd \<Rightarrow> bool \<times> u16 list \<times> 'd" where
  "read_sectors 0 P drive d = (True, [], d)"
| "read_sectors (Suc n) P drive d =
     (let (ok, d) = sector_ready P drive d
      in if \<not> ok then (False, [], d)
         else let (ws, d) = in_words 256 P (base_port drive) d;
                  (ok, rest, d) = read_sectors n P drive d
              in (ok, ws @ rest, d))"

fun write_sectors :: "nat \<Rightarrow> 'd ports \<Rightarrow> i32 \<Rightarrow> u16 list \<Rightarrow> 'd \<Rightarrow> bool \<times> 'd" where
  "write_sectors 0 P drive ws d = (True, d)"
| "write_sectors (Suc n) P drive ws d =
     (let (ok, d) = sector_ready P drive d
      in if \<not> ok then (False, d)
         else write_sectors n P drive (drop 256 ws) (out_words P (base_port drive) (take 256 ws) d))"

definition sector_count :: "u8 \<Rightarrow> nat" where
  "sector_count c = (if c = 0 then 256 else unat c)"

definition bad_transfer :: "i32 \<Rightarrow> usize \<Rightarrow> bool" where
  "bad_transfer drive buf \<longleftrightarrow> sint drive < 0 \<or> sint drive \<ge> sint MAX_DRIVES \<or> buf = 0"

text \<open>\<open>buf\<close> is the address of the buffer; its contents are the list of words.\<close>

definition krust_ata_read :: "'d ports \<Rightarrow> i32 \<Rightarrow> u32 \<Rightarrow> u8 \<Rightarrow> usize \<Rightarrow> 'd \<Rightarrow> bool \<times> u16 list \<times> 'd" where
  "krust_ata_read P drive lba count buf d =
     (if bad_transfer drive buf then (False, [], d)
      else let (ok, d) = wait_ready P drive 1000 d
           in if \<not> ok then (False, [], d)
              else read_sectors (sector_count count) P drive (ata_command P drive lba count 0x20 d))"

definition krust_ata_write :: "'d ports \<Rightarrow> i32 \<Rightarrow> u32 \<Rightarrow> u8 \<Rightarrow> usize \<Rightarrow> u16 list \<Rightarrow> 'd \<Rightarrow> bool \<times> 'd" where
  "krust_ata_write P drive lba count buf ws d =
     (if bad_transfer drive buf then (False, d)
      else let (ok, d) = wait_ready P drive 1000 d
           in if \<not> ok then (False, d)
              else let (ok, d) = write_sectors (sector_count count) P drive ws (ata_command P drive lba count 0x30 d)
                   in if \<not> ok then (False, d)
                      else let d = out_wait P (base_port drive + 7) 0xE7 d
                           in (True, snd (wait_ready P drive 1000 d)))"

section \<open>What a transfer moves\<close>

lemma in_words_length: "length (fst (in_words n P base d)) = n"
  by (induction n arbitrary: d) (simp_all add: split_beta)

text \<open>A read stores whole sectors, all of them when it succeeds.\<close>

lemma read_sectors_length:
  "read_sectors n P drive d = (ok, ws, d') \<Longrightarrow> \<exists>k \<le> n. length ws = 256 * k \<and> (ok \<longrightarrow> k = n)"
proof (induction n arbitrary: d ok ws)
  case (Suc n)
  show ?case
  proof (cases "fst (sector_ready P drive d)")
    case True
    obtain u e where u: "in_words 256 P (base_port drive) (snd (sector_ready P drive d)) = (u, e)" by fastforce
    obtain ok' v e' where v: "read_sectors n P drive e = (ok', v, e')" by (metis prod_cases3)
    then have e: "ok' = ok" "ws = u @ v" "e' = d'" using Suc.prems True u by (auto simp: split_beta Let_def)
    obtain k where "k \<le> n" "length v = 256 * k" "ok \<longrightarrow> k = n" using Suc.IH [of e ok v] v e by auto
    moreover have "length u = 256" using in_words_length [of 256 P "base_port drive"] u by (metis fst_conv)
    ultimately show ?thesis by (intro exI [of _ "Suc k"]) (simp add: e)
  qed (use Suc.prems in \<open>auto simp: split_beta Let_def\<close>)
qed auto

lemma krust_ata_read_length:
  assumes "krust_ata_read P drive lba count buf d = (ok, ws, d')"
  shows "\<exists>k \<le> sector_count count. length ws = 256 * k \<and> (ok \<longrightarrow> k = sector_count count)"
  using assms read_sectors_length by (fastforce simp: krust_ata_read_def Let_def split: if_splits prod.splits)

end
