(* ===== verification/Swap.thy ===== *)
theory Swap
  imports Process Ata
begin

unbundle bit_operations_syntax

text \<open>
  Swapping (\<open>kernel/src/mm/swap.rs\<close>): pages of user tasks are written to slots of a swap area on disk and
  read back on a page fault. The entry of a page that is swapped out is not present and holds the number
  of the slot. The slots in use are recorded in a bitmap, a block of the kernel heap whose bytes are
  \<open>swap_bytes\<close> by address, and once more in \<open>SWAP_USED\<close>. The spin lock around the bitmap makes each
  change of it one step. The disk is reached through the ports of \<open>Ata\<close>.

  The page that is written out is first copied to a block of the kernel heap, which is given back before
  the call returns; its contents are the list of the page's 16-bit words. A result of None is a call that
  does not return.
\<close>

section \<open>State\<close>

record ('h, 'd) swap =
  kern :: "'h kernel"
  disk :: 'd
  SWAP_READY :: bool
  SWAP_DRIVE :: i32
  SWAP_LBA_START :: u32
  SWAP_TOTAL_SLOTS :: usize
  SWAP_USED :: "usize \<Rightarrow> bool"
  SWAP_BITMAP :: usize
  SWAP_BITMAP_WORDS :: usize
  swap_bytes :: "usize \<Rightarrow> u8"

definition SECTORS_PER_PAGE :: u32 where "SECTORS_PER_PAGE = 8"
definition MAX_SWAP_SLOTS :: usize where "MAX_SWAP_SLOTS = 4096"
definition SWAP_PTE_MARKER :: u64 where "SWAP_PTE_MARKER = 0x400"

definition on_paging :: "(paging \<Rightarrow> paging) \<Rightarrow> ('h, 'd) swap \<Rightarrow> ('h, 'd) swap" where
  "on_paging f s = s\<lparr>kern := on_pg f (kern s)\<rparr>"

definition memory :: "('h, 'd) swap \<Rightarrow> usize \<Rightarrow> u64" where
  "memory s = pmem (pg (kern s))"

definition with_heap :: "'h \<Rightarrow> ('h, 'd) swap \<Rightarrow> ('h, 'd) swap" where
  "with_heap h s = s\<lparr>kern := (kern s)\<lparr>kheap_of := h\<rparr>\<rparr>"

section \<open>Slots\<close>

definition slot_byte :: "usize \<Rightarrow> ('h, 'd) swap \<Rightarrow> usize" where
  "slot_byte slot s = SWAP_BITMAP s + slot div 8"

definition swap_bitmap_test :: "usize \<Rightarrow> ('h, 'd) swap \<Rightarrow> bool" where
  "swap_bitmap_test slot s =
     (if SWAP_BITMAP s = 0 \<or> slot div 8 \<ge> SWAP_BITMAP_WORDS s * 8 then False
      else swap_bytes s (slot_byte slot s) AND push_bit (slot mod 8) 1 \<noteq> 0)"

definition swap_bitmap_set :: "usize \<Rightarrow> ('h, 'd) swap \<Rightarrow> ('h, 'd) swap" where
  "swap_bitmap_set slot s =
     (if SWAP_BITMAP s = 0 then s
      else let a = slot_byte slot s; old = swap_bytes s a
           in s\<lparr>swap_bytes := (swap_bytes s)(a := old OR push_bit (slot mod 8) 1),
                SWAP_USED := (SWAP_USED s)(slot := True)\<rparr>)"

definition swap_bitmap_clear :: "usize \<Rightarrow> ('h, 'd) swap \<Rightarrow> ('h, 'd) swap" where
  "swap_bitmap_clear slot s =
     (if SWAP_BITMAP s = 0 then s
      else let a = slot_byte slot s; old = swap_bytes s a
           in s\<lparr>swap_bytes := (swap_bytes s)(a := old AND NOT (push_bit (slot mod 8) 1)),
                SWAP_USED := (SWAP_USED s)(slot := False)\<rparr>)"

definition krust_swap_init :: "'h malloc \<Rightarrow> i32 \<Rightarrow> u32 \<Rightarrow> u32 \<Rightarrow> ('h, 'd) swap \<Rightarrow> (i32 \<times> ('h, 'd) swap) option" where
  "krust_swap_init malloc drive lba_start total_sectors s =
     (if total_sectors < SECTORS_PER_PAGE * 2 then Some (- 1, s)
      else let swap_sectors = total_sectors - SECTORS_PER_PAGE;
               total_slots = unat (swap_sectors div SECTORS_PER_PAGE)
           in if total_slots = 0 \<or> total_slots > MAX_SWAP_SLOTS then Some (- 1, s)
              else do {
                let bitmap_words = (total_slots + 63) div 64;
                let bitmap_size = bitmap_words * 8;
                (bitmap, h) \<leftarrow> malloc (of_nat bitmap_size) (kheap_of (kern s));
                let s = with_heap h s;
                if bitmap = 0 then Some (- 1, s)
                else Some (0, s\<lparr>swap_bytes := (\<lambda>a. if bitmap \<le> a \<and> a < bitmap + bitmap_size then 0 else swap_bytes s a),
                                SWAP_DRIVE := drive, SWAP_LBA_START := lba_start, SWAP_TOTAL_SLOTS := total_slots,
                                SWAP_BITMAP := bitmap, SWAP_BITMAP_WORDS := bitmap_words,
                                SWAP_USED := (\<lambda>i. if i < total_slots then False else SWAP_USED s i),
                                SWAP_READY := True\<rparr>)
              })"

definition swap_alloc_slot :: "('h, 'd) swap \<Rightarrow> i32 \<times> ('h, 'd) swap" where
  "swap_alloc_slot s =
     (case find (\<lambda>i. \<not> swap_bitmap_test i s) [0..<SWAP_TOTAL_SLOTS s] of
        Some i \<Rightarrow> (of_nat i, swap_bitmap_set i s)
      | None \<Rightarrow> (- 1, s))"

definition swap_free_slot :: "usize \<Rightarrow> ('h, 'd) swap \<Rightarrow> ('h, 'd) swap" where
  "swap_free_slot slot s = (if slot < SWAP_TOTAL_SLOTS s then swap_bitmap_clear slot s else s)"

section \<open>Pages on disk\<close>

text \<open>A page as the list of its 16-bit words, and the store of such a list.\<close>

definition words16 :: "u64 \<Rightarrow> u16 list" where
  "words16 w = [ucast w, ucast (drop_bit 16 w), ucast (drop_bit 32 w), ucast (drop_bit 48 w)]"

definition word64 :: "u16 \<Rightarrow> u16 \<Rightarrow> u16 \<Rightarrow> u16 \<Rightarrow> u64" where
  "word64 a b c d = ucast a OR push_bit 16 (ucast b) OR push_bit 32 (ucast c) OR push_bit 48 (ucast d)"

definition page_words :: "(usize \<Rightarrow> u64) \<Rightarrow> usize \<Rightarrow> u16 list" where
  "page_words m p = concat (map (\<lambda>i. words16 (m (p + 8 * i))) [0..<512])"

definition put_words :: "usize \<Rightarrow> u16 list \<Rightarrow> (usize \<Rightarrow> u64) \<Rightarrow> usize \<Rightarrow> u64" where
  "put_words p ws m =
     (\<lambda>a. if p \<le> a \<and> a < p + 2 * length ws
          then let i = 4 * ((a - p) div 8) in word64 (ws ! i) (ws ! (i + 1)) (ws ! (i + 2)) (ws ! (i + 3))
          else m a)"

text \<open>The first sector of a slot; the sectors of the first page of the area are left out.\<close>

definition slot_lba :: "u32 \<Rightarrow> ('h, 'd) swap \<Rightarrow> u32" where
  "slot_lba slot s = SWAP_LBA_START s + SECTORS_PER_PAGE + slot * SECTORS_PER_PAGE"

definition no_slot :: "u32 \<Rightarrow> ('h, 'd) swap \<Rightarrow> bool" where
  "no_slot slot s \<longleftrightarrow> \<not> SWAP_READY s \<or> unat slot \<ge> SWAP_TOTAL_SLOTS s"

definition swap_read_page :: "'d ports \<Rightarrow> u32 \<Rightarrow> usize \<Rightarrow> ('h, 'd) swap \<Rightarrow> bool \<times> ('h, 'd) swap" where
  "swap_read_page P slot buf s =
     (if no_slot slot s then (False, s)
      else let (ok, ws, d) = krust_ata_read P (SWAP_DRIVE s) (slot_lba slot s) (ucast SECTORS_PER_PAGE) buf (disk s)
           in (ok, on_paging (\<lambda>g. g\<lparr>pmem := put_words buf ws (pmem g)\<rparr>) (s\<lparr>disk := d\<rparr>)))"

definition swap_write_page :: "'d ports \<Rightarrow> u32 \<Rightarrow> usize \<Rightarrow> u16 list \<Rightarrow> ('h, 'd) swap \<Rightarrow> bool \<times> ('h, 'd) swap" where
  "swap_write_page P slot buf ws s =
     (if no_slot slot s then (False, s)
      else let (ok, d) = krust_ata_write P (SWAP_DRIVE s) (slot_lba slot s) (ucast SECTORS_PER_PAGE) buf ws (disk s)
           in (ok, s\<lparr>disk := d\<rparr>))"

definition swap_is_pte :: "u64 \<Rightarrow> bool" where
  "swap_is_pte e \<longleftrightarrow> e AND 1 = 0 \<and> e AND SWAP_PTE_MARKER \<noteq> 0 \<and> e \<noteq> 0"

definition swap_pte_to_slot :: "u64 \<Rightarrow> u32" where
  "swap_pte_to_slot e = ucast (drop_bit 12 e AND 0xFFFFF)"

definition swap_slot_to_pte :: "u32 \<Rightarrow> u64" where
  "swap_slot_to_pte slot = SWAP_PTE_MARKER OR push_bit 12 (ucast slot AND 0xFFFFF)"

section \<open>Writing a page out\<close>

text \<open>
  The shared page is given to its owner alone first, with the page table register set to the tables it
  is in and restored afterwards.
\<close>

definition unshare :: "u64 \<Rightarrow> u64 \<Rightarrow> ('h, 'd) swap \<Rightarrow> ('h, 'd) swap" where
  "unshare target_cr3 vaddr s =
     (let saved_cr3 = cr3 (pg (kern s))
      in on_paging (\<lambda>g. (snd (cow_resolve_page target_cr3 vaddr (g\<lparr>cr3 := target_cr3\<rparr>)))\<lparr>cr3 := saved_cr3\<rparr>) s)"

text \<open>The steps after the slot is taken, for the address of the page's entry.\<close>

definition evict_entry ::
  "'h malloc \<Rightarrow> 'h mfree \<Rightarrow> 'd ports \<Rightarrow> u32 \<Rightarrow> u64 \<Rightarrow> u64 \<Rightarrow> usize \<Rightarrow> ('h, 'd) swap \<Rightarrow> (bool \<times> ('h, 'd) swap) option" where
  "evict_entry malloc mfree P slot vaddr target_cr3 a1 s =
     (let old_pte = memory s a1
      in if old_pte AND 1 = 0 then Some (False, swap_free_slot (unat slot) s)
         else let cow = (old_pte AND COW_BIT \<noteq> 0);
                  s = (if cow then unshare target_cr3 vaddr s else s)
              in if cow \<and> memory s a1 AND COW_BIT \<noteq> 0 then Some (False, swap_free_slot (unat slot) s)
                 else do {
                   let phys = old_pte AND PTE_MASK;
                   (buf, h) \<leftarrow> malloc 4096 (kheap_of (kern s));
                   let s = with_heap h s;
                   if buf = 0 then Some (False, swap_free_slot (unat slot) s)
                   else do {
                     let (ok, s) = swap_write_page P slot buf (page_words (memory s) (unat phys)) s;
                     if \<not> ok then do {
                       h \<leftarrow> mfree buf (kheap_of (kern s));
                       Some (False, swap_free_slot (unat slot) (with_heap h s))
                     }
                     else do {
                       let orig_flags = old_pte AND 0xFF0;
                       let s = on_paging (set_entry a1 (swap_slot_to_pte slot OR (orig_flags AND NOT 1))) s;
                       h \<leftarrow> mfree buf (kheap_of (kern s));
                       Some (True, on_paging (free_frame (unat phys div 4096)) (with_heap h s))
                     }
                   }
                 })"

definition swap_evict_page ::
  "'h malloc \<Rightarrow> 'h mfree \<Rightarrow> 'd ports \<Rightarrow> u64 \<Rightarrow> u64 \<Rightarrow> ('h, 'd) swap \<Rightarrow> (bool \<times> ('h, 'd) swap) option" where
  "swap_evict_page malloc mfree P vaddr target_cr3 s =
     (if \<not> SWAP_READY s then Some (False, s)
      else let (slot, s) = swap_alloc_slot s
           in if sint slot < 0 then Some (False, s)
              else case pt_walk (memory s) (unat target_cr3) vaddr of
                     Leaf a1 \<Rightarrow> evict_entry malloc mfree P slot vaddr target_cr3 a1 s
                   | _ \<Rightarrow> Some (False, swap_free_slot (unat slot) s))"

section \<open>Reading a page in\<close>

definition give_back :: "usize \<Rightarrow> ('h, 'd) swap \<Rightarrow> bool \<times> ('h, 'd) swap" where
  "give_back frame s = (False, on_paging (free_frame frame) s)"

definition swap_in_from_pte :: "'d ports \<Rightarrow> u64 \<Rightarrow> u64 \<Rightarrow> ('h, 'd) swap \<Rightarrow> bool \<times> ('h, 'd) swap" where
  "swap_in_from_pte P e vaddr s =
     (if \<not> swap_is_pte e then (False, s)
      else let slot = swap_pte_to_slot e;
               (frame, p) = krust_pmm_alloc_frame (frames (pg (kern s)));
               s = on_paging (\<lambda>g. g\<lparr>frames := p\<rparr>) s
           in if frame = usize_max then (False, s)
              else let phys = frame * 4096 mod usize_mod;
                       s = on_paging (clear_page phys) s;
                       (ok, s) = swap_read_page P slot phys s
                   in if \<not> ok then give_back frame s
                      else let orig_flags = (e AND 0xFF0) AND NOT SWAP_PTE_MARKER
                           in case pt_walk (memory s) (unat (cr3 (pg (kern s)))) vaddr of
                                Leaf a1 \<Rightarrow>
                                  (True, swap_free_slot (unat slot)
                                     (on_paging (set_entry a1 (of_nat phys AND PTE_MASK OR orig_flags OR 1)) s))
                              | _ \<Rightarrow> give_back frame s)"

definition swap_handle_fault :: "'d ports \<Rightarrow> u64 \<Rightarrow> ('h, 'd) swap \<Rightarrow> bool \<times> ('h, 'd) swap" where
  "swap_handle_fault P vaddr s =
     (if \<not> SWAP_READY s then (False, s)
      else let aligned = vaddr AND NOT 0xFFF
           in case pt_walk (memory s) (unat (cr3 (pg (kern s)))) aligned of
                Leaf a1 \<Rightarrow> swap_in_from_pte P (memory s a1) aligned s
              | _ \<Rightarrow> (False, s))"

section \<open>Choosing a page\<close>

definition has_page :: "u64 \<Rightarrow> u64 \<Rightarrow> ('h, 'd) swap \<Rightarrow> bool" where
  "has_page task_cr3 vaddr s \<longleftrightarrow>
     (case pt_walk (memory s) (unat task_cr3) vaddr of Leaf a1 \<Rightarrow> memory s a1 AND 1 \<noteq> 0 | _ \<Rightarrow> False)"

text \<open>The pages of a region, from an address on; the address wraps around.\<close>

partial_function (option) evict_region ::
  "'h malloc \<Rightarrow> 'h mfree \<Rightarrow> 'd ports \<Rightarrow> u64 \<Rightarrow> usize \<Rightarrow> u64 \<Rightarrow> ('h, 'd) swap \<Rightarrow> (bool \<times> ('h, 'd) swap) option" where
  "evict_region malloc mfree P task_cr3 cur vaddr s =
     (if vaddr < vm_end (regions (pg (kern s)) cur) then
        Option.bind (if has_page task_cr3 vaddr s then swap_evict_page malloc mfree P vaddr task_cr3 s else Some (False, s))
          (\<lambda>(ok, s). if ok then Some (True, s)
                     else evict_region malloc mfree P task_cr3 cur (vaddr + 4096) s)
      else Some (False, s))"

partial_function (option) evict_regions ::
  "'h malloc \<Rightarrow> 'h mfree \<Rightarrow> 'd ports \<Rightarrow> u64 \<Rightarrow> usize \<Rightarrow> ('h, 'd) swap \<Rightarrow> (bool \<times> ('h, 'd) swap) option" where
  "evict_regions malloc mfree P task_cr3 cur s =
     (if cur = 0 then Some (False, s)
      else Option.bind (evict_region malloc mfree P task_cr3 cur (vm_start (regions (pg (kern s)) cur) AND NOT 0xFFF) s)
             (\<lambda>(ok, s). if ok then Some (True, s)
                        else evict_regions malloc mfree P task_cr3 (vm_next (regions (pg (kern s)) cur)) s))"

definition swap_evict_process ::
  "'h malloc \<Rightarrow> 'h mfree \<Rightarrow> 'd ports \<Rightarrow> tptr \<Rightarrow> ('h, 'd) swap \<Rightarrow> (bool \<times> ('h, 'd) swap) option" where
  "swap_evict_process malloc mfree P task s =
     (case task of
        None \<Rightarrow> Some (False, s)
      | Some t \<Rightarrow>
          let k = task_at (kern s) t
          in if tk_state k = EXITED then Some (False, s)
             else if tk_id k = 0 then Some (False, s)
             else if tk_vma_list k = 0 then Some (False, s)
             else evict_regions malloc mfree P (ctx_cr3 k) (tk_vma_list k) s)"

fun evict_tasks :: "'h malloc \<Rightarrow> 'h mfree \<Rightarrow> 'd ports \<Rightarrow> nat list \<Rightarrow> ('h, 'd) swap \<Rightarrow> (bool \<times> ('h, 'd) swap) option" where
  "evict_tasks malloc mfree P [] s = Some (False, s)"
| "evict_tasks malloc mfree P (i # is) s =
     Option.bind (swap_evict_process malloc mfree P (krust_sched_get_task (of_nat i)) s)
       (\<lambda>(ok, s). if ok then Some (True, s) else evict_tasks malloc mfree P is s)"

definition swap_evict_any :: "'h malloc \<Rightarrow> 'h mfree \<Rightarrow> 'd ports \<Rightarrow> ('h, 'd) swap \<Rightarrow> (bool \<times> ('h, 'd) swap) option" where
  "swap_evict_any malloc mfree P s =
     (if \<not> SWAP_READY s then Some (False, s)
      else evict_tasks malloc mfree P [1..<unat (krust_sched_get_next_id (sch (kern s)))] s)"

definition krust_swap_is_ready :: "('h, 'd) swap \<Rightarrow> i32" where
  "krust_swap_is_ready s = (if SWAP_READY s then 1 else 0)"

section \<open>The slots in use\<close>

text \<open>The bitmap covers the slots, and the array beside it says the same.\<close>

definition swap_ok :: "('h, 'd) swap \<Rightarrow> bool" where
  "swap_ok s \<longleftrightarrow> SWAP_BITMAP s \<noteq> 0 \<and> SWAP_TOTAL_SLOTS s \<le> MAX_SWAP_SLOTS \<and> SWAP_TOTAL_SLOTS s \<le> SWAP_BITMAP_WORDS s * 64 \<and>
     (\<forall>i < SWAP_TOTAL_SLOTS s. SWAP_USED s i = swap_bitmap_test i s)"

definition used_slots :: "('h, 'd) swap \<Rightarrow> usize set" where
  "used_slots s = {i. i < SWAP_TOTAL_SLOTS s \<and> swap_bitmap_test i s}"

lemma bitmap_update_fields [simp]:
  "SWAP_BITMAP (swap_bitmap_set i s) = SWAP_BITMAP s" "SWAP_BITMAP_WORDS (swap_bitmap_set i s) = SWAP_BITMAP_WORDS s"
  "SWAP_TOTAL_SLOTS (swap_bitmap_set i s) = SWAP_TOTAL_SLOTS s" "kern (swap_bitmap_set i s) = kern s"
  "disk (swap_bitmap_set i s) = disk s" "SWAP_READY (swap_bitmap_set i s) = SWAP_READY s"
  "SWAP_DRIVE (swap_bitmap_set i s) = SWAP_DRIVE s" "SWAP_LBA_START (swap_bitmap_set i s) = SWAP_LBA_START s"
  "SWAP_BITMAP (swap_bitmap_clear i s) = SWAP_BITMAP s" "SWAP_BITMAP_WORDS (swap_bitmap_clear i s) = SWAP_BITMAP_WORDS s"
  "SWAP_TOTAL_SLOTS (swap_bitmap_clear i s) = SWAP_TOTAL_SLOTS s" "kern (swap_bitmap_clear i s) = kern s"
  "disk (swap_bitmap_clear i s) = disk s" "SWAP_READY (swap_bitmap_clear i s) = SWAP_READY s"
  "SWAP_DRIVE (swap_bitmap_clear i s) = SWAP_DRIVE s" "SWAP_LBA_START (swap_bitmap_clear i s) = SWAP_LBA_START s"
  by (simp_all add: swap_bitmap_set_def swap_bitmap_clear_def Let_def)

lemma swap_test_bit:
  "swap_bitmap_test i s \<longleftrightarrow> SWAP_BITMAP s \<noteq> 0 \<and> i div 8 < SWAP_BITMAP_WORDS s * 8 \<and> bit (swap_bytes s (slot_byte i s)) (i mod 8)"
  unfolding swap_bitmap_test_def by (auto simp: flag_bits not_less simp del: push_bit_of_1)

lemma swap_bitmap_update:
  assumes "SWAP_BITMAP s \<noteq> 0" "i div 8 < SWAP_BITMAP_WORDS s * 8"
  shows "swap_bitmap_test j (swap_bitmap_set i s) \<longleftrightarrow> j = i \<or> swap_bitmap_test j s"
    "swap_bitmap_test j (swap_bitmap_clear i s) \<longleftrightarrow> j \<noteq> i \<and> swap_bitmap_test j s"
  using assms unfolding swap_test_bit
  by (auto simp: swap_bitmap_set_def swap_bitmap_clear_def slot_byte_def Let_def flag_bits simp del: push_bit_of_1
      dest: bit_position_unique)

lemma swap_okD:
  assumes "swap_ok s"
  shows "SWAP_BITMAP s \<noteq> 0" "SWAP_TOTAL_SLOTS s \<le> 4096" "i < SWAP_TOTAL_SLOTS s \<Longrightarrow> i div 8 < SWAP_BITMAP_WORDS s * 8"
    "i < SWAP_TOTAL_SLOTS s \<Longrightarrow> SWAP_USED s i = swap_bitmap_test i s"
  using assms by (auto simp: swap_ok_def MAX_SWAP_SLOTS_def)

lemma swap_set_ok:
  assumes "swap_ok s" "i < SWAP_TOTAL_SLOTS s"
  shows "swap_ok (swap_bitmap_set i s)" "used_slots (swap_bitmap_set i s) = insert i (used_slots s)"
proof -
  note U = swap_bitmap_update(1) [OF swap_okD(1,3) [OF assms(1)], OF assms(2)]
  have "SWAP_USED (swap_bitmap_set i s) = (SWAP_USED s)(i := True)"
    using swap_okD(1) [OF assms(1)] by (simp add: swap_bitmap_set_def Let_def)
  then show "swap_ok (swap_bitmap_set i s)" using assms(1) by (auto simp: swap_ok_def U)
  show "used_slots (swap_bitmap_set i s) = insert i (used_slots s)" using assms(2) by (auto simp: used_slots_def U)
qed

lemma swap_clear_ok:
  assumes "swap_ok s" "i < SWAP_TOTAL_SLOTS s"
  shows "swap_ok (swap_bitmap_clear i s)" "used_slots (swap_bitmap_clear i s) = used_slots s - {i}"
proof -
  note U = swap_bitmap_update(2) [OF swap_okD(1,3) [OF assms(1)], OF assms(2)]
  have "SWAP_USED (swap_bitmap_clear i s) = (SWAP_USED s)(i := False)"
    using swap_okD(1) [OF assms(1)] by (simp add: swap_bitmap_clear_def Let_def)
  then show "swap_ok (swap_bitmap_clear i s)" using assms(1) by (auto simp: swap_ok_def U)
  show "used_slots (swap_bitmap_clear i s) = used_slots s - {i}" by (auto simp: used_slots_def U)
qed

lemma small_slot:
  assumes "i < 4096"
  shows "sint (of_nat i :: i32) = int i" "unat (of_nat i :: i32) = i"
  using assms by (simp_all add: unat_of_nat signed_of_nat signed_take_bit_int_eq_self)

text \<open>A new slot is the lowest free one; there is none when all are in use.\<close>

lemma alloc_slot_cases:
  assumes ok: "swap_ok s"
  obtains (full) "swap_alloc_slot s = (- 1, s)" "used_slots s = {..<SWAP_TOTAL_SLOTS s}"
  | (new) i where "swap_alloc_slot s = (of_nat i, swap_bitmap_set i s)" "i < SWAP_TOTAL_SLOTS s" "i \<notin> used_slots s"
      "{..<i} \<subseteq> used_slots s"
proof (cases "find (\<lambda>i. \<not> swap_bitmap_test i s) [0..<SWAP_TOTAL_SLOTS s]")
  case None
  then have "swap_alloc_slot s = (- 1, s)" "\<forall>i < SWAP_TOTAL_SLOTS s. swap_bitmap_test i s"
    by (simp_all add: swap_alloc_slot_def) (simp add: find_None_iff)
  then show thesis by (intro full) (auto simp: used_slots_def)
next
  case (Some i)
  then obtain n where "n < SWAP_TOTAL_SLOTS s" "i = n" "\<not> swap_bitmap_test i s" "\<forall>j < n. swap_bitmap_test j s"
    by (auto simp: find_Some_iff)
  then show thesis using Some by (intro new [of i]) (auto simp: swap_alloc_slot_def used_slots_def)
qed

text \<open>The calls that concern the slots, in any order, with the slots that are held.\<close>

inductive slot_run :: "('h, 'd) swap \<Rightarrow> usize set \<Rightarrow> bool" where
  init: "krust_swap_init malloc drive lba n s0 = Some (0, s) \<Longrightarrow> slot_run s {}"
| alloc: "slot_run s H \<Longrightarrow> swap_alloc_slot s = (i, s') \<Longrightarrow> slot_run s' (if sint i < 0 then H else insert (unat i) H)"
| free: "slot_run s H \<Longrightarrow> j \<in> H \<Longrightarrow> slot_run (swap_free_slot j s) (H - {j})"
| other: "slot_run s H \<Longrightarrow> slot_run (s\<lparr>kern := k, disk := d\<rparr>) H"

lemma swap_init_ok:
  assumes "krust_swap_init malloc drive lba n s0 = Some (0, s)"
  shows "swap_ok s" "used_slots s = {}" "SWAP_READY s" "SWAP_LBA_START s = lba" "SWAP_TOTAL_SLOTS s = unat ((n - 8) div 8)"
proof -
  obtain b h where b: "b \<noteq> 0" and s: "SWAP_BITMAP s = b" "SWAP_TOTAL_SLOTS s = unat ((n - 8) div 8)" "SWAP_READY s"
    "SWAP_TOTAL_SLOTS s \<le> MAX_SWAP_SLOTS" "SWAP_BITMAP_WORDS s = (SWAP_TOTAL_SLOTS s + 63) div 64" "SWAP_LBA_START s = lba"
    "\<And>a. b \<le> a \<Longrightarrow> a < b + SWAP_BITMAP_WORDS s * 8 \<Longrightarrow> swap_bytes s a = 0"
    "\<And>i. i < SWAP_TOTAL_SLOTS s \<Longrightarrow> \<not> SWAP_USED s i"
    using assms
    by (auto simp: krust_swap_init_def SECTORS_PER_PAGE_def Let_def split: if_splits bind_splits prod.splits)
  have t: "\<not> swap_bitmap_test i s" for i
    using s(7) [of "b + i div 8"] by (auto simp: swap_test_bit slot_byte_def s(1))
  show "swap_ok s" using b s(4,5,8) t by (simp add: swap_ok_def s(1))
  show "used_slots s = {}" using t by (simp add: used_slots_def)
  show "SWAP_READY s" "SWAP_LBA_START s = lba" "SWAP_TOTAL_SLOTS s = unat ((n - 8) div 8)" by fact+
qed

lemma slot_run_ok: "slot_run s H \<Longrightarrow> swap_ok s \<and> used_slots s = H \<and> SWAP_READY s"
proof (induction rule: slot_run.induct)
  case (init malloc drive lba n s0 s)
  then show ?case using swap_init_ok by blast
next
  case (alloc s H i s')
  then have "swap_ok s" by simp
  then show ?case
  proof (cases rule: alloc_slot_cases)
    case (new n)
    then show ?thesis
      using alloc swap_set_ok [of s n] small_slot [of n] swap_okD(2) [of s] by auto
  qed (use alloc in auto)
next
  case (free s H j)
  then have "j < SWAP_TOTAL_SLOTS s" by (auto simp: used_slots_def)
  then show ?case using free swap_clear_ok [of s j] by (simp add: swap_free_slot_def)
next
  case (other s H d k)
  have "swap_bitmap_test i (s\<lparr>kern := k, disk := d\<rparr>) = swap_bitmap_test i s" for i
    by (simp add: swap_bitmap_test_def slot_byte_def)
  then show ?case using other by (simp add: swap_ok_def used_slots_def)
qed

text \<open>
  C36. The slots of the swap area stay well formed: after every sequence of calls that starts with the
  set-up, the bitmap and the array beside it agree and record exactly the slots that are held. A new slot
  is the lowest one not held and its sectors lie apart from those of every held slot and inside the area;
  the request fails only when all are held.
\<close>

theorem swap_slots_ok:
  assumes "slot_run s H" and "swap_alloc_slot s = (i, s')"
    and "unat (SWAP_LBA_START s) + 8 * (SWAP_TOTAL_SLOTS s + 1) < 2 ^ 32"
  shows "swap_ok s \<and> used_slots s = H \<and>
    (if H = {..<SWAP_TOTAL_SLOTS s} then i = - 1 \<and> s' = s
     else unat i = (LEAST j. j \<notin> H) \<and> unat i < SWAP_TOTAL_SLOTS s \<and> used_slots s' = insert (unat i) H \<and>
       (\<forall>j \<in> H. unat (slot_lba (of_nat j) s) + 8 \<le> unat (slot_lba i s) \<or> unat (slot_lba i s) + 8 \<le> unat (slot_lba (of_nat j) s)) \<and>
       unat (SWAP_LBA_START s) + 8 \<le> unat (slot_lba i s) \<and>
       unat (slot_lba i s) + 8 \<le> unat (SWAP_LBA_START s) + 8 * (SWAP_TOTAL_SLOTS s + 1))"
proof -
  note R = slot_run_ok [OF assms(1)]
  have lba: "unat (slot_lba (of_nat j) s) = unat (SWAP_LBA_START s) + 8 + 8 * j" if "j < SWAP_TOTAL_SLOTS s" for j
  proof -
    have "slot_lba (of_nat j) s = of_nat (unat (SWAP_LBA_START s) + 8 + 8 * j)"
      by (simp add: slot_lba_def SECTORS_PER_PAGE_def)
    then show ?thesis using that assms(3) by (simp only: unat_of_nat) (simp add: take_bit_nat_eq_self unat_of_nat)
  qed
  from R have "swap_ok s" by blast
  from this show ?thesis
  proof (cases rule: alloc_slot_cases)
    case full
    then show ?thesis using R assms(2) by auto
  next
    case (new n)
    have n: "i = of_nat n" "s' = swap_bitmap_set n s" using new assms(2) by auto
    have u: "unat i = n" using small_slot [of n] new(2) swap_okD(2) [of s] R n by auto
    have least: "(LEAST j. j \<notin> H) = n" using new(3,4) R by (intro Least_equality) (auto simp: subset_iff not_less)
    have H: "used_slots s = H" and "H \<noteq> {..<SWAP_TOTAL_SLOTS s}" using new(2,3) R by auto
    have apart: "unat (slot_lba (of_nat j) s) + 8 \<le> unat (slot_lba i s) \<or> unat (slot_lba i s) + 8 \<le> unat (slot_lba (of_nat j) s)"
      if "j \<in> H" for j
    proof -
      have "j < SWAP_TOTAL_SLOTS s" "j \<noteq> n" using that H new(3) by (auto simp: used_slots_def)
      then show ?thesis using lba [of j] lba [OF new(2)] n(1) by (cases "j < n") simp_all
    qed
    have "unat (slot_lba i s) = unat (SWAP_LBA_START s) + 8 + 8 * n" using lba [OF new(2)] n(1) by simp
    moreover have "used_slots s' = insert n H" using swap_set_ok(2) [OF \<open>swap_ok s\<close> new(2)] H n(2) by simp
    ultimately show ?thesis
      using \<open>swap_ok s\<close> H \<open>H \<noteq> {..<SWAP_TOTAL_SLOTS s}\<close> apart new(2) by (simp add: u least)
  qed
qed

theorem swap_slots_ok_witness:
  "\<exists>(s :: (unit, unit) swap) i s'. slot_run s {} \<and> swap_alloc_slot s = (i, s') \<and> unat i = 0 \<and> used_slots s' = {0}"
proof -
  define s0 :: "(unit, unit) swap" where "s0 = \<lparr>kern = undefined, disk = (), SWAP_READY = False, SWAP_DRIVE = 0, SWAP_LBA_START = 0,
    SWAP_TOTAL_SLOTS = 0, SWAP_USED = (\<lambda>_. False), SWAP_BITMAP = 0, SWAP_BITMAP_WORDS = 0, swap_bytes = (\<lambda>_. 0)\<rparr>"
  obtain s where s: "krust_swap_init (\<lambda>_ h. Some (0x100, h)) 0 0 40 s0 = Some (0, s)"
    by (simp add: krust_swap_init_def SECTORS_PER_PAGE_def MAX_SWAP_SLOTS_def Let_def)
  note I = swap_init_ok [OF s]
  have r: "slot_run s {}" using s by (rule slot_run.init)
  obtain i s' where a: "swap_alloc_slot s = (i, s')" by fastforce
  have t: "SWAP_TOTAL_SLOTS s = 4" "SWAP_LBA_START s = 0" using I(4,5) by simp_all
  have l: "(LEAST j. j \<notin> ({} :: usize set)) = 0" by (rule Least_equality) simp_all
  have "0 \<in> {..<4 :: usize}" by simp
  then have n: "{} \<noteq> {..<4 :: usize}" by blast
  have "unat (SWAP_LBA_START s) + 8 * (SWAP_TOTAL_SLOTS s + 1) < 2 ^ 32" by (simp add: t)
  from swap_slots_ok [OF r a this] have "unat i = 0 \<and> used_slots s' = insert (unat i) {}"
    unfolding t(1) if_not_P [OF n] l by blast
  then show ?thesis using r a by auto
qed

end
