(* ===== verification/Swapping.thy ===== *)
theory Swapping
  imports Swap
begin

unbundle bit_operations_syntax

text \<open>
  Properties of swapping: a page that is written out and read in again, and a shared page that is
  written out.
\<close>

section \<open>Pages as lists of words\<close>

lemma word64_words16: "word64 (ucast w) (ucast (drop_bit 16 w)) (ucast (drop_bit 32 w)) (ucast (drop_bit 48 w)) = w"
proof (rule bit_word_eqI)
  fix n assume "n < LENGTH(64)"
  then consider "n < 16" | "16 \<le> n" "n < 32" | "32 \<le> n" "n < 48" | "48 \<le> n" "n < 64" by (simp; linarith)
  then show "bit (word64 (ucast w) (ucast (drop_bit 16 w)) (ucast (drop_bit 32 w)) (ucast (drop_bit 48 w))) n = bit w n"
    by cases (auto simp: word64_def bit_simps)
qed

lemma words16_concat:
  assumes "k < n"
  shows "length (concat (map (\<lambda>i. words16 (g i)) [0..<n])) = 4 * n"
    "j < 4 \<Longrightarrow> concat (map (\<lambda>i. words16 (g i)) [0..<n]) ! (4 * k + j) = words16 (g k) ! j"
proof -
  have l: "length (concat (map (\<lambda>i. words16 (g i)) [0..<n])) = 4 * n" for n by (induction n) (simp_all add: words16_def)
  show "length (concat (map (\<lambda>i. words16 (g i)) [0..<n])) = 4 * n" by (rule l)
  show "j < 4 \<Longrightarrow> concat (map (\<lambda>i. words16 (g i)) [0..<n]) ! (4 * k + j) = words16 (g k) ! j"
    using assms by (induction n) (auto simp: nth_append l less_Suc_eq)
qed

lemma page_words_length [simp]: "length (page_words m p) = 2048"
  using words16_concat(1) [of 0 512] by (simp add: page_words_def)

lemma page_words_nth: "k < 512 \<Longrightarrow> j < 4 \<Longrightarrow> page_words m p ! (4 * k + j) = words16 (m (p + 8 * k)) ! j"
  unfolding page_words_def by (rule words16_concat(2))

text \<open>The words of a page stored at another give it the same contents.\<close>

lemma put_page_words: "k < 512 \<Longrightarrow> put_words q (page_words m p) m' (q + 8 * k) = m (p + 8 * k)"
  using page_words_nth [of k 0 m p] page_words_nth [of k 1 m p] page_words_nth [of k 2 m p] page_words_nth [of k 3 m p]
    word64_words16 [of "m (p + 8 * k)"]
  by (simp add: put_words_def Let_def words16_def add.commute)

lemma put_words_out: "length ws \<le> 2048 \<Longrightarrow> a div 4096 \<noteq> f \<Longrightarrow> put_words (f * 4096) ws m a = m a"
  by (auto simp: put_words_def)

section \<open>Entries\<close>

lemma swap_mask_bits:
  "bit SWAP_PTE_MARKER n \<longleftrightarrow> n = 10" "bit (0xFF0 :: u64) n \<longleftrightarrow> 4 \<le> n \<and> n < 12"
  "bit (0xBF0 :: u64) n \<longleftrightarrow> 4 \<le> n \<and> n < 12 \<and> n \<noteq> 10" "bit (0xFFFFF :: u64) n \<longleftrightarrow> n < 20"
  "bit (4 :: u64) n \<longleftrightarrow> n = 2"
proof -
  have m: "SWAP_PTE_MARKER = push_bit 10 1" "(0xFF0 :: u64) = push_bit 4 (mask 8)" "(0xFFFFF :: u64) = mask 20"
    "(0xBF0 :: u64) = push_bit 4 (mask 8) AND NOT (push_bit 10 1)" "(4 :: u64) = push_bit 2 1"
    by (simp_all add: SWAP_PTE_MARKER_def mask_eq_exp_minus_1 push_bit_eq_mult)
  show "bit SWAP_PTE_MARKER n \<longleftrightarrow> n = 10" unfolding m by (auto simp: bit_simps simp del: push_bit_of_1)
  show "bit (0xFF0 :: u64) n \<longleftrightarrow> 4 \<le> n \<and> n < 12" unfolding m(2) by (auto simp: bit_simps)
  show "bit (0xFFFFF :: u64) n \<longleftrightarrow> n < 20" unfolding m(3) by (auto simp: bit_simps)
  show "bit (0xBF0 :: u64) n \<longleftrightarrow> 4 \<le> n \<and> n < 12 \<and> n \<noteq> 10" unfolding m(4) by (auto simp: bit_simps simp del: push_bit_of_1)
  show "bit (4 :: u64) n \<longleftrightarrow> n = 2" unfolding m(5) by (auto simp: bit_simps simp del: push_bit_of_1)
qed

text \<open>The entry of a page in a slot, and of a page read in again.\<close>

definition swapped_entry :: "u32 \<Rightarrow> u64 \<Rightarrow> u64" where
  "swapped_entry slot e = swap_slot_to_pte slot OR ((e AND 0xFF0) AND NOT 1)"

definition returned_entry :: "usize \<Rightarrow> u64 \<Rightarrow> u64" where
  "returned_entry f e = of_nat (f * 4096) AND PTE_MASK OR (e AND 0xFF0) AND NOT SWAP_PTE_MARKER OR 1"

lemma small_slot_bits: "unat (slot :: u32) < 4096 \<Longrightarrow> bit slot n \<Longrightarrow> n < 12"
proof -
  assume s: "unat slot < 4096" and b: "bit slot n"
  have t: "take_bit 12 (unat slot) = unat slot" using s by (simp add: take_bit_nat_eq_self)
  have "bit (of_nat (unat slot) :: u32) n" using b by simp
  then have "bit (unat slot) n" unfolding bit_of_nat_iff by blast
  then show "n < 12" using t by (metis bit_take_bit_iff)
qed

lemma swapped_entry:
  fixes e :: u64
  assumes "unat slot < 4096"
  defines "x \<equiv> swapped_entry slot e"
  shows "x AND 1 = 0" "swap_is_pte x" "swap_pte_to_slot x = slot" "(x AND 0xFF0) AND NOT SWAP_PTE_MARKER = e AND 0xBF0"
proof -
  have b: "bit x n \<longleftrightarrow> n = 10 \<or> 12 \<le> n \<and> bit slot (n - 12) \<or> 4 \<le> n \<and> n < 12 \<and> bit e n" if "n < 64" for n
    using that small_slot_bits [OF assms(1), of "n - 12"]
    unfolding x_def swapped_entry_def swap_slot_to_pte_def bit_or_iff bit_and_iff bit_not_iff bit_push_bit_iff
      unsigned_ucast_eq bit_unsigned_iff swap_mask_bits bit_1_iff by auto
  show z: "x AND 1 = 0" by (rule bit_word_eqI) (auto simp: bit_simps b)
  have "bit x 10" by (simp add: b)
  then have "x AND SWAP_PTE_MARKER \<noteq> 0" "x \<noteq> 0" using bit_neq_0 [of x 10 SWAP_PTE_MARKER] by (auto simp: swap_mask_bits)
  with z show "swap_is_pte x" by (simp add: swap_is_pte_def)
  show "swap_pte_to_slot x = slot"
  proof (rule bit_word_eqI)
    fix n assume "n < LENGTH(32)"
    then show "bit (swap_pte_to_slot x) n = bit slot n"
      unfolding swap_pte_to_slot_def bit_unsigned_iff bit_and_iff bit_drop_bit_eq swap_mask_bits comp_apply
      using small_slot_bits [OF assms(1), of n] b [of "12 + n"] by auto
  qed
  show "(x AND 0xFF0) AND NOT SWAP_PTE_MARKER = e AND 0xBF0"
    by (rule bit_word_eqI, unfold bit_and_iff bit_not_iff swap_mask_bits) (auto simp: b)
qed

lemma frame_bits: "f < 2 ^ 40 \<Longrightarrow> (of_nat (f * 4096) :: u64) AND PTE_MASK = of_nat (f * 4096)"
proof -
  assume f: "f < 2 ^ 40"
  have "take_bit 40 f = f" using f by (simp add: take_bit_nat_eq_self)
  then have "n < 40" if "bit (of_nat f :: u64) n" for n using that by (metis bit_take_bit_iff bit_of_nat_iff)
  then have fb: "n < 52" if "bit (of_nat f :: u64) (n - 12)" for n using that by fastforce
  have "(of_nat (f * 4096) :: u64) = push_bit 12 (of_nat f)" by (simp add: push_bit_eq_mult)
  then show ?thesis by (simp only:) (rule bit_word_eqI, use fb in \<open>auto simp: bit_simps mask_bits\<close>)
qed

lemma returned_entry:
  fixes e e0 :: u64
  assumes f: "f < 2 ^ 40" and fl: "(e AND 0xFF0) AND NOT SWAP_PTE_MARKER = e0 AND 0xBF0"
  defines "x \<equiv> returned_entry f e"
  shows "table_of x = f * 4096" "x AND NOT PTE_MASK = e0 AND 0xBF0 OR 1"
    "x AND 1 \<noteq> 0" "x AND PAGE_WRITE = 0" "x AND PAGE_USER = 0"
proof -
  let ?p = "of_nat (f * 4096) :: u64"
  have x: "x = ?p AND PTE_MASK OR (e0 AND 0xBF0) OR 1" by (simp add: x_def returned_entry_def fl or.assoc)
  have "x AND PTE_MASK = ?p AND PTE_MASK"
    unfolding x by (rule bit_word_eqI, unfold bit_and_iff bit_or_iff mask_bits swap_mask_bits bit_1_iff) auto
  moreover have "unat ?p = f * 4096" using f by (intro unat_of_nat_small) simp
  ultimately show "table_of x = f * 4096" using frame_bits [OF f] by (simp add: table_of_def)
  show "x AND NOT PTE_MASK = e0 AND 0xBF0 OR 1"
    unfolding x by (rule bit_word_eqI, unfold bit_and_iff bit_or_iff bit_not_iff mask_bits swap_mask_bits bit_1_iff) auto
  have "bit x 0" unfolding x bit_or_iff by simp
  then show "x AND 1 \<noteq> 0" by (rule odd_entry)
  show "x AND PAGE_WRITE = 0" "x AND PAGE_USER = 0"
    unfolding x PAGE_WRITE_def PAGE_USER_def 
    by (rule bit_word_eqI, unfold bit_and_iff bit_or_iff mask_bits swap_mask_bits bit_1_iff bit_2, auto)+
qed

section \<open>Fields\<close>

lemma swap_fields [simp]:
  "pg (kern (on_paging f s)) = f (pg (kern s))" "kheap_of (kern (on_paging f s)) = kheap_of (kern s)"
  "sch (kern (on_paging f s)) = sch (kern s)" "disk (on_paging f s) = disk s" "SWAP_READY (on_paging f s) = SWAP_READY s"
  "SWAP_DRIVE (on_paging f s) = SWAP_DRIVE s" "SWAP_TOTAL_SLOTS (on_paging f s) = SWAP_TOTAL_SLOTS s"
  "pg (kern (with_heap h s)) = pg (kern s)" "kheap_of (kern (with_heap h s)) = h" "sch (kern (with_heap h s)) = sch (kern s)"
  "disk (with_heap h s) = disk s" "SWAP_READY (with_heap h s) = SWAP_READY s" "SWAP_DRIVE (with_heap h s) = SWAP_DRIVE s"
  "SWAP_TOTAL_SLOTS (with_heap h s) = SWAP_TOTAL_SLOTS s"
  "kern (swap_free_slot i s) = kern s" "disk (swap_free_slot i s) = disk s" "SWAP_READY (swap_free_slot i s) = SWAP_READY s"
  "kern (unshare c v s) = on_pg (\<lambda>g. (snd (cow_resolve_page c v (g\<lparr>cr3 := c\<rparr>)))\<lparr>cr3 := cr3 (pg (kern s))\<rparr>) (kern s)"
  by (simp_all add: on_paging_def on_pg_def with_heap_def swap_free_slot_def unshare_def Let_def)

text \<open>Only the bitmap and its position matter to the slots.\<close>

lemma slots_same [simp]:
  "swap_ok (on_paging f s) = swap_ok s" "used_slots (on_paging f s) = used_slots s" "slot_lba i (on_paging f s) = slot_lba i s"
  "swap_ok (with_heap h s) = swap_ok s" "used_slots (with_heap h s) = used_slots s" "slot_lba i (with_heap h s) = slot_lba i s"
  "swap_ok (s\<lparr>disk := d\<rparr>) = swap_ok s" "used_slots (s\<lparr>disk := d\<rparr>) = used_slots s" "slot_lba i (s\<lparr>disk := d\<rparr>) = slot_lba i s"
  "slot_lba i (swap_bitmap_set n s) = slot_lba i s"
  by (simp_all add: swap_ok_def used_slots_def swap_bitmap_test_def slot_byte_def on_paging_def with_heap_def slot_lba_def)

lemma memory_simps [simp]:
  "memory (on_paging f s) = pmem (f (pg (kern s)))" "memory (with_heap h s) = memory s" "memory (s\<lparr>disk := d\<rparr>) = memory s"
  "memory (swap_bitmap_set i s) = memory s" "memory (swap_free_slot i s) = memory s"
  by (simp_all add: memory_def)

section \<open>Writing a page out\<close>

text \<open>The state after a page has been written out: its entry holds the slot and its frame is free.\<close>

definition evicted :: "u32 \<Rightarrow> u64 \<Rightarrow> usize \<Rightarrow> 'h \<Rightarrow> 'd \<Rightarrow> ('h, 'd) swap \<Rightarrow> ('h, 'd) swap" where
  "evicted slot e a h d s =
     on_paging (free_frame (table_of e div 4096))
       (with_heap h (on_paging (set_entry a (swapped_entry slot e)) (s\<lparr>disk := d\<rparr>)))"

lemma with_heap_over [simp]: "with_heap h (with_heap h' s) = with_heap h s" "(with_heap h s)\<lparr>disk := d\<rparr> = with_heap h (s\<lparr>disk := d\<rparr>)"
  "with_heap h (on_paging f (with_heap h' s)) = with_heap h (on_paging f s)"
  by (simp_all add: with_heap_def on_paging_def on_pg_def)

lemma write_page_state: "swap_write_page P slot buf ws s = (ok, s') \<Longrightarrow> \<exists>d. s' = s\<lparr>disk := d\<rparr>"
  by (auto simp: swap_write_page_def split: if_splits prod.splits) (metis swap.surjective swap.update_convs(2))

text \<open>What the drive answered to the write of a page's words at a slot.\<close>

abbreviation written_out :: "'d ports \<Rightarrow> u32 \<Rightarrow> u16 list \<Rightarrow> ('h, 'd) swap \<Rightarrow> bool \<Rightarrow> 'd \<Rightarrow> bool" where
  "written_out P slot ws s ok d \<equiv>
     \<exists>buf. krust_ata_write P (SWAP_DRIVE s) (slot_lba slot s) 8 buf ws (disk s) = (ok, d)"

lemma write_page_drive:
  "swap_write_page P slot buf ws s = (ok, s') \<Longrightarrow> \<not> no_slot slot s \<Longrightarrow> written_out P slot ws s ok (disk s')"
  by (auto simp: swap_write_page_def SECTORS_PER_PAGE_def split: prod.splits)

context allocator
begin

lemma evict_entry_cases:
  fixes s :: "('h, 'd) swap"
  assumes i: "inv (kheap_of (kern s))" and e: "e = memory s a" "e AND 1 \<noteq> 0"
    and u: "u = (if e AND COW_BIT \<noteq> 0 then unshare c v s else s)" "e AND COW_BIT \<noteq> 0 \<Longrightarrow> memory u a AND COW_BIT = 0"
    and ns: "\<not> no_slot slot s"
  shows "\<exists>b h d. inv h \<and> ptrs h = ptrs (kheap_of (kern s)) \<and> evict_entry malloc mfree P slot v c a s =
    Some (b, if b then evicted slot e a h d u else swap_free_slot (unat slot) (with_heap h (u\<lparr>disk := d\<rparr>))) \<and>
    (written_out P slot (page_words (memory u) (table_of e)) s b d \<or>
     \<not> b \<and> (\<exists>h. malloc 4096 (kheap_of (kern s)) = Some (0, h)))"
proof -
  have same: "no_slot slot (with_heap h u) = no_slot slot s" "SWAP_DRIVE u = SWAP_DRIVE s"
      "slot_lba slot u = slot_lba slot s" "disk u = disk s" for h
    using u(1) by (simp_all add: no_slot_def unshare_def Let_def)
  have k: "kheap_of (kern u) = kheap_of (kern s)" using u(1) by (simp add: on_pg_def)
  have c: "\<not> (e AND COW_BIT \<noteq> 0 \<and> memory u a AND COW_BIT \<noteq> 0)" using u(2) by blast
  have E: "evict_entry malloc mfree P slot v c a s = do {
      (buf, h) \<leftarrow> malloc 4096 (kheap_of (kern u));
      let w = with_heap h u;
      if buf = 0 then Some (False, swap_free_slot (unat slot) w)
      else do {
        let (ok, w) = swap_write_page P slot buf (page_words (memory w) (unat (e AND PTE_MASK))) w;
        if \<not> ok then do {
          h \<leftarrow> mfree buf (kheap_of (kern w));
          Some (False, swap_free_slot (unat slot) (with_heap h w))
        }
        else do {
          let w = on_paging (set_entry a (swapped_entry slot e)) w;
          h \<leftarrow> mfree buf (kheap_of (kern w));
          Some (True, on_paging (free_frame (table_of e div 4096)) (with_heap h w))
        }
      }
    }"
    unfolding evict_entry_def Let_def swapped_entry_def table_of_def e(1) [symmetric] u(1) [symmetric]
      if_not_P [OF e(2)] if_not_P [OF c] by (rule refl)
  from i show ?thesis
  proof (cases rule: malloc_cases [where n = 4096])
    case (null h)
    then show ?thesis unfolding E k by (intro exI [of _ False] exI [of _ h] exI [of _ "disk u"]) simp
  next
    case (block p h)
    obtain ok w where w: "swap_write_page P slot p (page_words (memory (with_heap h u)) (unat (e AND PTE_MASK))) (with_heap h u) = (ok, w)"
      by fastforce
    then obtain d where d: "w = (with_heap h u)\<lparr>disk := d\<rparr>" using write_page_state by blast
    obtain h' where h': "mfree p h = Some h'" "inv h'" "ptrs h' = ptrs h - {p}"
      using block(5) by (auto intro: free_ptr [OF block(2), of p])
    have wr: "written_out P slot (page_words (memory u) (table_of e)) s ok d"
      using write_page_drive [OF w] ns by (simp add: same d table_of_def)
    show ?thesis
      unfolding E k
      using block w h' by (intro exI [of _ ok] exI [of _ h'] exI [of _ d] conjI disjI1 [OF wr]) (auto simp: d evicted_def Let_def)
  qed
qed

text \<open>A whole call, for a page with an entry of its own that is present and not shared.\<close>

lemma evict_page_cases:
  fixes s :: "('h, 'd) swap"
  assumes i: "inv (kheap_of (kern s))" and ok: "swap_ok s" "SWAP_READY s"
    and l: "pt_walk (memory s) (unat c) v = Leaf a" and e: "e = memory s a" "e AND 1 \<noteq> 0" "e AND COW_BIT = 0"
  obtains (none) "swap_evict_page malloc mfree P v c s = Some (False, s)" "used_slots s = {..<SWAP_TOTAL_SLOTS s}"
  | (failed) u where "swap_evict_page malloc mfree P v c s = Some (False, u)" "pg (kern u) = pg (kern s)" "sch (kern u) = sch (kern s)"
      "inv (kheap_of (kern u))" "swap_ok u" "used_slots u = used_slots s"
      "(\<exists>h. malloc 4096 (kheap_of (kern s)) = Some (0, h)) \<or>
       (\<exists>slot d. written_out P slot (page_words (memory s) (table_of e)) s False d)"
  | (written) n h d where "swap_evict_page malloc mfree P v c s = Some (True, evicted (of_nat n) e a h d (swap_bitmap_set n s))"
      "n < SWAP_TOTAL_SLOTS s" "n \<notin> used_slots s" "inv h" "ptrs h = ptrs (kheap_of (kern s))"
      "written_out P (of_nat n) (page_words (memory s) (table_of e)) s True d"
  using ok(1)
proof (cases rule: alloc_slot_cases)
  case full
  then have "swap_evict_page malloc mfree P v c s = Some (False, s)" using ok(2) by (simp add: swap_evict_page_def)
  then show thesis using full(2) by (rule none)
next
  case (new n)
  let ?s = "swap_bitmap_set n s"
  have n: "n < 4096" using new(2) swap_okD(2) [OF ok(1)] by simp
  have E: "swap_evict_page malloc mfree P v c s = evict_entry malloc mfree P (of_nat n) v c a ?s"
    using ok(2) new(1) l small_slot [OF n] by (simp add: swap_evict_page_def)
  obtain b h d where r: "inv h" "ptrs h = ptrs (kheap_of (kern s))" "evict_entry malloc mfree P (of_nat n) v c a ?s =
    Some (b, if b then evicted (of_nat n) e a h d ?s else swap_free_slot (unat (of_nat n :: u32)) (with_heap h (?s\<lparr>disk := d\<rparr>)))"
    and wr: "written_out P (of_nat n) (page_words (memory s) (table_of e)) s b d \<or>
      \<not> b \<and> (\<exists>h. malloc 4096 (kheap_of (kern s)) = Some (0, h))"
  proof -
    have "\<not> no_slot (of_nat n) ?s" using new(2) ok(2) small_slot(2) [OF n] by (simp add: no_slot_def)
    then show thesis
      using evict_entry_cases [of ?s e a ?s c v "of_nat n" P] i e by (simp, elim exE conjE) (rule that, simp_all)
  qed
  show thesis
  proof (cases b)
    case True
    then show ?thesis using r new wr by (intro written [of n h d]) (simp_all add: E)
  next
    case False
    let ?u = "with_heap h (?s\<lparr>disk := d\<rparr>)"
    have "swap_ok ?u" "used_slots ?u = insert n (used_slots s)" "SWAP_TOTAL_SLOTS ?u = SWAP_TOTAL_SLOTS s"
      using swap_set_ok [OF ok(1) new(2)] by simp_all
    then have "swap_ok (swap_free_slot n ?u)" "used_slots (swap_free_slot n ?u) = used_slots s"
      using swap_clear_ok [of ?u n] new(2,3) by (simp_all add: swap_free_slot_def)
    then show ?thesis
      using False r wr small_slot(2) [OF n] by (intro failed [of "swap_free_slot n ?u"]) (auto simp: E)
  qed
qed

end

section \<open>Reading a page in\<close>

abbreviation free_of :: "('h, 'd) swap \<Rightarrow> usize set" where
  "free_of s \<equiv> free_frames (frames (pg (kern s)))"

text \<open>A page of a well-formed address space that may be given back: no table, and in use.\<close>

definition page_in_use :: "usize \<Rightarrow> u64 \<Rightarrow> paging \<Rightarrow> bool" where
  "page_in_use r e g \<longleftrightarrow> table_of e \<notin> tables (pmem g) r \<and> table_of e \<noteq> 0 \<and> table_of e div 4096 \<in> all_frames (frames g) \<and>
     table_of e div 4096 \<notin> free_frames (frames g)"

lemma free_page_ok:
  assumes ok: "pg_ok r g" and p: "page_in_use r e g"
  shows "pg_ok r (free_frame (table_of e div 4096) g)"
    "free_frames (frames (free_frame (table_of e div 4096) g)) = insert (table_of e div 4096) (free_frames (frames g))"
proof -
  note P = pg_okD [OF ok]
  let ?f = "table_of e div 4096" and ?p = "krust_pmm_free_frame (frames g) (table_of e div 4096)"
  have fr: "free_frames ?p = insert ?f (free_frames (frames g))"
    using free_frames_free [OF P(1)] p by (simp add: page_in_use_def)
  then show "free_frames (frames (free_frame ?f g)) = insert ?f (free_frames (frames g))" by (simp add: free_frame_def)
  have start: "?f * 4096 = table_of e" by (rule page_start [OF table_of_aligned])
  have "t div 4096 \<noteq> ?f" if "t \<in> tables (pmem g) r" for t
    using page_start [OF tables_aligned [OF P(4) that]] start that p unfolding page_in_use_def by metis
  moreover have "?f \<noteq> 0" using start p by (auto simp: page_in_use_def)
  moreover have "TOTAL_FRAMES ?p = TOTAL_FRAMES (frames g)" using all_frames_free [of "frames g" ?f] by (simp add: all_frames_def)
  ultimately show "pg_ok r (free_frame ?f g)"
    using P pmm_inv_free [OF P(1)] fr by (simp add: pg_ok_def free_frame_def)
qed

lemma write_leaf_walk:
  assumes ok: "pt_ok m r" and t: "tab m 3 r [unat (pml4_i v), unat (pdp_i v), unat (pd_i v)] = Some t"
  shows "pt_walk (m(t + 8 * unat (pt_i v) := e)) r w = pt_walk m r w"
proof -
  let ?m = "m(t + 8 * unat (pt_i v) := e)" and ?p = "[unat (pml4_i v), unat (pdp_i v), unat (pd_i v)]"
    and ?q = "[unat (pml4_i w), unat (pdp_i w)]"
  have a: "agrees m r ?p (unat (pt_i v)) ?m" using ok t by (intro agrees_upd) simp_all
  have q: "tab ?m 3 r ?q = tab m 3 r ?q" by (rule tab_frame [OF a]) auto
  have "?m (u + 8 * unat (pd_i w)) = m (u + 8 * unat (pd_i w))" if "tab m 3 r ?q = Some u" for u
    using that by (intro agreesD [OF a, of ?q]) auto
  then show ?thesis using q by (cases "tab m 3 r ?q") (simp_all add: pt_walk_tab Let_def del: fun_upd_apply)
qed

lemma evicted_ok:
  assumes ok: "pg_ok r (pg (kern s))" and l: "pt_walk (memory s) r v = Leaf a" and p: "page_in_use r e (pg (kern s))"
    and s1_def: "s1 = evicted slot e a h d s"
  shows "pg_ok r (pg (kern s1))" "free_of s1 = insert (table_of e div 4096) (free_of s)"
    "memory s1 = (memory s)(a := swapped_entry slot e)" "tables (memory s1) r = tables (memory s) r"
    "pt_walk (memory s1) r w = pt_walk (memory s) r w"
    "pte (memory s1) r w = (if vpath w = vpath v then swapped_entry slot e else pte (memory s) r w)"
proof -
  note P = pg_okD [OF ok]
  let ?g = "set_entry a (swapped_entry slot e) (pg (kern s))"
  obtain t where t: "tab (memory s) 3 r [unat (pml4_i v), unat (pdp_i v), unat (pd_i v)] = Some t" "a = t + 8 * unat (pt_i v)"
    using l by (rule walk_leaf)
  note W = write_leaf [OF P(4) t(1) [unfolded memory_def], of "swapped_entry slot e", folded t(2)]
  have m: "pmem ?g = (memory s)(a := swapped_entry slot e)" by (simp add: set_entry_def memory_def)
  have g: "pg_ok r ?g" using P W(1,2) by (simp add: pg_ok_def set_entry_def)
  have u: "page_in_use r e ?g" using p W(2) by (simp add: page_in_use_def set_entry_def)
  have s1: "pg (kern s1) = free_frame (table_of e div 4096) ?g" by (simp add: s1_def evicted_def)
  show "pg_ok r (pg (kern s1))" using free_page_ok(1) [OF g u] s1 by simp
  show "free_of s1 = insert (table_of e div 4096) (free_of s)" using free_page_ok(2) [OF g u] s1 by (simp add: set_entry_def)
  show m1: "memory s1 = (memory s)(a := swapped_entry slot e)" using m s1 by (simp add: memory_def free_frame_def)
  show "tables (memory s1) r = tables (memory s) r" unfolding m1 using W(2) [folded memory_def] .
  show "pte (memory s1) r w = (if vpath w = vpath v then swapped_entry slot e else pte (memory s) r w)"
    unfolding m1 using W(3) [folded memory_def] .
  show "pt_walk (memory s1) r w = pt_walk (memory s) r w"
    unfolding m1 using write_leaf_walk [OF P(4) [folded memory_def] t(1), of "swapped_entry slot e" w, folded t(2)] .
qed

text \<open>A page filled from a list of words, in a frame that was free; the tables do not notice.\<close>

lemma filled_page_ok:
  assumes ok: "pg_ok r g" and f: "f \<in> free_frames (frames g)" and p: "pmm_inv p" "free_frames p = free_frames (frames g) - {f}"
      "TOTAL_FRAMES p = TOTAL_FRAMES (frames g)" and ws: "length ws \<le> 2048"
    and g': "g' = g\<lparr>frames := p, pmem := put_words (f * 4096) ws (cleared (f * 4096) (pmem g))\<rparr>"
  shows "pg_ok r g'" "pt_walk (pmem g') r w = pt_walk (pmem g) r w" "pte (pmem g') r w = pte (pmem g) r w"
    "a div 4096 \<noteq> f \<Longrightarrow> pmem g' a = pmem g a" "tables (pmem g') r = tables (pmem g) r"
proof -
  note P = pg_okD [OF ok]
  have out: "pmem g' a = pmem g a" if "a div 4096 \<noteq> f" for a
    using that ws by (simp add: g' put_words_out cleared_other)
  have "pmem g' (t + 8 * j) = pmem g (t + 8 * j)" if "t \<in> tables (pmem g) r" "j < 512" for t j
    using in_page [OF tables_aligned [OF P(4) that(1)] that(2)] P(5) [OF that(1)] f by (intro out) auto
  note S = tables_same [OF P(4) this]
  show "pt_walk (pmem g') r w = pt_walk (pmem g) r w" by (rule S(4))
  show "pte (pmem g') r w = pte (pmem g) r w" by (rule S(5))
  show "tables (pmem g') r = tables (pmem g) r" by (rule S(2))
  show "pg_ok r g'" unfolding pg_ok_def using P S(2,3) p by (simp add: g')
  show "a div 4096 \<noteq> f \<Longrightarrow> pmem g' a = pmem g a" by (rule out)
qed

lemma swap_in_ok:
  assumes ok: "pg_ok r (pg (kern s))" "r = unat (cr3 (pg (kern s)))" "swap_ok s" "SWAP_READY s"
    and l: "pt_walk (memory s) r v = Leaf a" and x: "swap_is_pte x" "slot = swap_pte_to_slot x" "unat slot \<in> used_slots s"
    and free: "free_of s \<noteq> {}"
    and rd: "\<And>buf. buf \<noteq> 0 \<Longrightarrow> krust_ata_read P (SWAP_DRIVE s) (slot_lba slot s) 8 buf (disk s) = (True, ws, d2)"
  obtains f s2 where "swap_in_from_pte P x v s = (True, s2)" "f \<in> free_of s" "f < 2 ^ 40" "pg_ok r (pg (kern s2))"
    "free_of s2 = free_of s - {f}" "swap_ok s2" "used_slots s2 = used_slots s - {unat slot}"
    "\<And>w. pte (memory s2) r w = (if vpath w = vpath v then returned_entry f x else pte (memory s) r w)"
    "\<And>k. k < 512 \<Longrightarrow> memory s2 (f * 4096 + 8 * k) = put_words (f * 4096) ws (cleared (f * 4096) (memory s)) (f * 4096 + 8 * k)"
    "sch (kern s2) = sch (kern s)" "cr3 (pg (kern s2)) = cr3 (pg (kern s))"
proof -
  from ok(1) show thesis
  proof (cases rule: frame_alloc_cases)
    case null
    then show ?thesis using free by simp
  next
    case (new f p)
    let ?g = "(pg (kern s))\<lparr>frames := p, pmem := put_words (f * 4096) ws (cleared (f * 4096) (memory s))\<rparr>"
    let ?n = "returned_entry f x"
    have len: "length ws \<le> 2048"
      using krust_ata_read_length [OF rd [of 1]] by (auto simp: sector_count_def)
    note F = filled_page_ok [OF ok(1) new(2,7-9) len, of ?g, unfolded memory_def, OF refl, folded memory_def]
    have lt: "unat slot < SWAP_TOTAL_SLOTS s" using x(3) by (simp add: used_slots_def)
    define u where "u = on_paging (\<lambda>g. g\<lparr>pmem := put_words (f * 4096) ws (pmem g)\<rparr>)
      ((on_paging (clear_page (f * 4096)) (on_paging (\<lambda>g. g\<lparr>frames := p\<rparr>) s))\<lparr>disk := d2\<rparr>)"
    have u: "pg (kern u) = ?g" "swap_ok u" "used_slots u = used_slots s" "SWAP_TOTAL_SLOTS u = SWAP_TOTAL_SLOTS s"
        "sch (kern u) = sch (kern s)" "memory u = pmem ?g"
      using ok(3) by (simp_all add: u_def clear_page_def memory_def)
    have rp: "swap_read_page P slot (f * 4096) (on_paging (clear_page (f * 4096)) (on_paging (\<lambda>g. g\<lparr>frames := p\<rparr>) s)) = (True, u)"
      using new(4) lt ok(4) rd [of "f * 4096"] by (simp add: swap_read_page_def no_slot_def SECTORS_PER_PAGE_def u_def)
    let ?s2 = "swap_free_slot (unat slot) (on_paging (set_entry a ?n) u)"
    have c: "unat (cr3 (pg (kern u))) = r" using ok(2) u(1) by simp
    have lu: "pt_walk (memory u) r v = Leaf a" using F(2) l u(6) by (simp add: memory_def)
    have E: "swap_in_from_pte P x v s = (True, ?s2)"
      using x(1,2) new(1,5,6) rp lu c by (simp add: swap_in_from_pte_def Let_def returned_entry_def)
    obtain t where t: "tab (memory u) 3 r [unat (pml4_i v), unat (pdp_i v), unat (pd_i v)] = Some t" "a = t + 8 * unat (pt_i v)"
      using lu by (rule walk_leaf)
    have pu: "pg_ok r (pg (kern u))" using F(1) u(1) by simp
    note P = pg_okD [OF pu]
    note W = write_leaf [OF P(4) [folded memory_def] t(1), of ?n, folded t(2)]
    have m2: "memory ?s2 = (memory u)(a := ?n)" by (simp add: set_entry_def memory_def)
    have tt: "t \<in> tables (memory u) r" using t(1) by (rule vpath_self)
    then have al: "t mod 4096 = 0" using tables_aligned P(4) by (simp add: memory_def)
    have ne: "a div 4096 \<noteq> f"
      using in_page [OF al index_less(4)] P(5) [folded memory_def, OF tt] tt pg_okD(5) [OF ok(1), of t] new(2) F(5) u(6) t(2)
      by (auto simp: memory_def)
    show ?thesis
    proof (rule that [OF E new(2,3)])
      show "pg_ok r (pg (kern ?s2))" using P W(1,2) by (simp add: pg_ok_def set_entry_def memory_def)
      show "free_of ?s2 = free_of s - {f}" using new(8) u(1) by (simp add: set_entry_def)
      show "swap_ok ?s2" "used_slots ?s2 = used_slots s - {unat slot}"
        using swap_clear_ok [of "on_paging (set_entry a ?n) u" "unat slot"] u(2-4) lt by (simp_all add: swap_free_slot_def)
      show "pte (memory ?s2) r w = (if vpath w = vpath v then ?n else pte (memory s) r w)" for w
        unfolding m2 W(3) using F(3) u(6) by (simp add: memory_def)
      show "memory ?s2 (f * 4096 + 8 * k) = put_words (f * 4096) ws (cleared (f * 4096) (memory s)) (f * 4096 + 8 * k)" if "k < 512" for k
      proof -
        have "(f * 4096 + 8 * k) div 4096 = f" using that by simp
        then have "f * 4096 + 8 * k \<noteq> a" using ne by auto
        then show ?thesis unfolding m2 using u(6) by simp
      qed
    qed (simp_all add: u(1,5) set_entry_def)
  qed
qed

lemma vpath_aligned: "vpath (w AND NOT 0xFFF) = vpath w"
proof -
  have d: "drop_bit n (w AND NOT 0xFFF) = drop_bit n w" if "12 \<le> n" for n
    by (rule bit_word_eqI, unfold bit_drop_bit_eq bit_and_iff bit_not_iff mask_bits comp_apply)
      (use that in \<open>auto dest: bit_imp_le_length\<close>)
  have "12 \<le> (39 :: nat)" "12 \<le> (30 :: nat)" "12 \<le> (21 :: nat)" "12 \<le> (12 :: nat)" by simp_all
  note D = this [THEN d]
  show ?thesis unfolding vpath_def pml4_i_def pdp_i_def pd_i_def pt_i_def D ..
qed

text \<open>
  The drive keeps what is written to it: when it reports that a page of words has been written at an
  address, a read from that address gives those words, into whatever buffer.
\<close>

definition drive_keeps :: "'d ports \<Rightarrow> i32 \<Rightarrow> 'd \<Rightarrow> bool" where
  "drive_keeps P drive d \<longleftrightarrow>
     (\<forall>lba buf ws d1. length ws = 2048 \<and> krust_ata_write P drive lba 8 buf ws d = (True, d1) \<longrightarrow>
        (\<exists>d2. \<forall>buf'. buf' \<noteq> 0 \<longrightarrow> krust_ata_read P drive lba 8 buf' d1 = (True, ws, d2)))"

lemma drive_keepsD:
  assumes "drive_keeps P (SWAP_DRIVE s) (disk s)" and "written_out P slot ws s True d" and "length ws = 2048"
  obtains d2 where "\<And>buf. buf \<noteq> 0 \<Longrightarrow> krust_ata_read P (SWAP_DRIVE s) (slot_lba slot s) 8 buf d = (True, ws, d2)"
  using assms unfolding drive_keeps_def by meson

text \<open>The page of \<open>v\<close>, which had the entry \<open>e\<close> in \<open>s\<close>, is present in \<open>s2\<close> with its contents and no slot; its flags have lost bits.\<close>

definition came_back :: "usize \<Rightarrow> u64 \<Rightarrow> u64 \<Rightarrow> ('h, 'd) swap \<Rightarrow> ('h, 'd) swap \<Rightarrow> bool" where
  "came_back r v e s s2 \<longleftrightarrow> (let e2 = pte (memory s2) r v in
     e2 AND 1 \<noteq> 0 \<and> (\<forall>k < 512. memory s2 (table_of e2 + 8 * k) = memory s (table_of e + 8 * k)) \<and>
     e2 AND NOT PTE_MASK = e AND 0xBF0 OR 1 \<and> e2 AND PAGE_WRITE = 0 \<and> e2 AND PAGE_USER = 0 \<and>
     (\<forall>w. vpath w \<noteq> vpath v \<longrightarrow> pte (memory s2) r w = pte (memory s) r w) \<and> pg_ok r (pg (kern s2)) \<and> used_slots s2 = used_slots s)"

text \<open>The second half of the way: the page is read in again where the fault is.\<close>

lemma evicted_returns:
  assumes ok: "swap_ok s" "SWAP_READY s" "pg_ok r (pg (kern s))" "r = unat (cr3 (pg (kern s)))"
    and l: "pt_walk (memory s) r v = Leaf a" and p: "page_in_use r e (pg (kern s))"
    and n: "n < SWAP_TOTAL_SLOTS s" "n \<notin> used_slots s" and s1: "s1 = evicted (of_nat n) e a h d (swap_bitmap_set n s)"
    and w: "vpath w = vpath v" and wr: "written_out P (of_nat n) (page_words (memory s) (table_of e)) s True d"
    and rd: "drive_keeps P (SWAP_DRIVE s) (disk s)"
  shows "\<exists>s2. swap_handle_fault P w s1 = (True, s2) \<and> came_back r v e s s2"
proof -
  let ?slot = "of_nat n :: u32" and ?w = "w AND NOT 0xFFF"
  have n': "n < 4096" "unat ?slot = n" using n(1) swap_okD(2) [OF ok(1)] small_slot(2) [of n] by auto
  note X = swapped_entry [of ?slot e, unfolded n'(2), OF n'(1)]
  note V = evicted_ok [of r "swap_bitmap_set n s" v a e s1 ?slot h d, unfolded bitmap_update_fields memory_simps, OF ok(3) l p s1]
  have slots: "swap_ok s1" "used_slots s1 = insert n (used_slots s)" "SWAP_READY s1" "cr3 (pg (kern s1)) = cr3 (pg (kern s))"
    using swap_set_ok [OF ok(1) n(1)] ok(2) by (simp_all add: s1 evicted_def set_entry_def free_frame_def)
  have vw: "vpath ?w = vpath v" using vpath_aligned w by simp
  have lw: "pt_walk (memory s1) r ?w = Leaf a" using V(5) walk_vpath [OF vw] l by simp
  have ma: "memory s1 a = swapped_entry ?slot e" using V(3) by simp
  have c1: "r = unat (cr3 (pg (kern s1)))" using ok(4) slots(4) by simp
  have used: "unat ?slot \<in> used_slots s1" "free_of s1 \<noteq> {}" using slots(2) n'(2) V(2) by auto
  have at: "SWAP_DRIVE s1 = SWAP_DRIVE s" "slot_lba ?slot s1 = slot_lba ?slot s" "disk s1 = d"
    by (simp_all add: s1 evicted_def)
  obtain d2 where rd': "\<And>buf. buf \<noteq> 0 \<Longrightarrow>
      krust_ata_read P (SWAP_DRIVE s1) (slot_lba ?slot s1) 8 buf (disk s1) = (True, page_words (memory s) (table_of e), d2)"
    unfolding at by (rule drive_keepsD [OF rd wr page_words_length]) blast
  obtain f s2 where f: "swap_in_from_pte P (swapped_entry ?slot e) ?w s1 = (True, s2)" "f < 2 ^ 40" "pg_ok r (pg (kern s2))"
    "used_slots s2 = used_slots s1 - {unat ?slot}"
    "\<And>w. pte (memory s2) r w = (if vpath w = vpath ?w then returned_entry f (swapped_entry ?slot e) else pte (memory s1) r w)"
    "\<And>k. k < 512 \<Longrightarrow> memory s2 (f * 4096 + 8 * k) =
       put_words (f * 4096) (page_words (memory s) (table_of e)) (cleared (f * 4096) (memory s1)) (f * 4096 + 8 * k)"
    by (rule swap_in_ok [OF V(1) c1 slots(1,3) lw X(2) X(3) [symmetric] used rd'], assumption) (rule that, assumption+)
  have "pte (memory s2) r v = returned_entry f (swapped_entry ?slot e)" using f(5) vw by simp
  moreover have "used_slots s2 = used_slots s" using f(4) slots(2) n'(2) n(2) by simp
  moreover have "swap_handle_fault P w s1 = (True, s2)" using lw f(1) ma slots(3,4) ok(4) by (simp add: swap_handle_fault_def)
  moreover have "memory s2 (f * 4096 + 8 * k) = memory s (table_of e + 8 * k)" if "k < 512" for k
    using f(6) [OF that] put_page_words [OF that] by simp
  ultimately show ?thesis using returned_entry [OF f(2) X(4)] f(3,5) V(6) vw by (simp add: came_back_def)
qed


section \<open>Writing a shared page out\<close>

text \<open>A shared page with other sharers is copied to a new frame first; without a free frame nothing changes.\<close>

lemma unshare_cases:
  assumes ok: "pg_ok r (pg (kern s))" "r = unat c" and l: "pt_walk (memory s) r v = Leaf a" and e: "e = memory s a" "e AND 1 \<noteq> 0" "e AND COW_BIT \<noteq> 0"
    and refs: "fst (krust_cow_refdec (frame_of (e AND PTE_MASK)) (counts (pg (kern s)))) \<noteq> 0"
  obtains (null) "memory (unshare c v s) = memory s" "free_of s = {}"
  | (new) f p where "f \<in> free_of s" "memory (unshare c v s) = (copied (f * 4096) (table_of e) (memory s))(a := of_nat (f * 4096) AND PTE_MASK OR 7)"
      "frames (pg (kern (unshare c v s))) = p" "pmm_inv p" "free_frames p = free_of s - {f}" "TOTAL_FRAMES p = TOTAL_FRAMES (frames (pg (kern s)))"
      "memory (unshare c v s) a AND COW_BIT = 0"
  using ok(1)
proof (cases rule: frame_alloc_cases)
  case null
  then have "memory (unshare c v s) = memory s"
    using ok(2) l e refs by (auto simp: memory_def on_pg_def cow_resolve_page_def Let_def split: prod.splits)
  then show thesis using null(2) by (rule that(1))
next
  case (new f p)
  let ?m = "(copied (f * 4096) (table_of e) (memory s))(a := of_nat (f * 4096) AND PTE_MASK OR 7)"
  have "memory (unshare c v s) = ?m" "frames (pg (kern (unshare c v s))) = p"
    using ok(2) l e refs new(1,5,6)
    by (auto simp: memory_def on_pg_def cow_resolve_page_def Let_def set_entry_def copy_page_def table_of_def split: prod.splits)
  then show thesis using new copy_entry(4) [OF new(3)] by (intro that(2) [of f p]) simp_all
qed

text \<open>
  C35. Writing out a page that is shared gives away a frame that others still use. The page is copied to a
  new frame first, but then the frame of the entry before the copy is written out and freed. After the
  call it is free, while every entry in memory except the one of the page, so also those of the other
  sharers, is as before; the new frame is neither free nor mapped.
\<close>

theorem evict_frees_shared_frame:
  fixes s :: "(kheap, 'd) swap"
  assumes "heap_inv (kheap_of (kern s))" and "swap_ok s" and "SWAP_READY s"
    and "pg_ok r (pg (kern s))" and "r = unat c" and "pt_walk (memory s) r v = Leaf a"
    and "e = memory s a" and "e AND 1 \<noteq> 0" and "e AND COW_BIT \<noteq> 0" and "page_in_use r e (pg (kern s))"
    and "fst (krust_cow_refdec (frame_of (e AND PTE_MASK)) (counts (pg (kern s)))) \<noteq> 0"
    and "swap_evict_page krust_malloc krust_free P v c s = Some (True, s1)"
  shows "\<exists>f \<in> free_of s. free_of s1 = insert (table_of e div 4096) (free_of s - {f}) \<and> f \<noteq> table_of e div 4096 \<and>
    memory s1 a AND 1 = 0 \<and> (\<forall>b. b \<noteq> a \<and> b div 4096 \<notin> free_of s \<longrightarrow> memory s1 b = memory s b)"
proof -
  obtain n where n: "swap_alloc_slot s = (of_nat n, swap_bitmap_set n s)" "n < SWAP_TOTAL_SLOTS s"
    using assms(2)
  proof (cases rule: alloc_slot_cases)
    case full
    then show thesis using assms(3,12) by (simp add: swap_evict_page_def)
  qed (rule that)
  let ?s = "swap_bitmap_set n s" and ?slot = "of_nat n :: u32"
  have n': "n < 4096" "unat ?slot = n" using n(2) swap_okD(2) [OF assms(2)] small_slot(2) [of n] by auto
  have E: "evict_entry krust_malloc krust_free P ?slot v c a ?s = Some (True, s1)"
    using assms(3,5,6,12) n(1) small_slot [OF n'(1)] by (simp add: swap_evict_page_def)
  have U: "pg_ok r (pg (kern ?s))" "pt_walk (memory ?s) r v = Leaf a" "e = memory ?s a"
    "fst (krust_cow_refdec (frame_of (e AND PTE_MASK)) (counts (pg (kern ?s)))) \<noteq> 0" using assms(4,6,7,11) by simp_all
  from U(1) assms(5) U(2,3) assms(8,9) U(4) show ?thesis
  proof (cases rule: unshare_cases)
    case null
    then have "evict_entry krust_malloc krust_free P ?slot v c a ?s = Some (False, swap_free_slot (unat ?slot) (unshare c v ?s))"
      using U(3) assms(8,9) by (simp add: evict_entry_def)
    then show ?thesis using E by simp
  next
    case (new f p)
    let ?u = "unshare c v ?s"
    obtain h d where "s1 = evicted ?slot e a h d ?u"
      using kernel_heap.evict_entry_cases [of ?s e a ?u c v ?slot P] assms(1,3,8,9) U(3) new(7) n(2) n'(2) E by (auto simp: no_slot_def split: if_splits)
    then have s1: "memory s1 = (memory ?u)(a := swapped_entry ?slot e)"
      "frames (pg (kern s1)) = krust_pmm_free_frame p (table_of e div 4096)"
      using new(3) by (simp_all add: evicted_def free_frame_def set_entry_def memory_def)
    have "table_of e div 4096 \<in> all_frames p" "table_of e div 4096 \<notin> free_of s"
      using assms(10) new(6) by (simp_all add: page_in_use_def all_frames_def)
    moreover have "memory s1 b = memory s b" if "b \<noteq> a" "b div 4096 \<notin> free_of s" for b
      using that new(1,2) s1(1) copied_out [of b f "table_of e" "memory s"] by auto
    moreover have "memory s1 a AND 1 = 0" using s1(1) swapped_entry(1) [of ?slot e] n' by simp
    ultimately show ?thesis using new(1,5) s1(2) free_frames_free [OF new(4)] by (intro bexI [of _ f]) auto
  qed
qed

section \<open>An example\<close>

text \<open>A drive that gives back the words in the order it got them and is always ready.\<close>

definition echo_disk :: "u16 list ports" where
  "echo_disk = \<lparr>outb = (\<lambda>_ _ d. d), outw = (\<lambda>_ w d. d @ [w]), inb = (\<lambda>_ d. (0x48, d)), inw = (\<lambda>_ d. (hd d, tl d))\<rparr>"

lemma echo_ready [simp]:
  "io_wait echo_disk d = d" "out_wait echo_disk p b d = d" "ata_command echo_disk drive lba n cmd d = d" "sector_ready echo_disk drive d = (True, d)"
  "wait_ready echo_disk drive 1000 d = (True, d)"
proof -
  have n: "nat (sint (1000 * 10 :: i32)) = Suc 9999" by simp
  show i: "io_wait echo_disk d = d" for d by (simp add: io_wait_def echo_disk_def)
  show o: "out_wait echo_disk p b d = d" for p b d by (simp add: out_wait_def i) (simp add: echo_disk_def)
  have r: "read_reg echo_disk drive 7 d = (0x48, d)" by (simp add: read_reg_def echo_disk_def)
  have "busy_loop (Suc k) echo_disk drive d = (True, d)" "drq_loop (Suc k) echo_disk drive d = (True, d)" for k by (simp_all add: i r)
  then have "poll_busy echo_disk drive 1000 d = (True, d)" "poll_drq echo_disk drive 1000 d = (True, d)"
    unfolding poll_busy_def poll_drq_def n by (simp_all only:)
  then show "wait_ready echo_disk drive 1000 d = (True, d)" "sector_ready echo_disk drive d = (True, d)"
    by (simp_all add: wait_ready_def sector_ready_def)
  show "ata_command echo_disk drive lba n cmd d = d" by (simp add: ata_command_def o Let_def)
qed

lemma echo_words: "out_words echo_disk b ws d = d @ ws" "n \<le> length d \<Longrightarrow> in_words n echo_disk b d = (take n d, drop n d)"
proof -
  show "out_words echo_disk b ws d = d @ ws" by (induction ws arbitrary: d) (simp_all, simp_all add: echo_disk_def)
  show "n \<le> length d \<Longrightarrow> in_words n echo_disk b d = (take n d, drop n d)"
  proof (induction n arbitrary: d)
    case (Suc n)
    then obtain x xs where "d = x # xs" by (cases d) auto
    then show ?case using Suc by simp (simp add: echo_disk_def)
  qed simp
qed

lemma echo_sectors:
  "write_sectors n echo_disk drive ws d = (True, d @ take (256 * n) ws)"
  "256 * n \<le> length d \<Longrightarrow> read_sectors n echo_disk drive d = (True, take (256 * n) d, drop (256 * n) d)"
proof -
  show "write_sectors n echo_disk drive ws d = (True, d @ take (256 * n) ws)"
    by (induction n arbitrary: ws d) (simp_all add: echo_words take_add)
  show "256 * n \<le> length d \<Longrightarrow> read_sectors n echo_disk drive d = (True, take (256 * n) d, drop (256 * n) d)"
    by (induction n arbitrary: d) (simp_all add: echo_words take_add add.commute)
qed

lemma echo_transfer:
  assumes "buf \<noteq> 0" "length ws = 2048"
  shows "krust_ata_write echo_disk 0 lba 8 buf ws [] = (True, ws)" "krust_ata_read echo_disk 0 lba 8 buf ws = (True, ws, [])"
  using assms by (simp_all add: krust_ata_write_def krust_ata_read_def bad_transfer_def MAX_DRIVES_def sector_count_def echo_sectors)

definition ex_swap :: "(kheap, u16 list) swap" where
  "ex_swap = \<lparr>kern = \<lparr>sch = four_tasks, pg = ex_paging, kheap_of = fresh_heap, fd_tables = (\<lambda>_. [])\<rparr>, disk = [], SWAP_READY = True,
     SWAP_DRIVE = 0, SWAP_LBA_START = 0, SWAP_TOTAL_SLOTS = 4, SWAP_USED = (\<lambda>_. False), SWAP_BITMAP = 0x100,
     SWAP_BITMAP_WORDS = 1, swap_bytes = (\<lambda>_. 0)\<rparr>"

lemma ex_swap_fields [simp]:
  "pg (kern ex_swap) = ex_paging" "kheap_of (kern ex_swap) = fresh_heap" "disk ex_swap = []" "SWAP_READY ex_swap" "SWAP_DRIVE ex_swap = 0"
  "SWAP_TOTAL_SLOTS ex_swap = 4" "memory ex_swap = ex_mem"
  by (simp_all add: ex_swap_def memory_def) (simp add: ex_paging_def)

lemma ex_swap_ok: "swap_ok ex_swap" "used_slots ex_swap = {}"
proof -
  have "\<not> swap_bitmap_test i ex_swap" for i by (simp add: swap_bitmap_test_def ex_swap_def)
  then show "swap_ok ex_swap" "used_slots ex_swap = {}"
    by (simp_all add: swap_ok_def used_slots_def) (simp_all add: ex_swap_def MAX_SWAP_SLOTS_def)
qed

lemma echo_keeps: "drive_keeps echo_disk (SWAP_DRIVE ex_swap) (disk ex_swap)"
  unfolding drive_keeps_def
proof (intro allI impI, elim conjE)
  fix lba buf d1 and ws :: "u16 list"
  assume l: "length ws = 2048" and w: "krust_ata_write echo_disk (SWAP_DRIVE ex_swap) lba 8 buf ws (disk ex_swap) = (True, d1)"
  then have "buf \<noteq> 0" unfolding krust_ata_write_def bad_transfer_def by (auto split: if_splits)
  then have "d1 = ws" using w echo_transfer(1) [OF _ l, of buf lba] by simp
  then show "\<exists>d2. \<forall>buf'. buf' \<noteq> 0 \<longrightarrow> krust_ata_read echo_disk (SWAP_DRIVE ex_swap) lba 8 buf' d1 = (True, ws, d2)"
    using echo_transfer(2) [OF _ l] by auto
qed

lemma fresh_block:
  obtains p h h' where "krust_malloc 4096 fresh_heap = Some (p, h)" "p \<noteq> 0" "krust_free p h = Some h'"
proof -
  have r: "heap_rep fresh_heap [(HEAP_START, HEAP_SIZE - HDR, True)]" unfolding fresh_heap_def by (rule heap_init_rep)
  have "round_request 4096 = 4096" by (simp add: round_request_nat)
  from r have "krust_malloc 4096 fresh_heap \<noteq> Some (0, h)" for h
    by (cases rule: heap_alloc_cases [where sz = 4096]) (use \<open>round_request 4096 = 4096\<close> in \<open>auto simp: krust_malloc_def HEAP_SIZE_def HDR_def\<close>)
  moreover have i: "heap_inv fresh_heap" using heap_inv_rep [OF r] .
  ultimately obtain p h where p: "krust_malloc 4096 fresh_heap = Some (p, h)" "heap_inv h" "p \<noteq> 0" "p \<in> kernel_heap.ptrs h"
    by (cases rule: kernel_heap.malloc_cases [OF i, where n = 4096]) auto
  then show thesis using kernel_heap.free_ptr [OF p(2,4)] that by metis
qed

lemma echo_evicts:
  assumes "kheap_of (kern s) = fresh_heap" "disk s = []" "\<not> no_slot slot s" "SWAP_DRIVE s = 0" "memory s a AND 1 \<noteq> 0"
    and "if memory s a AND COW_BIT = 0 then u = s else u = unshare c v s \<and> memory u a AND COW_BIT = 0"
  shows "\<exists>s1. evict_entry krust_malloc krust_free echo_disk slot v c a s = Some (True, s1) \<and> disk s1 = page_words (memory u) (table_of (memory s a)) \<and> SWAP_DRIVE s1 = 0"
proof -
  obtain p h h' where p: "krust_malloc 4096 fresh_heap = Some (p, h)" "p \<noteq> 0" "krust_free p h = Some h'" by (rule fresh_block)
  have u: "kheap_of (kern u) = fresh_heap" "disk u = []" "\<not> no_slot slot u" "SWAP_DRIVE u = 0"
    using assms by (auto simp: no_slot_def unshare_def Let_def split: if_splits)
  have n: "no_slot slot (with_heap h u) = no_slot slot u" by (simp add: no_slot_def)
  have w: "swap_write_page echo_disk slot p (page_words (memory u) k) (with_heap h u) = (True, with_heap h (u\<lparr>disk := page_words (memory u) k\<rparr>))" for k
    using u(2,4) echo_transfer(1) [OF p(2), of "page_words (memory u) k"]
    unfolding swap_write_page_def n if_not_P [OF u(3)] by (simp add: SECTORS_PER_PAGE_def)
  show ?thesis
    using assms(5,6) p(1-3) u(1,4) w by (auto simp: evict_entry_def Let_def table_of_def split: if_splits)
qed

lemma ex_evicts:
  assumes l: "pt_walk ex_mem 0x1000 v = Leaf a" and e: "ex_mem a AND 1 \<noteq> 0"
    and u: "\<And>n. if ex_mem a AND COW_BIT = 0 then u n = swap_bitmap_set n ex_swap
      else u n = unshare 0x1000 v (swap_bitmap_set n ex_swap) \<and> memory (u n) a AND COW_BIT = 0"
  obtains n s1 where "swap_evict_page krust_malloc krust_free echo_disk v 0x1000 ex_swap = Some (True, s1)"
    "disk s1 = page_words (memory (u n)) (table_of (ex_mem a))" "SWAP_DRIVE s1 = 0"
  using ex_swap_ok(1)
proof (cases rule: alloc_slot_cases)
  case full
  have "0 \<in> {..<SWAP_TOTAL_SLOTS ex_swap}" by simp
  then show thesis unfolding full(2) [symmetric] ex_swap_ok(2) by blast
next
  case (new n)
  have n: "n < 4096" "unat (of_nat n :: u32) = n" using new(2) small_slot(2) [of n] by auto
  have "\<not> no_slot (of_nat n) (swap_bitmap_set n ex_swap)" using new(2) n(2) by (simp add: no_slot_def)
  then obtain s1 where s1: "evict_entry krust_malloc krust_free echo_disk (of_nat n) v 0x1000 a (swap_bitmap_set n ex_swap) = Some (True, s1)"
    "disk s1 = page_words (memory (u n)) (table_of (ex_mem a))" "SWAP_DRIVE s1 = 0"
    using echo_evicts [of "swap_bitmap_set n ex_swap" "of_nat n" a "u n" "0x1000" v] e u [of n] by auto
  then show thesis using new(1) l small_slot [OF n(1)] by (intro that [of s1 n]) (simp_all add: swap_evict_page_def)
qed

lemma ex_pages:
  "pt_walk ex_mem 0x1000 0x1000 = Leaf 0x4008" "ex_mem 0x4008 = 0x6007" "page_in_use 0x1000 0x6007 ex_paging"
  "pt_walk ex_mem 0x1000 0 = Leaf 0x4000" "ex_mem 0x4000 = 0x5205" "page_in_use 0x1000 0x5205 ex_paging"
  "fst (krust_cow_refdec (frame_of (0x5205 AND PTE_MASK)) (counts ex_paging)) \<noteq> 0" "cr3 ex_paging = 0x1000" "heap_inv fresh_heap"
proof -
  show "pt_walk ex_mem 0x1000 0x1000 = Leaf 0x4008" "ex_mem 0x4008 = 0x6007" "pt_walk ex_mem 0x1000 0 = Leaf 0x4000" "ex_mem 0x4000 = 0x5205"
    "cr3 ex_paging = 0x1000" by (simp_all add: ex_eval)
  have m: "pmem ex_paging = ex_mem" "TOTAL_FRAMES (frames ex_paging) = 16" by (simp_all add: ex_paging_def)
  show "page_in_use 0x1000 0x6007 ex_paging" "page_in_use 0x1000 0x5205 ex_paging"
    by (simp_all add: page_in_use_def m ex_tables ex_free all_frames_def table_of_def PTE_MASK_def)
  show "fst (krust_cow_refdec (frame_of (0x5205 AND PTE_MASK)) (counts ex_paging)) \<noteq> 0"
    by (simp add: ex_paging_def frame_of_def krust_cow_refdec_def rc_entry_def PTE_MASK_def)
  show "heap_inv fresh_heap" unfolding fresh_heap_def by (rule heap_inv_rep [OF heap_init_rep])
qed


theorem evict_frees_shared_frame_witness:
  "\<exists>s1. swap_evict_page krust_malloc krust_free echo_disk 0 0x1000 ex_swap = Some (True, s1) \<and> 5 \<in> free_of s1"
proof -
  have c: "memory (unshare 0x1000 0 (swap_bitmap_set n ex_swap)) 0x4000 AND COW_BIT = 0" for n
    by (rule unshare_cases [of "0x1000" "swap_bitmap_set n ex_swap" "0x1000" 0 "0x4000" "0x5205"])
      (use ex_ok in \<open>simp_all add: ex_pages ex_free COW_BIT_def\<close>)
  obtain s1 where s1: "swap_evict_page krust_malloc krust_free echo_disk 0 0x1000 ex_swap = Some (True, s1)"
    by (rule ex_evicts [OF ex_pages(4), of "\<lambda>n. unshare 0x1000 0 (swap_bitmap_set n ex_swap)"]) (simp_all add: c [unfolded COW_BIT_def] ex_pages COW_BIT_def)
  have h: "heap_inv (kheap_of (kern ex_swap))" "pg_ok 0x1000 (pg (kern ex_swap))" "0x1000 = unat (0x1000 :: u64)"
    "pt_walk (memory ex_swap) 0x1000 0 = Leaf 0x4000" "0x5205 = memory ex_swap 0x4000" "(0x5205 :: u64) AND 1 \<noteq> 0"
    "(0x5205 :: u64) AND COW_BIT \<noteq> 0" "page_in_use 0x1000 0x5205 (pg (kern ex_swap))"
    "fst (krust_cow_refdec (frame_of (0x5205 AND PTE_MASK)) (counts (pg (kern ex_swap)))) \<noteq> 0"
    using ex_ok by (simp_all only: ex_swap_fields ex_pages) (simp_all add: COW_BIT_def)
  have "table_of 0x5205 div 4096 \<in> free_of s1"
    using evict_frees_shared_frame [OF h(1) ex_swap_ok(1) ex_swap_fields(4) h(2-) s1] by blast
  then show ?thesis using s1 by (simp add: table_of_def PTE_MASK_def)
qed

end
