(* ===== verification/Fault.thy ===== *)
theory Fault
  imports Swapping Signals
begin

unbundle bit_operations_syntax

text \<open>
  The page fault handler (\<open>krust_page_fault_handler\<close> of \<open>kernel/src/mm/paging.rs\<close>), which brings together
  the sharing of pages, swapping, memory regions, the killing of a task when memory runs out, and signals.
  The address of the fault is an argument, the error code a field of the registers. The page table
  register is that of the scheduler's state; the page tables and the memory regions of the running task are
  handed to the functions of \<open>Paging\<close> and the number of its pages is taken back. The messages are left out.
\<close>

section \<open>The handler\<close>

definition load_cr3 :: "('h, 'd) swap \<Rightarrow> ('h, 'd) swap" where
  "load_cr3 s = on_paging (\<lambda>g. g\<lparr>cr3 := cr3_reg (sch (kern s))\<rparr>) s"

definition pg_task_of :: "'h kernel \<Rightarrow> pg_task option" where
  "pg_task_of k = map_option (\<lambda>t. \<lparr>vma_list = tk_vma_list (task_at k t), task_pages = tk_pages (task_at k t)\<rparr>) (krust_sched_current (sch k))"

definition lazy_fault :: "u64 \<Rightarrow> u64 \<Rightarrow> ('h, 'd) swap \<Rightarrow> (bool \<times> ('h, 'd) swap) option" where
  "lazy_fault addr err s = do {
     (ok, g) \<leftarrow> vma_lazy_alloc addr err ((pg (kern s))\<lparr>running := pg_task_of (kern s)\<rparr>);
     let k = (kern s)\<lparr>pg := g\<rparr>;
     Some (ok, s\<lparr>kern := (case (krust_sched_current (sch k), running g) of
         (Some t, Some p) \<Rightarrow> on_sch (upd t (tk_pages_update (\<lambda>_. task_pages p))) k
       | _ \<Rightarrow> k)\<rparr>)
   }"

text \<open>A page that is not present: from the swap area, from a region, or after memory has been made free.\<close>

definition absent_page ::
  "'h malloc \<Rightarrow> 'h mfree \<Rightarrow> 'd ports \<Rightarrow> u64 \<Rightarrow> u64 \<Rightarrow> tptr \<Rightarrow> ('h, 'd) swap \<Rightarrow> (bool \<times> ('h, 'd) swap) option" where
  "absent_page malloc mfree P addr err current s =
     (let (ok, s) = swap_handle_fault P addr s
      in if ok then Some (True, s)
         else do {
           (ok, s) \<leftarrow> lazy_fault addr err s;
           if ok then Some (True, s)
           else do {
             (gone, s) \<leftarrow> swap_evict_any malloc mfree P s;
             (ok, s) \<leftarrow> (if gone then lazy_fault addr err s else Some (False, s));
             if ok then Some (True, s)
             else if current \<noteq> None then do {
               (_, k) \<leftarrow> krust_oom_kill mfree (kern s);
               lazy_fault addr err (s\<lparr>kern := k\<rparr>)
             }
             else Some (False, s)
           }
         })"

text \<open>A fault that nobody can repair: the running task gets signal 11; without a task the processor stops.\<close>

definition kill_current :: "tptr \<Rightarrow> registers \<Rightarrow> ('h, 'd) swap \<Rightarrow> (outcome \<times> registers \<times> ('h, 'd) swap) option" where
  "kill_current current r s =
     (case current of
        None \<Rightarrow> Some (Halts, r, s)
      | Some c \<Rightarrow>
          let k = on_sch (upd c (\<lambda>t. t\<lparr>tk_sig_pending := tk_sig_pending t OR push_bit 11 1\<rparr>)) (kern s);
              (r, sc) = krust_sched_deliver_signals r (sch k)
          in if tk_state (TASKS sc c) = EXITED then do {
               (out, sc) \<leftarrow> krust_sched_exit (tk_exit_code (TASKS sc c)) sc;
               Some (out, r, s\<lparr>kern := k\<lparr>sch := sc\<rparr>\<rparr>)
             }
             else Some (Returns, r, s\<lparr>kern := k\<lparr>sch := sc\<rparr>\<rparr>))"

definition krust_page_fault_handler ::
  "'h malloc \<Rightarrow> 'h mfree \<Rightarrow> 'd ports \<Rightarrow> u64 \<Rightarrow> registers \<Rightarrow> ('h, 'd) swap \<Rightarrow> (outcome \<times> registers \<times> ('h, 'd) swap) option" where
  "krust_page_fault_handler malloc mfree P addr r s = do {
     let s = load_cr3 s;
     let err = err_code r;
     let current = krust_sched_current (sch (kern s));
     let (ok, s) = (if err AND 0x7 = 0x6 \<and> current \<noteq> None
                    then let (ok, g) = cow_resolve addr err (pg (kern s)) in (ok, on_paging (\<lambda>_. g) s)
                    else (False, s));
     if ok then Some (Returns, r, s)
     else do {
       (ok, s) \<leftarrow> (if err AND 1 = 0 then absent_page malloc mfree P addr err current s else Some (False, s));
       if ok then Some (Returns, r, s) else kill_current current r s
     }
   }"

section \<open>Faults on pages that are present\<close>

lemma present_fault:
  assumes "err_code r AND 1 \<noteq> 0"
  shows "krust_page_fault_handler malloc mfree P addr r s =
    kill_current (krust_sched_current (sch (kern s))) r (load_cr3 s)"
proof -
  have "\<not> (err_code r AND 7 = 6)"
  proof
    assume "err_code r AND 7 = 6"
    then have "(err_code r AND 7) AND 1 = 6 AND 1" by (simp only:)
    then show False using assms by (simp add: and.assoc)
  qed
  then show ?thesis using assms by (simp add: krust_page_fault_handler_def load_cr3_def Let_def)
qed

lemma exit_ends:
  assumes ok: "sched_ok s c xs ys" and id: "tk_id (TASKS s c) \<noteq> 0" and ch: "children s c ds" and c: "c \<noteq> 0"
  obtains out s' where "krust_sched_exit code s = Some (out, s')" "out \<noteq> Returns" "out \<noteq> Resumes c"
    "tk_state (TASKS s' c) = EXITED" "tk_exit_code (TASKS s' c) = code"
proof -
  have cur: "get_current s = Some c" and q: "queues s xs ys" and cx: "c \<notin> set xs" using ok by (simp_all add: sched_ok_def)
  let ?u = "exiting code c ds s"
  note E = exiting_fields [where code = code and c = c and ds = ds and s = s]
  note Q = exiting_queues [OF q, where code = code and c = c and ds = ds]
  show thesis
  proof (cases xs)
    case Nil
    then have "dequeue ?u = (None, ?u)" using Q by (simp add: queues_def dequeue_empty)
    then show ?thesis
      using E c by (cases "ctx_rsp (TASKS s 0) = 0") (auto simp: exit_steps [OF cur id ch] intro!: that)
  next
    case (Cons x zs)
    obtain v where v: "dequeue ?u = (Some x, v)" using Q unfolding Cons by (rule queues_dequeue)
    have "tk_state (TASKS v c) = EXITED" "tk_exit_code (TASKS v c) = code"
      using E core_eqD [OF dequeue_fields(8) [OF v, of c]] dequeue_fields(3) [OF v] by simp_all
    then show ?thesis using cx Cons v by (intro that [of "Resumes x" "switch_to x v"]) (auto simp: exit_steps [OF cur id ch])
  qed
qed

lemma signalled_frame:
  assumes "s' = end_task c sig (pending_masked c m (upd c (\<lambda>t. t\<lparr>tk_sig_pending := x t\<rparr>) s))"
  shows "sched_ok s c xs ys \<Longrightarrow> sched_ok s' c xs ys" "tk_id (TASKS s' c) = tk_id (TASKS s c)"
    "children s c ds \<Longrightarrow> children s' c ds" "tk_state (TASKS s' c) = EXITED" "tk_exit_code (TASKS s' c) = 0x100 + of_nat sig"
proof -
  have f: "tk_child_head (TASKS s' i) = tk_child_head (TASKS s i)" "tk_child_tail (TASKS s' i) = tk_child_tail (TASKS s i)"
    "tk_parent (TASKS s' i) = tk_parent (TASKS s i)" "sib_of s' = sib_of s" "next_of s' = next_of s" for i
    by (auto simp: assms end_task_def pending_masked_def notify_parent_def sib_of_def next_of_def fun_eq_iff split: option.split)
  show "children s c ds \<Longrightarrow> children s' c ds" by (simp add: children_def f)
  have q: "queues s xs ys \<Longrightarrow> queues s' xs ys"
    by (erule queues_frame) (simp_all add: f(5), simp_all add: assms end_task_def pending_masked_def)
  show "sched_ok s c xs ys \<Longrightarrow> sched_ok s' c xs ys" using q by (simp add: sched_ok_def assms get_current_signal)
  show "tk_id (TASKS s' c) = tk_id (TASKS s c)" "tk_state (TASKS s' c) = EXITED" "tk_exit_code (TASKS s' c) = 0x100 + of_nat sig"
    by (simp_all add: assms end_task_def pending_masked_def)
qed

text \<open>
  C32. A fault on a page that is present ends the task: when bit 0 of the error code is set, no attempt is
  made to repair the fault. The sharing of the page is not looked at, since that takes an error code that
  ends in 6, where bit 0 is clear, and a write to a shared page sets bit 0. Page tables, memory and frames
  stay as they are, and a task that has the default action for signal 11, and no signal that comes before it,
  ends with code \<open>0x10B\<close> and never goes on.
\<close>

theorem present_fault_ends_task:
  assumes "sched_ok (sch (kern s)) c xs ys" and "children (sch (kern s)) c ds" and "c \<noteq> 0" and "k = task_at (kern s) c"
    and "tk_id k \<noteq> 0" and "tk_sig_handlers k 11 = 0"
    and "next_signal (k\<lparr>tk_sig_pending := tk_sig_pending k OR push_bit 11 1\<rparr>) = Some 11" and "err_code r AND 1 \<noteq> 0"
  shows "\<exists>out s'. krust_page_fault_handler malloc mfree P addr r s = Some (out, r, s') \<and> out \<noteq> Returns \<and> out \<noteq> Resumes c \<and>
    tk_state (task_at (kern s') c) = EXITED \<and> tk_exit_code (task_at (kern s') c) = 0x10B \<and>
    memory s' = memory s \<and> frames (pg (kern s')) = frames (pg (kern s)) \<and> counts (pg (kern s')) = counts (pg (kern s))"
proof -
  let ?p = "\<lambda>t. t\<lparr>tk_sig_pending := tk_sig_pending t OR push_bit 11 1\<rparr>" and ?s = "sch (kern s)"
  have cur: "get_current ?s = Some c" using assms(1) by (simp add: sched_ok_def)
  then have cur': "get_current (upd c ?p ?s) = Some c" by simp
  have t: "TASKS (upd c ?p ?s) c = ?p k" using assms(4) by (simp add: task_at_def upd_def)
  obtain m where m: "krust_sched_deliver_signals r (upd c ?p ?s) = (r, end_task c 11 (pending_masked c m (upd c ?p ?s)))"
    using deliver_fatal [OF cur', of 11 r] assms(6,7) unfolding t by auto
  define sc where "sc = end_task c 11 (pending_masked c m (upd c ?p ?s))"
  note F = signalled_frame [OF sc_def]
  have id: "tk_id (TASKS sc c) \<noteq> 0" using F(2) assms(4,5) by (simp add: task_at_def)
  obtain out v where v: "krust_sched_exit 0x10B sc = Some (out, v)" "out \<noteq> Returns" "out \<noteq> Resumes c"
    "tk_state (TASKS v c) = EXITED" "tk_exit_code (TASKS v c) = 0x10B"
    using exit_ends [OF F(1) [OF assms(1)] id F(3) [OF assms(2)] assms(3)] by blast
  have l: "sch (kern (load_cr3 s)) = ?s" by (simp add: load_cr3_def)
  have "kill_current (Some c) r (load_cr3 s) =
      Some (out, r, (load_cr3 s)\<lparr>kern := (on_sch (upd c ?p) (kern (load_cr3 s)))\<lparr>sch := v\<rparr>\<rparr>)"
    using v(1) F(4,5) m by (simp add: kill_current_def on_sch_def l sc_def)
  then show ?thesis
    using v cur by (simp add: present_fault [OF assms(8)] krust_sched_current_def task_at_def memory_def on_sch_def load_cr3_def on_paging_def on_pg_def)
qed

section \<open>Faults on pages that are not present\<close>

text \<open>An entry that is empty is neither shared nor in the swap area.\<close>

lemma empty_entry_skipped:
  assumes "pte (memory s) (unat (cr3 (pg (kern s)))) addr = 0"
  shows "cow_resolve addr err (pg (kern s)) = (False, pg (kern s))" "swap_handle_fault P addr s = (False, s)"
proof -
  let ?r = "unat (cr3 (pg (kern s)))"
  have h: "small_page e i \<noteq> 0" for e i using odd_entry [of "small_page e i"] by (auto simp: small_page_def bit_or_iff)
  have w: "pt_walk (memory s) ?r (addr AND NOT 0xFFF) = pt_walk (memory s) ?r addr" by (rule walk_vpath [OF vpath_aligned])
  show "cow_resolve addr err (pg (kern s)) = (False, pg (kern s))"
    using assms h by (auto simp: cow_resolve_def cow_resolve_page_def pte_def memory_def split: pt_slot.splits)
  show "swap_handle_fault P addr s = (False, s)"
    using assms h unfolding swap_handle_fault_def Let_def w
    by (auto simp: swap_in_from_pte_def swap_is_pte_def pte_def split: pt_slot.splits)
qed

text \<open>The flags of a page in a region.\<close>

definition region_flags :: "u64 \<Rightarrow> u64" where
  "region_flags fl = (let f = PAGE_PRESENT OR PAGE_USER;
                          f = (if fl AND PROT_WRITE \<noteq> 0 then f OR PAGE_WRITE else f)
                      in if fl AND PROT_EXEC = 0 then f OR PAGE_NX else f)"

lemma put_no_words [simp]: "put_words p [] m = m"
  by (auto simp: put_words_def fun_eq_iff)

lemma lazy_fault_effect:
  assumes ok: "pg_ok r (pg (kern s))" "r = unat (cr3 (pg (kern s)))" and cur: "krust_sched_current (sch (kern s)) = Some c"
    and v: "tk_vma_list (task_at (kern s) c) \<noteq> 0" "krust_vmm_find (regions (pg (kern s))) (tk_vma_list (task_at (kern s) c)) addr = Some v"
      "v \<noteq> 0" "fl = vm_flags (regions (pg (kern s)) v)"
    and perm: "if err AND 2 \<noteq> 0 then fl AND PROT_WRITE \<noteq> 0 else fl AND PROT_READ \<noteq> 0" and free: "free_of s \<noteq> {}"
  obtains f b s' where "lazy_fault addr err s = Some (True, s')" "f \<in> free_of s" "pg_ok r (pg (kern s'))" "\<not> b \<Longrightarrow> free_of s' = {}"
    "\<And>w. pte (memory s') r w = (if b \<and> vpath w = vpath addr
       then of_nat (f * 4096) AND PTE_MASK OR region_flags fl AND FLAGS_MASK OR 1 else pte (memory s) r w)"
    "\<And>k. k < 512 \<Longrightarrow> memory s' (f * 4096 + 8 * k) = 0" "tk_pages (task_at (kern s') c) = tk_pages (task_at (kern s) c) + 1"
proof -
  define g where "g = (pg (kern s))\<lparr>running := pg_task_of (kern s)\<rparr>"
  have g: "pg_ok r g" using ok(1) by (simp add: pg_ok_def g_def)
  from g show thesis
  proof (cases rule: frame_alloc_cases)
    case null
    then show ?thesis using free by (simp add: g_def)
  next
    case (new f p)
    define g1 where "g1 = clear_page (f * 4096) (g\<lparr>frames := p\<rparr>)"
    have g1: "g1 = g\<lparr>frames := p, pmem := cleared (f * 4096) (pmem g)\<rparr>" by (simp add: g1_def clear_page_def)
    note F = filled_page_ok [OF g new(2,7-9), of "[]" g1, unfolded put_no_words list.size, OF le0 g1]
    obtain b g2 where m: "krust_paging_map_page_in (cr3 g) (addr AND NOT 0xFFF) (of_nat (f * 4096)) (region_flags fl) g1 = (b, g2)" by fastforce
    have r: "unat (cr3 g) = r" using ok(2) by (simp add: g_def)
    note M = map_page_effect [of "cr3 g", unfolded r, OF F(1) m, unfolded vpath_aligned]
    have pt: "running g2 = Some \<lparr>vma_list = tk_vma_list (task_at (kern s) c), task_pages = tk_pages (task_at (kern s) c)\<rparr>"
      using M cur by (metis (no_types, lifting) paging.select_convs paging.surjective paging.update_convs g1 g_def pg_task_of_def option.map(2))
    let ?g2 = "g2\<lparr>running := map_option (\<lambda>t. t\<lparr>task_pages := task_pages t + 1\<rparr>) (running g2)\<rparr>"
    let ?s' = "s\<lparr>kern := on_sch (upd c (tk_pages_update (\<lambda>_. tk_pages (task_at (kern s) c) + 1))) ((kern s)\<lparr>pg := ?g2\<rparr>)\<rparr>"
    have rg: "running g = Some \<lparr>vma_list = tk_vma_list (task_at (kern s) c), task_pages = tk_pages (task_at (kern s) c)\<rparr>"
      using cur by (simp add: g_def pg_task_of_def)
    have vg: "krust_vmm_find (regions g) (tk_vma_list (task_at (kern s) c)) addr = Some v" "vm_flags (regions g v) = fl"
      using v(2,4) by (simp_all add: g_def)
    have c1: "cr3 g1 = cr3 g" by (simp add: g1)
    have L: "vma_lazy_alloc addr err g = Some (True, ?g2)"
      using v(1,3) rg vg perm new(1,5,6) m c1
      by (simp add: vma_lazy_alloc_def Let_def krust_paging_map_page_def g1_def [symmetric] region_flags_def split: if_splits)
    have S: "memory ?s' = pmem g2" "frames (pg (kern ?s')) = frames g2" "memory s = pmem g" "free_of s = free_frames (frames g)"
      by (simp_all add: memory_def on_sch_def g_def)
    have z: "pmem g2 (f * 4096 + 8 * k) = 0" if k: "k < 512" for k
    proof -
      have "(f * 4096 + 8 * k) div 4096 = f" using k by simp
      moreover have "f * 4096 \<notin> tables (pmem g1) r" using pg_okD(5) [OF g] new(2) F(5) by force
      moreover have "pmem g1 (f * 4096 + 8 * k) = 0" using k by (simp add: g1 cleared_def)
      ultimately show ?thesis using M new(8) by (simp add: g1)
    qed
    show ?thesis
    proof (rule that [of ?s' f b])
      show "lazy_fault addr err s = Some (True, ?s')" using L pt cur by (simp add: lazy_fault_def g_def [symmetric])
      show "f \<in> free_of s" using new(2) S(4) by simp
      show "pg_ok r (pg (kern ?s'))" using M by (simp add: pg_ok_def on_sch_def)
      show "free_of ?s' = {}" if "\<not> b" using M that by (simp add: on_sch_def)
      show "pte (memory ?s') r w = (if b \<and> vpath w = vpath addr then of_nat (f * 4096) AND PTE_MASK OR region_flags fl AND FLAGS_MASK OR 1
          else pte (memory s) r w)" for w unfolding S using M F(3) by simp
      show "memory ?s' (f * 4096 + 8 * k) = 0" if "k < 512" for k unfolding S using z that .
    qed (simp add: on_sch_def task_at_def)
  qed
qed

text \<open>
  C33. A fault on a page that has no entry yet, inside a memory region whose protection allows the access:
  the handler returns, and the page of the address has a new frame full of zeros, open to user code and
  with the protection of the region; every other page is as before, and the task is charged for one page.
  The only exception is that no frame was left for the page tables: then the handler returns too, but the
  page still has no entry, and the frame is lost.
\<close>

theorem absent_fault_maps:
  assumes "pg_ok a (pg (kern s))" and "a = unat (cr3_reg (sch (kern s)))" and "krust_sched_current (sch (kern s)) = Some c"
    and "err_code r AND 1 = 0" and "pte (memory s) a addr = 0" and "k = task_at (kern s) c" and "tk_vma_list k \<noteq> 0"
    and "krust_vmm_find (regions (pg (kern s))) (tk_vma_list k) addr = Some v" and "v \<noteq> 0"
    and "fl = vm_flags (regions (pg (kern s)) v)"
    and "if err_code r AND 2 \<noteq> 0 then fl AND PROT_WRITE \<noteq> 0 else fl AND PROT_READ \<noteq> 0" and "free_of s \<noteq> {}"
  shows "\<exists>f b s'. krust_page_fault_handler malloc mfree P addr r s = Some (Returns, r, s') \<and> f \<in> free_of s \<and>
    pg_ok a (pg (kern s')) \<and> (\<not> b \<longrightarrow> free_of s' = {}) \<and>
    (\<forall>w. pte (memory s') a w = (if b \<and> vpath w = vpath addr
       then of_nat (f * 4096) AND PTE_MASK OR region_flags fl AND FLAGS_MASK OR 1 else pte (memory s) a w)) \<and>
    (\<forall>i < 512. memory s' (f * 4096 + 8 * i) = 0) \<and> tk_pages (task_at (kern s') c) = tk_pages k + 1"
proof -
  let ?s = "load_cr3 s" and ?err = "err_code r"
  have L: "pg (kern ?s) = (pg (kern s))\<lparr>cr3 := cr3_reg (sch (kern s))\<rparr>" "memory ?s = memory s" "sch (kern ?s) = sch (kern s)"
    "task_at (kern ?s) = task_at (kern s)" "free_of ?s = free_of s"
    by (simp_all add: load_cr3_def memory_def task_at_def fun_eq_iff)
  have ok: "pg_ok a (pg (kern ?s))" "a = unat (cr3 (pg (kern ?s)))" using assms(1,2) by (simp_all add: L pg_ok_def)
  have e: "pte (memory ?s) (unat (cr3 (pg (kern ?s)))) addr = 0" using assms(5) ok(2) by (simp add: L(2))
  note N = empty_entry_skipped [OF e]
  have on: "on_paging (\<lambda>_. pg (kern ?s)) ?s = ?s" by (simp add: on_paging_def on_pg_def)
  have v: "tk_vma_list (task_at (kern ?s) c) \<noteq> 0" "krust_vmm_find (regions (pg (kern ?s))) (tk_vma_list (task_at (kern ?s) c)) addr = Some v"
    "fl = vm_flags (regions (pg (kern ?s)) v)" "krust_sched_current (sch (kern ?s)) = Some c" "free_of ?s \<noteq> {}"
    using assms(3,6-8,10,12) by (simp_all add: L)
  obtain f b s' where f: "lazy_fault addr ?err ?s = Some (True, s')" "f \<in> free_of ?s" "pg_ok a (pg (kern s'))" "\<not> b \<Longrightarrow> free_of s' = {}"
    "\<And>w. pte (memory s') a w = (if b \<and> vpath w = vpath addr
       then of_nat (f * 4096) AND PTE_MASK OR region_flags fl AND FLAGS_MASK OR 1 else pte (memory ?s) a w)"
    "\<And>i. i < 512 \<Longrightarrow> memory s' (f * 4096 + 8 * i) = 0" "tk_pages (task_at (kern s') c) = tk_pages (task_at (kern ?s) c) + 1"
    by (rule lazy_fault_effect [OF ok v(4,1,2) assms(9) v(3) assms(11) v(5)]) (rule that, assumption+)
  have "absent_page malloc mfree P addr ?err (Some c) ?s = Some (True, s')" using N(2) f(1) by (simp add: absent_page_def)
  then have "krust_page_fault_handler malloc mfree P addr r s = Some (Returns, r, s')"
    using v(4) assms(4) N(1) on by (simp add: krust_page_fault_handler_def Let_def)
  then show ?thesis using f(2-) by (intro exI [of _ f] exI [of _ b] exI [of _ s']) (simp add: L assms(6))
qed

section \<open>Examples\<close>

theorem present_fault_ends_task_witness:
  "\<exists>out s'. krust_page_fault_handler krust_malloc krust_free echo_disk 0 (four_registers\<lparr>err_code := 7\<rparr>) ex_swap =
     Some (out, four_registers\<lparr>err_code := 7\<rparr>, s') \<and> out \<noteq> Returns \<and> tk_exit_code (task_at (kern s') 1) = 0x10B"
proof -
  have t: "sch (kern ex_swap) = four_tasks" "task_at (kern ex_swap) 1 = TASKS four_tasks 1" by (simp_all add: ex_swap_def task_at_def)
  let ?k = "TASKS four_tasks 1"
  have z: "tk_sig_pending ?k = 0" "tk_sig_blocked ?k = 0" "tk_sig_handlers ?k 11 = 0" "tk_id ?k \<noteq> 0"
    by (simp_all add: four_tasks_def blank_task_def)
  have a: "acts (?k\<lparr>tk_sig_pending := tk_sig_pending ?k OR push_bit 11 1\<rparr>) i \<longleftrightarrow> i = 11" if "i < 32" for i
    using that z by (auto simp: acts_def bit_push_bit_iff bit_1_iff simp del: push_bit_of_1 One_nat_def)
  have n: "next_signal (?k\<lparr>tk_sig_pending := tk_sig_pending ?k OR push_bit 11 1\<rparr>) = Some 11"
    unfolding next_signal_def find_upt_Some NSIG_def using a by (auto simp del: push_bit_of_1 One_nat_def)
  have h: "sched_ok (sch (kern ex_swap)) 1 [2, 3] [4]" "children (sch (kern ex_swap)) 1 [2, 3]" "?k = task_at (kern ex_swap) 1"
    "err_code (four_registers\<lparr>err_code := 7\<rparr>) AND 1 \<noteq> 0"
    using four_tasks_ok four_tasks_children t by simp_all
  show ?thesis
    using present_fault_ends_task [OF h(1,2) one_neq_zero h(3) z(4,3) n h(4), of krust_malloc krust_free echo_disk 0] by blast
qed

definition region_swap :: "(kheap, u16 list) swap" where
  "region_swap = ex_swap\<lparr>kern := (kern ex_swap)\<lparr>
     sch := (upd 1 (tk_vma_list_update (\<lambda>_. 0x50)) four_tasks)\<lparr>cr3_reg := 0x1000\<rparr>,
     pg := ex_paging\<lparr>regions := (\<lambda>_. \<lparr>vm_start = 0, vm_end = 0x10000, vm_flags = 7, vm_next = 0\<rparr>)\<rparr>\<rparr>\<rparr>"

theorem absent_fault_maps_witness:
  "\<exists>f s'. krust_page_fault_handler krust_malloc krust_free echo_disk 0x2345 (four_registers\<lparr>err_code := 6\<rparr>) region_swap =
     Some (Returns, four_registers\<lparr>err_code := 6\<rparr>, s') \<and> f \<in> {7, 15} \<and> (\<forall>i < 512. memory s' (f * 4096 + 8 * i) = 0)"
proof -
  let ?s = region_swap and ?r = "four_registers\<lparr>err_code := 6\<rparr>"
  have f: "pg (kern ?s) = ex_paging\<lparr>regions := (\<lambda>_. \<lparr>vm_start = 0, vm_end = 0x10000, vm_flags = 7, vm_next = 0\<rparr>)\<rparr>"
    "cr3_reg (sch (kern ?s)) = 0x1000" "free_of ?s = {7, 15}" "memory ?s = ex_mem"
    using ex_free by (simp_all add: region_swap_def memory_def) (simp add: ex_paging_def)
  have c: "krust_sched_current (sch (kern ?s)) = Some 1" "tk_vma_list (task_at (kern ?s) 1) = 0x50"
    by (simp_all add: region_swap_def krust_sched_current_def get_current_def current_cpu_id_def four_tasks_def task_at_def upd_def)
  have h: "pg_ok 0x1000 (pg (kern ?s))" "0x1000 = unat (cr3_reg (sch (kern ?s)))" "err_code ?r AND 1 = 0"
    "pte (memory ?s) 0x1000 0x2345 = 0" "tk_vma_list (task_at (kern ?s) 1) \<noteq> 0"
    "krust_vmm_find (regions (pg (kern ?s))) (tk_vma_list (task_at (kern ?s) 1)) 0x2345 = Some 0x50" "(0x50 :: usize) \<noteq> 0"
    "7 = vm_flags (regions (pg (kern ?s)) 0x50)"
    "if err_code ?r AND 2 \<noteq> 0 then (7 :: u64) AND PROT_WRITE \<noteq> 0 else (7 :: u64) AND PROT_READ \<noteq> 0" "free_of ?s \<noteq> {}"
    using ex_ok c(2) f
    by (simp_all add: pg_ok_def pte_def ex_eval krust_vmm_find.simps PROT_WRITE_def PROT_READ_def del: ex_paging_def)
  show ?thesis
    using absent_fault_maps [OF h(1,2) c(1) h(3,4) refl h(5-), of krust_malloc krust_free echo_disk] unfolding f(3) by blast
qed

end
