(* ===== verification/Spec2Isabelle.thy ===== *)
theory Spec2Isabelle
  imports Spinlock Mm Klib Network Vfile Signals Fork Fault
begin

text \<open>
  Verification of the Elitra OS kernel: memory, files, tasks and network of the Rust kernel under
  \<open>src/kernel/src\<close>. Paths below are relative to that directory.

  \<^bold>\<open>The program.\<close> The kernel runs on one or more x86-64 processors. At the bottom are the frames of
  physical memory and the kernel heap. Page tables and the lists of memory regions make address spaces
  of them; the task table holds the tasks, each with an address space, descriptors and signals, and the
  scheduler gives the processor to one of them after the other. Page faults bring address spaces, tasks
  and the swap area together. The file system is a tree of nodes in the kernel heap, with pipes beside
  it. The network stack turns the frames of the card into datagrams and connections of sockets.

  \<^bold>\<open>How it is modelled.\<close> Each function of the source is a function on the state it works on, with the
  name it has in the source; structures are records with the fields of the source, enumerations are
  datatypes. Numbers have the width of the source (\<open>u8\<close> to \<open>u64\<close> are words, \<open>i32\<close> is a word read with
  its sign), but \<open>usize\<close> is a natural number, with the wrap-around at \<open>2 ^ 64\<close> written out where the code
  can reach it. The build is the release profile: arithmetic wraps, and an index out of range panics. A call
  that panics or never returns gives \<open>None\<close>. Linked lists are pointers into a store, as in the source; the
  lemmas relate them to lists, trees and maps. The spin lock makes the operations under it atomic, which
  \<open>Spinlock\<close> justifies; the other theories take one call after the other.

  Hardware is a parameter: what the network card does between two looks of the driver at it
  (\<open>hw\<close>), the ports of the disk controller (\<open>'d ports\<close>), what other tasks do while a task yields in a
  pipe, the functions of device nodes. What is relied on of them are named hypotheses
  (\<open>Network.card_ok\<close>, \<open>Swapping.drive_keeps\<close>), and a witness shows a hardware that meets them. The heap is a
  parameter of the code that calls it, with the contract \<open>allocator\<close>; the properties are about the kernel heap.

  \<^bold>\<open>Theories.\<close>

  \<^item> \<open>Kernel_Prelude\<close>: names of the machine integers, lemmas on bits, lists and wrap-around, and the
    contracts of the frame allocator (\<open>frame_allocator\<close>) and of the heap (\<open>allocator\<close>, \<open>steady_allocator\<close>).
  \<^item> \<open>Spinlock\<close> (\<open>util/spinlock.rs\<close>): processors that interleave at the accesses to the lock word;
    mutual exclusion in every reachable state.
  \<^item> \<open>Pmm\<close>, \<open>Cow\<close>, \<open>Mm\<close> (\<open>mm/pmm.rs\<close>, \<open>mm/cow.rs\<close>, \<open>mm/mm.rs\<close>): the bitmap of frames, the counts
    of sharers and the start of both. Along every run no frame is held twice or lost; the counts are ideal
    counters below saturation.
  \<^item> \<open>Kheap\<close> (\<open>mm/heap.rs\<close>): first fit with splitting and merging. Blocks are disjoint, large enough and keep
    their contents; null is returned only when nothing fits. It meets the contract of the prelude.
  \<^item> \<open>Vma\<close> (\<open>mm/vma.rs\<close>): regions as a partial map from addresses to flags; adding and removing ranges.
  \<^item> \<open>Paging\<close> (\<open>mm/paging.rs\<close>): walks, mapping with splitting of 2 MB pages, unmapping, sharing on fork,
    copying on write, cloning and freeing of address spaces. The invariant \<open>pg_ok\<close> says that the tables of an
    address space form a tree in frames that are not free.
  \<^item> \<open>Task\<close> (\<open>process/scheduler.rs\<close>, \<open>arch/x86_64/switch.asm\<close>): task table, queues, preemption, yielding,
    sleeping, signals. \<open>Sched\<close>, \<open>Signals\<close> and \<open>Family\<close> hold its properties: the queues refine lists, round
    robin, delivery of signals and the way back, task numbers, lists of children, exit.
  \<^item> \<open>Process\<close> and \<open>Fork\<close> (\<open>process/scheduler.rs\<close>): kernel threads, fork, clone, exit and waiting, the
    killing of a task for lack of memory; what a child has of its parent.
  \<^item> \<open>Ata\<close>, \<open>Swap\<close>, \<open>Swapping\<close> (\<open>drivers/storage/ata_pio.rs\<close>, \<open>mm/swap.rs\<close>): transfers of sectors, the slots
    of the swap area, pages written out and read in.
  \<^item> \<open>Fault\<close> (\<open>mm/paging.rs\<close>): the page fault handler over all of these.
  \<^item> \<open>Klib\<close> (\<open>util/klib.rs\<close>): string and memory routines on a byte memory, with their results as lists.
  \<^item> \<open>Pipe\<close> (\<open>fs/vfs.rs\<close>): ring buffers as queues, and the loops that wait for the other end.
  \<^item> \<open>Vnode\<close>, \<open>Vtree\<close>, \<open>Vfs\<close>, \<open>Vfile\<close> (\<open>fs/vfs.rs\<close>): nodes, paths and permissions; the tree as a finite map
    from paths to nodes; the operations as updates of the map; contents and descriptors.
  \<^item> \<open>Wire\<close>, \<open>Packets\<close>, \<open>Tcp\<close>, \<open>Dns\<close>, \<open>Dhcp\<close> (\<open>net/\<close>): encodings, the formats of packets with the
    round trips of building and parsing, the state machine of a connection, names and leases.
  \<^item> \<open>Socket\<close>, \<open>E1000\<close>, \<open>Netstack\<close>, \<open>Network\<close> (\<open>util/socket.rs\<close>, \<open>net/e1000.rs\<close>, \<open>net/mod.rs\<close>): socket
    buffers, the rings of the card, the stack with the socket calls and the processing of packets; address
    resolution, datagrams from the wire to a program, and what polling and requests for connections do.

  \<^bold>\<open>Interfaces.\<close> \<open>frame_allocator\<close> is interpreted by the bitmap (\<open>pmm_frames\<close>), \<open>allocator\<close> and
  \<open>steady_allocator\<close> by the heap (\<open>kernel_heap\<close>, \<open>kernel_blocks\<close>), \<open>fifo\<close> by the ring of a pipe (\<open>ring\<close>),
  \<open>fifo_queue\<close> by the ready queue (\<open>ready_queue\<close>). The other end of a pipe is \<open>only_readers\<close> or
  \<open>only_writers\<close>, interpreted by tasks that work through the pipe's own loops and by tasks that do nothing.

  \<^bold>\<open>Loops.\<close> A loop whose end the code does not show is a \<open>partial_function\<close>, and the properties state that it
  returns: the walks of linked lists end because the invariant makes the list finite; draining the card ends
  when the card has finitely many frames to deliver. Counted loops keep the number of the source: 50 rounds
  of address resolution, 200 of waiting for a name, five symbolic links, the retry limit of a pipe. There
  is no other fuel.

  \<^bold>\<open>What the properties show that was not meant.\<close> A write to a page shared by fork ends the task
  (\<open>Fault\<close>); writing out a shared page frees the frame of the others, and a page that comes back has lost
  its rights (\<open>Swapping\<close>); going to sleep loses the other sleepers (\<open>Sched\<close>); a task that a signal ended runs on
  (\<open>Signals\<close>); a request for a connection never returns, and polling skips what has arrived (\<open>Network\<close>).

  \<^bold>\<open>Not modelled.\<close> The system call dispatcher and the start of the kernel, which call the operations modelled
  here; the ext2, FAT32 and process file systems, the mount table and the ELF loader, which work on external
  formats; processor tables, interrupt entry, timers, firmware tables, buses and the other drivers, which
  touch hardware only; the user interface and the programs outside the kernel. Invalidation of the
  address cache, memory ordering and messages to the console are left out everywhere.
\<close>

end
